(* ===== verification/Jean_Prelude.thy ===== *)
theory Jean_Prelude
  imports Complex_Main "HOL-Library.Sublist" "HOL-Library.Char_ord" "HOL-Library.List_Lexorder"
    "HOL-Library.AList"
begin

text \<open>
  Shared vocabulary of the development: JavaScript strings, arrays, JSON values and
  insertion-ordered maps, with the generic lemmas the components share.

  A JavaScript string is a sequence of UTF-16 code units; it is a \<^typ>\<open>char list\<close> here, one
  \<open>char\<close> per code unit, so every length and every offset counts what the program counts. The few
  code units of the program's own literals that lie beyond 255 have a fixed stand-in in the
  unused C1 range (\<open>u_ellipsis\<close> and its kin below); none of them is white space or a line break.
\<close>

named_theorems js_simps \<open>equations of the JavaScript library functions\<close>

section \<open>Code units\<close>

definition u_lf :: char where "u_lf = CHR 0x0A"
definition u_cr :: char where "u_cr = CHR 0x0D"
definition u_tab :: char where "u_tab = CHR 0x09"
definition u_ellipsis :: char where "u_ellipsis = CHR 0x85"  \<comment> \<open>U+2026\<close>
definition u_emdash :: char where "u_emdash = CHR 0x97"      \<comment> \<open>U+2014\<close>
definition u_bar :: char where "u_bar = CHR 0x86"            \<comment> \<open>U+2502\<close>
definition u_neq :: char where "u_neq = CHR 0x87"            \<comment> \<open>U+2260\<close>
definition u_arrow :: char where "u_arrow = CHR 0x88"        \<comment> \<open>U+2192\<close>

lemmas code_units = u_lf_def u_cr_def u_tab_def u_ellipsis_def u_emdash_def u_bar_def u_neq_def
  u_arrow_def

text \<open>White space as \<open>String.prototype.trim\<close> and the class \<open>\\s\<close> of a regular expression see it.\<close>

definition is_ws :: "char \<Rightarrow> bool" where
  "is_ws c = (c \<in> {CHR 0x09, CHR 0x0A, CHR 0x0B, CHR 0x0C, CHR 0x0D, CHR 0x20, CHR 0xA0})"

definition is_digit :: "char \<Rightarrow> bool" where
  "is_digit c = (CHR ''0'' \<le> c \<and> c \<le> CHR ''9'')"

lemma is_ws_simps [simp]: "is_ws u_lf" "is_ws u_cr" "is_ws u_tab" "is_ws CHR '' ''"
  by (simp_all add: is_ws_def code_units)

section \<open>Strings\<close>

definition trim_start :: "string \<Rightarrow> string" where
  "trim_start s = dropWhile is_ws s"

definition trim_end :: "string \<Rightarrow> string" where
  "trim_end s = rev (dropWhile is_ws (rev s))"

definition trim :: "string \<Rightarrow> string" where
  "trim s = trim_end (trim_start s)"

text \<open>\<open>s.split(c)\<close> for a one-character separator: never empty, one more piece than separators.\<close>

fun split_on :: "char \<Rightarrow> string \<Rightarrow> string list" where
  "split_on c [] = [[]]"
| "split_on c (x # xs) =
     (if x = c then [] # split_on c xs
      else (case split_on c xs of [] \<Rightarrow> [[x]] | p # ps \<Rightarrow> (x # p) # ps))"

text \<open>\<open>parts.join(sep)\<close>.\<close>

fun join :: "string \<Rightarrow> string list \<Rightarrow> string" where
  "join sep [] = []"
| "join sep [p] = p"
| "join sep (p # ps) = p @ sep @ join sep ps"

abbreviation lines_of :: "string \<Rightarrow> string list" where
  "lines_of s \<equiv> split_on u_lf s"

abbreviation unlines :: "string list \<Rightarrow> string" where
  "unlines ls \<equiv> join [u_lf] ls"

text \<open>\<open>s.indexOf(p)\<close>, \<open>None\<close> for -1; and \<open>s.indexOf(p, from)\<close>.\<close>

fun index_of :: "string \<Rightarrow> string \<Rightarrow> nat option" where
  "index_of p [] = (if p = [] then Some 0 else None)"
| "index_of p (x # xs) = (if prefix p (x # xs) then Some 0 else map_option Suc (index_of p xs))"

definition index_from :: "string \<Rightarrow> string \<Rightarrow> nat \<Rightarrow> nat option" where
  "index_from p s from = map_option (\<lambda>i. from + i) (index_of p (drop from s))"

definition str_includes :: "string \<Rightarrow> string \<Rightarrow> bool" where
  "str_includes s p = (index_of p s \<noteq> None)"

definition starts_with :: "string \<Rightarrow> string \<Rightarrow> bool" where
  "starts_with s p = prefix p s"

definition ends_with :: "string \<Rightarrow> string \<Rightarrow> bool" where
  "ends_with s p = suffix p s"

text \<open>
  \<open>s.slice(a, b)\<close> for offsets that are not negative, and \<open>s.slice(-n)\<close>, which is the whole of \<open>s\<close>
  for \<open>n = 0\<close>.
\<close>

definition slice :: "nat \<Rightarrow> nat \<Rightarrow> 'a list \<Rightarrow> 'a list" where
  "slice a b s = take (b - a) (drop a s)"

definition slice_last :: "nat \<Rightarrow> 'a list \<Rightarrow> 'a list" where
  "slice_last n s = (if n = 0 then s else drop (length s - n) s)"

text \<open>
  \<open>s.replace(/p/g, r)\<close> for a pattern \<open>p\<close> that is a fixed non-empty string: leftmost occurrences
  that do not overlap.
\<close>

function replace_all :: "string \<Rightarrow> string \<Rightarrow> string \<Rightarrow> string" where
  "replace_all p r s =
     (if p = [] then s
      else case s of [] \<Rightarrow> []
        | c # cs \<Rightarrow> if prefix p s then r @ replace_all p r (drop (length p) s)
                   else c # replace_all p r cs)"
  by pat_completeness auto
termination
  by (relation "measure (\<lambda>(p, r, s). length s)") (auto simp: neq_Nil_conv)

declare replace_all.simps [simp del]

text \<open>\<open>line.replace(/\\s+/g, ' ')\<close>.\<close>

fun collapse_ws :: "string \<Rightarrow> string" where
  "collapse_ws [] = []"
| "collapse_ws (c # cs) =
     (if is_ws c
      then (case cs of [] \<Rightarrow> [CHR '' '']
            | d # ds \<Rightarrow> if is_ws d then collapse_ws (d # ds) else CHR '' '' # collapse_ws (d # ds))
      else c # collapse_ws cs)"

text \<open>Decimal notation, \<open>String(n)\<close> and \<open>Number(s)\<close> on digits.\<close>

definition digit_char :: "nat \<Rightarrow> char" where
  "digit_char n = char_of (48 + n)"

fun nat_str :: "nat \<Rightarrow> string" where
  "nat_str n = (if n < 10 then [digit_char n] else nat_str (n div 10) @ [digit_char (n mod 10)])"

declare nat_str.simps [simp del]

definition str_nat :: "string \<Rightarrow> nat" where
  "str_nat s = foldl (\<lambda>a c. 10 * a + (of_char c - 48)) 0 s"

definition to_lower :: "string \<Rightarrow> string" where
  "to_lower s = map (\<lambda>c. if CHR ''A'' \<le> c \<and> c \<le> CHR ''Z'' then char_of (of_char c + (32::nat)) else c) s"

subsection \<open>Laws\<close>

lemma split_on_not_Nil [simp]: "split_on c s \<noteq> []"
  by (induction s) (auto split: list.splits)

lemma length_split_on_pos [simp]: "0 < length (split_on c s)"
  by simp

lemma join_split_on [simp]: "join [c] (split_on c s) = s"
proof (induction s)
  case Nil
  then show ?case by simp
next
  case (Cons x xs)
  obtain p ps where ps: "split_on c xs = p # ps"
    by (meson neq_Nil_conv split_on_not_Nil)
  with Cons.IH have "join [c] (p # ps) = xs" by simp
  then show ?case using ps by (cases ps) auto
qed

lemma split_on_no_sep: "p \<in> set (split_on c s) \<Longrightarrow> c \<notin> set p"
  by (induction s arbitrary: p) (auto split: list.splits if_splits)

lemma split_on_fresh: "c \<notin> set s \<Longrightarrow> split_on c s = [s]"
  by (induction s) auto

lemma split_on_append_sep: "c \<notin> set p \<Longrightarrow> split_on c (p @ c # s) = p # split_on c s"
  by (induction p) auto

lemma split_on_join:
  "ps \<noteq> [] \<Longrightarrow> (\<And>p. p \<in> set ps \<Longrightarrow> c \<notin> set p) \<Longrightarrow> split_on c (join [c] ps) = ps"
proof (induction "[c]" ps rule: join.induct)
  case (3 p q ps)
  then show ?case by (simp add: split_on_append_sep)
qed (auto simp: split_on_fresh)

lemma join_append:
  "xs \<noteq> [] \<Longrightarrow> ys \<noteq> [] \<Longrightarrow> join sep (xs @ ys) = join sep xs @ sep @ join sep ys"
proof (induction sep xs rule: join.induct)
  case (2 sep p)
  then show ?case by (cases ys) auto
qed auto

lemma join_Cons: "ys \<noteq> [] \<Longrightarrow> join sep (x # ys) = x @ sep @ join sep ys"
  by (cases ys) auto

lemma index_of_Some_iff:
  "index_of p s = Some i \<longleftrightarrow>
     i \<le> length s \<and> prefix p (drop i s) \<and> (\<forall>j<i. \<not> prefix p (drop j s))"
proof (induction s arbitrary: i)
  case Nil
  then show ?case by auto
next
  case (Cons x xs)
  show ?case
    by (cases i) (auto simp: Cons.IH less_Suc_eq_0_disj)
qed

lemma index_of_SomeD:
  "index_of p s = Some i \<Longrightarrow> s = take i s @ p @ drop (i + length p) s"
  by (auto simp: index_of_Some_iff prefix_def) (metis append_eq_conv_conj append_take_drop_id
    drop_drop add.commute)

lemma index_of_bound: "index_of p s = Some i \<Longrightarrow> i + length p \<le> length s"
  by (auto simp: index_of_Some_iff prefix_def) (metis diff_diff_cancel le_add1 length_append
    length_drop add_le_mono1 le_add_diff_inverse2 add.commute)

lemma index_of_None_iff: "index_of p s = None \<longleftrightarrow> (\<forall>j\<le>length s. \<not> prefix p (drop j s))"
  by (induction s) (auto simp: less_Suc_eq_le [symmetric] All_less_Suc2)

lemma index_of_Nil [simp]: "index_of [] s = Some 0"
  by (cases s) auto

lemma slice_append: "a \<le> b \<Longrightarrow> b \<le> length s \<Longrightarrow> take a s @ slice a b s @ drop b s = s"
  by (simp add: slice_def)
     (metis append_take_drop_id drop_drop le_add_diff_inverse2)

lemma length_slice [simp]: "length (slice a b s) = min (b - a) (length s - a)"
  by (simp add: slice_def min.commute)

lemma dropWhile_rev_ws: "trim_end s = [] \<longleftrightarrow> list_all is_ws s"
  by (auto simp: trim_end_def dropWhile_eq_Nil_conv list_all_iff)

lemma trim_start_idem [simp]: "trim_start (trim_start s) = trim_start s"
  by (simp add: trim_start_def)

lemma trim_end_idem [simp]: "trim_end (trim_end s) = trim_end s"
  by (simp add: trim_end_def)

lemma trim_start_fix: "trim_start s = s \<longleftrightarrow> s = [] \<or> \<not> is_ws (hd s)"
proof (cases s)
  case (Cons c cs)
  have "length (dropWhile is_ws cs) < length (c # cs)"
    by (simp add: length_dropWhile_le le_imp_less_Suc)
  then have "dropWhile is_ws cs \<noteq> c # cs" by (metis less_irrefl)
  then show ?thesis by (simp add: Cons trim_start_def)
qed (simp add: trim_start_def)

lemma trim_end_split: "\<exists>w. s = trim_end s @ w \<and> list_all is_ws w"
proof -
  have "rev s = takeWhile is_ws (rev s) @ dropWhile is_ws (rev s)"
    by simp
  then have "s = rev (dropWhile is_ws (rev s)) @ rev (takeWhile is_ws (rev s))"
    by (metis rev_append rev_rev_ident)
  moreover have "list_all is_ws (rev (takeWhile is_ws (rev s)))"
    by (auto simp: list_all_iff dest: set_takeWhileD)
  ultimately show ?thesis unfolding trim_end_def by blast
qed

lemma trim_start_split: "\<exists>w. s = w @ trim_start s \<and> list_all is_ws w"
  by (rule exI [of _ "takeWhile is_ws s"])
     (auto simp: trim_start_def list_all_iff dest: set_takeWhileD)

lemma trim_end_prefix: "prefix (trim_end s) s"
  using trim_end_split [of s] by (metis prefixI)

lemma hd_trim_end: "trim_end s \<noteq> [] \<Longrightarrow> hd (trim_end s) = hd s"
  using trim_end_split [of s] by (metis hd_append2)

lemma trim_idem [simp]: "trim (trim s) = trim s"
proof -
  have "trim_start (trim s) = trim s"
  proof (cases "trim s = []")
    case False
    then have "hd (trim s) = hd (trim_start s)" and "trim_start s \<noteq> []"
      by (auto simp: trim_def hd_trim_end) (simp add: trim_end_def)
    then show ?thesis
      by (metis trim_start_fix trim_start_idem)
  qed (simp add: trim_start_def)
  then show ?thesis by (simp add: trim_def)
qed

lemma digit_char_val: "n < 10 \<Longrightarrow> (of_char (digit_char n) :: nat) - 48 = n"
  by (simp add: digit_char_def)

lemma str_nat_snoc: "str_nat (s @ [c]) = 10 * str_nat s + (of_char c - 48)"
  by (simp add: str_nat_def)

lemma str_nat_nat_str [simp]: "str_nat (nat_str n) = n"
proof (induction n rule: nat_str.induct)
  case (1 n)
  show ?case
  proof (cases "n < 10")
    case True
    then show ?thesis
      by (subst nat_str.simps) (simp add: str_nat_def digit_char_val)
  next
    case False
    with 1 show ?thesis
      by (subst nat_str.simps) (simp add: str_nat_snoc digit_char_val)
  qed
qed

lemma nat_str_inj [simp]: "nat_str m = nat_str n \<longleftrightarrow> m = n"
  by (metis str_nat_nat_str)

lemma nat_str_not_Nil [simp]: "nat_str n \<noteq> []"
  by (subst nat_str.simps) simp

section \<open>Insertion-ordered maps\<close>

text \<open>
  A JavaScript \<open>Map\<close> iterates in insertion order, and \<open>set\<close> on a present key keeps its place.
  The contract below is what the components rely on; its provider is the association list with
  the library's \<open>AList.update\<close> and \<open>AList.delete\<close>.
\<close>

locale js_store =
  fixes get :: "'m \<Rightarrow> 'k \<Rightarrow> 'v option"
    and put :: "'k \<Rightarrow> 'v \<Rightarrow> 'm \<Rightarrow> 'm"
    and del :: "'k \<Rightarrow> 'm \<Rightarrow> 'm"
    and keys :: "'m \<Rightarrow> 'k list"
    and ok :: "'m \<Rightarrow> bool"
  assumes get_put: "get (put k v m) = (get m)(k \<mapsto> v)"
    and get_del: "get (del k m) = (get m)(k := None)"
    and keys_get: "set (keys m) = dom (get m)"
    and keys_put: "keys (put k v m) = (if k \<in> set (keys m) then keys m else keys m @ [k])"
    and keys_del: "keys (del k m) = filter (\<lambda>x. x \<noteq> k) (keys m)"
    and ok_distinct: "ok m = distinct (keys m)"
begin

lemma ok_put: "ok m \<Longrightarrow> ok (put k v m)"
  by (simp add: ok_distinct keys_put)

lemma ok_del: "ok m \<Longrightarrow> ok (del k m)"
  by (simp add: ok_distinct keys_del)

lemma put_get_same [simp]: "get (put k v m) k = Some v"
  by (simp add: get_put)

lemma put_get_other [simp]: "k' \<noteq> k \<Longrightarrow> get (put k v m) k' = get m k'"
  by (simp add: get_put)

lemma touch_keys: "keys (put k v (del k m)) = filter (\<lambda>x. x \<noteq> k) (keys m) @ [k]"
  by (simp add: keys_put keys_del)

lemma touch_get: "get (put k v (del k m)) = (get m)(k \<mapsto> v)"
  by (simp add: get_put get_del)

lemma del_fresh_keys: "get m k = None \<Longrightarrow> keys (del k m) = keys m"
  by (metis (mono_tags, lifting) domIff filter_True keys_del keys_get)

lemma length_del_le: "length (keys (del k m)) \<le> length (keys m)"
  by (simp add: keys_del)

lemma length_put_le: "length (keys (put k v m)) \<le> Suc (length (keys m))"
  by (simp add: keys_put)

lemma fold_put_get:
  "get (fold (\<lambda>(k, v). put k v) kvs m) = get m ++ map_of (rev kvs)"
  by (induction kvs arbitrary: m) (auto simp: get_put map_add_def fun_eq_iff split: option.splits)

end

interpretation jm: js_store map_of AList.update AList.delete "map fst" "\<lambda>m. distinct (map fst m)"
proof unfold_locales
  show "map_of (AList.update k v m) = (map_of m)(k \<mapsto> v)" for k :: 'a and v :: 'b and m
    by (rule update_conv')
  show "map_of (AList.delete k m) = (map_of m)(k := None)" for k :: 'a and m :: "('a \<times> 'b) list"
    by (rule delete_conv')
  show "set (map fst m) = dom (map_of m)" for m :: "('a \<times> 'b) list"
    by (simp add: dom_map_of_conv_image_fst)
  show "map fst (AList.update k v m) =
      (if k \<in> set (map fst m) then map fst m else map fst m @ [k])" for k :: 'a and v :: 'b and m
    by (induction m) auto
  show "map fst (AList.delete k m) = filter (\<lambda>x. x \<noteq> k) (map fst m)"
    for k :: 'a and m :: "('a \<times> 'b) list"
    by (induction m) auto
qed simp

section \<open>JSON values\<close>

text \<open>
  What the program types as \<open>unknown\<close>: a parsed JSON value, or \<open>undefined\<close>. Numbers are the
  integers; object entries keep their insertion order.
\<close>

text \<open>
  Values as JSON writes them. A number is an integer or, \<open>JDec m k\<close> with \<open>0 < k\<close> and \<open>m\<close> not a multiple of
  ten, the decimal \<open>m / 10 ^ k\<close>.
\<close>

datatype json = JUndef | JNull | JBool bool | JNum int | JDec int nat | JStr string | JArr "json list"
  | JObj "(string \<times> json) list"

fun jget :: "json \<Rightarrow> string \<Rightarrow> json" where
  "jget (JObj kvs) k = (case map_of kvs k of None \<Rightarrow> JUndef | Some v \<Rightarrow> v)"
| "jget _ k = JUndef"

definition int_str :: "int \<Rightarrow> string" where
  "int_str i = (if i < 0 then CHR ''-'' # nat_str (nat (- i)) else nat_str (nat i))"

definition dec_str :: "int \<Rightarrow> nat \<Rightarrow> string" where
  "dec_str m k =
     (let n = nat \<bar>m\<bar>; frac = nat_str (n mod 10 ^ k)
      in (if m < 0 then ''-'' else []) @ nat_str (n div 10 ^ k) @ ''.'' @ replicate (k - length frac) CHR ''0'' @ frac)"

definition hex_digit :: "nat \<Rightarrow> char" where
  "hex_digit n = (if n < 10 then char_of (48 + n) else char_of (87 + n))"

definition json_escape :: "char \<Rightarrow> string" where
  "json_escape c =
     (if c = CHR 0x22 then [CHR 0x5C, CHR 0x22]
      else if c = CHR 0x5C then [CHR 0x5C, CHR 0x5C]
      else if c = CHR 0x08 then [CHR 0x5C, CHR ''b'']
      else if c = CHR 0x0C then [CHR 0x5C, CHR ''f'']
      else if c = CHR 0x0A then [CHR 0x5C, CHR ''n'']
      else if c = CHR 0x0D then [CHR 0x5C, CHR ''r'']
      else if c = CHR 0x09 then [CHR 0x5C, CHR ''t'']
      else if (of_char c :: nat) < 32
        then CHR 0x5C # ''u00'' @ [hex_digit (of_char c div 16), hex_digit (of_char c mod 16)]
      else [c])"

definition json_quote :: "string \<Rightarrow> string" where
  "json_quote s = CHR 0x22 # concat (map json_escape s) @ [CHR 0x22]"

text \<open>\<open>JSON.stringify\<close>: \<open>undefined\<close> entries of an object are left out, those of an array are \<open>null\<close>.\<close>

fun json_str :: "json \<Rightarrow> string" where
  "json_str JUndef = ''null''"
| "json_str JNull = ''null''"
| "json_str (JBool b) = (if b then ''true'' else ''false'')"
| "json_str (JNum i) = int_str i"
| "json_str (JDec m k) = dec_str m k"
| "json_str (JStr s) = json_quote s"
| "json_str (JArr xs) = ''['' @ join '','' (map json_str xs) @ '']''"
| "json_str (JObj kvs) =
     ''{'' @ join '',''
       (map (\<lambda>(k, v). json_quote k @ '':'' @ v)
         (map (\<lambda>(k, v). (k, json_str v)) (filter (\<lambda>(k, v). v \<noteq> JUndef) kvs))) @ ''}''"

text \<open>\<open>JSON.stringify(v, null, 2)\<close>.\<close>

definition json_block :: "string \<Rightarrow> string \<Rightarrow> nat \<Rightarrow> string list \<Rightarrow> string" where
  "json_block opening closing n items =
     (if items = [] then opening @ closing
      else opening @ [u_lf] @ join ('','' @ [u_lf]) (map (\<lambda>i. replicate (n + 2) CHR '' '' @ i) items)
             @ [u_lf] @ replicate n CHR '' '' @ closing)"

fun json_pretty :: "nat \<Rightarrow> json \<Rightarrow> string" where
  "json_pretty n (JArr vs) = json_block ''['' '']'' n (map (json_pretty (n + 2)) vs)"
| "json_pretty n (JObj kvs) =
     json_block ''{'' ''}'' n (map (\<lambda>(k, v). json_quote k @ '': '' @ v)
       (map (\<lambda>(k, v). (k, json_pretty (n + 2) v)) (filter (\<lambda>(k, v). v \<noteq> JUndef) kvs)))"
| "json_pretty n v = json_str v"

text \<open>\<open>value ?? fallback\<close> and JavaScript truth of a string option.\<close>

definition nullish :: "json \<Rightarrow> json \<Rightarrow> json" where
  "nullish v d = (if v = JUndef \<or> v = JNull then d else v)"

definition truthy :: "string option \<Rightarrow> bool" where
  "truthy s = (s \<noteq> None \<and> s \<noteq> Some [])"

section \<open>Arrays\<close>

text \<open>\<open>[...new Set(xs)]\<close>: first occurrences, in order.\<close>

fun dedupe_acc :: "'a list \<Rightarrow> 'a list \<Rightarrow> 'a list" where
  "dedupe_acc seen [] = []"
| "dedupe_acc seen (x # xs) =
     (if x \<in> set seen then dedupe_acc seen xs else x # dedupe_acc (seen @ [x]) xs)"

definition dedupe :: "'a list \<Rightarrow> 'a list" where
  "dedupe xs = dedupe_acc [] xs"

lemma dedupe_acc_set: "set (dedupe_acc seen xs) = set xs - set seen"
  by (induction xs arbitrary: seen) auto

lemma dedupe_acc_distinct: "distinct (dedupe_acc seen xs)"
  by (induction xs arbitrary: seen) (auto simp: dedupe_acc_set)

lemma set_dedupe [simp]: "set (dedupe xs) = set xs"
  by (simp add: dedupe_def dedupe_acc_set)

lemma distinct_dedupe [simp]: "distinct (dedupe xs)"
  by (simp add: dedupe_def dedupe_acc_distinct)

lemma dedupe_acc_append:
  "dedupe_acc seen (xs @ ys) = dedupe_acc seen xs @ dedupe_acc (seen @ dedupe_acc seen xs) ys"
  by (induction xs arbitrary: seen) auto

lemma dedupe_append: "dedupe (xs @ ys) = dedupe xs @ dedupe_acc (dedupe xs) ys"
  by (simp add: dedupe_def dedupe_acc_append)

text \<open>\<open>xs.find(p)\<close> and \<open>xs.findIndex(p)\<close>.\<close>

fun find_index :: "('a \<Rightarrow> bool) \<Rightarrow> 'a list \<Rightarrow> nat option" where
  "find_index p [] = None"
| "find_index p (x # xs) = (if p x then Some 0 else map_option Suc (find_index p xs))"

lemma find_index_Some_iff:
  "find_index p xs = Some i \<longleftrightarrow> i < length xs \<and> p (xs ! i) \<and> (\<forall>j<i. \<not> p (xs ! j))"
proof (induction xs arbitrary: i)
  case (Cons x xs)
  show ?case by (cases i) (auto simp: Cons.IH All_less_Suc2)
qed simp

lemma find_index_None_iff: "find_index p xs = None \<longleftrightarrow> (\<forall>x\<in>set xs. \<not> p x)"
  by (induction xs) auto

text \<open>Running a stateful step over a list, left to right.\<close>

fun run_list :: "('a \<Rightarrow> 's \<Rightarrow> 'b \<times> 's) \<Rightarrow> 'a list \<Rightarrow> 's \<Rightarrow> 'b list \<times> 's" where
  "run_list f [] s = ([], s)"
| "run_list f (x # xs) s =
     (let (y, s1) = f x s; (ys, s2) = run_list f xs s1 in (y # ys, s2))"

lemma length_run_list [simp]: "length (fst (run_list f xs s)) = length xs"
  by (induction xs arbitrary: s) (auto simp: split_def Let_def)

section \<open>Errors as values\<close>

text \<open>The rest of a computation after one that may throw.\<close>

definition or_throw :: "'e + 'a \<Rightarrow> ('a \<Rightarrow> 'e + 'b) \<Rightarrow> 'e + 'b" where
  "or_throw x f = (case x of Inl e \<Rightarrow> Inl e | Inr a \<Rightarrow> f a)"

lemma or_throw_simps [simp]: "or_throw (Inl e) f = Inl e" "or_throw (Inr a) f = f a"
  by (simp_all add: or_throw_def)

lemma or_throw_Inr [simp]: "or_throw x f = Inr b \<longleftrightarrow> (\<exists>a. x = Inr a \<and> f a = Inr b)"
  by (cases x) simp_all

lemma or_throw_Inl: "or_throw x f = Inl e \<longleftrightarrow> x = Inl e \<or> (\<exists>a. x = Inr a \<and> f a = Inl e)"
  by (cases x) simp_all

end
