(* ===== verification/EventStore.thy ===== *)
theory EventStore
  imports Jean_Prelude
begin

text \<open>
  The append-only event log of a session and its projection into the transcript a model is sent:
  \<open>packages/core/src/eventstore.ts\<close>, with the message shapes of \<open>packages/model/src/types.ts\<close>.
\<close>

section \<open>Messages\<close>

datatype role = System | User | Assistant | ToolRole

text \<open>
  \<open>ContentBlock\<close>. An absent optional field is \<open>None\<close>; \<open>isError\<close> is only ever read as a truth value,
  so absent and false are one value here.
\<close>

datatype content_block =
    Text string
  | Thinking string "string option" "string option" "(string \<times> string \<times> string) option"
  | ToolCall (call_id: string) (call_name: string) (call_input: json)
  | ToolResult (result_id: string) (result_name: string) string bool
  | Image string string

record message =
  m_role :: role
  m_content :: "content_block list"
  m_timestamp :: "nat option"

record usage =
  inputTokens :: nat
  outputTokens :: nat
  cacheReadTokens :: nat
  cacheWriteTokens :: nat

datatype level = Note | Concern | Blocker

definition level_str :: "level \<Rightarrow> string" where
  "level_str l = (case l of Note \<Rightarrow> ''note'' | Concern \<Rightarrow> ''concern'' | Blocker \<Rightarrow> ''blocker'')"

section \<open>Events\<close>

datatype jean_event =
    SessionStart nat string string string "string option"
      \<comment> \<open>at, cwd, mode, model, title\<close>
  | UserMessage nat string "(string \<times> string) list"
      \<comment> \<open>at, text, images as media type and data\<close>
  | AssistantMessage nat "content_block list" "usage option" "string option"
  | ToolCallE nat string string json
  | ToolResultE nat string string string bool "nat option" "string list"
      \<comment> \<open>at, id, name, output, isError, durationMs, touched\<close>
  | ThinkingE nat string
  | Compaction nat nat string nat nat
      \<comment> \<open>at, throughIndex, summary, tokensBefore, tokensAfter\<close>
  | ModeChange nat string string
  | AdvisorNote nat level string
  | Reminder nat string string
  | ErrorE nat string bool
  | SessionEnd nat string

fun is_compaction :: "jean_event \<Rightarrow> bool" where
  "is_compaction (Compaction _ _ _ _ _) = True"
| "is_compaction _ = False"

fun event_touched :: "jean_event \<Rightarrow> string list" where
  "event_touched (ToolResultE _ _ _ _ _ _ touched) = touched"
| "event_touched _ = []"

section \<open>The store\<close>

text \<open>
  Subscribers are handles in subscription order. \<open>append\<close> tells each of them about the event and
  swallows whatever a subscriber throws, so the log never depends on them: what is modelled of a
  notification is who is told what.
\<close>

record event_store =
  events :: "jean_event list"
  listeners :: "nat list"

definition new_store :: event_store where
  "new_store = \<lparr>events = [], listeners = []\<rparr>"

definition append :: "jean_event \<Rightarrow> event_store \<Rightarrow>
    nat \<times> (nat \<times> jean_event \<times> nat) list \<times> event_store" where
  "append e st =
     (let index = length (events st)
      in (index, map (\<lambda>l. (l, e, index)) (listeners st), st\<lparr>events := events st @ [e]\<rparr>))"

text \<open>The store after an append; the loop never reads the index.\<close>

definition appended :: "jean_event \<Rightarrow> event_store \<Rightarrow> event_store" where
  "appended e st = snd (snd (append e st))"

definition subscribe :: "nat \<Rightarrow> event_store \<Rightarrow> event_store" where
  "subscribe l st =
     (if l \<in> set (listeners st) then st else st\<lparr>listeners := listeners st @ [l]\<rparr>)"

definition unsubscribe :: "nat \<Rightarrow> event_store \<Rightarrow> event_store" where
  "unsubscribe l st = st\<lparr>listeners := filter (\<lambda>x. x \<noteq> l) (listeners st)\<rparr>"

definition event_at :: "nat \<Rightarrow> event_store \<Rightarrow> jean_event option" where
  "event_at i st = (if i < length (events st) then Some (events st ! i) else None)"

definition of_type :: "(jean_event \<Rightarrow> bool) \<Rightarrow> event_store \<Rightarrow> jean_event list" where
  "of_type is_type st = filter is_type (events st)"

text \<open>The scan from the newest event backwards: \<open>n\<close> is the number of events still to look at.\<close>

fun last_compaction_from :: "jean_event list \<Rightarrow> nat \<Rightarrow> (jean_event \<times> nat) option" where
  "last_compaction_from es 0 = None"
| "last_compaction_from es (Suc i) =
     (if is_compaction (es ! i) then Some (es ! i, i) else last_compaction_from es i)"

definition last_compaction :: "event_store \<Rightarrow> (jean_event \<times> nat) option" where
  "last_compaction st = last_compaction_from (events st) (length (events st))"

subsection \<open>The transcript\<close>

definition summary_message :: "jean_event \<Rightarrow> message list" where
  "summary_message e =
     (case e of
        Compaction ts _ summary _ _ \<Rightarrow>
          [\<lparr>m_role = User,
            m_content = [Text (''[Earlier conversation, summarized]'' @ [u_lf, u_lf] @ summary)],
            m_timestamp = Some ts\<rparr>]
      | _ \<Rightarrow> [])"

text \<open>The two variables of the projection loop: the messages so far and the buffered results.\<close>

type_synonym projection = "message list \<times> content_block list"

definition flush :: "projection \<Rightarrow> projection" where
  "flush p = (case p of (ms, pending) \<Rightarrow>
     if pending = [] then (ms, [])
     else (ms @ [\<lparr>m_role = ToolRole, m_content = pending, m_timestamp = None\<rparr>], []))"

definition push_message :: "role \<Rightarrow> content_block list \<Rightarrow> nat \<Rightarrow> projection \<Rightarrow> projection" where
  "push_message r content ts p =
     (case flush p of (ms, pending) \<Rightarrow>
        (ms @ [\<lparr>m_role = r, m_content = content, m_timestamp = Some ts\<rparr>], pending))"

definition advisor_text :: "level \<Rightarrow> string \<Rightarrow> string" where
  "advisor_text l text = ''[Advisor '' @ [u_emdash] @ '' '' @ level_str l @ ''] '' @ text"

definition reminder_text :: "string \<Rightarrow> string" where
  "reminder_text text = ''<system-reminder>'' @ [u_lf] @ text @ [u_lf] @ ''</system-reminder>''"

fun project :: "projection \<Rightarrow> jean_event \<Rightarrow> projection" where
  "project p (UserMessage ts text images) =
     push_message User (Text text # map (\<lambda>(mt, d). Image mt d) images) ts p"
| "project p (AssistantMessage ts content _ _) = push_message Assistant content ts p"
| "project (ms, pending) (ToolResultE _ cid name output isError _ _) =
     (ms, pending @ [ToolResult cid name output isError])"
| "project p (AdvisorNote ts l text) = push_message User [Text (advisor_text l text)] ts p"
| "project p (Reminder ts _ text) = push_message User [Text (reminder_text text)] ts p"
| "project p _ = p"

definition transcript :: "event_store \<Rightarrow> message list" where
  "transcript st =
     (let compaction = last_compaction st;
          start = (case compaction of None \<Rightarrow> 0 | Some (_, i) \<Rightarrow> i + 1);
          first = (case compaction of None \<Rightarrow> [] | Some (e, _) \<Rightarrow> summary_message e)
      in fst (flush (foldl project (first, []) (drop start (events st)))))"

subsection \<open>Files, usage, rewind, persistence\<close>

definition touched_files :: "event_store \<Rightarrow> string list" where
  "touched_files st = dedupe (concat (map event_touched (events st)))"

definition usage_add :: "usage \<Rightarrow> usage \<Rightarrow> usage" where
  "usage_add a b =
     \<lparr>inputTokens = inputTokens a + inputTokens b,
      outputTokens = outputTokens a + outputTokens b,
      cacheReadTokens = cacheReadTokens a + cacheReadTokens b,
      cacheWriteTokens = cacheWriteTokens a + cacheWriteTokens b\<rparr>"

definition no_usage :: usage where
  "no_usage = \<lparr>inputTokens = 0, outputTokens = 0, cacheReadTokens = 0, cacheWriteTokens = 0\<rparr>"

fun usage_step :: "usage \<times> nat \<Rightarrow> jean_event \<Rightarrow> usage \<times> nat" where
  "usage_step (u, turns) (AssistantMessage _ _ us _) =
     (usage_add u (case us of None \<Rightarrow> no_usage | Some x \<Rightarrow> x), turns + 1)"
| "usage_step acc _ = acc"

definition usage_of :: "event_store \<Rightarrow> usage \<times> nat" where
  "usage_of st = foldl usage_step (no_usage, 0) (events st)"

text \<open>\<open>rewind\<close> takes any number; an index outside the log leaves it as it is.\<close>

definition rewind :: "int \<Rightarrow> event_store \<Rightarrow> event_store" where
  "rewind index st =
     (if index < 0 \<or> index \<ge> int (length (events st)) then st
      else st\<lparr>events := take (nat index) (events st)\<rparr>)"

definition to_json :: "event_store \<Rightarrow> jean_event list" where
  "to_json st = events st"

definition from_json :: "jean_event list \<Rightarrow> event_store" where
  "from_json es = \<lparr>events = es, listeners = []\<rparr>"

section \<open>Laws of the projection\<close>

named_theorems store_simps \<open>what appending does to a store\<close>

lemma appended_events [store_simps]: "events (appended e st) = events st @ [e]"
  by (simp add: appended_def append_def Let_def)

lemma appended_listeners [store_simps]: "listeners (appended e st) = listeners st"
  by (simp add: appended_def append_def Let_def)

lemma append_index: "fst (append e st) = length (events st)"
  by (simp add: append_def Let_def)

definition is_tool :: "message \<Rightarrow> bool" where
  "is_tool m = (m_role m = ToolRole)"

text \<open>The results a list of messages carries, and those a list of events reports.\<close>

definition tool_blocks :: "message list \<Rightarrow> content_block list" where
  "tool_blocks ms = concat (map (\<lambda>m. if is_tool m then m_content m else []) ms)"

fun event_results :: "jean_event \<Rightarrow> content_block list" where
  "event_results (ToolResultE _ cid name output isError _ _) = [ToolResult cid name output isError]"
| "event_results _ = []"

text \<open>The events that put a message into the transcript, and with it flush the results.\<close>

fun is_barrier :: "jean_event \<Rightarrow> bool" where
  "is_barrier (UserMessage _ _ _) = True"
| "is_barrier (AssistantMessage _ _ _ _) = True"
| "is_barrier (AdvisorNote _ _ _) = True"
| "is_barrier (Reminder _ _ _) = True"
| "is_barrier _ = False"

fun barrier_message :: "jean_event \<Rightarrow> message" where
  "barrier_message (UserMessage ts text images) =
     \<lparr>m_role = User, m_content = Text text # map (\<lambda>(mt, d). Image mt d) images, m_timestamp = Some ts\<rparr>"
| "barrier_message (AssistantMessage ts content _ _) =
     \<lparr>m_role = Assistant, m_content = content, m_timestamp = Some ts\<rparr>"
| "barrier_message (AdvisorNote ts l text) =
     \<lparr>m_role = User, m_content = [Text (advisor_text l text)], m_timestamp = Some ts\<rparr>"
| "barrier_message (Reminder ts _ text) =
     \<lparr>m_role = User, m_content = [Text (reminder_text text)], m_timestamp = Some ts\<rparr>"
| "barrier_message _ = \<lparr>m_role = User, m_content = [], m_timestamp = None\<rparr>"

text \<open>One step of the projection in three cases: a message, a buffered result, nothing.\<close>

lemma project_cases:
  "project (ms, pending) e =
     (if is_barrier e then (fst (flush (ms, pending)) @ [barrier_message e], [])
      else (ms, pending @ event_results e))"
  by (cases e) (auto simp: push_message_def flush_def)

lemma barrier_not_tool [simp]: "is_barrier e \<Longrightarrow> \<not> is_tool (barrier_message e)"
  by (cases e) (auto simp: is_tool_def)

lemma barrier_no_results [simp]: "is_barrier e \<Longrightarrow> event_results e = []"
  by (cases e) auto

lemma tool_blocks_append [simp]: "tool_blocks (xs @ ys) = tool_blocks xs @ tool_blocks ys"
  by (simp add: tool_blocks_def)

lemma tool_blocks_single: "tool_blocks [m] = (if is_tool m then m_content m else [])"
  by (simp add: tool_blocks_def)

lemma tool_blocks_flush: "tool_blocks (fst (flush (ms, pending))) = tool_blocks ms @ pending"
  by (simp add: flush_def tool_blocks_single is_tool_def)

lemma snd_flush [simp]: "snd (flush p) = []"
  by (cases p) (simp add: flush_def)

lemma project_results:
  "foldl project (ms, pending) es = (ms', pending') \<Longrightarrow>
   tool_blocks ms' @ pending' = tool_blocks ms @ pending @ concat (map event_results es)"
proof (induction es arbitrary: ms pending)
  case (Cons e es)
  obtain ms1 p1 where step: "project (ms, pending) e = (ms1, p1)"
    by (cases "project (ms, pending) e")
  with Cons have "tool_blocks ms' @ pending' = tool_blocks ms1 @ p1 @ concat (map event_results es)"
    by simp
  moreover have "tool_blocks ms1 @ p1 = tool_blocks ms @ pending @ event_results e"
    using step by (auto simp: project_cases tool_blocks_flush tool_blocks_single split: if_splits)
  ultimately show ?case by (metis append.assoc concat.simps(2) list.simps(9))
qed simp

text \<open>
  Well-formed transcripts: a tool message is never empty, holds results only, and never follows
  another tool message.
\<close>

definition results_only :: "content_block list \<Rightarrow> bool" where
  "results_only bs = list_all (\<lambda>b. case b of ToolResult _ _ _ _ \<Rightarrow> True | _ \<Rightarrow> False) bs"

definition tool_message_ok :: "message \<Rightarrow> bool" where
  "tool_message_ok m = (is_tool m \<longrightarrow> m_content m \<noteq> [] \<and> results_only (m_content m))"

definition well_formed :: "message list \<Rightarrow> bool" where
  "well_formed ms = (list_all tool_message_ok ms \<and> successively (\<lambda>a b. \<not> (is_tool a \<and> is_tool b)) ms)"

definition projection_ok :: "projection \<Rightarrow> bool" where
  "projection_ok p = (case p of (ms, pending) \<Rightarrow>
     well_formed ms \<and> results_only pending \<and> (ms \<noteq> [] \<longrightarrow> \<not> is_tool (last ms)))"

lemma event_results_only [simp]: "results_only (event_results e)"
  by (cases e) (auto simp: results_only_def)

lemma results_only_append [simp]: "results_only (xs @ ys) = (results_only xs \<and> results_only ys)"
  by (simp add: results_only_def)

lemma results_only_Nil [simp]: "results_only []"
  by (simp add: results_only_def)

lemma well_formed_snoc:
  "well_formed (ms @ [m]) =
     (well_formed ms \<and> tool_message_ok m \<and> (ms \<noteq> [] \<longrightarrow> \<not> (is_tool (last ms) \<and> is_tool m)))"
  by (auto simp: well_formed_def successively_append_iff)

lemma tool_message_ok_nontool [simp]: "\<not> is_tool m \<Longrightarrow> tool_message_ok m"
  by (simp add: tool_message_ok_def)

lemma flush_ok: "projection_ok p \<Longrightarrow> well_formed (fst (flush p))"
  by (auto simp: projection_ok_def flush_def well_formed_snoc tool_message_ok_def is_tool_def
    split: prod.splits)

lemma project_ok: "projection_ok p \<Longrightarrow> projection_ok (project p e)"
proof -
  assume ok: "projection_ok p"
  obtain ms pending where p: "p = (ms, pending)" by (cases p)
  have "well_formed (fst (flush (ms, pending)))" using flush_ok [OF ok] p by simp
  with ok show ?thesis
    by (auto simp: p project_cases projection_ok_def well_formed_snoc)
qed

lemma fold_project_ok: "projection_ok p \<Longrightarrow> projection_ok (foldl project p es)"
  by (induction es arbitrary: p) (simp_all add: project_ok del: split_paired_All)

lemma summary_message_ok: "projection_ok (summary_message e, [])"
  by (cases e) (auto simp: summary_message_def projection_ok_def well_formed_def is_tool_def)

section \<open>Laws of the newest compaction\<close>

lemma last_compaction_from_None:
  "last_compaction_from es n = None \<longleftrightarrow> (\<forall>i<n. \<not> is_compaction (es ! i))"
  by (induction n) (auto simp: less_Suc_eq)

lemma last_compaction_from_Some:
  "last_compaction_from es n = Some (e, i) \<longleftrightarrow>
     i < n \<and> e = es ! i \<and> is_compaction e \<and> (\<forall>j. i < j \<and> j < n \<longrightarrow> \<not> is_compaction (es ! j))"
  by (induction n) (auto simp: less_Suc_eq)

lemma last_compaction_None:
  "list_all (\<lambda>e. \<not> is_compaction e) (events st) \<Longrightarrow> last_compaction st = None"
  by (simp add: last_compaction_def last_compaction_from_None list_all_length)

lemma last_compaction_split:
  assumes "events st = pre @ c # post" and "is_compaction c"
    and "list_all (\<lambda>e. \<not> is_compaction e) post"
  shows "last_compaction st = Some (c, length pre)"
proof -
  have "\<not> is_compaction (events st ! j)" if "length pre < j" "j < length (events st)" for j
    using that assms by (auto simp: list_all_length nth_append nth_Cons' split: if_splits)
  with assms show ?thesis
    by (simp add: last_compaction_def last_compaction_from_Some del: last_compaction_from.simps)
qed

lemma transcript_compacted:
  assumes "events st = pre @ c # post" and "is_compaction c"
    and "list_all (\<lambda>e. \<not> is_compaction e) post"
  shows "transcript st = fst (flush (foldl project (summary_message c, []) post))"
  using last_compaction_split [OF assms] assms(1) by (simp add: transcript_def Let_def)

lemma transcript_uncompacted:
  "list_all (\<lambda>e. \<not> is_compaction e) (events st) \<Longrightarrow>
   transcript st = fst (flush (foldl project ([], []) (events st)))"
  by (simp add: transcript_def last_compaction_None)

text \<open>Every log is in one of these two shapes.\<close>

lemma compaction_split:
  obtains (none) "list_all (\<lambda>e. \<not> is_compaction e) es"
  | (some) pre c post where "es = pre @ c # post" "is_compaction c"
      "list_all (\<lambda>e. \<not> is_compaction e) post"
proof (cases "list_all (\<lambda>e. \<not> is_compaction e) es")
  case False
  then have "\<exists>x\<in>set es. is_compaction x" by (auto simp: list_all_iff)
  then obtain pre c post where "es = pre @ c # post" "is_compaction c" "\<forall>x\<in>set post. \<not> is_compaction x"
    by (metis split_list_last_prop)
  then show ?thesis using some by (simp add: list_all_iff)
qed (rule none)

text \<open>The part of the log the transcript replays, and what it starts from.\<close>

definition live_events :: "event_store \<Rightarrow> jean_event list" where
  "live_events st =
     (case last_compaction st of None \<Rightarrow> events st | Some (_, i) \<Rightarrow> drop (i + 1) (events st))"

definition first_messages :: "event_store \<Rightarrow> message list" where
  "first_messages st =
     (case last_compaction st of None \<Rightarrow> [] | Some (e, _) \<Rightarrow> summary_message e)"

lemma transcript_eq:
  "transcript st = fst (flush (foldl project (first_messages st, []) (live_events st)))"
  by (simp add: transcript_def first_messages_def live_events_def Let_def split: option.splits)

lemma live_no_compaction: "list_all (\<lambda>e. \<not> is_compaction e) (live_events st)"
proof (cases "last_compaction st")
  case None
  then have "\<forall>i<length (events st). \<not> is_compaction (events st ! i)"
    by (simp add: last_compaction_def last_compaction_from_None)
  then show ?thesis by (simp add: live_events_def None list_all_length)
next
  case (Some ei)
  obtain c i where ei: "ei = (c, i)" by (cases ei)
  with Some have "\<forall>j. i < j \<and> j < length (events st) \<longrightarrow> \<not> is_compaction (events st ! j)"
    by (simp add: last_compaction_def last_compaction_from_Some)
  then show ?thesis by (simp add: live_events_def Some ei list_all_length)
qed

lemma last_compaction_appended:
  "\<not> is_compaction e \<Longrightarrow> last_compaction (appended e st) = last_compaction st"
proof -
  have "n \<le> length es \<Longrightarrow> last_compaction_from (es @ [e]) n = last_compaction_from es n" for n es
    by (induction n) (auto simp: nth_append)
  then show "\<not> is_compaction e \<Longrightarrow> last_compaction (appended e st) = last_compaction st"
    by (simp add: last_compaction_def store_simps nth_append)
qed

lemma live_events_appended:
  assumes "\<not> is_compaction e"
  shows "live_events (appended e st) = live_events st @ [e]"
    and "first_messages (appended e st) = first_messages st"
proof -
  have "i < length (events st)" if "last_compaction st = Some (c, i)" for c i
    using that by (simp add: last_compaction_def last_compaction_from_Some)
  then show "live_events (appended e st) = live_events st @ [e]"
    using last_compaction_appended [OF assms, of st]
    by (auto simp: live_events_def store_simps split: option.splits)
  show "first_messages (appended e st) = first_messages st"
    using last_compaction_appended [OF assms, of st] by (simp add: first_messages_def)
qed

lemma live_events_compaction:
  assumes "is_compaction e"
  shows "live_events (appended e st) = []" and "first_messages (appended e st) = summary_message e"
proof -
  have "last_compaction (appended e st) = Some (e, length (events st))"
    using assms by (intro last_compaction_split [where post = "[]"]) (auto simp: store_simps)
  then show "live_events (appended e st) = []" and "first_messages (appended e st) = summary_message e"
    by (simp_all add: live_events_def first_messages_def store_simps)
qed

lemma project_messages:
  "foldl project (ms, pending) es = (ms', pending') \<Longrightarrow>
   filter (\<lambda>m. \<not> is_tool m) ms'
     = filter (\<lambda>m. \<not> is_tool m) ms @ map barrier_message (filter is_barrier es)"
proof (induction es arbitrary: ms pending)
  case (Cons e es)
  obtain ms1 p1 where step: "project (ms, pending) e = (ms1, p1)"
    by (cases "project (ms, pending) e")
  with Cons have "filter (\<lambda>m. \<not> is_tool m) ms'
      = filter (\<lambda>m. \<not> is_tool m) ms1 @ map barrier_message (filter is_barrier es)" by simp
  moreover have "filter (\<lambda>m. \<not> is_tool m) ms1
      = filter (\<lambda>m. \<not> is_tool m) ms @ (if is_barrier e then [barrier_message e] else [])"
    using step by (auto simp: project_cases flush_def is_tool_def barrier_not_tool [unfolded is_tool_def]
      split: if_splits)
  ultimately show ?case by simp
qed simp

lemma flush_messages: "filter (\<lambda>m. \<not> is_tool m) (fst (flush p)) = filter (\<lambda>m. \<not> is_tool m) (fst p)"
  by (cases p) (simp add: flush_def is_tool_def)

lemma first_messages_not_tool: "filter (\<lambda>m. \<not> is_tool m) (first_messages st) = first_messages st"
  "tool_blocks (first_messages st) = []" "projection_ok (first_messages st, [])"
proof -
  have "filter (\<lambda>m. \<not> is_tool m) (summary_message e) = summary_message e" "tool_blocks (summary_message e) = []" for e
    by (auto simp: summary_message_def is_tool_def tool_blocks_def split: jean_event.splits)
  then show "filter (\<lambda>m. \<not> is_tool m) (first_messages st) = first_messages st"
    "tool_blocks (first_messages st) = []"
    by (auto simp: first_messages_def tool_blocks_def split: option.splits)
  show "projection_ok (first_messages st, [])"
    by (auto simp: first_messages_def summary_message_ok projection_ok_def [of "([], [])"] well_formed_def
      split: option.splits)
qed

section \<open>Correctness\<close>

text \<open>
  C21. The transcript is exactly what the log after the newest compaction says: its tool messages
  carry the reported results, all of them and in order, its other messages are the summary and the
  messages of the conversational events in order, and it has the shape a provider accepts: tool
  messages are never empty, hold results only and are never split in two.
\<close>

theorem transcript_sound:
  "well_formed (transcript st)
   \<and> tool_blocks (transcript st) = concat (map event_results (live_events st))
   \<and> filter (\<lambda>m. \<not> is_tool m) (transcript st)
       = first_messages st @ map barrier_message (filter is_barrier (live_events st))"
proof -
  obtain ms pending where p: "foldl project (first_messages st, []) (live_events st) = (ms, pending)"
    by (cases "foldl project (first_messages st, []) (live_events st)")
  have "projection_ok (ms, pending)"
    using fold_project_ok [OF first_messages_not_tool(3), of st "live_events st"] p by simp
  then show ?thesis
    using project_results [OF p] project_messages [OF p]
    by (simp add: transcript_eq p flush_ok tool_blocks_flush flush_messages first_messages_not_tool)
qed

text \<open>
  C22. Rewinding to the length the log had undoes whatever was appended since, transcript and
  all, and a compaction makes the transcript independent of every earlier event.
\<close>

theorem rewind_undoes_appends:
  "rewind (int (length (events st))) (fold appended es st) = st
   \<and> (is_compaction c \<longrightarrow> transcript (from_json (pre @ c # post)) = transcript (from_json (c # post)))"
proof (intro conjI impI)
  have ev: "events (fold appended es st) = events st @ es"
    "listeners (fold appended es st) = listeners st" for es
    by (induction es arbitrary: st) (simp_all add: store_simps)
  then show "rewind (int (length (events st))) (fold appended es st) = st"
    by (auto simp: rewind_def intro!: event_store.equality)
next
  assume c: "is_compaction c"
  show "transcript (from_json (pre @ c # post)) = transcript (from_json (c # post))"
  proof (cases rule: compaction_split [of post])
    case none
    from transcript_compacted [of "from_json (pre @ c # post)" pre c post]
      transcript_compacted [of "from_json (c # post)" "[]" c post] c none
    show ?thesis by (simp add: from_json_def)
  next
    case (some pre' d post')
    from transcript_compacted [of "from_json (pre @ c # post)" "pre @ c # pre'" d post']
      transcript_compacted [of "from_json (c # post)" "c # pre'" d post'] some
    show ?thesis by (simp add: from_json_def)
  qed
qed

theorem rewind_undoes_appends_witness:
  "transcript (from_json [UserMessage 1 ''a'' [], Compaction 2 1 ''s'' 9 1, UserMessage 3 ''b'' []])
    = transcript (from_json [Compaction 2 1 ''s'' 9 1, UserMessage 3 ''b'' []])"
  using rewind_undoes_appends [of new_store "[]" "Compaction 2 1 ''s'' 9 1" "[UserMessage 1 ''a'' []]"
    "[UserMessage 3 ''b'' []]"] by simp

lemma usage_fold:
  "foldl usage_step (u, n) es = (u', n') \<Longrightarrow>
   n' = n + length (filter (\<lambda>e. case e of AssistantMessage _ _ _ _ \<Rightarrow> True | _ \<Rightarrow> False) es)
   \<and> inputTokens u' = inputTokens u + (\<Sum>e\<leftarrow>es. case e of AssistantMessage _ _ (Some x) _ \<Rightarrow> inputTokens x | _ \<Rightarrow> 0)
   \<and> outputTokens u' = outputTokens u + (\<Sum>e\<leftarrow>es. case e of AssistantMessage _ _ (Some x) _ \<Rightarrow> outputTokens x | _ \<Rightarrow> 0)"
proof (induction es arbitrary: u n)
  case (Cons e es)
  obtain u1 n1 where step: "usage_step (u, n) e = (u1, n1)" by (cases "usage_step (u, n) e")
  from Cons.IH [of u1 n1] Cons.prems step show ?case
    by (cases e) (auto simp: usage_add_def no_usage_def split: option.splits)
qed simp

text \<open>
  The session's accounts: the touched files are listed once each and in first-touch order, so
  that a new event only ever adds to the end of the list, and the reported turns and tokens are
  the count of assistant messages and the sums of what these reported.
\<close>

theorem session_accounts:
  "distinct (touched_files st)
   \<and> set (touched_files st) = (\<Union>e\<in>set (events st). set (event_touched e))
   \<and> prefix (touched_files st) (touched_files (appended e st))
   \<and> snd (usage_of st)
       = length (filter (\<lambda>e. case e of AssistantMessage _ _ _ _ \<Rightarrow> True | _ \<Rightarrow> False) (events st))
   \<and> inputTokens (fst (usage_of st))
       = (\<Sum>e\<leftarrow>events st. case e of AssistantMessage _ _ (Some u) _ \<Rightarrow> inputTokens u | _ \<Rightarrow> 0)
   \<and> outputTokens (fst (usage_of st))
       = (\<Sum>e\<leftarrow>events st. case e of AssistantMessage _ _ (Some u) _ \<Rightarrow> outputTokens u | _ \<Rightarrow> 0)"
proof -
  obtain u n where u: "usage_of st = (u, n)" by (cases "usage_of st")
  have "prefix (touched_files st) (touched_files (appended e st))"
    by (simp add: touched_files_def store_simps dedupe_append)
  then show ?thesis
    using usage_fold [of no_usage 0 "events st" u n] u
    by (simp add: touched_files_def usage_of_def no_usage_def)
qed

end
