(* ===== verification/Context.thy ===== *)
theory Context
  imports EventStore
begin

text \<open>
  The context window: \<open>packages/core/src/context.ts\<close>, with \<open>estimateTokens\<close> of
  \<open>packages/model/src/catalog.ts\<close> and \<open>splitModelRef\<close> of \<open>packages/config/src/parser.ts\<close>. The model
  catalog and the native token counter are arguments. Ratios are rationals: the program's doubles
  agree with them on every comparison with an integer these definitions make, because a quotient
  or product that is an integer is computed exactly.
\<close>

section \<open>Token estimates\<close>

text \<open>\<open>Math.ceil(text.length / 3.6)\<close>, that is ten thirty-sixths of the length, rounded up.\<close>

definition estimate_tokens :: "string \<Rightarrow> nat" where
  "estimate_tokens text = (10 * length text + 35) div 36"

fun block_tokens :: "content_block \<Rightarrow> nat" where
  "block_tokens (Text t) = estimate_tokens t"
| "block_tokens (Thinking t _ _ _) = estimate_tokens t"
| "block_tokens (ToolCall _ name input) =
     estimate_tokens name + estimate_tokens (json_str (nullish input (JObj [])))"
| "block_tokens (ToolResult _ _ output _) = estimate_tokens output"
| "block_tokens (Image _ _) = 1500"

definition message_tokens :: "message \<Rightarrow> nat" where
  "message_tokens m = foldl (\<lambda>total b. total + block_tokens b) 4 (m_content m)"

section \<open>Measuring the window\<close>

definition split_model_ref :: "string \<Rightarrow> string option \<times> string" where
  "split_model_ref ref =
     (case index_of '':'' ref of
        None \<Rightarrow> (None, ref)
      | Some colon \<Rightarrow>
          if colon > 0 \<and> (case index_of ''/'' ref of None \<Rightarrow> True | Some slash \<Rightarrow> colon < slash)
          then (Some (slice 0 colon ref), drop (colon + 1) ref) else (None, ref))"

type_synonym catalog = "string \<Rightarrow> string option \<Rightarrow> nat"

definition window_of :: "catalog \<Rightarrow> string \<Rightarrow> nat" where
  "window_of context_window ref =
     (case split_model_ref ref of (provider, model_id) \<Rightarrow> context_window model_id provider)"

text \<open>\<open>ratio\<close> is \<open>None\<close> where the program divides by zero (a catalog window of 0 or 1).\<close>

record context_status =
  used :: nat
  limit :: nat
  ratio :: "rat option"
  remaining :: nat
  should_compact :: bool

definition usable_window :: "nat \<Rightarrow> nat \<Rightarrow> nat" where
  "usable_window wnd max_output = nat (max (int wnd - int max_output) (int (wnd div 2)))"

definition status_of :: "nat \<Rightarrow> nat \<Rightarrow> nat \<Rightarrow> rat \<Rightarrow> context_status" where
  "status_of wnd u max_output threshold =
     (let usable = usable_window wnd max_output;
          r = (if usable = 0 then None else Some (of_nat u / of_nat usable))
      in \<lparr>used = u, limit = wnd, ratio = r, remaining = usable - u,
          should_compact = (case r of None \<Rightarrow> u > 0 | Some q \<Rightarrow> q \<ge> threshold)\<rparr>)"

definition measure_context ::
  "catalog \<Rightarrow> message list \<Rightarrow> string \<Rightarrow> string \<Rightarrow> rat \<Rightarrow> nat \<Rightarrow> context_status" where
  "measure_context cw messages system_prompt model_id threshold max_output =
     (let wnd = window_of cw model_id;
          u = estimate_tokens system_prompt + foldl (\<lambda>sum m. sum + message_tokens m) 0 messages
      in status_of wnd u max_output threshold)"

text \<open>
  The exact count: the texts are gathered in order and handed to the native counter in one call.
  \<open>native\<close> is \<open>None\<close> when the bridge is not built, and a call that throws is \<open>Some None\<close> of it.
\<close>

fun block_texts :: "content_block \<Rightarrow> string list" where
  "block_texts (Text t) = [t]"
| "block_texts (Thinking t _ _ _) = [t]"
| "block_texts (ToolCall _ name input) = [name, json_str (nullish input (JObj []))]"
| "block_texts (ToolResult _ _ output _) = [output]"
| "block_texts (Image _ _) = []"

fun block_fixed :: "content_block \<Rightarrow> nat" where
  "block_fixed (Image _ _) = 1500"
| "block_fixed _ = 0"

definition measure_context_exact ::
  "(string list \<Rightarrow> nat list option) option \<Rightarrow> catalog \<Rightarrow> message list \<Rightarrow> string \<Rightarrow> string \<Rightarrow>
     rat \<Rightarrow> nat \<Rightarrow> context_status" where
  "measure_context_exact native cw messages system_prompt model_id threshold max_output =
     (let estimate = measure_context cw messages system_prompt model_id threshold max_output;
          texts = system_prompt # concat (map (\<lambda>m. concat (map block_texts (m_content m))) messages);
          fixed = sum_list (map (\<lambda>m. 4 + sum_list (map block_fixed (m_content m))) messages)
      in case native of
           None \<Rightarrow> estimate
         | Some count \<Rightarrow>
             (case count texts of
                None \<Rightarrow> estimate
              | Some counts \<Rightarrow>
                  status_of (window_of cw model_id) (fixed + sum_list counts) max_output threshold))"

section \<open>Trimming tool results\<close>

definition omitted_note :: "nat \<Rightarrow> string" where
  "omitted_note n = [u_lf, u_lf] @ ''[... '' @ nat_str n @ '' characters omitted ...]'' @ [u_lf, u_lf]"

definition trim_output :: "nat \<Rightarrow> string \<Rightarrow> string" where
  "trim_output max_chars output =
     (let head = max_chars * 6 div 10; tail = max_chars - head
      in slice 0 head output @ omitted_note (length output - max_chars) @ slice_last tail output)"

fun trim_block :: "nat \<Rightarrow> content_block \<Rightarrow> content_block" where
  "trim_block max_chars (ToolResult i name output e) =
     (if length output \<le> max_chars then ToolResult i name output e
      else ToolResult i name (trim_output max_chars output) e)"
| "trim_block max_chars b = b"

definition trim_tool_results :: "nat \<Rightarrow> message list \<Rightarrow> message list" where
  "trim_tool_results max_chars messages =
     map (\<lambda>m. if m_role m \<noteq> ToolRole then m
              else m\<lparr>m_content := map (trim_block max_chars) (m_content m)\<rparr>) messages"

section \<open>Splitting for compaction\<close>

text \<open>The backward scan: \<open>i\<close> messages are still to look at.\<close>

fun keep_scan :: "message list \<Rightarrow> rat \<Rightarrow> nat \<Rightarrow> nat \<Rightarrow> nat option" where
  "keep_scan messages target 0 kept = None"
| "keep_scan messages target (Suc i) kept =
     (let kept' = kept + message_tokens (messages ! i)
      in if of_nat kept' \<ge> target then Some i else keep_scan messages target i kept')"

text \<open>Do not orphan tool results: step over them.\<close>

function skip_tools :: "message list \<Rightarrow> nat \<Rightarrow> nat" where
  "skip_tools messages i =
     (if i < length messages \<and> m_role (messages ! i) = ToolRole
      then skip_tools messages (Suc i) else i)"
  by pat_completeness auto
termination
  by (relation "measure (\<lambda>(ms, i). length ms - i)") auto

declare skip_tools.simps [simp del]

definition split_index :: "message list \<Rightarrow> rat \<Rightarrow> nat" where
  "split_index messages keep_ratio =
     (let total = foldl (\<lambda>sum m. sum + message_tokens m) 0 messages;
          target = of_nat total * keep_ratio;
          at0 = (case keep_scan messages target (length messages) 0 of
                   None \<Rightarrow> length messages | Some i \<Rightarrow> i);
          at1 = skip_tools messages at0
      in min at1 (length messages - 2))"

definition split_for_compaction :: "message list \<Rightarrow> rat \<Rightarrow> message list \<times> message list" where
  "split_for_compaction messages keep_ratio =
     (if length messages \<le> 4 then ([], messages)
      else (let n = split_index messages keep_ratio in (take n messages, drop n messages)))"

section \<open>Rendering\<close>

definition clamp_more :: "string \<Rightarrow> nat \<Rightarrow> string" where
  "clamp_more text mx =
     (if length text \<le> mx then text
      else slice 0 mx text @ [u_ellipsis] @ '' ['' @ nat_str (length text - mx) @ '' more chars]'')"

definition role_upper :: "role \<Rightarrow> string" where
  "role_upper r = (case r of System \<Rightarrow> ''SYSTEM'' | User \<Rightarrow> ''USER'' | Assistant \<Rightarrow> ''ASSISTANT''
     | ToolRole \<Rightarrow> ''TOOL'')"

fun render_block :: "role \<Rightarrow> nat \<Rightarrow> content_block \<Rightarrow> string list" where
  "render_block r mx (Text t) = [role_upper r @ '': '' @ clamp_more t mx]"
| "render_block r mx (ToolCall _ name input) =
     [''TOOL CALL '' @ name @ ''('' @ clamp_more (json_str (nullish input (JObj []))) 400 @ '')'']"
| "render_block r mx (ToolResult _ name output err) =
     [''TOOL RESULT '' @ name @ (if err then '' [error]'' else []) @ '': '' @ clamp_more output mx]"
| "render_block r mx _ = []"

definition render_transcript :: "message list \<Rightarrow> nat \<Rightarrow> string" where
  "render_transcript messages mx =
     join [u_lf, u_lf] (concat (map (\<lambda>m. concat (map (render_block (m_role m) mx) (m_content m))) messages))"

section \<open>Laws\<close>

lemma estimate_tokens_mono: "length s \<le> length t \<Longrightarrow> estimate_tokens s \<le> estimate_tokens t"
  by (simp add: estimate_tokens_def div_le_mono)

lemma estimate_tokens_Nil [simp]: "estimate_tokens [] = 0"
  by (simp add: estimate_tokens_def)

lemma message_tokens_eq: "message_tokens m = 4 + sum_list (map block_tokens (m_content m))"
proof -
  have "foldl (\<lambda>total b. total + block_tokens b) n bs = n + sum_list (map block_tokens bs)" for n bs
    by (induction bs arbitrary: n) auto
  then show ?thesis by (simp add: message_tokens_def)
qed

lemma keep_scan_less: "keep_scan ms t i kept = Some j \<Longrightarrow> j < i"
  by (induction i arbitrary: kept) (auto simp: Let_def split: if_splits intro: less_SucI)

lemma skip_tools_bounds: "i \<le> length ms \<Longrightarrow> i \<le> skip_tools ms i \<and> skip_tools ms i \<le> length ms"
proof (induction ms i rule: skip_tools.induct)
  case (1 ms i)
  then show ?case by (subst (1 2) skip_tools.simps) auto
qed

lemma skip_tools_stop:
  "skip_tools ms i < length ms \<Longrightarrow> m_role (ms ! skip_tools ms i) \<noteq> ToolRole"
proof (induction ms i rule: skip_tools.induct)
  case (1 ms i)
  show ?case
  proof (cases "i < length ms \<and> m_role (ms ! i) = ToolRole")
    case True
    with 1 show ?thesis by (simp add: skip_tools.simps [of ms i])
  next
    case False
    with "1.prems" show ?thesis by (auto simp: skip_tools.simps [of ms i])
  qed
qed

text \<open>Between the start and the stop of the step there are only tool messages.\<close>

lemma skip_tools_between:
  "i \<le> j \<Longrightarrow> j < skip_tools ms i \<Longrightarrow> m_role (ms ! j) = ToolRole"
proof (induction ms i rule: skip_tools.induct)
  case (1 ms i)
  show ?case
  proof (cases "i < length ms \<and> m_role (ms ! i) = ToolRole")
    case True
    with 1 show ?thesis
      by (cases "j = i") (auto simp: skip_tools.simps [of ms i])
  next
    case False
    with "1.prems" show ?thesis by (auto simp: skip_tools.simps [of ms i])
  qed
qed

lemma split_index_le: "split_index ms r \<le> length ms - 2"
  by (simp add: split_index_def Let_def)

lemma trim_block_kind: "(case trim_block n b of ToolResult _ _ _ _ \<Rightarrow> True | _ \<Rightarrow> False)
    = (case b of ToolResult _ _ _ _ \<Rightarrow> True | _ \<Rightarrow> False)"
  by (cases b) auto

lemma trim_role [simp]: "map m_role (trim_tool_results n ms) = map m_role ms"
  by (simp add: trim_tool_results_def)

lemma split_index_tool:
  assumes "2 \<le> length ms" and "m_role (ms ! split_index ms r) = ToolRole"
  shows "split_index ms r = length ms - 2"
proof -
  let ?t = "of_nat (foldl (\<lambda>sum m. sum + message_tokens m) 0 ms) * r"
  let ?a = "case keep_scan ms ?t (length ms) 0 of None \<Rightarrow> length ms | Some i \<Rightarrow> i"
  have eq: "split_index ms r = min (skip_tools ms ?a) (length ms - 2)"
    by (simp add: split_index_def Let_def)
  show ?thesis
  proof (rule ccontr)
    assume "split_index ms r \<noteq> length ms - 2"
    with eq have e: "split_index ms r = skip_tools ms ?a" and "skip_tools ms ?a < length ms - 2" by auto
    then have "skip_tools ms ?a < length ms" using assms(1) by linarith
    from skip_tools_stop [OF this] e assms(2) show False by simp
  qed
qed

lemma length_trim_output:
  assumes "mx < length s"
  shows "length (trim_output mx s) = (if mx = 0 then length s else mx)
    + length (omitted_note (length s - mx))"
proof -
  have h: "mx * 6 div 10 \<le> mx" by linarith
  have t: "mx - mx * 6 div 10 = 0 \<longleftrightarrow> mx = 0" by linarith
  show ?thesis using assms h by (auto simp: trim_output_def Let_def slice_last_def t)
qed

section \<open>Correctness\<close>

text \<open>
  Where the kept part has to begin: at the last message from which the messages weigh at least the given share of the
  whole transcript, or behind the last message when none does.
\<close>

definition weight :: "message list \<Rightarrow> nat" where
  "weight ms = sum_list (map message_tokens ms)"

definition budget_point :: "message list \<Rightarrow> rat \<Rightarrow> nat \<Rightarrow> bool" where
  "budget_point ms share b =
     ((b = length ms \<or> b < length ms \<and> of_nat (weight (drop b ms)) \<ge> of_nat (weight ms) * share)
        \<and> (\<forall>j. b < j \<and> j < length ms \<longrightarrow> of_nat (weight (drop j ms)) < of_nat (weight ms) * share)
        \<and> (b = length ms \<longrightarrow> (\<forall>j<length ms. of_nat (weight (drop j ms)) < of_nat (weight ms) * share)))"

lemma weight_fold: "foldl (\<lambda>sum m. sum + message_tokens m) n ms = n + weight ms"
  by (induction ms arbitrary: n) (auto simp: weight_def)

lemma weight_drop: "i < length ms \<Longrightarrow> weight (drop i ms) = message_tokens (ms ! i) + weight (drop (Suc i) ms)"
  by (simp add: weight_def flip: Cons_nth_drop_Suc)

lemma keep_scan_point:
  assumes "i \<le> length ms" "kept = weight (drop i ms)" "target = of_nat (weight ms) * share"
    and "\<forall>j. i \<le> j \<and> j < length ms \<longrightarrow> of_nat (weight (drop j ms)) < target"
  shows "budget_point ms share (case keep_scan ms target i kept of None \<Rightarrow> length ms | Some i \<Rightarrow> i)"
  using assms
proof (induction i arbitrary: kept)
  case (Suc i)
  have kept: "kept + message_tokens (ms ! i) = weight (drop i ms)"
    using Suc.prems(1,2) by (simp add: weight_drop)
  show ?case
  proof (cases "of_nat (weight (drop i ms)) \<ge> target")
    case True
    then have "keep_scan ms target (Suc i) kept = Some i"
      by (simp add: kept Let_def)
    then show ?thesis
      using Suc.prems True by (simp add: budget_point_def Suc_le_eq)
  next
    case False
    have "\<forall>j. i \<le> j \<and> j < length ms \<longrightarrow> of_nat (weight (drop j ms)) < target"
      using Suc.prems(4) False by (metis le_antisym not_less not_less_eq_eq)
    moreover have "keep_scan ms target (Suc i) kept = keep_scan ms target i (weight (drop i ms))"
      using False by (simp add: kept Let_def)
    ultimately show ?thesis
      using Suc.IH [of "weight (drop i ms)"] Suc.prems(1,3) by simp
  qed
qed (auto simp: budget_point_def)

lemma split_index_point:
  assumes "2 \<le> length ms"
  shows "\<exists>b. budget_point ms r b \<and> (b \<le> split_index ms r \<or> split_index ms r = length ms - 2)
    \<and> (\<forall>j. b \<le> j \<and> j < split_index ms r \<longrightarrow> is_tool (ms ! j))"
proof -
  let ?t = "of_nat (weight ms) * r"
  let ?b = "case keep_scan ms ?t (length ms) 0 of None \<Rightarrow> length ms | Some i \<Rightarrow> i"
  have eq: "split_index ms r = min (skip_tools ms ?b) (length ms - 2)"
    by (simp add: split_index_def Let_def weight_fold)
  have b: "budget_point ms r ?b"
    by (rule keep_scan_point) (auto simp: weight_def)
  then have "?b \<le> skip_tools ms ?b"
    by (intro conjunct1 [OF skip_tools_bounds]) (auto simp: budget_point_def)
  then show ?thesis
    using b skip_tools_between [of ?b _ ms] by (intro exI [of _ ?b]) (auto simp: eq is_tool_def min_def)
qed

lemma budget_point_unique: "budget_point ms r a \<Longrightarrow> budget_point ms r b \<Longrightarrow> a = b"
proof (rule ccontr)
  assume "budget_point ms r a" "budget_point ms r b" "a \<noteq> b"
  then show False
    unfolding budget_point_def by (metis linorder_neqE_nat not_less)
qed

text \<open>
  C23. Splitting for compaction loses and reorders nothing, and a transcript of at most four messages is never split.
  A longer one is split at the budget: the kept part begins at the last message from which the messages weigh at least
  the share of the tokens that is to be kept, or after the tool messages that stand there, and one message further to
  the front only where fewer than two messages would be kept; it starts with a tool message only where it is the last two.
\<close>

theorem split_for_compaction_safe:
  assumes "split_for_compaction ms r = (older, recent)"
  shows "older @ recent = ms
    \<and> (length ms \<le> 4 \<longrightarrow> older = [])
    \<and> (length ms > 4 \<longrightarrow> length recent \<ge> 2 \<and> (is_tool (hd recent) \<longrightarrow> length recent = 2)
        \<and> (\<exists>b. budget_point ms r b \<and> (b \<le> length older \<or> length recent = 2)
             \<and> (\<forall>j. b \<le> j \<and> j < length older \<longrightarrow> is_tool (ms ! j))))"
proof (cases "length ms \<le> 4")
  case False
  then have parts: "older = take (split_index ms r) ms" "recent = drop (split_index ms r) ms"
    using assms by (auto simp: split_for_compaction_def Let_def)
  have le: "split_index ms r \<le> length ms - 2" by (rule split_index_le)
  then have lt: "split_index ms r < length ms" using False by linarith
  then have "hd recent = ms ! split_index ms r" by (simp add: parts hd_drop_conv_nth)
  moreover have "length recent \<ge> 2" using le False by (simp add: parts)
  moreover have "length recent = 2" if "is_tool (hd recent)"
    using split_index_tool [of ms r] that False lt
    by (simp add: parts hd_drop_conv_nth is_tool_def)
  moreover have "length older = split_index ms r" "split_index ms r = length ms - 2 \<Longrightarrow> length recent = 2"
    using False lt by (auto simp: parts)
  moreover have "2 \<le> length ms" using False by simp
  note split_index_point [OF this, of r]
  ultimately show ?thesis using False parts by auto
qed (use assms in \<open>auto simp: split_for_compaction_def\<close>)

text \<open>
  The exception is real: a large last message moves the split onto the result of the tool call
  before it, which then opens the kept part while its call has gone to the summary.
\<close>

theorem split_for_compaction_safe_witness:
  "\<exists>older recent.
     let m = (\<lambda>r bs. \<lparr>m_role = r, m_content = bs, m_timestamp = None\<rparr>);
         ms = [m User [Text ''a''], m Assistant [Text ''b''], m User [Text ''c''],
               m Assistant [ToolCall ''1'' ''read'' (JObj [])], m ToolRole [ToolResult ''1'' ''read'' ''x'' False],
               m User [Text (replicate 60 CHR ''y'')]]
     in split_for_compaction ms (3 / 10) = (older, recent)
        \<and> older @ recent = ms \<and> is_tool (hd recent) \<and> length recent = 2"
proof -
  define m where "m = (\<lambda>r bs. \<lparr>m_role = r, m_content = bs, m_timestamp = None :: nat option\<rparr>)"
  define ms where "ms = [m User [Text ''a''], m Assistant [Text ''b''], m User [Text ''c''],
    m Assistant [ToolCall ''1'' ''read'' (JObj [])], m ToolRole [ToolResult ''1'' ''read'' ''x'' False],
    m User [Text (replicate 60 CHR ''y'')]]"
  have s: "split_for_compaction ms (3 / 10) = (take 4 ms, drop 4 ms)"
    unfolding ms_def m_def by code_simp
  from conjunct1 [OF split_for_compaction_safe [OF s]]
  show ?thesis using s by (auto simp: Let_def ms_def m_def is_tool_def)
qed

text \<open>
  Trimming keeps the transcript's shape: roles, times and the messages that are not tool messages
  stay, a result keeps its call id, name and error flag, and one that is too long keeps its
  first 60 per cent and its last 40 per cent around a note of what is missing.
\<close>

theorem trim_tool_results_shape:
  "length (trim_tool_results mx ms) = length ms
   \<and> (\<forall>i<length ms.
        m_role (trim_tool_results mx ms ! i) = m_role (ms ! i)
        \<and> m_timestamp (trim_tool_results mx ms ! i) = m_timestamp (ms ! i)
        \<and> (\<not> is_tool (ms ! i) \<longrightarrow> trim_tool_results mx ms ! i = ms ! i)
        \<and> (is_tool (ms ! i) \<longrightarrow>
             m_content (trim_tool_results mx ms ! i) = map (trim_block mx) (m_content (ms ! i))))
   \<and> trim_block mx (ToolResult cid name output err)
       = ToolResult cid name (if length output \<le> mx then output else trim_output mx output) err
   \<and> (0 < mx \<and> mx < length output \<longrightarrow>
        length (trim_output mx output) = mx + length (omitted_note (length output - mx))
        \<and> prefix (take (mx * 6 div 10) output) (trim_output mx output)
        \<and> suffix (drop (length output - (mx - mx * 6 div 10)) output) (trim_output mx output))"
proof -
  have "mx - mx * 6 div 10 \<noteq> 0" if "0 < mx" using that by linarith
  then show ?thesis
    by (auto simp: length_trim_output trim_tool_results_def is_tool_def)
       (auto simp: trim_output_def Let_def slice_def slice_last_def suffix_def)
qed

theorem trim_tool_results_shape_witness:
  "trim_output 5 ''abcdefgh'' = ''abc'' @ omitted_note 3 @ ''gh''
   \<and> length (trim_output 5 ''abcdefgh'') = 5 + length (omitted_note 3)"
  using trim_tool_results_shape [of 5 "[]" "''1''" "''t''" "''abcdefgh''" False]
  by (simp add: trim_output_def slice_def slice_last_def numeral_3_eq_3)

end
