(* ===== verification/Tools.thy ===== *)
theory Tools
  imports Jean_Prelude
begin

text \<open>
  The tool harness: the types of \<open>packages/tools/src/types.ts\<close> and the registry of
  \<open>packages/tools/src/registry.ts\<close>, the one place every tool call passes through.

  What a call may change lies in the world \<open>'w\<close>, threaded explicitly: a tool's \<open>execute\<close> and the
  user's answer to a confirmation are functions on it. A function that may throw returns \<open>Inl\<close> of
  the error (or \<open>None\<close> where the message is never read). The listener \<open>onCall\<close> is modelled by the
  list of records it is called with.
\<close>

section \<open>Types\<close>

datatype risk = Read | Network | Write | Execute

text \<open>\<open>RISK_ORDER\<close>, as the order of the type.\<close>

fun risk_rank :: "risk \<Rightarrow> nat" where
  "risk_rank Read = 0"
| "risk_rank Network = 1"
| "risk_rank Write = 2"
| "risk_rank Execute = 3"

lemma risk_rank_inj: "risk_rank a = risk_rank b \<Longrightarrow> a = b"
  by (cases a; cases b) auto

instantiation risk :: linorder
begin

definition less_eq_risk :: "risk \<Rightarrow> risk \<Rightarrow> bool" where
  "a \<le> b \<longleftrightarrow> risk_rank a \<le> risk_rank b"

definition less_risk :: "risk \<Rightarrow> risk \<Rightarrow> bool" where
  "a < b \<longleftrightarrow> risk_rank a < risk_rank b"

instance
  by standard (auto simp: less_eq_risk_def less_risk_def dest: risk_rank_inj)

end

lemma Read_least [simp]: "Read \<le> r" "Read < r \<longleftrightarrow> r \<noteq> Read"
  by (cases r; simp add: less_eq_risk_def less_risk_def)+

datatype mode = Ask | Auto | Full | Plan

definition mode_str :: "mode \<Rightarrow> string" where
  "mode_str m = (case m of Ask \<Rightarrow> ''ask'' | Auto \<Rightarrow> ''auto'' | Full \<Rightarrow> ''full'' | Plan \<Rightarrow> ''plan'')"

datatype concurrency = Parallel | Serial

record tool_result =
  tr_output :: string
  tr_error :: bool
  tr_touched :: "string list"

datatype tool_error = ToolError string "string option"

datatype exn = ToolExn tool_error | OtherExn string

datatype todo_status = Pending | InProgress | Completed

record todo =
  td_id :: string
  td_text :: string
  td_status :: todo_status

record param_schema =
  ps_type :: "string option"
  ps_enum :: "json list option"

record 'w tool =
  t_name :: string
  t_description :: string
  t_required :: "string list"
  t_properties :: "(string \<times> param_schema) list"
  t_risk :: risk
  t_summarize :: "(json \<Rightarrow> 'w \<Rightarrow> string option) option"
  t_execute :: "json \<Rightarrow> 'w \<Rightarrow> (exn + tool_result) \<times> 'w"
  t_hidden :: "mode list"
  t_concurrency :: "concurrency option"

datatype decision = Allow | Deny | AskUser

record verdict =
  v_decision :: decision
  v_rule :: string

record confirm_request =
  cr_tool :: string
  cr_risk :: risk
  cr_summary :: string
  cr_detail :: string

record 'w tool_context =
  cx_mode :: mode
  cx_aborted :: "'w \<Rightarrow> bool"
  cx_now :: "'w \<Rightarrow> nat"
  cx_confirm :: "(confirm_request \<Rightarrow> 'w \<Rightarrow> bool option \<times> 'w) option"
  cx_policy :: "(string \<Rightarrow> json \<Rightarrow> string list option \<Rightarrow> string + verdict option) option"
  cx_commands :: "string \<Rightarrow> string list option"

record call_options =
  co_approve :: bool
  co_ask :: "string option"

record call_record =
  rec_tool :: string
  rec_args :: json
  rec_result :: tool_result
  rec_duration :: nat
  rec_at :: nat

definition runs_in_parallel :: "'w tool \<Rightarrow> bool" where
  "runs_in_parallel t =
     ((case t_concurrency t of Some c \<Rightarrow> c | None \<Rightarrow> if t_risk t = Read then Parallel else Serial) = Parallel)"

section \<open>Validating arguments\<close>

fun js_truthy :: "json \<Rightarrow> bool" where
  "js_truthy JUndef = False"
| "js_truthy JNull = False"
| "js_truthy (JBool b) = b"
| "js_truthy (JNum n) = (n \<noteq> 0)"
| "js_truthy (JDec m k) = (m \<noteq> 0)"
| "js_truthy (JStr s) = (s \<noteq> [])"
| "js_truthy _ = True"

fun js_typeof :: "json \<Rightarrow> string" where
  "js_typeof JUndef = ''undefined''"
| "js_typeof JNull = ''object''"
| "js_typeof (JBool _) = ''boolean''"
| "js_typeof (JNum _) = ''number''"
| "js_typeof (JDec _ _) = ''number''"
| "js_typeof (JStr _) = ''string''"
| "js_typeof (JArr _) = ''object''"
| "js_typeof (JObj _) = ''object''"

fun describe_type :: "json \<Rightarrow> string" where
  "describe_type JNull = ''null''"
| "describe_type (JArr _) = ''an array''"
| "describe_type v = ''a '' @ js_typeof v"

fun is_object :: "json \<Rightarrow> bool" where
  "is_object (JObj _) = True"
| "is_object _ = False"

definition type_matches :: "string \<Rightarrow> json \<Rightarrow> bool" where
  "type_matches type v =
     (if type = ''string'' then (case v of JStr _ \<Rightarrow> True | _ \<Rightarrow> False)
      else if type = ''number'' \<or> type = ''integer'' then (js_typeof v = ''number'')
      else if type = ''boolean'' then (case v of JBool _ \<Rightarrow> True | _ \<Rightarrow> False)
      else if type = ''array'' then (case v of JArr _ \<Rightarrow> True | _ \<Rightarrow> False)
      else if type = ''object'' then is_object v
      else True)"

text \<open>\<open>enum.includes(v)\<close>: primitives by value; a parsed array or object is never the enum's own.\<close>

definition enum_includes :: "json list \<Rightarrow> json \<Rightarrow> bool" where
  "enum_includes vs v = (v \<in> set vs \<and> (case v of JArr _ \<Rightarrow> False | JObj _ \<Rightarrow> False | _ \<Rightarrow> True))"

definition missing_problems :: "'w tool \<Rightarrow> json \<Rightarrow> string list" where
  "missing_problems t v =
     map (\<lambda>r. ''missing required argument `'' @ r @ ''`'')
       (filter (\<lambda>r. jget v r = JUndef \<or> jget v r = JNull) (t_required t))"

definition property_problem :: "json \<Rightarrow> string \<times> param_schema \<Rightarrow> string list" where
  "property_problem v kp =
     (case kp of (key, schema) \<Rightarrow>
        (let provided = jget v key
         in if provided = JUndef then []
            else case ps_enum schema of
                Some vs \<Rightarrow>
                  if \<not> enum_includes vs provided
                  then [''`'' @ key @ ''` must be one of '' @ join '', '' (map json_str vs) @ '', received '' @ json_str provided]
                  else (case ps_type schema of
                          Some type \<Rightarrow> if type \<noteq> [] \<and> \<not> type_matches type provided
                            then [''`'' @ key @ ''` must be a '' @ type @ '', received '' @ describe_type provided] else []
                        | None \<Rightarrow> [])
              | None \<Rightarrow>
                  (case ps_type schema of
                     Some type \<Rightarrow> if type \<noteq> [] \<and> \<not> type_matches type provided
                       then [''`'' @ key @ ''` must be a '' @ type @ '', received '' @ describe_type provided] else []
                   | None \<Rightarrow> [])))"

definition validate_args :: "'w tool \<Rightarrow> json \<Rightarrow> string option" where
  "validate_args t args =
     (if \<not> is_object args
      then Some (''`'' @ t_name t @ ''` expects an object of arguments, received '' @ describe_type args @ ''.'')
      else if js_truthy (jget args ''_parseError'')
      then Some (''The arguments for `'' @ t_name t @ ''` were not valid JSON. Re-issue the call with well-formed arguments.'')
      else (let problems = missing_problems t args @ concat (map (property_problem args) (t_properties t))
            in if problems = [] then None
               else Some (''Invalid arguments for `'' @ t_name t @ ''`: '' @ join ''; '' problems @ ''.'')))"

section \<open>The registry\<close>

type_synonym 'w registry = "(string \<times> 'w tool) list"

definition name_head :: "char \<Rightarrow> bool" where
  "name_head c = (CHR ''a'' \<le> c \<and> c \<le> CHR ''z'')"

definition name_char :: "char \<Rightarrow> bool" where
  "name_char c = (name_head c \<or> is_digit c \<or> c = CHR ''_'')"

text \<open>\<open>/^[a-z][a-z0-9_]*$/\<close>\<close>

definition valid_name :: "string \<Rightarrow> bool" where
  "valid_name s = (case s of [] \<Rightarrow> False | c # cs \<Rightarrow> name_head c \<and> list_all name_char cs)"

definition register :: "'w tool \<Rightarrow> 'w registry \<Rightarrow> string + 'w registry" where
  "register t reg =
     (if \<not> valid_name (t_name t)
      then Inl (''tool name '' @ [CHR 0x22] @ t_name t @ [CHR 0x22] @ '' must be lower_snake_case '' @ [u_emdash]
        @ '' many providers reject other shapes'')
      else Inr (AList.update (t_name t) t reg))"

text \<open>Registering several: the first bad name throws, the tools before it stay registered.\<close>

fun register_all :: "'w tool list \<Rightarrow> 'w registry \<Rightarrow> string option \<times> 'w registry" where
  "register_all [] reg = (None, reg)"
| "register_all (t # ts) reg =
     (case register t reg of Inl e \<Rightarrow> (Some e, reg) | Inr reg' \<Rightarrow> register_all ts reg')"

definition register_namespaced :: "string \<Rightarrow> 'w tool list \<Rightarrow> 'w registry \<Rightarrow> string option \<times> 'w registry" where
  "register_namespaced namespace ts reg =
     register_all (map (\<lambda>t. t\<lparr>t_name := namespace @ ''__'' @ t_name t\<rparr>) ts) reg"

definition unregister :: "string \<Rightarrow> 'w registry \<Rightarrow> bool \<times> 'w registry" where
  "unregister name reg = (map_of reg name \<noteq> None, AList.delete name reg)"

definition get_tool :: "'w registry \<Rightarrow> string \<Rightarrow> 'w tool option" where
  "get_tool reg name = map_of reg name"

definition tool_names :: "'w registry \<Rightarrow> string list" where
  "tool_names reg = sort (map fst reg)"

definition is_visible :: "'w tool \<Rightarrow> mode \<Rightarrow> bool" where
  "is_visible t m =
     (if m \<in> set (t_hidden t) then False
      else if m = Plan \<and> t_risk t \<noteq> Read then False
      else True)"

text \<open>The schemas offered to the model: name, description, required and typed parameters.\<close>

definition schemas :: "'w registry \<Rightarrow> mode \<Rightarrow> (string \<times> string \<times> string list \<times> (string \<times> param_schema) list) list" where
  "schemas reg m =
     map (\<lambda>t. (t_name t, t_description t, t_required t, t_properties t))
       (filter (\<lambda>t. is_visible t m) (map snd reg))"

subsection \<open>Confirming\<close>

definition preview :: "json \<Rightarrow> string" where
  "preview args =
     (let text = (case args of JStr s \<Rightarrow> s | _ \<Rightarrow> json_str args)
      in if length text > 80 then slice 0 77 text @ ''...'' else text)"

text \<open>The one-line summary a user is shown; \<open>None\<close> when the tool's \<open>summarize\<close> threw.\<close>

definition call_summary :: "'w tool \<Rightarrow> json \<Rightarrow> 'w \<Rightarrow> string option" where
  "call_summary t args w =
     (case t_summarize t of None \<Rightarrow> Some (t_name t @ ''('' @ preview args @ '')'') | Some f \<Rightarrow> f args w)"

text \<open>\<open>Inr None\<close>: allowed; \<open>Inr (Some reason)\<close>: refused; \<open>Inl\<close>: something threw.\<close>

definition confirm_call :: "'w tool \<Rightarrow> json \<Rightarrow> 'w tool_context \<Rightarrow> string option \<Rightarrow> 'w \<Rightarrow>
    (unit + string option) \<times> 'w" where
  "confirm_call t args ctx why w =
     (case call_summary t args w of
        None \<Rightarrow> (Inl (), w)
      | Some summary \<Rightarrow>
          (case cx_confirm ctx of
             None \<Rightarrow> (Inr (Some (''`'' @ t_name t @ ''` needs confirmation''
               @ (case why of None \<Rightarrow> [] | Some y \<Rightarrow> if y = [] then [] else '' ('' @ y @ '')'')
               @ '' but this session is non-interactive.'')), w)
           | Some confirm \<Rightarrow>
               (case confirm \<lparr>cr_tool = t_name t, cr_risk = t_risk t,
                   cr_summary = (case why of None \<Rightarrow> summary
                     | Some y \<Rightarrow> if y = [] then summary else summary @ '' '' @ [u_emdash] @ '' '' @ y),
                   cr_detail = json_pretty 0 args\<rparr> w of
                  (None, w1) \<Rightarrow> (Inl (), w1)
                | (Some approved, w1) \<Rightarrow>
                    (Inr (if approved then None
                          else Some (''The user declined `'' @ t_name t @ ''`. Do not retry it.'')), w1))))"

subsection \<open>Gating\<close>

definition plan_refusal :: "'w tool \<Rightarrow> string" where
  "plan_refusal t = ''Plan mode is read-only, so `'' @ t_name t @ ''` did not run.''"

definition call_facts :: "'w tool \<Rightarrow> json \<Rightarrow> 'w tool_context \<Rightarrow> string list option" where
  "call_facts t args ctx =
     (if t_name t = ''bash'' then (case jget args ''command'' of JStr c \<Rightarrow> cx_commands ctx c | _ \<Rightarrow> None)
      else None)"

text \<open>What the rules say about a call: \<open>Inl\<close> when they could not be checked.\<close>

definition rules_verdict :: "'w tool \<Rightarrow> json \<Rightarrow> 'w tool_context \<Rightarrow> string + verdict option" where
  "rules_verdict t args ctx =
     (case cx_policy ctx of None \<Rightarrow> Inr None
      | Some evaluate \<Rightarrow> evaluate (t_name t) args (call_facts t args ctx))"

definition deny_reason :: "'w tool \<Rightarrow> verdict \<Rightarrow> string" where
  "deny_reason t v = ''`'' @ t_name t @ ''` is blocked by the permission rule `'' @ v_rule v
     @ ''`. Do not try to reach the same result another way; ask the user if it is needed.''"

lemma deny_reason_rule: "sublist (v_rule v) (deny_reason t v)"
  unfolding deny_reason_def by (metis append.assoc sublist_appendI)

definition gate :: "'w tool \<Rightarrow> json \<Rightarrow> 'w tool_context \<Rightarrow> call_options \<Rightarrow> 'w \<Rightarrow>
    (unit + string option) \<times> 'w" where
  "gate t args ctx opts w =
     (case rules_verdict t args ctx of
        Inl e \<Rightarrow>
          if cx_mode ctx = Plan \<and> t_risk t \<noteq> Read then (Inr (Some (plan_refusal t)), w)
          else confirm_call t args ctx (Some (''permission rules could not be checked: '' @ e)) w
      | Inr verdict \<Rightarrow>
          let decision = map_option v_decision verdict
          in if decision = Some Deny
             then (Inr (Some (deny_reason t (the verdict))), w)
             else if decision = Some AskUser \<or> truthy (co_ask opts)
             then (if cx_mode ctx = Plan \<and> t_risk t \<noteq> Read then (Inr (Some (plan_refusal t)), w)
                   else confirm_call t args ctx
                     (Some (case co_ask opts of Some y \<Rightarrow> y | None \<Rightarrow> ''matches `'' @ v_rule (the verdict) @ ''`'')) w)
             else if cx_mode ctx = Full \<or> t_risk t = Read then (Inr None, w)
             else if cx_mode ctx = Plan then (Inr (Some (plan_refusal t)), w)
             else if cx_mode ctx = Auto then (Inr None, w)
             else if decision = Some Allow \<or> co_approve opts then (Inr None, w)
             else confirm_call t args ctx None w)"

subsection \<open>Calling\<close>

definition error_result :: "string \<Rightarrow> tool_result" where
  "error_result s = \<lparr>tr_output = s, tr_error = True, tr_touched = []\<rparr>"

fun exn_text :: "exn \<Rightarrow> string" where
  "exn_text (ToolExn (ToolError m hint)) = (if truthy hint then m @ [u_lf] @ the hint else m)"
| "exn_text (OtherExn m) = m"

definition record_call :: "'w tool_context \<Rightarrow> string \<Rightarrow> json \<Rightarrow> nat \<Rightarrow> tool_result \<Rightarrow> 'w \<Rightarrow>
    (unit + tool_result) \<times> call_record list \<times> 'w" where
  "record_call ctx name args started result w =
     (Inr result, [\<lparr>rec_tool = name, rec_args = args, rec_result = result,
        rec_duration = cx_now ctx w - started, rec_at = started\<rparr>], w)"

definition not_available :: "string \<Rightarrow> mode \<Rightarrow> string" where
  "not_available name m = ''`'' @ name @ ''` is not available in '' @ mode_str m @ '' mode. ''
     @ (if m = Plan then ''Plan mode is read-only '' @ [u_emdash] @ '' describe the change instead of making it.''
        else ''Ask the user to change the permission mode.'')"

definition call_tool :: "'w registry \<Rightarrow> string \<Rightarrow> json \<Rightarrow> 'w tool_context \<Rightarrow> call_options \<Rightarrow> 'w \<Rightarrow>
    (unit + tool_result) \<times> call_record list \<times> 'w" where
  "call_tool reg name args ctx opts w =
     (let started = cx_now ctx w
      in case get_tool reg name of
           None \<Rightarrow> record_call ctx name args started (error_result
             (''No tool named '' @ [CHR 0x22] @ name @ [CHR 0x22] @ ''. Available tools: '' @ join '', '' (tool_names reg))) w
         | Some t \<Rightarrow>
             if \<not> is_visible t (cx_mode ctx)
             then record_call ctx name args started (error_result (not_available name (cx_mode ctx))) w
             else case validate_args t args of
                 Some problem \<Rightarrow> record_call ctx name args started (error_result problem) w
               | None \<Rightarrow>
                   (case gate t args ctx opts w of
                      (Inl _, w1) \<Rightarrow> (Inl (), [], w1)
                    | (Inr (Some reason), w1) \<Rightarrow> record_call ctx name args started (error_result reason) w1
                    | (Inr None, w1) \<Rightarrow>
                        (case t_execute t args w1 of
                           (Inr result, w2) \<Rightarrow> record_call ctx name args started result w2
                         | (Inl e, w2) \<Rightarrow>
                             if cx_aborted ctx w2
                             then record_call ctx name args started (error_result (''`'' @ name @ ''` was interrupted.'')) w2
                             else record_call ctx name args started (error_result (exn_text e)) w2)))"

section \<open>Laws\<close>

lemma confirm_call_allowed:
  assumes "confirm_call t args ctx why w = (Inr None, w1)"
  shows "\<exists>confirm req. cx_confirm ctx = Some confirm \<and> cr_tool req = t_name t \<and> cr_risk req = t_risk t
    \<and> confirm req w = (Some True, w1)"
proof -
  obtain summary where s: "call_summary t args w = Some summary"
    using assms by (cases "call_summary t args w") (auto simp: confirm_call_def)
  obtain confirm where c: "cx_confirm ctx = Some confirm"
    using assms unfolding confirm_call_def s option.case by (cases "cx_confirm ctx") auto
  let ?req = "\<lparr>cr_tool = t_name t, cr_risk = t_risk t, cr_summary = (case why of None \<Rightarrow> summary
     | Some y \<Rightarrow> if y = [] then summary else summary @ '' '' @ [u_emdash] @ '' '' @ y), cr_detail = json_pretty 0 args\<rparr>"
  have "confirm ?req w = (Some True, w1)"
    using assms unfolding confirm_call_def s c option.case
    by (cases "confirm ?req w") (auto split: option.splits if_splits)
  with c show ?thesis by (intro exI [of _ confirm] exI [of _ ?req]) simp
qed

lemma gate_deny:
  "rules_verdict t args ctx = Inr (Some v) \<Longrightarrow> v_decision v = Deny \<Longrightarrow>
   gate t args ctx opts w = (Inr (Some (deny_reason t v)), w)"
  by (simp add: gate_def)

text \<open>What has to hold before a tool runs, and the world it then runs in.\<close>

definition asked_and_approved :: "'w tool \<Rightarrow> 'w tool_context \<Rightarrow> 'w \<Rightarrow> 'w \<Rightarrow> bool" where
  "asked_and_approved t ctx w w1 = (\<exists>confirm req. cx_confirm ctx = Some confirm
     \<and> cr_tool req = t_name t \<and> cr_risk req = t_risk t \<and> confirm req w = (Some True, w1))"

definition allowed_unasked :: "'w tool \<Rightarrow> json \<Rightarrow> 'w tool_context \<Rightarrow> call_options \<Rightarrow> bool" where
  "allowed_unasked t args ctx opts = (\<exists>v. rules_verdict t args ctx = Inr v
     \<and> map_option v_decision v \<notin> {Some Deny, Some AskUser} \<and> \<not> truthy (co_ask opts)
     \<and> (t_risk t = Read \<or> cx_mode ctx = Full \<or> cx_mode ctx = Auto
        \<or> cx_mode ctx = Ask \<and> (map_option v_decision v = Some Allow \<or> co_approve opts)))"

lemma gate_allowed:
  assumes "gate t args ctx opts w = (Inr None, w1)"
  shows "(\<forall>v. rules_verdict t args ctx = Inr (Some v) \<longrightarrow> v_decision v \<noteq> Deny)
    \<and> (cx_mode ctx = Plan \<longrightarrow> t_risk t = Read)
    \<and> (asked_and_approved t ctx w w1 \<or> w1 = w \<and> allowed_unasked t args ctx opts)"
proof (cases "rules_verdict t args ctx")
  case (Inl e)
  with assms show ?thesis
    by (auto simp: gate_def asked_and_approved_def split: if_splits dest!: confirm_call_allowed)
next
  case (Inr v)
  define d where "d = map_option v_decision v"
  have nd: "d \<noteq> Some Deny" using assms by (auto simp: gate_def Inr Let_def d_def)
  show ?thesis
  proof (cases "d = Some AskUser \<or> truthy (co_ask opts)")
    case True
    with assms nd show ?thesis
      by (auto simp: gate_def Inr Let_def d_def [symmetric] asked_and_approved_def split: if_splits
        dest!: confirm_call_allowed) (auto simp: d_def)
  next
    case False
    then have eq: "gate t args ctx opts w =
        (if cx_mode ctx = Full \<or> t_risk t = Read then (Inr None, w)
         else if cx_mode ctx = Plan then (Inr (Some (plan_refusal t)), w)
         else if cx_mode ctx = Auto then (Inr None, w)
         else if d = Some Allow \<or> co_approve opts then (Inr None, w)
         else confirm_call t args ctx None w)"
      using nd by (simp add: gate_def Inr Let_def d_def [symmetric])
    have deny: "\<forall>v'. rules_verdict t args ctx = Inr (Some v') \<longrightarrow> v_decision v' \<noteq> Deny"
      using nd by (auto simp: Inr d_def)
    have unasked: "allowed_unasked t args ctx opts"
      if "t_risk t = Read \<or> cx_mode ctx = Full \<or> cx_mode ctx = Auto
        \<or> cx_mode ctx = Ask \<and> (d = Some Allow \<or> co_approve opts)"
      using that nd False unfolding allowed_unasked_def Inr d_def by blast
    have asked: "asked_and_approved t ctx w w1" if "confirm_call t args ctx None w = (Inr None, w1)"
      using confirm_call_allowed [OF that] by (simp add: asked_and_approved_def)
    show ?thesis
      using assms deny unasked asked unfolding eq by (cases "cx_mode ctx") (simp_all split: if_splits)
  qed
qed

lemma record_call_eq:
  "record_call ctx name args started r w = (out, recs, w') \<Longrightarrow>
   out = Inr r \<and> w' = w \<and> (\<exists>rec. recs = [rec] \<and> rec_tool rec = name \<and> rec_args rec = args \<and> rec_result rec = r)"
  by (auto simp: record_call_def)

text \<open>A call in four cases: no such tool or not visible, bad arguments, refused, run.\<close>

lemma call_tool_cases:
  assumes "call_tool reg name args ctx opts w = (out, recs, w')"
  obtains (unavailable) r where "out = Inr r" "tr_error r" "w' = w" "recs \<noteq> []"
      "case get_tool reg name of None \<Rightarrow> True | Some t \<Rightarrow> \<not> is_visible t (cx_mode ctx)"
  | (invalid) t p where "get_tool reg name = Some t" "is_visible t (cx_mode ctx)" "validate_args t args = Some p"
      "out = Inr (error_result p)" "w' = w"
  | (threw) t where "get_tool reg name = Some t" "is_visible t (cx_mode ctx)" "validate_args t args = None"
      "gate t args ctx opts w = (Inl (), w')" "out = Inl ()" "recs = []"
  | (refused) t reason where "get_tool reg name = Some t" "is_visible t (cx_mode ctx)" "validate_args t args = None"
      "gate t args ctx opts w = (Inr (Some reason), w')" "out = Inr (error_result reason)"
  | (ran) t w1 res where "get_tool reg name = Some t" "is_visible t (cx_mode ctx)" "validate_args t args = None"
      "gate t args ctx opts w = (Inr None, w1)" "t_execute t args w1 = (res, w')"
      "out = Inr (case res of Inr r \<Rightarrow> r | Inl e \<Rightarrow>
         if cx_aborted ctx w' then error_result (''`'' @ name @ ''` was interrupted.'') else error_result (exn_text e))"
proof (cases "get_tool reg name")
  case None
  with assms show thesis
    by (intro unavailable) (auto simp: call_tool_def Let_def record_call_def error_result_def)
next
  case (Some t)
  show thesis
  proof (cases "is_visible t (cx_mode ctx)")
    case False
    with assms Some show thesis
      by (intro unavailable) (auto simp: call_tool_def Let_def record_call_def error_result_def)
  next
    case vis: True
    show thesis
    proof (cases "validate_args t args")
      case (Some p)
      with assms \<open>get_tool reg name = Some t\<close> vis show thesis
        by (intro invalid) (auto simp: call_tool_def Let_def record_call_def)
    next
      case ok: None
      obtain g w1 where g: "gate t args ctx opts w = (g, w1)" by (cases "gate t args ctx opts w")
      note eqs = call_tool_def Let_def \<open>get_tool reg name = Some t\<close> vis ok g
      show thesis
      proof (cases g)
        case (Inl u)
        with assms have "out = Inl ()" "recs = []" "w' = w1" by (simp_all add: eqs)
        with threw [of t] Inl \<open>get_tool reg name = Some t\<close> vis ok g show thesis by simp
      next
        case (Inr a)
        show thesis
        proof (cases a)
          case (Some reason)
          with assms Inr have "out = Inr (error_result reason)" "w' = w1" by (simp_all add: eqs record_call_def)
          with refused [of t reason] Inr Some \<open>get_tool reg name = Some t\<close> vis ok g show thesis by simp
        next
          case None
          obtain res w2 where ex: "t_execute t args w1 = (res, w2)" by (cases "t_execute t args w1")
          define r where "r = (case res of Inr r \<Rightarrow> r | Inl e \<Rightarrow>
            if cx_aborted ctx w2 then error_result (''`'' @ name @ ''` was interrupted.'') else error_result (exn_text e))"
          have "call_tool reg name args ctx opts w = record_call ctx name args (cx_now ctx w) r w2"
            by (cases res) (simp_all add: eqs Inr None ex r_def)
          with assms have fin: "out = Inr r" "w' = w2" by (auto simp: record_call_def)
          show thesis
          proof (rule ran)
            show "get_tool reg name = Some t" "is_visible t (cx_mode ctx)" "validate_args t args = None" by fact+
            show "gate t args ctx opts w = (Inr None, w1)" using g Inr None by simp
            show "t_execute t args w1 = (res, w')" using ex fin(2) by simp
            show "out = Inr (case res of Inr r \<Rightarrow> r | Inl e \<Rightarrow>
              if cx_aborted ctx w' then error_result (''`'' @ name @ ''` was interrupted.'') else error_result (exn_text e))"
              unfolding fin r_def ..
          qed
        qed
      qed
    qed
  qed
qed

definition registry_ok :: "'w registry \<Rightarrow> bool" where
  "registry_ok reg = (distinct (map fst reg) \<and> (\<forall>(name, t)\<in>set reg. t_name t = name \<and> valid_name name))"

lemma registry_ok_Nil [simp]: "registry_ok []"
  by (simp add: registry_ok_def)

lemma set_update: "set (AList.update k x m) \<subseteq> insert (k, x) (set m)"
  by (induction m) auto

lemma register_ok: "registry_ok reg \<Longrightarrow> register t reg = Inr reg' \<Longrightarrow> registry_ok reg'"
proof -
  assume ok: "registry_ok reg" and r: "register t reg = Inr reg'"
  then have reg': "reg' = AList.update (t_name t) t reg" and v: "valid_name (t_name t)"
    by (auto simp: register_def split: if_splits)
  have "distinct (map fst reg')" using jm.ok_put [of reg] ok by (simp add: reg' registry_ok_def)
  moreover have "t_name u = n \<and> valid_name n" if "(n, u) \<in> set reg'" for n u
  proof -
    from subsetD [OF set_update that [unfolded reg']] ok v show ?thesis by (auto simp: registry_ok_def)
  qed
  ultimately show ?thesis by (auto simp: registry_ok_def)
qed

lemma register_all_ok: "registry_ok reg \<Longrightarrow> registry_ok (snd (register_all ts reg))"
  by (induction ts arbitrary: reg) (auto simp: register_ok split: sum.splits)

subsection \<open>The contract of a rule set\<close>

text \<open>
  What the registry relies on: a call the rules forbid is answered with a deny verdict, or with an
  error that says they could not be checked, never with a weaker verdict or none.
\<close>

locale tool_policy =
  fixes evaluate :: "string \<Rightarrow> json \<Rightarrow> string list option \<Rightarrow> string + verdict option"
    and forbids :: "string \<Rightarrow> json \<Rightarrow> string list option \<Rightarrow> bool"
  assumes forbids_deny: "forbids name args facts \<Longrightarrow>
    (\<exists>e. evaluate name args facts = Inl e)
    \<or> (\<exists>v. evaluate name args facts = Inr (Some v) \<and> v_decision v = Deny)"
begin

lemma forbidden_gate:
  assumes "cx_policy ctx = Some evaluate" and "forbids (t_name t) args (call_facts t args ctx)"
  shows "(\<exists>reason. gate t args ctx opts w = (Inr (Some reason), w))
    \<or> (\<exists>e. gate t args ctx opts w
         = confirm_call t args ctx (Some (''permission rules could not be checked: '' @ e)) w)"
proof -
  have rv: "rules_verdict t args ctx = evaluate (t_name t) args (call_facts t args ctx)"
    by (simp add: rules_verdict_def assms(1))
  from forbids_deny [OF assms(2)] show ?thesis
  proof
    assume "\<exists>e. evaluate (t_name t) args (call_facts t args ctx) = Inl e"
    then obtain e where "rules_verdict t args ctx = Inl e" using rv by auto
    then show ?thesis by (auto simp: gate_def)
  next
    assume "\<exists>v. evaluate (t_name t) args (call_facts t args ctx) = Inr (Some v) \<and> v_decision v = Deny"
    then obtain v where "rules_verdict t args ctx = Inr (Some v)" "v_decision v = Deny" using rv by auto
    then have "gate t args ctx opts w = (Inr (Some (deny_reason t v)), w)" by (rule gate_deny)
    then show ?thesis by blast
  qed
qed

text \<open>A forbidden call never runs unasked.\<close>

lemma forbidden_call:
  assumes "cx_policy ctx = Some evaluate" and "get_tool reg name = Some t"
    and "forbids (t_name t) args (call_facts t args ctx)"
    and "call_tool reg name args ctx opts w = (out, recs, w')"
  shows "(\<exists>w1. asked_and_approved t ctx w w1)
    \<or> (w' = w \<or> w' = snd (gate t args ctx opts w)) \<and> (\<forall>r. out = Inr r \<longrightarrow> tr_error r)"
  using assms(4)
proof (cases rule: call_tool_cases)
  case (ran u w1 res)
  then have u: "u = t" using assms(2) by simp
  have "asked_and_approved t ctx w w1"
  proof (rule ccontr)
    assume "\<not> asked_and_approved t ctx w w1"
    with gate_allowed [of t args ctx opts w w1] ran(4) u
    obtain v where "rules_verdict t args ctx = Inr v" "map_option v_decision v \<noteq> Some Deny"
      by (auto simp: allowed_unasked_def)
    with forbids_deny [OF assms(3)] show False by (auto simp: rules_verdict_def assms(1))
  qed
  then show ?thesis by blast
qed (use assms(2) in \<open>auto simp: error_result_def\<close>)

end

section \<open>Correctness\<close>

text \<open>
  C5. A tool only ever runs when its call is authorized. Whatever the outcome of a call, either the
  tool ran, and then it was visible in the mode, its arguments were valid, no rule denied it, plan
  mode held only if it reads, and the user approved it or it needed no approval; or it did not
  run, the world is the one the confirmation left, and the model is told why.
\<close>

theorem call_authorized:
  assumes "call_tool reg name args ctx opts w = (out, recs, w')"
  shows "(\<exists>t w1. get_tool reg name = Some t \<and> is_visible t (cx_mode ctx) \<and> validate_args t args = None
      \<and> (\<forall>v. rules_verdict t args ctx = Inr (Some v) \<longrightarrow> v_decision v \<noteq> Deny)
      \<and> (cx_mode ctx = Plan \<longrightarrow> t_risk t = Read)
      \<and> (asked_and_approved t ctx w w1 \<or> w1 = w \<and> allowed_unasked t args ctx opts)
      \<and> w' = snd (t_execute t args w1))
    \<or> (w' = w \<or> (\<exists>t. get_tool reg name = Some t \<and> w' = snd (gate t args ctx opts w)))
      \<and> (\<forall>r. out = Inr r \<longrightarrow> tr_error r)"
  using assms
proof (cases rule: call_tool_cases)
  case (ran t w1 res)
  with gate_allowed [of t args ctx opts w w1] have "\<exists>t w1. get_tool reg name = Some t
      \<and> is_visible t (cx_mode ctx) \<and> validate_args t args = None
      \<and> (\<forall>v. rules_verdict t args ctx = Inr (Some v) \<longrightarrow> v_decision v \<noteq> Deny)
      \<and> (cx_mode ctx = Plan \<longrightarrow> t_risk t = Read)
      \<and> (asked_and_approved t ctx w w1 \<or> w1 = w \<and> allowed_unasked t args ctx opts)
      \<and> w' = snd (t_execute t args w1)"
    by (intro exI [of _ t] exI [of _ w1]) simp
  then show ?thesis by blast
qed (auto simp: error_result_def)

definition sample_tool :: "risk \<Rightarrow> nat tool" where
  "sample_tool r = \<lparr>t_name = ''bash'', t_description = [], t_required = [''command''],
     t_properties = [(''command'', \<lparr>ps_type = Some ''string'', ps_enum = None\<rparr>)], t_risk = r,
     t_summarize = None, t_execute = (\<lambda>a w. (Inr \<lparr>tr_output = ''ran'', tr_error = False, tr_touched = []\<rparr>, w + 1)),
     t_hidden = [], t_concurrency = None\<rparr>"

definition sample_context :: "mode \<Rightarrow> (string \<Rightarrow> json \<Rightarrow> string list option \<Rightarrow> string + verdict option) option \<Rightarrow>
    nat tool_context" where
  "sample_context m policy = \<lparr>cx_mode = m, cx_aborted = (\<lambda>w. False), cx_now = (\<lambda>w. w), cx_confirm = None,
     cx_policy = policy, cx_commands = (\<lambda>c. None)\<rparr>"

definition sample_args :: json where
  "sample_args = JObj [(''command'', JStr ''ls'')]"

lemmas sample_defs = sample_tool_def sample_context_def sample_args_def

lemma sample_sel [simp]:
  "t_name (sample_tool r) = ''bash''" "t_risk (sample_tool r) = r" "t_hidden (sample_tool r) = []"
  "t_execute (sample_tool r) a w = (Inr \<lparr>tr_output = ''ran'', tr_error = False, tr_touched = []\<rparr>, w + 1)"
  "cx_mode (sample_context m p) = m" "cx_confirm (sample_context m p) = None" "cx_policy (sample_context m p) = p"
  "cx_now (sample_context m p) w = w"
  by (simp_all add: sample_tool_def sample_context_def)

lemma sample_valid [simp]: "validate_args (sample_tool r) sample_args = None"
  by (simp add: validate_args_def sample_defs missing_problems_def property_problem_def type_matches_def)

theorem call_authorized_witness:
  "call_tool [(''bash'', sample_tool Execute)] ''bash'' sample_args (sample_context Auto None)
     \<lparr>co_approve = False, co_ask = None\<rparr> 7
   = (Inr \<lparr>tr_output = ''ran'', tr_error = False, tr_touched = []\<rparr>,
      [\<lparr>rec_tool = ''bash'', rec_args = sample_args, rec_result = \<lparr>tr_output = ''ran'', tr_error = False, tr_touched = []\<rparr>,
        rec_duration = 1, rec_at = 7\<rparr>], 8)
   \<and> allowed_unasked (sample_tool Execute) sample_args (sample_context Auto None) \<lparr>co_approve = False, co_ask = None\<rparr>"
proof -
  have c: "call_tool [(''bash'', sample_tool Execute)] ''bash'' sample_args (sample_context Auto None)
     \<lparr>co_approve = False, co_ask = None\<rparr> 7
   = (Inr \<lparr>tr_output = ''ran'', tr_error = False, tr_touched = []\<rparr>,
      [\<lparr>rec_tool = ''bash'', rec_args = sample_args, rec_result = \<lparr>tr_output = ''ran'', tr_error = False, tr_touched = []\<rparr>,
        rec_duration = 1, rec_at = 7\<rparr>], 8)"
    by (simp add: call_tool_def get_tool_def is_visible_def gate_def rules_verdict_def truthy_def record_call_def)
  have g: "snd (gate (sample_tool Execute) sample_args (sample_context Auto None) \<lparr>co_approve = False, co_ask = None\<rparr> (7::nat)) = 7"
    by (simp add: gate_def rules_verdict_def truthy_def)
  show ?thesis
    using call_authorized [OF c] c g by (auto simp: get_tool_def asked_and_approved_def)
qed

text \<open>
  C6. A deny rule holds in every mode and against every approval: the call does nothing to the
  world and its result is an error that names the rule.
\<close>

theorem deny_rule_holds:
  assumes "get_tool reg name = Some t" and "is_visible t (cx_mode ctx)" and "validate_args t args = None"
    and "rules_verdict t args ctx = Inr (Some v)" and "v_decision v = Deny"
  shows "\<exists>r rec. call_tool reg name args ctx opts w = (Inr r, [rec], w) \<and> tr_error r \<and> rec_result rec = r
    \<and> sublist (v_rule v) (tr_output r)"
proof -
  note g = gate_deny [OF assms(4,5), of opts w]
  then show ?thesis
    using assms(1-3) by (auto simp: call_tool_def record_call_def error_result_def deny_reason_rule)
qed

theorem deny_rule_holds_witness:
  "\<exists>r rec. call_tool [(''bash'', sample_tool Execute)] ''bash'' sample_args
      (sample_context Full (Some (\<lambda>_ _ _. Inr (Some \<lparr>v_decision = Deny, v_rule = ''Bash(ls)''\<rparr>))))
      \<lparr>co_approve = True, co_ask = None\<rparr> 7 = (Inr r, [rec], 7)
    \<and> tr_error r \<and> rec_result rec = r \<and> sublist ''Bash(ls)'' (tr_output r)"
proof -
  define ctx where "ctx = sample_context Full (Some (\<lambda>_ _ _. Inr (Some \<lparr>v_decision = Deny, v_rule = ''Bash(ls)''\<rparr>)))"
  have v: "rules_verdict (sample_tool Execute) sample_args ctx = Inr (Some \<lparr>v_decision = Deny, v_rule = ''Bash(ls)''\<rparr>)"
    by (simp add: rules_verdict_def ctx_def)
  show ?thesis
    unfolding ctx_def [symmetric]
    using deny_rule_holds [OF _ _ sample_valid v, of "[(''bash'', sample_tool Execute)]" "''bash''"
      "\<lparr>co_approve = True, co_ask = None\<rparr>" 7]
    by (simp add: get_tool_def is_visible_def ctx_def)
qed

text \<open>
  Plan mode is read-only: only reading tools are offered to the model, and a call of any
  other tool, whatever the rules, hooks or user say, changes nothing and is answered with an error.
\<close>

theorem plan_mode_read_only:
  assumes "cx_mode ctx = Plan" and "get_tool reg name = Some t" and "Read < t_risk t"
  shows "\<exists>r rec. call_tool reg name args ctx opts w = (Inr r, [rec], w) \<and> tr_error r \<and> rec_result rec = r
    \<and> (\<forall>s\<in>set (schemas reg Plan). \<exists>u. (s = (t_name u, t_description u, t_required u, t_properties u))
        \<and> u \<in> snd ` set reg \<and> t_risk u = Read)"
  using assms by (auto simp: call_tool_def is_visible_def record_call_def error_result_def schemas_def)

theorem plan_mode_read_only_witness:
  "\<exists>r rec. call_tool [(''bash'', sample_tool Execute)] ''bash'' sample_args (sample_context Plan None)
     \<lparr>co_approve = True, co_ask = None\<rparr> 7 = (Inr r, [rec], 7) \<and> tr_error r"
proof -
  have "cx_mode (sample_context Plan None) = Plan" "get_tool [(''bash'', sample_tool Execute)] ''bash'' = Some (sample_tool Execute)"
    "Read < t_risk (sample_tool Execute)"
    by (simp_all add: get_tool_def)
  from plan_mode_read_only [OF this] show ?thesis by blast
qed

text \<open>
  With no one to answer, nothing that needs confirmation runs: in a session without a
  \<open>confirm\<close>, a call that a rule or hook wants asked, that the rules could not be checked for, or that
  \<open>ask\<close> mode gates, leaves the world alone.
\<close>

theorem non_interactive_refuses:
  assumes "cx_confirm ctx = None" and "\<not> allowed_unasked t args ctx opts" and "get_tool reg name = Some t"
  shows "snd (snd (call_tool reg name args ctx opts w)) = w
    \<and> (\<forall>r. fst (call_tool reg name args ctx opts w) = Inr r \<longrightarrow> tr_error r)"
proof -
  have noask: "\<not> asked_and_approved t ctx w w1" for w1 using assms(1) by (simp add: asked_and_approved_def)
  have conf: "snd (confirm_call t args ctx why w) = w" for why
    using assms(1) by (auto simp: confirm_call_def split: option.splits)
  have gw: "snd (gate t args ctx opts w) = w"
    by (auto simp: gate_def Let_def conf split: sum.splits)
  obtain out recs w' where c: "call_tool reg name args ctx opts w = (out, recs, w')"
    by (cases "call_tool reg name args ctx opts w") auto
  from c show ?thesis
  proof (cases rule: call_tool_cases)
    case (ran u w1 res)
    with gate_allowed [of u args ctx opts w w1] noask [of w1] assms(2,3) show ?thesis by simp
  qed (use c gw assms(3) in \<open>auto simp: error_result_def\<close>)
qed

theorem non_interactive_refuses_witness:
  "snd (snd (call_tool [(''bash'', sample_tool Execute)] ''bash'' sample_args (sample_context Ask None)
     \<lparr>co_approve = False, co_ask = None\<rparr> 7)) = 7"
proof -
  have "cx_confirm (sample_context Ask None) = None"
    "\<not> allowed_unasked (sample_tool Execute) sample_args (sample_context Ask None) \<lparr>co_approve = False, co_ask = None\<rparr>"
    "get_tool [(''bash'', sample_tool Execute)] ''bash'' = Some (sample_tool Execute)"
    by (simp_all add: get_tool_def allowed_unasked_def rules_verdict_def)
  from non_interactive_refuses [OF this, of 7] show ?thesis by simp
qed

text \<open>
  The names in a registry are distinct lower-case identifiers and each maps to the tool of that
  name, whatever was registered, replaced or refused; a replacement keeps its place in the list.
\<close>

theorem registry_names:
  "registry_ok (snd (register_all ts []))
   \<and> registry_ok (snd (register_namespaced ns ts (snd (register_all us []))))
   \<and> (valid_name (t_name t) \<longrightarrow> (\<exists>reg'. register t reg = Inr reg' \<and> get_tool reg' (t_name t) = Some t
        \<and> (\<forall>n. n \<noteq> t_name t \<longrightarrow> get_tool reg' n = get_tool reg n)
        \<and> map fst reg' = map fst reg @ (if t_name t \<in> set (map fst reg) then [] else [t_name t])))"
  unfolding register_namespaced_def
  by (simp add: register_all_ok register_def get_tool_def jm.get_put jm.keys_put)

theorem registry_names_witness:
  "\<exists>reg'. register (sample_tool Read) [] = Inr reg' \<and> get_tool reg' ''bash'' = Some (sample_tool Read)"
proof -
  have "valid_name (t_name (sample_tool Read))"
    by (simp add: valid_name_def name_head_def name_char_def)
  with registry_names [of "[]" "[]" "[]" "sample_tool Read" "[]"] show ?thesis by auto
qed

end
