(* ===== verification/Compaction.thy ===== *)
theory Compaction
  imports Context Tools
begin

text \<open>
  Compaction of a session: \<open>packages/core/src/compaction.ts\<close>. The model, the archive of the native
  bridge and the clock are parameters (\<open>compaction_env\<close>): the summarizer is a function from the
  request's user text to the blocks it answered, \<open>None\<close> when the call failed.
\<close>

definition idle_compaction_ms :: int where
  "idle_compaction_ms = 5 * 60 * 1000"

record compaction_result =
  c_summary :: string
  c_tokens_before :: nat
  c_tokens_after :: nat
  c_model_generated :: bool

record snap_frame =
  sf_hash :: string
  sf_tokens :: nat
  sf_entities :: "string list"

record compaction_env =
  ce_reply :: "string \<Rightarrow> content_block list option"
  ce_native :: bool
  ce_snap :: "(string \<times> string) list \<Rightarrow> snap_frame option"
  ce_now :: nat

section \<open>The summary without a model\<close>

definition clamp_cut :: "string \<Rightarrow> nat \<Rightarrow> string" where
  "clamp_cut text mx = (if length text \<le> mx then text else slice 0 mx text @ [u_ellipsis])"

fun event_request :: "jean_event \<Rightarrow> string list" where
  "event_request (UserMessage _ text _) = [text]"
| "event_request _ = []"

text \<open>The first line of a non-empty \<open>bash\<close> command, at most 120 characters of it.\<close>

fun event_command :: "jean_event \<Rightarrow> string list" where
  "event_command (ToolCallE _ _ name input) =
     (if name = ''bash''
      then (case jget input ''command'' of
              JStr c \<Rightarrow> if c = [] then [] else [slice 0 120 (hd (lines_of c))]
            | _ \<Rightarrow> [])
      else [])"
| "event_command _ = []"

fun event_error :: "jean_event \<Rightarrow> string list" where
  "event_error (ToolResultE _ _ name output isError _ _) =
     (if isError then [name @ '': '' @ slice 0 160 (hd (lines_of output))] else [])"
| "event_error _ = []"

fun block_text :: "content_block \<Rightarrow> string option" where
  "block_text (Text t) = Some t"
| "block_text _ = None"

fun first_some :: "('a \<Rightarrow> 'b option) \<Rightarrow> 'a list \<Rightarrow> 'b option" where
  "first_some f [] = None"
| "first_some f (x # xs) = (case f x of None \<Rightarrow> first_some f xs | Some y \<Rightarrow> Some y)"

definition last_assistant_text :: "message list \<Rightarrow> string option" where
  "last_assistant_text older =
     first_some block_text
       (concat (map (\<lambda>m. if m_role m = Assistant then m_content m else []) (rev older)))"

definition titled :: "string \<Rightarrow> string list \<Rightarrow> string list" where
  "titled heading items = (if items = [] then [] else heading # items @ [[]])"

definition deterministic_summary :: "event_store \<Rightarrow> message list \<Rightarrow> string" where
  "deterministic_summary st older =
     (let requests = slice 0 5 (concat (map event_request (events st)));
          touched = touched_files st;
          commands = concat (map event_command (events st));
          errors = concat (map event_error (events st))
      in unlines
        ([''[Summary generated without a model call.]'', []]
         @ titled ''## What was asked'' (map (\<lambda>r. ''- '' @ clamp_cut r 400) requests)
         @ titled ''## Files changed'' (map (\<lambda>f. ''- '' @ f) (slice 0 40 touched))
         @ titled ''## Commands run'' (map (\<lambda>c. ''- `'' @ c @ ''`'') (slice_last 15 (dedupe commands)))
         @ titled ''## Errors seen'' (map (\<lambda>e. ''- '' @ e) (slice_last 10 (dedupe errors)))
         @ (case last_assistant_text older of
              None \<Rightarrow> []
            | Some t \<Rightarrow> [''## Last assistant message'', clamp_cut t 1200])))"

section \<open>The archive\<close>

definition max_safe_integer :: nat where
  "max_safe_integer = 9007199254740991"

definition role_str :: "role \<Rightarrow> string" where
  "role_str r = (case r of System \<Rightarrow> ''system'' | User \<Rightarrow> ''user'' | Assistant \<Rightarrow> ''assistant''
     | ToolRole \<Rightarrow> ''tool'')"

fun is_result :: "content_block \<Rightarrow> bool" where
  "is_result (ToolResult _ _ _ _) = True"
| "is_result _ = False"

definition archived_turns :: "message list \<Rightarrow> (string \<times> string) list" where
  "archived_turns older =
     filter (\<lambda>(r, text). trim text \<noteq> [])
       (map (\<lambda>m. (if list_ex is_result (m_content m) then ''tool'' else role_str (m_role m),
                   render_transcript [m] max_safe_integer)) older)"

definition archive_turns :: "compaction_env \<Rightarrow> message list \<Rightarrow> string option" where
  "archive_turns env older =
     (if \<not> ce_native env then None
      else (let turns = archived_turns older
            in if turns = [] then None
               else case ce_snap env turns of
                      None \<Rightarrow> None
                    | Some frame \<Rightarrow>
                        (let entities = slice 0 24 (sf_entities frame)
                         in Some (unlines
                           ([''## Archived transcript'',
                             ''The '' @ nat_str (length turns) @ '' compacted turns are archived verbatim as frame `''
                               @ slice 0 12 (sf_hash frame) @ ''` ('' @ nat_str (sf_tokens frame)
                               @ '' tokens). Call `recall_archive` with that frame '' @ [u_emdash]
                               @ '' and a `query` to narrow it '' @ [u_emdash] @ '' to read any of it again.'']
                            @ (if entities = [] then []
                               else [''Mentioned: '' @ join '', '' entities @ ''.'']))))))"

section \<open>compact\<close>

definition summary_request :: "message list \<Rightarrow> string" where
  "summary_request older =
     ''Transcript to summarize:'' @ [u_lf, u_lf] @ render_transcript older 2000"

text \<open>The model's answer as a summary: \<open>None\<close> when the call failed or said nothing.\<close>

definition model_summary :: "compaction_env \<Rightarrow> message list \<Rightarrow> string option" where
  "model_summary env older =
     (case ce_reply env (summary_request older) of
        None \<Rightarrow> None
      | Some content \<Rightarrow>
          (let summary = trim (unlines (List.map_filter block_text content))
           in if summary = [] then None else Some summary))"

definition compact :: "compaction_env \<Rightarrow> string option \<Rightarrow> event_store \<Rightarrow>
    compaction_result option \<times> event_store" where
  "compact env appendix st =
     (let messages = transcript st
      in case split_for_compaction messages (3 / 10) of (older, recent) \<Rightarrow>
         if older = [] then (None, st)
         else (let tokens_before = estimate_tokens (render_transcript messages 2000);
                   model_generated = (model_summary env older \<noteq> None);
                   summary0 = (case model_summary env older of
                                 Some s \<Rightarrow> s | None \<Rightarrow> deterministic_summary st older);
                   summary1 = (case appendix of
                                 None \<Rightarrow> summary0
                               | Some a \<Rightarrow> if trim a = [] then summary0
                                          else summary0 @ [u_lf, u_lf] @ trim a);
                   summary = (case archive_turns env older of
                                None \<Rightarrow> summary1
                              | Some a \<Rightarrow> if a = [] then summary1 else summary1 @ [u_lf, u_lf] @ a);
                   tokens_after = estimate_tokens summary
                     + estimate_tokens (render_transcript recent 2000);
                   event = Compaction (ce_now env) (length (events st)) summary tokens_before tokens_after
               in (Some \<lparr>c_summary = summary, c_tokens_before = tokens_before,
                         c_tokens_after = tokens_after, c_model_generated = model_generated\<rparr>,
                   appended event st)))"

definition should_compact_on_idle :: "int \<Rightarrow> int \<Rightarrow> bool" where
  "should_compact_on_idle last_activity now = (now - last_activity \<ge> idle_compaction_ms)"

section \<open>recall_archive\<close>

definition kept_lines :: "string list \<Rightarrow> string \<Rightarrow> nat \<Rightarrow> nat list" where
  "kept_lines ls wanted around =
     sort (dedupe (concat (map (\<lambda>(index, line).
        if str_includes (to_lower line) wanted
        then [index - around ..< Suc (min (length ls - 1) (index + around))] else [])
       (List.enumerate 0 ls))))"

definition recall_archive :: "bool \<Rightarrow> (string \<Rightarrow> string + string) \<Rightarrow> string \<Rightarrow> string option \<Rightarrow>
    int option \<Rightarrow> tool_error + string" where
  "recall_archive native snap_get frame query context_arg =
     (if \<not> native then Inl (ToolError ''The archive is read by the native bridge, which is not built.''
        (Some ''Run `jean native build`.''))
      else case snap_get (trim frame) of
        Inl e \<Rightarrow> Inl (ToolError e (Some ''Use the frame id exactly as the compaction summary gives it.''))
      | Inr text \<Rightarrow>
          (case query of
             None \<Rightarrow> Inr (if length text > 30000 then slice 0 30000 text @ [u_lf] @ ''[truncated '' @ [u_emdash] @ '' pass a query]'' else text)
           | Some q \<Rightarrow>
               if q = [] then Inr (if length text > 30000 then slice 0 30000 text @ [u_lf] @ ''[truncated '' @ [u_emdash] @ '' pass a query]'' else text)
               else (let ls = lines_of text; wanted = to_lower q;
                         around = nat (min (max (case context_arg of None \<Rightarrow> 2 | Some c \<Rightarrow> c) 0) 10);
                         keep = kept_lines ls wanted around
                     in if keep = []
                        then Inr (''Nothing in frame '' @ slice 0 12 frame @ '' mentions `'' @ q @ ''`.'')
                        else Inr (slice 0 30000 (unlines (map (\<lambda>i. ls ! i) keep))))))"

section \<open>Laws\<close>

lemma enumerate_set: "(i, x) \<in> set (List.enumerate 0 xs) \<longleftrightarrow> i < length xs \<and> x = xs ! i"
  by (auto simp: in_set_enumerate_eq)

lemma enumerate_ex: "(\<exists>x\<in>set (List.enumerate 0 xs). P x) \<longleftrightarrow> (\<exists>i<length xs. P (i, xs ! i))"
  by (auto simp: enumerate_set)

lemma window_mem:
  "i < n \<Longrightarrow> k \<in> set [i - around ..< Suc (min (n - 1) (i + around))] \<longleftrightarrow> k < n \<and> i \<le> k + around \<and> k \<le> i + around"
  by (simp del: upt_Suc, linarith)

lemma kept_lines_set:
  "set (kept_lines ls wanted around) =
     {k. k < length ls \<and> (\<exists>i<length ls. str_includes (to_lower (ls ! i)) wanted \<and> i \<le> k + around \<and> k \<le> i + around)}"
proof -
  have "k \<in> set (kept_lines ls wanted around) \<longleftrightarrow>
    (\<exists>i<length ls. str_includes (to_lower (ls ! i)) wanted \<and>
       k \<in> set [i - around ..< Suc (min (length ls - 1) (i + around))])" for k
    by (simp add: kept_lines_def UN_iff enumerate_ex del: upt_Suc set_upt)
  then show ?thesis
    using window_mem [of _ "length ls"] by (simp del: upt_Suc set_upt cong: conj_cong) blast
qed

text \<open>A sorted list of distinct indices is the filter of the range it comes from.\<close>

lemma sorted_indices:
  "sorted xs \<Longrightarrow> distinct xs \<Longrightarrow> set xs = {k. k < n \<and> P k} \<Longrightarrow> xs = filter P [0..<n]"
  by (rule sorted_distinct_set_unique) (auto simp: sorted_wrt_filter)

lemma kept_lines_eq:
  "kept_lines ls wanted around =
     filter (\<lambda>k. \<exists>i<length ls. str_includes (to_lower (ls ! i)) wanted \<and> i \<le> k + around \<and> k \<le> i + around)
       [0..<length ls]"
  by (rule sorted_indices) (simp_all only: kept_lines_set, simp_all add: kept_lines_def)

text \<open>The summary text is what was summarized, then the appendix, then the archive's section.\<close>

lemma compact_cases:
  obtains (short) "fst (split_for_compaction (transcript st) (3 / 10)) = []" "compact env appendix st = (None, st)"
  | (worked) older recent r pre post where
      "split_for_compaction (transcript st) (3 / 10) = (older, recent)" "older \<noteq> []"
      "compact env appendix st = (Some r, appended (Compaction (ce_now env) (length (events st))
         (c_summary r) (c_tokens_before r) (c_tokens_after r)) st)"
      "c_model_generated r = (model_summary env older \<noteq> None)"
      "c_summary r = (case model_summary env older of Some s \<Rightarrow> s | None \<Rightarrow> deterministic_summary st older)
         @ pre @ post"
      "\<And>a. appendix = Some a \<Longrightarrow> trim a \<noteq> [] \<Longrightarrow> pre = [u_lf, u_lf] @ trim a"
proof -
  obtain older recent where sp: "split_for_compaction (transcript st) (3 / 10) = (older, recent)"
    by (cases "split_for_compaction (transcript st) (3 / 10)")
  show thesis
  proof (cases "older = []")
    case True
    with sp short show thesis by (simp add: compact_def)
  next
    case False
    define pre where "pre = (case appendix of None \<Rightarrow> [] | Some a \<Rightarrow> if trim a = [] then [] else [u_lf, u_lf] @ trim a)"
    define post where "post = (case archive_turns env older of None \<Rightarrow> [] | Some a \<Rightarrow> if a = [] then [] else [u_lf, u_lf] @ a)"
    show thesis
      by (rule worked [of older recent "the (fst (compact env appendix st))" pre post])
         (simp_all add: sp False compact_def Let_def pre_def post_def split: option.splits)
  qed
qed

section \<open>Correctness\<close>


text \<open>
  The transcript after a compaction of six messages: one message, although the split kept two of
  the six out of the summarized part.
\<close>

definition six_messages :: event_store where
  "six_messages = from_json [UserMessage 1 ''one'' [], AssistantMessage 2 [Text ''two''] None None,
     UserMessage 3 ''three'' [], AssistantMessage 4 [Text ''four''] None None,
     UserMessage 5 ''five'' [], AssistantMessage 6 [Text ''six''] None None]"

definition quiet_env :: compaction_env where
  "quiet_env = \<lparr>ce_reply = (\<lambda>_. Some [Text ''sum'']), ce_native = False, ce_snap = (\<lambda>_. None), ce_now = 7\<rparr>"


text \<open>
  A query on the archive shows exactly the lines within the asked distance of a line that
  mentions it, each once and in the order of the archive, and says so when there is none.
\<close>

theorem recall_archive_lines:
  assumes "snap_get (trim frame) = Inr text" and "query \<noteq> []"
    and "around = nat (min (max (case c of None \<Rightarrow> 2 | Some n \<Rightarrow> n) 0) 10)"
    and "near = (\<lambda>k. \<exists>i<length (lines_of text). str_includes (to_lower (lines_of text ! i)) (to_lower query)
       \<and> i \<le> k + around \<and> k \<le> i + around)"
    and "shown = map (\<lambda>k. lines_of text ! k) (filter near [0..<length (lines_of text)])"
  shows "around \<le> 10 \<and> recall_archive True snap_get frame (Some query) c =
    Inr (if shown = [] then ''Nothing in frame '' @ slice 0 12 frame @ '' mentions `'' @ query @ ''`.''
         else take 30000 (unlines shown))"
  using assms by (simp add: recall_archive_def kept_lines_eq Let_def slice_def)

theorem recall_archive_lines_witness:
  "recall_archive True (\<lambda>_. Inr [CHR ''a'', u_lf, CHR ''B'', u_lf, CHR ''c'']) ''f'' (Some ''b'') (Some 0)
     = Inr ''B''"
proof -
  define body where "body = [CHR ''a'', u_lf, CHR ''B'', u_lf, CHR ''c'']"
  define near where "near = (\<lambda>k. \<exists>i<length (lines_of body).
    str_includes (to_lower (lines_of body ! i)) (to_lower ''b'') \<and> i \<le> k + 0 \<and> k \<le> i + (0::nat))"
  have l: "lines_of body = [''a'', ''B'', ''c'']" unfolding body_def by code_simp
  have inc: "\<not> str_includes (to_lower ''a'') (to_lower ''b'')" "str_includes (to_lower ''B'') (to_lower ''b'')"
    "\<not> str_includes (to_lower ''c'') (to_lower ''b'')"
    by code_simp+
  have "filter near [0..<length (lines_of body)] = [1]"
    using inc by (simp add: near_def l upt_rec less_Suc_eq ex_disj_distrib conj_disj_distribR)
  then have sh: "map (\<lambda>k. lines_of body ! k) (filter near [0..<length (lines_of body)]) = [''B'']"
    by (simp add: l)
  show ?thesis
    using recall_archive_lines [of "\<lambda>_. Inr body" "''f''" body "''b''" 0 "Some 0", OF refl _ _ near_def sh [symmetric]]
    by (simp add: body_def)
qed

end
