(* ===== verification/AgentLoop.thy ===== *)
theory AgentLoop
  imports Compaction Tools
begin

text \<open>
  The multi-turn agent loop: \<open>packages/core/src/loop.ts\<close>.

  The world \<open>'w\<close> is threaded through everything the loop calls: the model's stream, the tools, the
  hooks, the clock and the interface that is told about events. What it is handed from outside is
  the record \<open>loop_env\<close>; a hook that throws counts as no opinion, so hooks return an option, and so does the
  callback that builds the system prompt, whose throwing takes the run down. The interface's \<open>onEvent\<close> is taken to
  return. A
  batch of calls runs in the order of its items here; that the concurrent runner's results do not
  depend on the order its calls finish in is what the step relation of \<open>map_limit\<close> is for.
\<close>

section \<open>What the loop exchanges with its surroundings\<close>

record call_ref =
  cl_id :: string
  cl_name :: string
  cl_input :: json

record before_decision =
  bd_deny :: "string option"
  bd_input :: "json option"
  bd_approve :: bool
  bd_ask :: "string option"

datatype stop_reason = Stop | Length | ToolUse | ErrorStop | AbortedStop

definition stop_str :: "stop_reason \<Rightarrow> string" where
  "stop_str s = (case s of Stop \<Rightarrow> ''stop'' | Length \<Rightarrow> ''length'' | ToolUse \<Rightarrow> ''tool_use''
     | ErrorStop \<Rightarrow> ''error'' | AbortedStop \<Rightarrow> ''aborted'')"

record response =
  rs_content :: "content_block list"
  rs_stop :: stop_reason
  rs_usage :: usage
  rs_model :: string

text \<open>A stream event; \<open>done\<close> carries the reminders of the stream rules that fired. \<open>SError\<close> also
  stands for a generator that throws: the message, and whether the failure is \<open>retryable\<close>.\<close>

datatype stream_event =
    SText string
  | SThinking string
  | SOther
  | SDone response "string list"
  | SError string bool

datatype loop_event =
    TurnStart nat
  | TextDelta string
  | ThinkingDelta string
  | ToolStart string string json string
  | ToolEnd string string tool_result nat
  | TurnEnd nat string
  | Compacted nat nat
  | NoticeE string
  | LoopError string bool

record request =
  rq_messages :: "message list"
  rq_system :: string
  rq_tools :: "(string \<times> string \<times> string list \<times> (string \<times> param_schema) list) list"
  rq_no_tool_choice :: bool

record 'w loop_env =
  le_aborted :: "'w \<Rightarrow> bool"
  le_now :: "'w \<Rightarrow> nat"
  le_event :: "loop_event \<Rightarrow> 'w \<Rightarrow> 'w"
  le_reminders :: "'w \<Rightarrow> string list option \<times> 'w"
  le_prompt :: "'w \<Rightarrow> string option"
  le_stream :: "request \<Rightarrow> 'w \<Rightarrow> stream_event list \<times> 'w"
  le_pause :: "nat \<Rightarrow> 'w \<Rightarrow> bool \<times> 'w"
  le_registry :: "'w registry"
  le_context :: "'w tool_context"
  le_before_tool :: "call_ref \<Rightarrow> 'w \<Rightarrow> before_decision option \<times> 'w"
  le_after_tool :: "call_ref \<Rightarrow> tool_result \<Rightarrow> 'w \<Rightarrow> string option \<times> 'w"
  le_before_stop :: "string \<Rightarrow> 'w \<Rightarrow> string option \<times> 'w"
  le_before_compact :: "'w \<Rightarrow> 'w"
  le_todos :: "'w \<Rightarrow> todo list"
  le_auto_compact :: bool
  le_threshold :: rat
  le_catalog :: catalog
  le_counter :: "(string list \<Rightarrow> nat list option) option"
  le_model_ref :: string
  le_max_output :: nat
  le_compaction :: "'w \<Rightarrow> compaction_env"
  le_delays :: "nat list"
  le_max_turns :: nat
  le_max_stop :: nat
  le_wrap_up :: "string option"

definition max_continuations :: nat where "max_continuations = 3"
definition failing_repeat_limit :: nat where "failing_repeat_limit = 3"
definition any_repeat_limit :: nat where "any_repeat_limit = 5"
definition max_parallel_calls :: nat where "max_parallel_calls = 8"

section \<open>Helpers\<close>

definition text_of :: "content_block list \<Rightarrow> string" where
  "text_of content = trim (concat (List.map_filter block_text content))"

definition first_line :: "string \<Rightarrow> string" where
  "first_line text = (case find_index (\<lambda>l. trim l \<noteq> []) (lines_of text) of
     None \<Rightarrow> [] | Some i \<Rightarrow> trim (lines_of text ! i))"

fun block_call :: "content_block \<Rightarrow> call_ref option" where
  "block_call (ToolCall i name input) = Some \<lparr>cl_id = i, cl_name = name, cl_input = input\<rparr>"
| "block_call _ = None"

definition calls_of :: "content_block list \<Rightarrow> call_ref list" where
  "calls_of content = List.map_filter block_call content"

text \<open>\<open>partition\<close>: the current run of parallel calls is the first argument.\<close>

fun partition_acc :: "('a \<Rightarrow> bool) \<Rightarrow> 'a list \<Rightarrow> 'a list \<Rightarrow> 'a list list" where
  "partition_acc par current [] = (if current \<noteq> [] then [current] else [])"
| "partition_acc par current (x # xs) =
     (if par x then partition_acc par (current @ [x]) xs
      else (if current \<noteq> [] then [current] else []) @ [x] # partition_acc par [] xs)"

definition partition_calls :: "('a \<Rightarrow> bool) \<Rightarrow> 'a list \<Rightarrow> 'a list list" where
  "partition_calls par xs = partition_acc par [] xs"

subsection \<open>Calls that run at the same time\<close>

text \<open>
  \<open>mapLimit\<close>: workers that each take the next index, wait for its result and store it, until none is
  left. A state has the next index, what each worker is doing and the results so far; a step is one
  worker taking an index, finishing one, or leaving its loop.
\<close>

datatype worker = Idle | Busy nat | Gone

record 'b ml_state =
  ml_next :: nat
  ml_workers :: "worker list"
  ml_results :: "'b option list"

definition ml_start :: "nat \<Rightarrow> nat \<Rightarrow> 'b ml_state" where
  "ml_start n most = \<lparr>ml_next = 0, ml_workers = replicate (max 1 (min most n)) Idle, ml_results = replicate n None\<rparr>"

inductive ml_step :: "('a \<Rightarrow> nat \<Rightarrow> 'b) \<Rightarrow> 'a list \<Rightarrow> 'b ml_state \<Rightarrow> 'b ml_state \<Rightarrow> bool"
  for fn :: "'a \<Rightarrow> nat \<Rightarrow> 'b" and items :: "'a list" where
  take_next: "k < length (ml_workers s) \<Longrightarrow> ml_workers s ! k = Idle \<Longrightarrow> ml_next s < length items \<Longrightarrow>
    ml_step fn items s (s\<lparr>ml_next := Suc (ml_next s), ml_workers := (ml_workers s)[k := Busy (ml_next s)]\<rparr>)"
| finish_one: "k < length (ml_workers s) \<Longrightarrow> ml_workers s ! k = Busy i \<Longrightarrow>
    ml_step fn items s (s\<lparr>ml_workers := (ml_workers s)[k := Idle],
      ml_results := (ml_results s)[i := Some (fn (items ! i) i)]\<rparr>)"
| leave: "k < length (ml_workers s) \<Longrightarrow> ml_workers s ! k = Idle \<Longrightarrow> \<not> ml_next s < length items \<Longrightarrow>
    ml_step fn items s (s\<lparr>ml_workers := (ml_workers s)[k := Gone]\<rparr>)"

inductive_cases ml_stepE: "ml_step fn items s s'"

text \<open>\<open>stableStringify\<close>: object keys sorted by code unit, absent values left out.\<close>

fun stable_stringify :: "json \<Rightarrow> string" where
  "stable_stringify JUndef = ''undefined''"
| "stable_stringify (JArr xs) = ''['' @ join '','' (map stable_stringify xs) @ '']''"
| "stable_stringify (JObj kvs) =
     ''{'' @ join '','' (map (\<lambda>(k, v). json_quote k @ '':'' @ v)
        (sort_key fst (map (\<lambda>(k, v). (k, stable_stringify v)) (filter (\<lambda>(k, v). v \<noteq> JUndef) kvs)))) @ ''}''"
| "stable_stringify v = json_str v"

subsection \<open>Noticing repetition\<close>

record last_call =
  lc_signature :: string
  lc_name :: string
  lc_count :: nat
  lc_failures :: nat
  lc_error :: string

record repeat_tracker =
  rt_last :: "last_call option"
  rt_pending :: "string list"

definition new_tracker :: repeat_tracker where
  "new_tracker = \<lparr>rt_last = None, rt_pending = []\<rparr>"

definition failing_warning :: "string \<Rightarrow> nat \<Rightarrow> string \<Rightarrow> string" where
  "failing_warning name failures err =
     ''You have made the same `'' @ name @ ''` call '' @ nat_str failures
     @ '' times in a row and it failed every time with:'' @ [u_lf] @ clamp_cut (first_line err) 300 @ [u_lf]
     @ ''Repeating it will not change the result. Stop and re-examine: re-read the file or output involved, check the assumption the call rests on, and try a different approach.''"

definition repeat_warning :: "string \<Rightarrow> nat \<Rightarrow> string" where
  "repeat_warning name count =
     ''You have made the identical `'' @ name @ ''` call '' @ nat_str count
     @ '' times in a row. Its result has not changed. Use what it returned, or do something different.''"

definition next_last :: "last_call option \<Rightarrow> string \<Rightarrow> json \<Rightarrow> tool_result \<Rightarrow> last_call" where
  "next_last l name input result =
     (let signature = name @ '':'' @ stable_stringify input;
          fresh = \<lparr>lc_signature = signature, lc_name = name, lc_count = 1,
                   lc_failures = (if tr_error result then 1 else 0),
                   lc_error = (if tr_error result then tr_output result else [])\<rparr>
      in case l of
           None \<Rightarrow> fresh
         | Some c \<Rightarrow>
             if lc_signature c = signature
             then c\<lparr>lc_count := lc_count c + 1,
                    lc_failures := (if tr_error result then lc_failures c + 1 else 0),
                    lc_error := (if tr_error result then tr_output result else lc_error c)\<rparr>
             else fresh)"

definition record_repeat :: "string \<Rightarrow> json \<Rightarrow> tool_result \<Rightarrow> repeat_tracker \<Rightarrow> repeat_tracker" where
  "record_repeat name input result rt =
     (let c = next_last (rt_last rt) name input result;
          new = (if lc_failures c = failing_repeat_limit
                 then [failing_warning name (lc_failures c) (lc_error c)]
                 else if lc_count c = any_repeat_limit then [repeat_warning name (lc_count c)]
                 else [])
      in \<lparr>rt_last = Some c, rt_pending = rt_pending rt @ new\<rparr>)"

definition take_warnings :: "repeat_tracker \<Rightarrow> string list \<times> repeat_tracker" where
  "take_warnings rt = (rt_pending rt, rt\<lparr>rt_pending := []\<rparr>)"

section \<open>State\<close>

record 'w loop_state =
  ls_store :: event_store
  ls_world :: 'w
  ls_turns :: nat
  ls_calls :: nat
  ls_text :: string
  ls_conts :: nat
  ls_stops :: nat
  ls_nudged :: bool
  ls_repeats :: repeat_tracker

datatype finish_reason = Complete | MaxTurns | AbortedRun | ErrorRun

record loop_result =
  lr_text :: string
  lr_turns :: nat
  lr_stop :: finish_reason
  lr_calls :: nat
  lr_files :: "string list"
  lr_error :: "string option"

definition finish :: "finish_reason \<Rightarrow> string option \<Rightarrow> 'w loop_state \<Rightarrow> loop_result" where
  "finish reason err st =
     \<lparr>lr_text = ls_text st, lr_turns = ls_turns st, lr_stop = reason, lr_calls = ls_calls st,
      lr_files = touched_files (ls_store st), lr_error = err\<rparr>"

definition put_event :: "jean_event \<Rightarrow> 'w loop_state \<Rightarrow> 'w loop_state" where
  "put_event e st = st\<lparr>ls_store := appended e (ls_store st)\<rparr>"

definition notify :: "'w loop_env \<Rightarrow> loop_event \<Rightarrow> 'w loop_state \<Rightarrow> 'w loop_state" where
  "notify env e st = st\<lparr>ls_world := le_event env e (ls_world st)\<rparr>"

definition remind :: "'w loop_env \<Rightarrow> string \<Rightarrow> string \<Rightarrow> 'w loop_state \<Rightarrow> 'w loop_state" where
  "remind env source text st = put_event (Reminder (le_now env (ls_world st)) source text) st"

section \<open>Before the request\<close>

definition gather_reminders :: "'w loop_env \<Rightarrow> 'w \<Rightarrow> string list \<times> 'w" where
  "gather_reminders env w =
     (case le_reminders env w of
        (None, w1) \<Rightarrow> ([], w1)
      | (Some texts, w1) \<Rightarrow> (filter (\<lambda>t. trim t \<noteq> []) texts, w1))"

definition todo_mark :: "todo_status \<Rightarrow> string" where
  "todo_mark s = (case s of Completed \<Rightarrow> ''[x]'' | InProgress \<Rightarrow> ''[~]'' | Pending \<Rightarrow> ''[ ]'')"

definition compaction_appendix :: "todo list \<Rightarrow> event_store \<Rightarrow> string" where
  "compaction_appendix todos st =
     (let touched = touched_files st;
          tasks = (if todos = [] then []
                   else [unlines (''## Task list at compaction (exact)''
                     # map (\<lambda>t. ''- '' @ todo_mark (td_status t) @ '' '' @ td_text t) todos)]);
          files = (if touched = [] then []
                   else [unlines (''## Files changed so far'' # map (\<lambda>f. ''- '' @ f) (slice_last 40 touched))])
      in join [u_lf, u_lf] (tasks @ files))"

definition percent_full :: "rat option \<Rightarrow> int" where
  "percent_full r = (case r of None \<Rightarrow> 0 | Some q \<Rightarrow> \<lfloor>q * 100 + 1 / 2\<rfloor>)"

definition maybe_compact :: "'w loop_env \<Rightarrow> string \<Rightarrow> 'w loop_state \<Rightarrow> 'w loop_state" where
  "maybe_compact env system_prompt st =
     (if \<not> le_auto_compact env then st
      else (let status = measure_context_exact (le_counter env) (le_catalog env) (transcript (ls_store st))
                  system_prompt (le_model_ref env) (le_threshold env) (le_max_output env)
            in if \<not> should_compact status then st
               else (let st1 = notify env (NoticeE (''Context is '' @ int_str (percent_full (ratio status))
                       @ ''% full '' @ [u_emdash] @ '' compacting.'')) st;
                         st2 = st1\<lparr>ls_world := le_before_compact env (ls_world st1)\<rparr>
                     in case compact (le_compaction env (ls_world st2))
                          (Some (compaction_appendix (le_todos env (ls_world st2)) (ls_store st2))) (ls_store st2) of
                          (result, store') \<Rightarrow>
                            (let st3 = st2\<lparr>ls_store := store'\<rparr>
                             in case result of None \<Rightarrow> st3
                                | Some r \<Rightarrow> notify env (Compacted (c_tokens_before r) (c_tokens_after r)) st3))))"

section \<open>The request\<close>

text \<open>Consuming the stream: \<open>Inl\<close> is the error thrown, with whether it is worth retrying.\<close>

fun consume_stream :: "'w loop_env \<Rightarrow> stream_event list \<Rightarrow> response option \<Rightarrow> 'w loop_state \<Rightarrow>
    ((string \<times> bool) + response) \<times> 'w loop_state" where
  "consume_stream env [] None st = (Inl (''the model stream ended without a response'', False), st)"
| "consume_stream env [] (Some r) st = (Inr r, st)"
| "consume_stream env (SText d # es) r st = consume_stream env es r (notify env (TextDelta d) st)"
| "consume_stream env (SThinking d # es) r st = consume_stream env es r (notify env (ThinkingDelta d) st)"
| "consume_stream env (SOther # es) r st = consume_stream env es r st"
| "consume_stream env (SError m retryable # es) r st = (Inl (m, retryable), st)"
| "consume_stream env (SDone resp hits # es) r st =
     consume_stream env es (Some resp)
       (fold (\<lambda>hit st. notify env (NoticeE hit)
          (put_event (AdvisorNote (le_now env (ls_world st)) Concern hit) st)) hits st)"

definition stream_turn :: "'w loop_env \<Rightarrow> request \<Rightarrow> 'w loop_state \<Rightarrow>
    ((string \<times> bool) + response) \<times> 'w loop_state" where
  "stream_turn env req st =
     (case le_stream env req (ls_world st) of
        (es, w1) \<Rightarrow> consume_stream env es None (st\<lparr>ls_world := w1\<rparr>))"

definition retry_notice :: "string \<Rightarrow> nat \<Rightarrow> nat \<Rightarrow> nat \<Rightarrow> string" where
  "retry_notice message delay attempt n_delays =
     first_line message @ '' '' @ [u_emdash] @ '' retrying in '' @ nat_str ((delay + 500) div 1000) @ ''s (''
     @ nat_str (attempt + 1) @ ''/'' @ nat_str n_delays @ '')''"

definition give_up :: "'w loop_env \<Rightarrow> string \<Rightarrow> 'w loop_state \<Rightarrow> (loop_result + response) \<times> 'w loop_state" where
  "give_up env message st =
     (let st1 = notify env (LoopError message True)
                  (put_event (ErrorE (le_now env (ls_world st)) message True) st)
      in (Inl (finish ErrorRun (Some message) st1), st1))"

text \<open>The retry loop; the delays still to come are the recursion's argument.\<close>

fun send_turn :: "'w loop_env \<Rightarrow> request \<Rightarrow> nat list \<Rightarrow> nat \<Rightarrow> 'w loop_state \<Rightarrow>
    (loop_result + response) \<times> 'w loop_state" where
  "send_turn env req [] attempt st =
     (case stream_turn env req st of
        (Inr r, st1) \<Rightarrow> (Inr r, st1)
      | (Inl (message, retryable), st1) \<Rightarrow>
          if le_aborted env (ls_world st1)
          then (Inl (finish AbortedRun (Some ''The run was interrupted.'') st1), st1)
          else give_up env message st1)"
| "send_turn env req (delay # later) attempt st =
     (case stream_turn env req st of
        (Inr r, st1) \<Rightarrow> (Inr r, st1)
      | (Inl (message, retryable), st1) \<Rightarrow>
          if le_aborted env (ls_world st1)
          then (Inl (finish AbortedRun (Some ''The run was interrupted.'') st1), st1)
          else if retryable
          then (let st2 = notify env (NoticeE (retry_notice message delay attempt (length (le_delays env)))) st1
                in case le_pause env delay (ls_world st2) of
                     (True, w3) \<Rightarrow> send_turn env req later (Suc attempt) (st2\<lparr>ls_world := w3\<rparr>)
                   | (False, w3) \<Rightarrow>
                       (let st3 = st2\<lparr>ls_world := w3\<rparr>
                        in (Inl (finish AbortedRun (Some ''The run was interrupted.'') st3), st3)))
          else give_up env message st1)"

section \<open>Running the calls\<close>

definition safe_summarize :: "'w tool option \<Rightarrow> call_ref \<Rightarrow> 'w \<Rightarrow> string" where
  "safe_summarize t c w =
     (case t of None \<Rightarrow> cl_name c
      | Some tool \<Rightarrow> (case t_summarize tool of None \<Rightarrow> cl_name c
          | Some f \<Rightarrow> (case f (cl_input c) w of None \<Rightarrow> cl_name c | Some s \<Rightarrow> s)))"

text \<open>\<open>runOne\<close>: \<open>None\<close> when the registry threw, which takes the turn down.\<close>

definition run_one :: "'w loop_env \<Rightarrow> call_ref \<Rightarrow> 'w \<Rightarrow> (tool_result \<times> nat) option \<times> 'w" where
  "run_one env c w =
     (let started = le_now env w
      in case le_before_tool env c w of
           (before, w1) \<Rightarrow>
             (let denied = (case before of Some b \<Rightarrow> truthy (bd_deny b) | None \<Rightarrow> False)
              in if denied
                then (Some (error_result (the (bd_deny (the before))), le_now env w1 - started), w1)
                else (let input = (case before of None \<Rightarrow> cl_input c
                        | Some b \<Rightarrow> (case bd_input b of None \<Rightarrow> cl_input c | Some i \<Rightarrow> i));
                          opts = (case before of None \<Rightarrow> \<lparr>co_approve = False, co_ask = None\<rparr>
                        | Some b \<Rightarrow> \<lparr>co_approve = bd_approve b, co_ask = bd_ask b\<rparr>)
                      in case call_tool (le_registry env) (cl_name c) input (le_context env) opts w1 of
                           (Inl _, _, w2) \<Rightarrow> (None, w2)
                         | (Inr result, _, w2) \<Rightarrow>
                             (case le_after_tool env (c\<lparr>cl_input := input\<rparr>) result w2 of
                                (after, w3) \<Rightarrow>
                                  (let result' = (if truthy after
                                       then result\<lparr>tr_output := tr_output result @ [u_lf, u_lf] @ the after\<rparr>
                                       else result)
                                   in (Some (result', le_now env w3 - started), w3))))))"

definition start_call :: "'w loop_env \<Rightarrow> call_ref \<Rightarrow> 'w loop_state \<Rightarrow> 'w loop_state" where
  "start_call env c st =
     (let st1 = put_event (ToolCallE (le_now env (ls_world st)) (cl_id c) (cl_name c) (cl_input c))
                  (st\<lparr>ls_calls := ls_calls st + 1\<rparr>)
      in notify env (ToolStart (cl_id c) (cl_name c) (cl_input c)
           (safe_summarize (get_tool (le_registry env) (cl_name c)) c (ls_world st1))) st1)"

definition end_call :: "'w loop_env \<Rightarrow> call_ref \<times> (tool_result \<times> nat) \<Rightarrow> 'w loop_state \<Rightarrow> 'w loop_state" where
  "end_call env cr st =
     (case cr of (c, result, duration) \<Rightarrow>
        (let st1 = put_event (ToolResultE (le_now env (ls_world st)) (cl_id c) (cl_name c) (tr_output result)
                     (tr_error result) (Some duration) (tr_touched result)) st;
             st2 = notify env (ToolEnd (cl_id c) (cl_name c) result duration) st1
         in st2\<lparr>ls_repeats := record_repeat (cl_name c) (cl_input c) result (ls_repeats st2)\<rparr>))"

definition interrupt_call :: "'w loop_env \<Rightarrow> call_ref \<Rightarrow> 'w loop_state \<Rightarrow> 'w loop_state" where
  "interrupt_call env c st =
     put_event (ToolResultE (le_now env (ls_world st)) (cl_id c) (cl_name c)
         ''Interrupted by the user before this ran.'' True None [])
       (put_event (ToolCallE (le_now env (ls_world st)) (cl_id c) (cl_name c) (cl_input c)) st)"

text \<open>One batch; \<open>False\<close> when a call threw.\<close>

definition run_batch :: "'w loop_env \<Rightarrow> call_ref list \<Rightarrow> 'w loop_state \<Rightarrow> bool \<times> 'w loop_state" where
  "run_batch env batch st =
     (let st1 = fold (start_call env) batch st
      in case run_list (run_one env) batch (ls_world st1) of
           (results, w2) \<Rightarrow>
             (let st2 = st1\<lparr>ls_world := w2\<rparr>
              in if None \<in> set results then (False, st2)
                 else (True, fold (end_call env) (zip batch (map the results)) st2)))"

datatype calls_outcome = CallsOk | CallsAborted | CallsThrew

fun run_batches :: "'w loop_env \<Rightarrow> call_ref list list \<Rightarrow> 'w loop_state \<Rightarrow> calls_outcome \<times> 'w loop_state" where
  "run_batches env [] st = (CallsOk, st)"
| "run_batches env (b # bs) st =
     (if le_aborted env (ls_world st) then (CallsAborted, fold (interrupt_call env) (concat (b # bs)) st)
      else case run_batch env b st of
          (False, st1) \<Rightarrow> (CallsThrew, st1)
        | (True, st1) \<Rightarrow> run_batches env bs st1)"

definition call_in_parallel :: "'w loop_env \<Rightarrow> call_ref \<Rightarrow> bool" where
  "call_in_parallel env c = (case get_tool (le_registry env) (cl_name c) of None \<Rightarrow> True | Some t \<Rightarrow> runs_in_parallel t)"

definition run_calls :: "'w loop_env \<Rightarrow> call_ref list \<Rightarrow> 'w loop_state \<Rightarrow> calls_outcome \<times> 'w loop_state" where
  "run_calls env calls st = run_batches env (partition_calls (call_in_parallel env) calls) st"

section \<open>One turn\<close>

datatype turn_outcome = Continue | Finished loop_result | Threw

text \<open>\<open>prepare_turn\<close>: reminders, the warning of the last turn, compaction; then the request, \<open>None\<close> where the
  system prompt could not be built.\<close>

definition last_turn_note :: string where
  "last_turn_note = ''This is your last turn with tools. Check only what your report still needs; after this turn you will write it.''"

definition prepare_turn :: "'w loop_env \<Rightarrow> 'w loop_state \<Rightarrow> request option \<times> 'w loop_state" where
  "prepare_turn env st =
     (let st1 = notify env (TurnStart (ls_turns st + 1)) (st\<lparr>ls_turns := ls_turns st + 1\<rparr>);
          (texts, w2) = gather_reminders env (ls_world st1);
          st2 = fold (remind env ''harness'') texts (st1\<lparr>ls_world := w2\<rparr>);
          st3 = (if truthy (le_wrap_up env) \<and> le_max_turns env > 4 \<and> ls_turns st2 = le_max_turns env
                 then remind env ''turn-limit'' last_turn_note st2 else st2)
      in case le_prompt env (ls_world st3) of
           None \<Rightarrow> (None, st3)
         | Some system_prompt \<Rightarrow>
             (let st4 = maybe_compact env system_prompt st3
              in (Some \<lparr>rq_messages = trim_tool_results 8000 (transcript (ls_store st4)), rq_system = system_prompt,
                   rq_tools = schemas (le_registry env) (cx_mode (le_context env)), rq_no_tool_choice = False\<rparr>, st4)))"

definition cut_off_note :: string where
  "cut_off_note = ''Your response was cut off by the output token limit. Continue exactly where it stopped, without repeating what you already wrote.''"

definition empty_note :: string where
  "empty_note = ''Your last response was empty. Continue working on the task, or state plainly that it is complete and what you verified.''"

definition cut_call_note :: string where
  "cut_call_note = ''Your last response hit the output token limit, so its final tool call may have been cut off. Keep each call smaller '' @ [u_emdash]
     @ '' for a large file, `write` a skeleton and fill it with `edit`s.''"

text \<open>The model called no tool: continue a cut-off answer, nudge an empty one, ask the stop hook.\<close>

definition maybe_stop :: "'w loop_env \<Rightarrow> response \<Rightarrow> 'w loop_state \<Rightarrow> turn_outcome \<times> 'w loop_state" where
  "maybe_stop env resp st =
     (if rs_stop resp = Length \<and> ls_conts st < max_continuations
      then (Continue, remind env ''truncation'' cut_off_note (st\<lparr>ls_conts := ls_conts st + 1\<rparr>))
      else if text_of (rs_content resp) = [] \<and> \<not> ls_nudged st \<and> ls_turns st > 1
      then (Continue, remind env ''empty-response'' empty_note (st\<lparr>ls_nudged := True\<rparr>))
      else case le_before_stop env (ls_text st) (ls_world st) of
          (verdict, w1) \<Rightarrow>
            (let st1 = st\<lparr>ls_world := w1\<rparr>
             in if truthy verdict \<and> ls_stops st1 < le_max_stop env
                then (Continue, notify env (NoticeE (''Not done yet: '' @ first_line (the verdict)))
                       (remind env ''stop-hook'' (the verdict) (st1\<lparr>ls_stops := ls_stops st1 + 1\<rparr>)))
                else (Finished (finish Complete None st1), st1)))"

definition after_calls :: "'w loop_env \<Rightarrow> response \<Rightarrow> 'w loop_state \<Rightarrow> 'w loop_state" where
  "after_calls env resp st =
     (let st1 = (if rs_stop resp = Length then remind env ''truncation'' cut_call_note st else st);
          (warnings, rt) = take_warnings (ls_repeats st1)
      in fold (\<lambda>wn s. notify env (NoticeE (first_line wn)) (remind env ''repeat'' wn s)) warnings
           (st1\<lparr>ls_repeats := rt\<rparr>))"

definition take_response :: "'w loop_env \<Rightarrow> response \<Rightarrow> 'w loop_state \<Rightarrow> 'w loop_state" where
  "take_response env resp st =
     (let st1 = put_event (AssistantMessage (le_now env (ls_world st)) (rs_content resp) (Some (rs_usage resp))
                  (Some (rs_model resp))) st;
          st2 = (if text_of (rs_content resp) \<noteq> [] then st1\<lparr>ls_text := text_of (rs_content resp)\<rparr> else st1)
      in notify env (TurnEnd (ls_turns st2) (stop_str (rs_stop resp))) st2)"

definition turn_step :: "'w loop_env \<Rightarrow> 'w loop_state \<Rightarrow> turn_outcome \<times> 'w loop_state" where
  "turn_step env st =
     (if le_aborted env (ls_world st)
      then (Finished (finish AbortedRun (Some ''The run was interrupted.'') st), st)
      else case prepare_turn env st of
          (None, st1) \<Rightarrow> (Threw, st1)
        | (Some req, st1) \<Rightarrow>
            (case send_turn env req (le_delays env) 0 st1 of
               (Inl r, st2) \<Rightarrow> (Finished r, st2)
             | (Inr resp, st2) \<Rightarrow>
                 (let st3 = take_response env resp st2; calls = calls_of (rs_content resp)
                  in if calls = [] then maybe_stop env resp st3
                     else case run_calls env calls (st3\<lparr>ls_conts := 0\<rparr>) of
                         (CallsThrew, st4) \<Rightarrow> (Threw, st4)
                       | (CallsAborted, st4) \<Rightarrow>
                           (Finished (finish AbortedRun (Some ''The run was interrupted.'') st4), st4)
                       | (CallsOk, st4) \<Rightarrow> (Continue, after_calls env resp st4))))"

section \<open>The loop\<close>

fun consume_closing :: "'w loop_env \<Rightarrow> stream_event list \<Rightarrow> response option \<Rightarrow> 'w loop_state \<Rightarrow>
    response option option \<times> 'w loop_state" where
  "consume_closing env [] r st = (Some r, st)"
| "consume_closing env (SText d # es) r st = consume_closing env es r (notify env (TextDelta d) st)"
| "consume_closing env (SError m retryable # es) r st = (None, st)"
| "consume_closing env (SDone resp hits # es) r st = consume_closing env es (Some resp) st"
| "consume_closing env (SThinking d # es) r st = consume_closing env es r st"
| "consume_closing env (SOther # es) r st = consume_closing env es r st"

text \<open>\<open>closingTurn\<close>: the system prompt is built outside the \<open>try\<close>, the outer \<open>None\<close>; a stream that fails, or an
  answer with no words, gives nothing, the inner one.\<close>

definition closing_request :: "'w loop_env \<Rightarrow> 'w loop_state \<Rightarrow> string \<Rightarrow> request" where
  "closing_request env st system_prompt =
     \<lparr>rq_messages = trim_tool_results 8000 (transcript (ls_store st)), rq_system = system_prompt,
      rq_tools = schemas (le_registry env) (cx_mode (le_context env)), rq_no_tool_choice = True\<rparr>"

definition closing_answer :: "'w loop_env \<Rightarrow> request \<Rightarrow> 'w loop_state \<Rightarrow> string option \<times> 'w loop_state" where
  "closing_answer env req st =
     (case le_stream env req (ls_world st) of
        (es, w2) \<Rightarrow>
          (case consume_closing env es None (st\<lparr>ls_world := w2\<rparr>) of
             (None, st2) \<Rightarrow> (None, st2)
           | (Some r, st2) \<Rightarrow>
               (let content = (case r of None \<Rightarrow> [] | Some resp \<Rightarrow> filter (\<lambda>b. block_call b = None) (rs_content resp));
                    text = text_of content
                in if text = [] then (None, st2)
                   else (Some text, put_event (AssistantMessage (le_now env (ls_world st2)) content
                          (map_option rs_usage r) (map_option rs_model r)) st2))))"

definition closing_turn :: "'w loop_env \<Rightarrow> string \<Rightarrow> 'w loop_state \<Rightarrow> string option option \<times> 'w loop_state" where
  "closing_turn env question st =
     (let st1 = remind env ''turn-limit'' question st
      in case le_prompt env (ls_world st1) of
           None \<Rightarrow> (None, st1)
         | Some system_prompt \<Rightarrow>
             (case closing_answer env (closing_request env st1 system_prompt) st1 of
                (answer, st2) \<Rightarrow> (Some answer, st2)))"

definition out_of_turns :: "'w loop_env \<Rightarrow> 'w loop_state \<Rightarrow> loop_result option \<times> 'w loop_state" where
  "out_of_turns env st =
     (let stopped = finish MaxTurns (Some (''Stopped after '' @ nat_str (le_max_turns env) @ '' turns without finishing.''))
      in if truthy (le_wrap_up env) \<and> \<not> le_aborted env (ls_world st)
         then (case closing_turn env (the (le_wrap_up env)) st of
                 (Some (Some closing), st1) \<Rightarrow>
                   (let st2 = st1\<lparr>ls_text := closing\<rparr> in (Some (finish MaxTurns None st2), st2))
               | (Some None, st1) \<Rightarrow> (Some (stopped st1), st1)
               | (None, st1) \<Rightarrow> (None, st1))
         else (Some (stopped st), st))"

text \<open>
  The while loop, which tests the turns counted so far on every pass; nothing but the counting makes it end. The
  value is \<open>None\<close> for a loop that never ends; a run that ends has a result or, the inner \<open>None\<close>, has thrown.
\<close>

partial_function (option) run_turns :: "'w loop_env \<Rightarrow> 'w loop_state \<Rightarrow> (loop_result option \<times> 'w loop_state) option" where
  "run_turns env st =
     (if ls_turns st < le_max_turns env
      then (case turn_step env st of
              (Continue, st1) \<Rightarrow> run_turns env st1
            | (Finished r, st1) \<Rightarrow> Some (Some r, st1)
            | (Threw, st1) \<Rightarrow> Some (None, st1))
      else Some (out_of_turns env st))"

declare run_turns.simps [code]

definition initial_state :: "event_store \<Rightarrow> 'w \<Rightarrow> 'w loop_state" where
  "initial_state store w = \<lparr>ls_store = store, ls_world = w, ls_turns = 0, ls_calls = 0, ls_text = [],
     ls_conts = 0, ls_stops = 0, ls_nudged = False, ls_repeats = new_tracker\<rparr>"

definition run_loop :: "'w loop_env \<Rightarrow> event_store \<Rightarrow> 'w \<Rightarrow> (loop_result option \<times> 'w loop_state) option" where
  "run_loop env store w = run_turns env (initial_state store w)"

end
