(* ===== verification/LoopParts.thy ===== *)
theory LoopParts
  imports AgentLoop "HOL-Library.Multiset"
begin

text \<open>
  The parts of the loop that stand alone: batching the calls of a turn, the concurrent runner of
  \<open>mapLimit\<close> as a step relation, and the repetition tracker with the signature it compares.
\<close>

section \<open>Batches\<close>

lemma concat_partition_acc: "concat (partition_acc par current xs) = current @ xs"
  by (induction par current xs rule: partition_acc.induct) auto

lemma concat_partition [simp]: "concat (partition_calls par xs) = xs"
  by (simp add: partition_calls_def concat_partition_acc)

definition batch_ok :: "('a \<Rightarrow> bool) \<Rightarrow> 'a list \<Rightarrow> bool" where
  "batch_ok par b = (b \<noteq> [] \<and> (list_all par b \<or> (\<exists>x. b = [x] \<and> \<not> par x)))"

lemma partition_acc_ok: "list_all par current \<Longrightarrow> list_all (batch_ok par) (partition_acc par current xs)"
  by (induction par current xs rule: partition_acc.induct) (auto simp: batch_ok_def)

text \<open>Batches are as long as they can be: two that only read are never neighbours.\<close>

lemma partition_acc_hd:
  "current \<noteq> [] \<Longrightarrow> list_all par current \<Longrightarrow> partition_acc par current xs \<noteq> [] \<and> prefix current (hd (partition_acc par current xs))"
proof (induction par current xs rule: partition_acc.induct)
  case (2 par current x xs)
  then show ?case by (cases "par x") (auto dest: append_prefixD)
qed auto

lemma partition_acc_maximal:
  "list_all par current \<Longrightarrow> successively (\<lambda>a b. \<not> (list_all par a \<and> list_all par b)) (partition_acc par current xs)"
proof (induction par current xs rule: partition_acc.induct)
  case (2 par current x xs)
  show ?case
  proof (cases "par x")
    case False
    from 2 False have "successively (\<lambda>a b. \<not> (list_all par a \<and> list_all par b)) (partition_acc par [] xs)" by simp
    then have "successively (\<lambda>a b. \<not> (list_all par a \<and> list_all par b)) ([x] # partition_acc par [] xs)"
      using False by (cases "partition_acc par [] xs") auto
    with False show ?thesis by simp
  qed (use 2 in simp)
qed simp

section \<open>The concurrent runner\<close>

definition busy_at :: "worker list \<Rightarrow> nat \<Rightarrow> nat set" where
  "busy_at ws i = {k. k < length ws \<and> ws ! k = Busy i}"

text \<open>
  Every index below the next one is either with exactly one worker and has no result, or with none
  and has its result; the others are untouched.
\<close>

definition ml_inv :: "('a \<Rightarrow> nat \<Rightarrow> 'b) \<Rightarrow> 'a list \<Rightarrow> nat \<Rightarrow> 'b ml_state \<Rightarrow> bool" where
  "ml_inv fn items m s \<longleftrightarrow>
     length (ml_workers s) = m \<and> length (ml_results s) = length items \<and> ml_next s \<le> length items
     \<and> (\<forall>k l i. k < m \<longrightarrow> l < m \<longrightarrow> ml_workers s ! k = Busy i \<longrightarrow> ml_workers s ! l = Busy i \<longrightarrow> k = l)
     \<and> (\<forall>k i. k < m \<longrightarrow> ml_workers s ! k = Busy i \<longrightarrow> i < ml_next s)
     \<and> (\<forall>i<ml_next s. (\<exists>k<m. ml_workers s ! k = Busy i) \<or> ml_results s ! i = Some (fn (items ! i) i))
     \<and> ((\<exists>k<m. ml_workers s ! k = Gone) \<longrightarrow> ml_next s = length items)"

lemma ml_invI:
  assumes "length (ml_workers s) = m" "length (ml_results s) = length items" "ml_next s \<le> length items"
    and "\<And>k l i. k < m \<Longrightarrow> l < m \<Longrightarrow> ml_workers s ! k = Busy i \<Longrightarrow> ml_workers s ! l = Busy i \<Longrightarrow> k = l"
    and "\<And>k i. k < m \<Longrightarrow> ml_workers s ! k = Busy i \<Longrightarrow> i < ml_next s"
    and "\<And>i. i < ml_next s \<Longrightarrow> (\<exists>k<m. ml_workers s ! k = Busy i) \<or> ml_results s ! i = Some (fn (items ! i) i)"
    and "\<And>k. k < m \<Longrightarrow> ml_workers s ! k = Gone \<Longrightarrow> ml_next s = length items"
  shows "ml_inv fn items m s"
  unfolding ml_inv_def using assms by blast

lemma ml_inv_start: "ml_inv fn items (max 1 (min most (length items))) (ml_start (length items) most)"
proof -
  have "ml_inv fn items m \<lparr>ml_next = 0, ml_workers = replicate m Idle, ml_results = replicate (length items) None\<rparr>" for m
    by (rule ml_invI) simp_all
  then show ?thesis by (simp add: ml_start_def)
qed

lemma ml_inv_len:
  assumes "ml_inv fn items m s"
  shows "length (ml_workers s) = m" "length (ml_results s) = length items" "ml_next s \<le> length items"
  using assms by (simp_all add: ml_inv_def)

lemma ml_inv_one:
  "ml_inv fn items m s \<Longrightarrow> k < m \<Longrightarrow> l < m \<Longrightarrow> ml_workers s ! k = Busy i \<Longrightarrow> ml_workers s ! l = Busy i \<Longrightarrow> k = l"
  unfolding ml_inv_def by blast

lemma ml_inv_below: "ml_inv fn items m s \<Longrightarrow> k < m \<Longrightarrow> ml_workers s ! k = Busy i \<Longrightarrow> i < ml_next s"
  unfolding ml_inv_def by blast

lemma ml_inv_served:
  "ml_inv fn items m s \<Longrightarrow> i < ml_next s
    \<Longrightarrow> (\<exists>k<m. ml_workers s ! k = Busy i) \<or> ml_results s ! i = Some (fn (items ! i) i)"
  unfolding ml_inv_def by blast

lemma ml_inv_gone: "ml_inv fn items m s \<Longrightarrow> k < m \<Longrightarrow> ml_workers s ! k = Gone \<Longrightarrow> ml_next s = length items"
  unfolding ml_inv_def by blast

text \<open>An index stays served when one worker, not busy with it, changes and its result is kept.\<close>

lemma served_survives:
  assumes "(\<exists>l<m. ws ! l = Busy j) \<or> rs ! j = Some r"
    and "ws ! k \<noteq> Busy j" and "length ws = m" and "rs' ! j = rs ! j"
  shows "(\<exists>l<m. ws[k := w] ! l = Busy j) \<or> rs' ! j = Some r"
  using assms(1)
proof (elim disjE exE conjE)
  fix l assume l: "l < m" "ws ! l = Busy j"
  with assms have "l \<noteq> k" by auto
  with l assms(3) show ?thesis by (intro disjI1 exI [of _ l]) simp
qed (use assms(4) in simp)

lemma ml_inv_take:
  assumes inv: "ml_inv fn items m s" and k: "k < m" "ml_workers s ! k = Idle" "ml_next s < length items"
  shows "ml_inv fn items m (s\<lparr>ml_next := Suc (ml_next s), ml_workers := (ml_workers s)[k := Busy (ml_next s)]\<rparr>)"
    (is "ml_inv _ _ _ ?s")
proof (rule ml_invI)
  note len = ml_inv_len [OF inv]
  show "l1 = l2" if "l1 < m" "l2 < m" "ml_workers ?s ! l1 = Busy i" "ml_workers ?s ! l2 = Busy i" for l1 l2 i
    using that k len ml_inv_one [OF inv, of l1 l2 i] ml_inv_below [OF inv, of l1 i] ml_inv_below [OF inv, of l2 i]
    by (auto simp: nth_list_update split: if_splits)
  show "i < ml_next ?s" if "l < m" "ml_workers ?s ! l = Busy i" for l i
    using that k len ml_inv_below [OF inv, of l i] by (auto simp: nth_list_update split: if_splits)
  show "ml_next ?s = length items" if "l < m" "ml_workers ?s ! l = Gone" for l
    using that k len ml_inv_gone [OF inv, of l] by (auto simp: nth_list_update split: if_splits)
  show "(\<exists>l<m. ml_workers ?s ! l = Busy i) \<or> ml_results ?s ! i = Some (fn (items ! i) i)" if "i < ml_next ?s" for i
  proof (cases "i = ml_next s")
    case True
    with k len show ?thesis by (intro disjI1 exI [of _ k]) simp
  next
    case False
    with that have "i < ml_next s" by simp
    from served_survives [OF ml_inv_served [OF inv this], of k] k len show ?thesis by simp
  qed
qed (use ml_inv_len [OF inv] k in simp_all)

lemma ml_inv_finish:
  assumes inv: "ml_inv fn items m s" and k: "k < m" "ml_workers s ! k = Busy i"
  shows "ml_inv fn items m (s\<lparr>ml_workers := (ml_workers s)[k := Idle],
    ml_results := (ml_results s)[i := Some (fn (items ! i) i)]\<rparr>)" (is "ml_inv _ _ _ ?s")
proof (rule ml_invI)
  note len = ml_inv_len [OF inv]
  show "l1 = l2" if "l1 < m" "l2 < m" "ml_workers ?s ! l1 = Busy j" "ml_workers ?s ! l2 = Busy j" for l1 l2 j
    using that k len ml_inv_one [OF inv, of l1 l2 j] by (auto simp: nth_list_update split: if_splits)
  show "j < ml_next ?s" if "l < m" "ml_workers ?s ! l = Busy j" for l j
    using that k len ml_inv_below [OF inv, of l j] by (auto simp: nth_list_update split: if_splits)
  show "ml_next ?s = length items" if "l < m" "ml_workers ?s ! l = Gone" for l
    using that k len ml_inv_gone [OF inv, of l] by (auto simp: nth_list_update split: if_splits)
  show "(\<exists>l<m. ml_workers ?s ! l = Busy j) \<or> ml_results ?s ! j = Some (fn (items ! j) j)" if "j < ml_next ?s" for j
  proof (cases "j = i")
    case True
    with ml_inv_below [OF inv k] len show ?thesis by simp
  next
    case False
    from that have "j < ml_next s" by simp
    from served_survives [OF ml_inv_served [OF inv this], of k] False k len show ?thesis by simp
  qed
qed (use ml_inv_len [OF inv] in simp_all)

lemma ml_inv_leave:
  assumes inv: "ml_inv fn items m s" and k: "k < m" "ml_workers s ! k = Idle" "\<not> ml_next s < length items"
  shows "ml_inv fn items m (s\<lparr>ml_workers := (ml_workers s)[k := Gone]\<rparr>)" (is "ml_inv _ _ _ ?s")
proof (rule ml_invI)
  note len = ml_inv_len [OF inv]
  show "l1 = l2" if "l1 < m" "l2 < m" "ml_workers ?s ! l1 = Busy j" "ml_workers ?s ! l2 = Busy j" for l1 l2 j
    using that k len ml_inv_one [OF inv, of l1 l2 j] by (auto simp: nth_list_update split: if_splits)
  show "j < ml_next ?s" if "l < m" "ml_workers ?s ! l = Busy j" for l j
    using that k len ml_inv_below [OF inv, of l j] by (auto simp: nth_list_update split: if_splits)
  show "ml_next ?s = length items" if "l < m" "ml_workers ?s ! l = Gone" for l
    using k len by simp
  show "(\<exists>l<m. ml_workers ?s ! l = Busy j) \<or> ml_results ?s ! j = Some (fn (items ! j) j)" if "j < ml_next ?s" for j
  proof -
    from that have "j < ml_next s" by simp
    from served_survives [OF ml_inv_served [OF inv this], of k] k len show ?thesis by simp
  qed
qed (use ml_inv_len [OF inv] in simp_all)

lemma ml_inv_step:
  assumes "ml_step fn items s s'" and "ml_inv fn items m s"
  shows "ml_inv fn items m s'"
  using assms(1)
  by (rule ml_stepE)
    (use assms(2) ml_inv_len [OF assms(2)] in \<open>auto simp: ml_inv_take ml_inv_finish ml_inv_leave\<close>)

lemma ml_inv_reach: "(ml_step fn items)\<^sup>*\<^sup>* s s' \<Longrightarrow> ml_inv fn items m s \<Longrightarrow> ml_inv fn items m s'"
  by (induction rule: rtranclp_induct) (auto intro: ml_inv_step)

text \<open>Every step uses up some of this measure, so no schedule runs forever.\<close>

fun worker_weight :: "worker \<Rightarrow> nat" where
  "worker_weight Idle = 1"
| "worker_weight (Busy _) = 2"
| "worker_weight Gone = 0"

definition ml_measure :: "'a list \<Rightarrow> 'b ml_state \<Rightarrow> nat" where
  "ml_measure items s = 2 * (length items - ml_next s) + sum_list (map worker_weight (ml_workers s))"

lemma sum_list_update_nat: "k < length xs \<Longrightarrow> sum_list (xs[k := (v::nat)]) + xs ! k = sum_list xs + v"
  by (induction xs arbitrary: k) (auto split: nat.splits)

lemma ml_measure_step: "ml_step fn items s s' \<Longrightarrow> ml_measure items s' < ml_measure items s"
proof (induction rule: ml_step.induct)
  case (take_next k s)
  with sum_list_update_nat [of k "map worker_weight (ml_workers s)" 2] show ?case
    by (simp add: ml_measure_def map_update)
next
  case (finish_one k s i)
  with sum_list_update_nat [of k "map worker_weight (ml_workers s)" 1] show ?case
    by (simp add: ml_measure_def map_update)
next
  case (leave k s)
  with sum_list_update_nat [of k "map worker_weight (ml_workers s)" 0] show ?case
    by (simp add: ml_measure_def map_update)
qed

lemma ml_progress:
  assumes "list_ex (\<lambda>w. w \<noteq> Gone) (ml_workers s)"
  shows "\<exists>s'. ml_step fn items s s'"
proof -
  obtain k where k: "k < length (ml_workers s)" "ml_workers s ! k \<noteq> Gone"
    using assms by (auto simp: list_ex_length)
  show ?thesis
  proof (cases "ml_workers s ! k")
    case Idle
    with k show ?thesis using ml_step.take_next [of k s items fn] ml_step.leave [of k s items fn] by blast
  next
    case (Busy i)
    with k show ?thesis using ml_step.finish_one [of k s i fn items] by blast
  qed (use k in simp)
qed

lemma busy_bound:
  "length (filter (\<lambda>w. case w of Busy _ \<Rightarrow> True | _ \<Rightarrow> False) ws) \<le> length ws"
  by (rule length_filter_le)

section \<open>Repetition\<close>

definition signature_of :: "string \<Rightarrow> json \<Rightarrow> string" where
  "signature_of name input = name @ '':'' @ stable_stringify input"

text \<open>The tracker after calls with one signature that all fail, or all succeed.\<close>

lemma repeats_failing:
  assumes "rt_last rt = None \<or> (\<exists>c. rt_last rt = Some c \<and> lc_signature c \<noteq> signature_of name input)"
    and "\<And>i r. (i, r) \<in> set calls \<Longrightarrow> signature_of name i = signature_of name input \<and> tr_error r = bad
      \<and> (bad \<longrightarrow> tr_output r = err)"
  shows "fold (\<lambda>(i, r). record_repeat name i r) calls rt =
    (if calls = [] then rt
     else \<lparr>rt_last = Some \<lparr>lc_signature = signature_of name input, lc_name = name, lc_count = length calls,
             lc_failures = (if bad then length calls else 0), lc_error = (if bad then err else [])\<rparr>,
           rt_pending = rt_pending rt
             @ (if bad \<and> length calls \<ge> failing_repeat_limit then [failing_warning name failing_repeat_limit err] else [])
             @ (if length calls \<ge> any_repeat_limit then [repeat_warning name any_repeat_limit] else [])\<rparr>)"
  using assms(2)
proof (induction calls rule: rev_induct)
  case (snoc x xs)
  obtain i r where x: "x = (i, r)" by (cases x)
  have sig: "name @ '':'' @ stable_stringify i = signature_of name input"
    using snoc.prems [of i r] by (simp add: x signature_of_def)
  have r: "tr_error r = bad" "bad \<Longrightarrow> tr_output r = err" using snoc.prems [of i r] by (auto simp: x)
  have IH: "fold (\<lambda>(i, r). record_repeat name i r) xs rt =
    (if xs = [] then rt
     else \<lparr>rt_last = Some \<lparr>lc_signature = signature_of name input, lc_name = name, lc_count = length xs,
             lc_failures = (if bad then length xs else 0), lc_error = (if bad then err else [])\<rparr>,
           rt_pending = rt_pending rt
             @ (if bad \<and> length xs \<ge> failing_repeat_limit then [failing_warning name failing_repeat_limit err] else [])
             @ (if length xs \<ge> any_repeat_limit then [repeat_warning name any_repeat_limit] else [])\<rparr>)"
    by (rule snoc.IH) (use snoc.prems in auto)
  have step: "fold (\<lambda>(i, r). record_repeat name i r) (xs @ [x]) rt
      = record_repeat name i r (fold (\<lambda>(i, r). record_repeat name i r) xs rt)"
    by (simp add: x)
  show ?case
  proof (cases "xs = []")
    case True
    with assms(1) r sig show ?thesis
      unfolding step IH
      by (cases bad) (auto simp: record_repeat_def Let_def next_last_def failing_repeat_limit_def
        any_repeat_limit_def split: option.splits)
  next
    case False
    with r sig show ?thesis
      unfolding step IH
      by (cases bad) (auto simp: record_repeat_def Let_def next_last_def failing_repeat_limit_def
        any_repeat_limit_def)
  qed
qed simp

text \<open>The order of an object's entries does not show in its signature.\<close>

lemma sort_key_perm:
  assumes "mset xs = mset ys" and "distinct (map fst xs)"
  shows "sort_key fst xs = sort_key fst (ys :: (string \<times> 'b) list)"
proof -
  have "inj_on fst (set xs)" using assms(2) by (simp add: distinct_map)
  moreover have "sorted (map fst (sort_key fst ys))" by simp
  ultimately show ?thesis
    using assms(1) by (intro sort_key_inj_key_eq) simp_all
qed

lemma stable_stringify_perm:
  assumes "mset kvs = mset kvs'" and "distinct (map fst kvs)"
  shows "stable_stringify (JObj kvs) = stable_stringify (JObj kvs')"
proof -
  let ?f = "\<lambda>kvs. map (\<lambda>(k, v). (k, stable_stringify v)) (filter (\<lambda>(k, v). v \<noteq> JUndef) kvs)"
  have "mset (?f kvs) = mset (?f kvs')" using assms(1) by simp
  moreover have "map fst (?f kvs) = map fst (filter (\<lambda>(k, v). v \<noteq> JUndef) kvs)" by (simp add: split_def)
  then have "distinct (map fst (?f kvs))" using assms(2) by (simp add: distinct_map_filter del: map_map)
  ultimately have "sort_key fst (?f kvs) = sort_key fst (?f kvs')" by (rule sort_key_perm)
  then show ?thesis by simp
qed

section \<open>What the parts promise\<close>

text \<open>
  The calls of one response are cut into batches that, in order, are exactly the calls the model
  made. Every batch is either one call that must run alone or a run of calls that may overlap, and
  two overlapping runs are never neighbours: a run ends only where a call that must run alone begins.
\<close>

theorem calls_batched:
  "concat (partition_calls par calls) = calls
    \<and> list_all (batch_ok par) (partition_calls par calls)
    \<and> successively (\<lambda>a b. \<not> (list_all par a \<and> list_all par b)) (partition_calls par calls)"
  using partition_acc_ok [of par "[]" calls] partition_acc_maximal [of par "[]" calls]
  by (simp add: partition_calls_def [symmetric])

definition busy_workers :: "worker list \<Rightarrow> nat" where
  "busy_workers ws = length (filter (\<lambda>w. case w of Busy _ \<Rightarrow> True | _ \<Rightarrow> False) ws)"

lemma ml_stuck_results:
  assumes "ml_inv fn items m s" and "0 < m" and "\<forall>s'. \<not> ml_step fn items s s'"
  shows "ml_results s = map (\<lambda>i. Some (fn (items ! i) i)) [0..<length items]"
proof -
  have all_gone: "ml_workers s ! k = Gone" if "k < m" for k
    using ml_progress [of s fn items] assms(3) that ml_inv_len [OF assms(1)] by (auto simp: list_ex_length)
  then have "ml_next s = length items" using ml_inv_gone [OF assms(1) assms(2)] assms(2) by simp
  then have "ml_results s ! i = Some (fn (items ! i) i)" if "i < length items" for i
    using ml_inv_served [OF assms(1), of i] all_gone that by auto
  then show ?thesis using ml_inv_len [OF assms(1)] by (intro nth_equalityI) simp_all
qed

lemma ml_measure_run: "(ml_step fn items ^^ n) s s' \<Longrightarrow> n + ml_measure items s' \<le> ml_measure items s"
proof (induction n arbitrary: s')
  case (Suc n)
  then obtain t where t: "(ml_step fn items ^^ n) s t" "ml_step fn items t s'" by auto
  from Suc.IH [OF t(1)] ml_measure_step [OF t(2)] show ?case by simp
qed simp

lemma ml_measure_start:
  "ml_measure items (ml_start (length items) most) = 2 * length items + max 1 (min most (length items))"
  by (simp add: ml_measure_def ml_start_def sum_list_replicate)

text \<open>
  C4. \<open>mapLimit\<close> under every schedule of its workers: at no time are more calls in flight than the
  limit allows, every run comes to an end after at most two steps an item and one a worker, and
  wherever a run ends the results stand in the order of the items, one for each, whatever order the
  calls finished in.
\<close>

theorem map_limit_correct:
  assumes "(ml_step fn items ^^ n) (ml_start (length items) most) s"
  shows "busy_workers (ml_workers s) \<le> max 1 (min most (length items))
    \<and> n \<le> 2 * length items + max 1 (min most (length items))
    \<and> ((\<forall>s'. \<not> ml_step fn items s s') \<longrightarrow> ml_results s = map (\<lambda>i. Some (fn (items ! i) i)) [0..<length items])"
proof -
  have "(ml_step fn items)\<^sup>*\<^sup>* (ml_start (length items) most) s" using assms by (rule relpowp_imp_rtranclp)
  then have inv: "ml_inv fn items (max 1 (min most (length items))) s"
    by (rule ml_inv_reach) (rule ml_inv_start)
  have "busy_workers (ml_workers s) \<le> max 1 (min most (length items))"
    using busy_bound [of "ml_workers s"] ml_inv_len(1) [OF inv] by (simp add: busy_workers_def)
  moreover have "n \<le> 2 * length items + max 1 (min most (length items))"
    using ml_measure_run [OF assms] by (simp add: ml_measure_start)
  moreover have "(\<forall>s'. \<not> ml_step fn items s s') \<longrightarrow> ml_results s = map (\<lambda>i. Some (fn (items ! i) i)) [0..<length items]"
    using ml_stuck_results [OF inv] by simp
  ultimately show ?thesis by blast
qed

text \<open>Three items and two workers; the second item finishes first, and the third before the first.\<close>

definition sample_run :: "nat ml_state list" where
  "sample_run = [
     \<lparr>ml_next = 0, ml_workers = [Idle, Idle], ml_results = [None, None, None]\<rparr>,
     \<lparr>ml_next = 1, ml_workers = [Busy 0, Idle], ml_results = [None, None, None]\<rparr>,
     \<lparr>ml_next = 2, ml_workers = [Busy 0, Busy 1], ml_results = [None, None, None]\<rparr>,
     \<lparr>ml_next = 2, ml_workers = [Busy 0, Idle], ml_results = [None, Some 20, None]\<rparr>,
     \<lparr>ml_next = 3, ml_workers = [Busy 0, Busy 2], ml_results = [None, Some 20, None]\<rparr>,
     \<lparr>ml_next = 3, ml_workers = [Busy 0, Idle], ml_results = [None, Some 20, Some 30]\<rparr>,
     \<lparr>ml_next = 3, ml_workers = [Idle, Idle], ml_results = [Some 10, Some 20, Some 30]\<rparr>,
     \<lparr>ml_next = 3, ml_workers = [Gone, Idle], ml_results = [Some 10, Some 20, Some 30]\<rparr>,
     \<lparr>ml_next = 3, ml_workers = [Gone, Gone], ml_results = [Some 10, Some 20, Some 30]\<rparr>]"

lemma ml_takeI:
  "k < length ws \<Longrightarrow> ws ! k = Idle \<Longrightarrow> n < length items
    \<Longrightarrow> t = \<lparr>ml_next = Suc n, ml_workers = ws[k := Busy n], ml_results = rs\<rparr>
    \<Longrightarrow> ml_step fn items \<lparr>ml_next = n, ml_workers = ws, ml_results = rs\<rparr> t"
  using ml_step.take_next [of k "\<lparr>ml_next = n, ml_workers = ws, ml_results = rs\<rparr>" items fn] by simp

lemma ml_finishI:
  "k < length ws \<Longrightarrow> ws ! k = Busy i
    \<Longrightarrow> t = \<lparr>ml_next = n, ml_workers = ws[k := Idle], ml_results = rs[i := Some (fn (items ! i) i)]\<rparr>
    \<Longrightarrow> ml_step fn items \<lparr>ml_next = n, ml_workers = ws, ml_results = rs\<rparr> t"
  using ml_step.finish_one [of k "\<lparr>ml_next = n, ml_workers = ws, ml_results = rs\<rparr>" i fn items] by simp

lemma ml_leaveI:
  "k < length ws \<Longrightarrow> ws ! k = Idle \<Longrightarrow> \<not> n < length items
    \<Longrightarrow> t = \<lparr>ml_next = n, ml_workers = ws[k := Gone], ml_results = rs\<rparr>
    \<Longrightarrow> ml_step fn items \<lparr>ml_next = n, ml_workers = ws, ml_results = rs\<rparr> t"
  using ml_step.leave [of k "\<lparr>ml_next = n, ml_workers = ws, ml_results = rs\<rparr>" items fn] by simp

definition ten_times :: "nat \<Rightarrow> nat \<Rightarrow> nat" where "ten_times x _ = 10 * x"

lemma sample_run_step: "\<forall>i<8. ml_step ten_times [1, 2, 3] (sample_run ! i) (sample_run ! (Suc i))"
proof (intro allI impI)
  fix i :: nat assume "i < 8"
  then have "i = 0 \<or> i = 1 \<or> i = 2 \<or> i = 3 \<or> i = 4 \<or> i = 5 \<or> i = 6 \<or> i = 7" by arith
  then show "ml_step ten_times [1, 2, 3] (sample_run ! i) (sample_run ! (Suc i))"
    unfolding sample_run_def
    by (elim disjE)
      (simp_all add: ten_times_def ml_takeI [of 0] ml_takeI [of 1] ml_finishI [of 0] ml_finishI [of 1]
        ml_leaveI [of 0] ml_leaveI [of 1])
qed

lemma relpowp_path: "\<forall>i<n. R (f i) (f (Suc i)) \<Longrightarrow> (R ^^ n) (f 0) (f n)"
  by (induction n) auto

theorem map_limit_correct_witness:
  "(ml_step ten_times [1, 2, 3] ^^ 8) (ml_start 3 2) (sample_run ! 8) \<and> busy_workers (ml_workers (sample_run ! 8)) \<le> 2"
proof -
  have run: "(ml_step ten_times [1, 2, 3] ^^ 8) (ml_start 3 2) (sample_run ! 8)"
    using relpowp_path [of 8 "ml_step ten_times [1, 2, 3]" "(!) sample_run", OF sample_run_step] by (simp add: sample_run_def ml_start_def numeral_2_eq_2 numeral_3_eq_3)
  with map_limit_correct [of 8 ten_times "[1, 2, 3]" 2 "sample_run ! 8"] show ?thesis
    by (simp add: numeral_2_eq_2 numeral_3_eq_3)
qed

text \<open>
  The repetition tracker. After a run of calls with one signature that follows a different call,
  all of them failing the same way or all of them succeeding, the warning about failing calls is
  pending exactly when the run has failed \<open>FAILING_REPEAT_LIMIT\<close> times or more, the one about
  identical calls exactly when it is \<open>ANY_REPEAT_LIMIT\<close> long or more, and each of them once.
\<close>

theorem repeats_warned_once:
  assumes "rt_last rt = None \<or> (\<exists>c. rt_last rt = Some c \<and> lc_signature c \<noteq> signature_of name input)"
    and "\<forall>(i, r) \<in> set calls. signature_of name i = signature_of name input \<and> tr_error r = bad
      \<and> (bad \<longrightarrow> tr_output r = err)"
  shows "rt_pending (fold (\<lambda>(i, r). record_repeat name i r) calls rt) = rt_pending rt
    @ (if bad \<and> length calls \<ge> failing_repeat_limit then [failing_warning name failing_repeat_limit err] else [])
    @ (if length calls \<ge> any_repeat_limit then [repeat_warning name any_repeat_limit] else [])"
proof -
  have "signature_of name i = signature_of name input \<and> tr_error r = bad \<and> (bad \<longrightarrow> tr_output r = err)"
    if "(i, r) \<in> set calls" for i r
    using assms(2) that by blast
  from repeats_failing [OF assms(1) this] show ?thesis
    by (auto simp: failing_repeat_limit_def any_repeat_limit_def)
qed

theorem repeats_warned_once_witness:
  "rt_pending (fold (\<lambda>(i, r). record_repeat ''bash'' i r)
      (replicate 3 (JNull, \<lparr>tr_output = ''no'', tr_error = True, tr_touched = []\<rparr>)) new_tracker)
    = [failing_warning ''bash'' 3 ''no'']"
  using repeats_warned_once [of new_tracker "''bash''" JNull
      "replicate 3 (JNull, \<lparr>tr_output = ''no'', tr_error = True, tr_touched = []\<rparr>)" True "''no''"]
  by (simp add: new_tracker_def failing_repeat_limit_def any_repeat_limit_def)

text \<open>
  Two calls whose arguments differ only in the order their entries were written have one
  signature, so writing them differently does not hide a repetition.
\<close>

theorem signature_ignores_order:
  assumes "mset kvs = mset kvs'" and "distinct (map fst kvs)"
  shows "signature_of name (JObj kvs) = signature_of name (JObj kvs')"
  unfolding signature_of_def using stable_stringify_perm [OF assms] by simp

theorem signature_ignores_order_witness:
  "signature_of ''read'' (JObj [(''path'', JStr ''a''), (''limit'', JBool True)])
    = signature_of ''read'' (JObj [(''limit'', JBool True), (''path'', JStr ''a'')])"
  by (rule signature_ignores_order) (simp_all add: add_mset_commute)

end
