(* ===== verification/AgentLoop_Laws.thy ===== *)
theory AgentLoop_Laws
  imports LoopParts "HOL-Library.Multiset"
begin

text \<open>
  What the agent loop guarantees: the transcript it sends and leaves is one a provider accepts,
  the log only grows, the turns are bounded, batches respect the order of the calls, and repetition
  is noticed.
\<close>

section \<open>The transcript under appends\<close>

lemma barrier_not_compaction: "is_barrier e \<Longrightarrow> \<not> is_compaction e"
  by (cases e) auto

lemma flush_flush_snoc: "flush (ms @ [m], []) = (ms @ [m], [])"
  by (simp add: flush_def)

lemma transcript_barrier:
  assumes "is_barrier e"
  shows "transcript (appended e st) = transcript st @ [barrier_message e]"
proof -
  note live = live_events_appended [OF barrier_not_compaction [OF assms], of st]
  obtain ms pending where p: "foldl project (first_messages st, []) (live_events st) = (ms, pending)"
    by (cases "foldl project (first_messages st, []) (live_events st)")
  show ?thesis using assms by (simp add: transcript_eq live p project_cases flush_flush_snoc)
qed

lemma transcript_silent:
  assumes "\<not> is_barrier e" and "event_results e = []" and "\<not> is_compaction e"
  shows "transcript (appended e st) = transcript st"
proof -
  note live = live_events_appended [OF assms(3), of st]
  obtain ms pending where p: "foldl project (first_messages st, []) (live_events st) = (ms, pending)"
    by (cases "foldl project (first_messages st, []) (live_events st)")
  show ?thesis using assms by (simp add: transcript_eq live p project_cases)
qed

definition add_result :: "message list \<Rightarrow> content_block \<Rightarrow> message list" where
  "add_result ms b =
     (if ms \<noteq> [] \<and> is_tool (last ms)
      then butlast ms @ [\<lparr>m_role = ToolRole, m_content = m_content (last ms) @ [b], m_timestamp = None\<rparr>]
      else ms @ [\<lparr>m_role = ToolRole, m_content = [b], m_timestamp = None\<rparr>])"

lemma transcript_result:
  "transcript (appended (ToolResultE ts cid name out err d touched) st)
     = add_result (transcript st) (ToolResult cid name out err)"
proof -
  let ?e = "ToolResultE ts cid name out err d touched"
  note live = live_events_appended [of ?e st, simplified]
  obtain ms pending where p: "foldl project (first_messages st, []) (live_events st) = (ms, pending)"
    by (cases "foldl project (first_messages st, []) (live_events st)")
  have "projection_ok (ms, pending)"
    using fold_project_ok [OF first_messages_not_tool(3), of st "live_events st"] p by simp
  then have "ms \<noteq> [] \<longrightarrow> \<not> is_tool (last ms)" by (simp add: projection_ok_def)
  then show ?thesis
    by (cases "pending = []") (auto simp: transcript_eq live p flush_def add_result_def is_tool_def)
qed

lemma transcript_compaction:
  assumes "is_compaction e"
  shows "transcript (appended e st) = summary_message e"
  using live_events_compaction [OF assms, of st]
  by (cases e) (simp_all add: transcript_eq flush_def summary_message_def)

section \<open>Paired transcripts\<close>

fun block_result_id :: "content_block \<Rightarrow> string option" where
  "block_result_id (ToolResult i _ _ _) = Some i"
| "block_result_id _ = None"

definition call_ids :: "message \<Rightarrow> string list" where
  "call_ids m = (if m_role m = Assistant then map cl_id (calls_of (m_content m)) else [])"

definition result_ids :: "message \<Rightarrow> string list" where
  "result_ids m = List.map_filter block_result_id (m_content m)"

text \<open>
  What providers insist on: a message with tool calls is followed at once by a tool message that
  answers exactly these calls, in order, and there is no other tool message.
\<close>

fun pairs_ok :: "message list \<Rightarrow> bool" where
  "pairs_ok [] = True"
| "pairs_ok [m] = (\<not> is_tool m \<and> call_ids m = [])"
| "pairs_ok (m # n # ms) =
     (\<not> is_tool m \<and>
      (if call_ids m = [] then pairs_ok (n # ms)
       else is_tool n \<and> result_ids n = call_ids m \<and> pairs_ok ms))"

lemma pairs_ok_append: "pairs_ok xs \<Longrightarrow> pairs_ok ys \<Longrightarrow> pairs_ok (xs @ ys)"
proof (induction xs rule: pairs_ok.induct)
  case (2 m)
  then show ?case by (cases ys) auto
next
  case (3 m n ms)
  then show ?case by (cases "call_ids m = []") auto
qed simp

lemma pairs_ok_snoc: "pairs_ok xs \<Longrightarrow> \<not> is_tool m \<Longrightarrow> call_ids m = [] \<Longrightarrow> pairs_ok (xs @ [m])"
  by (rule pairs_ok_append) auto

section \<open>Stores that grew by harmless events\<close>

definition ext :: "(jean_event \<Rightarrow> bool) \<Rightarrow> event_store \<Rightarrow> event_store \<Rightarrow> bool" where
  "ext ok s s' = (\<exists>es. list_all ok es \<and> s' = fold appended es s)"

lemma ext_refl [simp]: "ext ok s s"
  unfolding ext_def by (rule exI [of _ "[]"]) simp

lemma ext_one: "ok e \<Longrightarrow> ext ok s (appended e s)"
  unfolding ext_def by (rule exI [of _ "[e]"]) simp

lemma ext_trans: "ext ok a b \<Longrightarrow> ext ok b c \<Longrightarrow> ext ok a c"
  unfolding ext_def by (elim exE conjE, rule_tac x = "es @ esa" in exI) simp

lemma ext_mono: "ext ok a b \<Longrightarrow> (\<And>e. ok e \<Longrightarrow> ok' e) \<Longrightarrow> ext ok' a b"
  unfolding ext_def by (metis list_all_iff)

lemma ext_prefix: "ext ok a b \<Longrightarrow> prefix (events a) (events b) \<and> listeners b = listeners a"
proof -
  have "prefix (events s) (events (fold appended es s)) \<and> listeners (fold appended es s) = listeners s" for es s
  proof (induction es arbitrary: s)
    case (Cons a es)
    from Cons.IH [of "appended a s"] show ?case by (auto simp: store_simps dest: append_prefixD)
  qed simp
  then show "ext ok a b \<Longrightarrow> prefix (events a) (events b) \<and> listeners b = listeners a"
    unfolding ext_def by blast
qed

fun neutral :: "jean_event \<Rightarrow> bool" where
  "neutral (Reminder _ _ _) = True"
| "neutral (AdvisorNote _ _ _) = True"
| "neutral (ErrorE _ _ _) = True"
| "neutral (Compaction _ _ _ _ _) = True"
| "neutral (AssistantMessage _ content _ _) = (calls_of content = [])"
| "neutral _ = False"

lemma neutral_pairs: "neutral e \<Longrightarrow> pairs_ok (transcript s) \<Longrightarrow> pairs_ok (transcript (appended e s))"
proof (cases "is_compaction e")
  case True
  assume "neutral e"
  with True show ?thesis
    by (cases e) (auto simp: transcript_compaction summary_message_def is_tool_def call_ids_def)
next
  case False
  assume n: "neutral e" and ok: "pairs_ok (transcript s)"
  show ?thesis
  proof (cases "is_barrier e")
    case True
    with n ok show ?thesis
      by (cases e) (auto simp: transcript_barrier is_tool_def call_ids_def intro!: pairs_ok_snoc)
  next
    case nb: False
    with n False have "transcript (appended e s) = transcript s"
      by (cases e) (auto simp: transcript_silent)
    with ok show ?thesis by simp
  qed
qed

lemma ext_pairs: "ext neutral s s' \<Longrightarrow> pairs_ok (transcript s) \<Longrightarrow> pairs_ok (transcript s')"
proof -
  have "list_all neutral es \<Longrightarrow> pairs_ok (transcript s) \<Longrightarrow> pairs_ok (transcript (fold appended es s))" for es s
    by (induction es arbitrary: s) (auto simp: neutral_pairs)
  then show "ext neutral s s' \<Longrightarrow> pairs_ok (transcript s) \<Longrightarrow> pairs_ok (transcript s')"
    unfolding ext_def by blast
qed

section \<open>What each step appends\<close>

named_theorems loop_simps \<open>the components of a state after the loop's small steps\<close>

lemma put_event_sel [loop_simps]:
  "ls_store (put_event e st) = appended e (ls_store st)" "ls_world (put_event e st) = ls_world st"
  "ls_turns (put_event e st) = ls_turns st" "ls_stops (put_event e st) = ls_stops st"
  by (simp_all add: put_event_def)

lemma notify_sel [loop_simps]:
  "ls_store (notify env e st) = ls_store st" "ls_turns (notify env e st) = ls_turns st"
  "ls_stops (notify env e st) = ls_stops st"
  by (simp_all add: notify_def)

lemma remind_sel [loop_simps]:
  "ls_store (remind env source text st) = appended (Reminder (le_now env (ls_world st)) source text) (ls_store st)"
  "ls_turns (remind env source text st) = ls_turns st" "ls_stops (remind env source text st) = ls_stops st"
  by (simp_all add: remind_def loop_simps)

definition keeps :: "'w loop_state \<Rightarrow> 'w loop_state \<Rightarrow> bool" where
  "keeps st st' = (ext neutral (ls_store st) (ls_store st') \<and> ls_turns st' = ls_turns st \<and> ls_stops st' = ls_stops st)"

lemma keeps_refl [simp]: "keeps st st"
  by (simp add: keeps_def)

lemma keeps_trans: "keeps a b \<Longrightarrow> keeps b c \<Longrightarrow> keeps a c"
  unfolding keeps_def by (auto intro: ext_trans)

lemma keeps_world [simp]: "keeps st (st'\<lparr>ls_world := w\<rparr>) = keeps st st'"
  by (simp add: keeps_def)

lemma keeps_notify [simp]: "keeps st (notify env e st') = keeps st st'"
  by (simp add: keeps_def loop_simps)

lemma keeps_put: "neutral e \<Longrightarrow> keeps st (put_event e st)"
  by (simp add: keeps_def loop_simps ext_one)

lemma keeps_remind: "keeps st (remind env source text st)"
  by (simp add: remind_def keeps_put)

lemma keeps_fold: "(\<And>x s. keeps s (f x s)) \<Longrightarrow> keeps st (fold f xs st)"
  by (induction xs arbitrary: st) (auto intro: keeps_trans)

lemma keeps_compact: "ext neutral s (snd (compact cenv appendix s))"
  by (rule compact_cases [of s cenv appendix]) (simp_all add: ext_one)

lemma keeps_maybe_compact: "keeps st (maybe_compact env prompt st)"
proof -
  have "keeps st (case compact cenv a (ls_store st1) of (result, store') \<Rightarrow>
      (let st3 = st1\<lparr>ls_store := store'\<rparr> in case result of None \<Rightarrow> st3 | Some r \<Rightarrow> notify env (f r) st3))"
    if "ls_store st1 = ls_store st" "ls_turns st1 = ls_turns st" "ls_stops st1 = ls_stops st" for cenv a st1 f
    using keeps_compact [of "ls_store st" cenv a] that
    by (auto simp: keeps_def loop_simps Let_def split: prod.splits option.splits)
  then show ?thesis
    unfolding maybe_compact_def Let_def by (simp add: loop_simps)
qed

lemma keeps_consume: "consume_stream env es r st = (out, st') \<Longrightarrow> keeps st st'"
proof (induction env es r st rule: consume_stream.induct)
  case (3 env d es r st)
  then have "keeps (notify env (TextDelta d) st) st'" by simp
  moreover have "keeps st (notify env (TextDelta d) st)" by simp
  ultimately show ?case by (rule keeps_trans [rotated])
next
  case (4 env d es r st)
  then have "keeps (notify env (ThinkingDelta d) st) st'" by simp
  moreover have "keeps st (notify env (ThinkingDelta d) st)" by simp
  ultimately show ?case by (rule keeps_trans [rotated])
next
  case (7 env resp hits es r st)
  let ?f = "\<lambda>hit st. notify env (NoticeE hit) (put_event (AdvisorNote (le_now env (ls_world st)) Concern hit) st)"
  have "keeps st (fold ?f hits st)" by (rule keeps_fold) (simp add: keeps_put)
  moreover have "keeps (fold ?f hits st) st'" using 7 by simp
  ultimately show ?case by (rule keeps_trans)
qed auto

lemma keeps_stream: "stream_turn env req st = (out, st') \<Longrightarrow> keeps st st'"
proof -
  assume s: "stream_turn env req st = (out, st')"
  obtain es w1 where e: "le_stream env req (ls_world st) = (es, w1)" by (cases "le_stream env req (ls_world st)")
  then have "keeps (st\<lparr>ls_world := w1\<rparr>) st'" using s keeps_consume by (simp add: stream_turn_def)
  moreover have "keeps st (st\<lparr>ls_world := w1\<rparr>)" by simp
  ultimately show ?thesis by (rule keeps_trans [rotated])
qed

lemma keeps_give_up: "keeps st (snd (give_up env m st))"
  by (simp add: give_up_def Let_def keeps_put)

lemma keeps_send: "keeps st (snd (send_turn env req delays attempt st))"
proof (induction env req delays attempt st rule: send_turn.induct)
  case (1 env req attempt st)
  obtain out st1 where s: "stream_turn env req st = (out, st1)" by (cases "stream_turn env req st")
  note k = keeps_stream [OF s]
  show ?case
    using k keeps_trans [OF k keeps_give_up] by (auto simp: s split: sum.splits)
next
  case (2 env req delay later attempt st)
  obtain out st1 where s: "stream_turn env req st = (out, st1)" by (cases "stream_turn env req st")
  note k = keeps_stream [OF s]
  show ?case
  proof (cases out)
    case (Inr r)
    with k show ?thesis by (simp add: s)
  next
    case (Inl mr)
    obtain m retryable where mr: "mr = (m, retryable)" by (cases mr)
    show ?thesis
    proof (cases "le_aborted env (ls_world st1) \<or> \<not> retryable")
      case True
      with k Inl mr keeps_trans [OF k keeps_give_up] show ?thesis by (auto simp: s)
    next
      case False
      define st2 where "st2 = notify env (NoticeE (retry_notice m delay attempt (length (le_delays env)))) st1"
      have k2: "keeps st st2" using k by (simp add: st2_def)
      obtain b w3 where p: "le_pause env delay (ls_world st2) = (b, w3)" by (cases "le_pause env delay (ls_world st2)")
      show ?thesis
      proof (cases b)
        case True
        then have "keeps (st2\<lparr>ls_world := w3\<rparr>) (snd (send_turn env req later (Suc attempt) (st2\<lparr>ls_world := w3\<rparr>)))"
          using "2.IH" [OF s [symmetric], of mr m retryable st2 b w3] Inl mr False p st2_def by auto
        moreover have "keeps st (st2\<lparr>ls_world := w3\<rparr>)" using k2 by simp
        ultimately have "keeps st (snd (send_turn env req later (Suc attempt) (st2\<lparr>ls_world := w3\<rparr>)))"
          by (rule keeps_trans [rotated])
        then show ?thesis
          using Inl mr False p True by (simp add: s st2_def [symmetric])
      next
        case bF: False
        with k2 Inl mr False p show ?thesis by (simp add: s st2_def [symmetric] Let_def)
      qed
    qed
  qed
qed

section \<open>Answering the calls\<close>

text \<open>
  The transcript is \<open>T\<close>, then the assistant's message, then one tool message with the results so
  far (none when there are none yet).
\<close>

definition answered :: "message list \<Rightarrow> message \<Rightarrow> content_block list \<Rightarrow> 'w loop_state \<Rightarrow> bool" where
  "answered T m bs st =
     (transcript (ls_store st) = T @ m # (if bs = [] then []
        else [\<lparr>m_role = ToolRole, m_content = bs, m_timestamp = None\<rparr>]))"

definition result_for :: "call_ref \<Rightarrow> content_block \<Rightarrow> bool" where
  "result_for c b = (\<exists>n out err. b = ToolResult (cl_id c) n out err)"

definition log_grows :: "'w loop_state \<Rightarrow> 'w loop_state \<Rightarrow> bool" where
  "log_grows st st' = (prefix (events (ls_store st)) (events (ls_store st'))
     \<and> listeners (ls_store st') = listeners (ls_store st)
     \<and> ls_turns st' = ls_turns st \<and> ls_stops st' = ls_stops st)"

lemma log_grows_refl [simp]: "log_grows st st"
  by (simp add: log_grows_def)

lemma log_grows_trans: "log_grows a b \<Longrightarrow> log_grows b c \<Longrightarrow> log_grows a c"
  unfolding log_grows_def by (auto intro: prefix_order.trans)

lemma keeps_log_grows: "keeps st st' \<Longrightarrow> log_grows st st'"
  using ext_prefix [of neutral "ls_store st" "ls_store st'"] by (simp add: keeps_def log_grows_def)

lemma log_grows_put: "log_grows st (put_event e st)"
  by (simp add: log_grows_def loop_simps store_simps)

lemma log_grows_fold: "(\<And>x s. log_grows s (f x s)) \<Longrightarrow> log_grows st (fold f xs st)"
  by (induction xs arbitrary: st) (auto intro: log_grows_trans)

lemma start_call_store:
  "\<exists>ts. ls_store (start_call env c st) = appended (ToolCallE ts (cl_id c) (cl_name c) (cl_input c)) (ls_store st)"
  "ls_turns (start_call env c st) = ls_turns st" "ls_stops (start_call env c st) = ls_stops st"
  by (auto simp: start_call_def Let_def loop_simps)

lemma answered_start: "answered T m bs st \<Longrightarrow> answered T m bs (start_call env c st)"
  using start_call_store(1) [of env c st] by (auto simp: answered_def transcript_silent)

lemma add_result_answered:
  assumes "\<not> is_tool m"
  shows "add_result (T @ m # (if bs = [] then [] else [\<lparr>m_role = ToolRole, m_content = bs, m_timestamp = None\<rparr>])) b
    = T @ m # [\<lparr>m_role = ToolRole, m_content = bs @ [b], m_timestamp = None\<rparr>]"
  using assms by (auto simp: add_result_def is_tool_def butlast_append)

lemma answered_result:
  assumes "answered T m bs st" and "\<not> is_tool m"
    and "ls_store st' = appended (ToolResultE ts i n out e d t) (ls_store st)"
  shows "answered T m (bs @ [ToolResult i n out e]) st'"
  using assms add_result_answered [OF assms(2), of T bs "ToolResult i n out e"]
  by (simp add: answered_def transcript_result)

lemma end_call_store:
  "\<exists>ts. ls_store (end_call env (c, r, d) st) = appended (ToolResultE ts (cl_id c) (cl_name c) (tr_output r)
     (tr_error r) (Some d) (tr_touched r)) (ls_store st)"
  "ls_turns (end_call env (c, r, d) st) = ls_turns st" "ls_stops (end_call env (c, r, d) st) = ls_stops st"
  by (auto simp: end_call_def Let_def loop_simps)

lemma answered_end:
  assumes "answered T m bs st" and "\<not> is_tool m"
  shows "\<exists>b. result_for c b \<and> answered T m (bs @ [b]) (end_call env (c, r, d) st)"
proof -
  obtain ts where "ls_store (end_call env (c, r, d) st) = appended (ToolResultE ts (cl_id c) (cl_name c) (tr_output r)
     (tr_error r) (Some d) (tr_touched r)) (ls_store st)" using end_call_store(1) by blast
  from answered_result [OF assms this] show ?thesis by (auto simp: result_for_def)
qed

lemma answered_interrupt:
  assumes "answered T m bs st" and "\<not> is_tool m"
  shows "\<exists>b. result_for c b \<and> answered T m (bs @ [b]) (interrupt_call env c st)"
proof -
  let ?now = "le_now env (ls_world st)"
  let ?st1 = "put_event (ToolCallE ?now (cl_id c) (cl_name c) (cl_input c)) st"
  have "answered T m bs ?st1" using assms(1) by (simp add: answered_def loop_simps transcript_silent)
  from answered_result [OF this assms(2), of "interrupt_call env c st" ?now "cl_id c" "cl_name c"
      "''Interrupted by the user before this ran.''" True None "[]"]
  show ?thesis by (auto simp: interrupt_call_def loop_simps result_for_def)
qed

text \<open>Folding a step that answers one call answers them all, in order.\<close>

lemma answered_fold:
  assumes "\<And>x bs s. answered T m bs s \<Longrightarrow> \<exists>b. result_for (g x) b \<and> answered T m (bs @ [b]) (f x s)"
    and "answered T m bs st"
  shows "\<exists>new. list_all2 result_for (map g xs) new \<and> answered T m (bs @ new) (fold f xs st)"
  using assms(2)
proof (induction xs arbitrary: bs st)
  case Nil
  then show ?case by simp
next
  case (Cons x xs)
  from assms(1) [OF Cons.prems, of x] obtain b where
    b: "result_for (g x) b" "answered T m (bs @ [b]) (f x st)" by blast
  from Cons.IH [OF b(2)] obtain new where
    "list_all2 result_for (map g xs) new" "answered T m ((bs @ [b]) @ new) (fold f xs (f x st))" by blast
  with b(1) show ?case by (intro exI [of _ "b # new"]) simp
qed

lemma answered_fold_start: "answered T m bs st \<Longrightarrow> answered T m bs (fold (start_call env) cs st)"
  by (induction cs arbitrary: st) (auto simp: answered_start)

lemma log_grows_start: "log_grows st (start_call env c st)"
  using start_call_store [of env c st] by (auto simp: log_grows_def store_simps)

lemma log_grows_end: "log_grows st (end_call env cr st)"
proof -
  obtain c r d where "cr = (c, r, d)" by (cases cr)
  then show ?thesis using end_call_store [of env c r d st] by (auto simp: log_grows_def store_simps)
qed

lemma log_grows_interrupt: "log_grows st (interrupt_call env c st)"
  by (simp add: interrupt_call_def log_grows_def loop_simps store_simps)

lemma log_grows_world [simp]: "log_grows st (st'\<lparr>ls_world := w\<rparr>) = log_grows st st'"
  by (simp add: log_grows_def)

lemma run_batch_ok:
  assumes "run_batch env batch st = (ok, st')"
  shows "log_grows st st'"
    and "ok \<Longrightarrow> answered T m bs st \<Longrightarrow> \<not> is_tool m \<Longrightarrow>
      \<exists>new. list_all2 result_for batch new \<and> answered T m (bs @ new) st'"
proof -
  define st1 where "st1 = fold (start_call env) batch st"
  obtain results w2 where r: "run_list (run_one env) batch (ls_world st1) = (results, w2)"
    by (cases "run_list (run_one env) batch (ls_world st1)")
  have len: "length results = length batch"
    using length_run_list [of "run_one env" batch "ls_world st1"] r by simp
  have g1: "log_grows st st1" unfolding st1_def by (rule log_grows_fold) (rule log_grows_start)
  have g2: "log_grows st (fold (end_call env) xs (st1\<lparr>ls_world := w2\<rparr>))" for xs
  proof -
    have "log_grows (st1\<lparr>ls_world := w2\<rparr>) (fold (end_call env) xs (st1\<lparr>ls_world := w2\<rparr>))"
      by (rule log_grows_fold) (rule log_grows_end)
    moreover have "log_grows st (st1\<lparr>ls_world := w2\<rparr>)" using g1 by simp
    ultimately show ?thesis by (rule log_grows_trans [rotated])
  qed
  show "log_grows st st'"
    using assms g1 g2 r by (auto simp: run_batch_def Let_def st1_def [symmetric] split: if_splits)
  assume ok: "ok" and a: "answered T m bs st" and nt: "\<not> is_tool m"
  let ?zs = "zip batch (map the results)"
  have st': "st' = fold (end_call env) ?zs (st1\<lparr>ls_world := w2\<rparr>)"
    using assms ok r by (auto simp: run_batch_def Let_def st1_def [symmetric] split: if_splits)
  have "answered T m bs (st1\<lparr>ls_world := w2\<rparr>)"
    using answered_fold_start [OF a, of env batch] by (simp add: answered_def st1_def)
  from answered_fold [where g = fst and f = "end_call env" and xs = ?zs, OF _ this] answered_end [OF _ nt]
  have "\<exists>new. list_all2 result_for (map fst ?zs) new \<and> answered T m (bs @ new) st'"
    unfolding st' by (metis prod.collapse)
  then show "\<exists>new. list_all2 result_for batch new \<and> answered T m (bs @ new) st'"
    using len by simp
qed

lemma run_batches_ok:
  assumes "run_batches env batches st = (outcome, st')"
  shows "log_grows st st'"
    and "outcome \<noteq> CallsThrew \<Longrightarrow> answered T m bs st \<Longrightarrow> \<not> is_tool m \<Longrightarrow>
      \<exists>new. list_all2 result_for (concat batches) new \<and> answered T m (bs @ new) st'"
proof -
  have "log_grows st st' \<and> (outcome \<noteq> CallsThrew \<longrightarrow> answered T m bs st \<longrightarrow> \<not> is_tool m \<longrightarrow>
      (\<exists>new. list_all2 result_for (concat batches) new \<and> answered T m (bs @ new) st'))"
    using assms
  proof (induction batches arbitrary: st bs)
    case Nil
    then show ?case by auto
  next
    case (Cons b batches)
    show ?case
    proof (cases "le_aborted env (ls_world st)")
      case True
      with Cons.prems have st': "st' = fold (interrupt_call env) (concat (b # batches)) st"
        by (simp del: concat.simps)
      have "log_grows st st'" unfolding st' by (rule log_grows_fold) (rule log_grows_interrupt)
      moreover have "\<exists>new. list_all2 result_for (concat (b # batches)) new \<and> answered T m (bs @ new) st'"
        if "answered T m bs st" "\<not> is_tool m"
      proof -
        have "\<exists>new. list_all2 result_for (map id (concat (b # batches))) new
            \<and> answered T m (bs @ new) (fold (interrupt_call env) (concat (b # batches)) st)"
          by (rule answered_fold [OF _ that(1)]) (unfold id_apply, rule answered_interrupt [OF _ that(2)])
        then show ?thesis unfolding st' list.map_id .
      qed
      ultimately show ?thesis by blast
    next
      case False
      obtain ok st1 where b: "run_batch env b st = (ok, st1)" by (cases "run_batch env b st")
      show ?thesis
      proof (cases ok)
        case False
        with Cons.prems b \<open>\<not> le_aborted env (ls_world st)\<close> run_batch_ok(1) [OF b] show ?thesis by auto
      next
        case True
        with Cons.prems b \<open>\<not> le_aborted env (ls_world st)\<close> have rest: "run_batches env batches st1 = (outcome, st')"
          by simp
        have "log_grows st st'"
          using run_batch_ok(1) [OF b] Cons.IH [OF rest] log_grows_trans by blast
        moreover have "\<exists>new. list_all2 result_for (concat (b # batches)) new \<and> answered T m (bs @ new) st'"
          if o: "outcome \<noteq> CallsThrew" "answered T m bs st" "\<not> is_tool m"
        proof -
          from run_batch_ok(2) [OF b True o(2,3)] obtain new where
            n: "list_all2 result_for b new" "answered T m (bs @ new) st1" by blast
          from Cons.IH [OF rest, of "bs @ new"] o n(2) obtain new' where
            "list_all2 result_for (concat batches) new'" "answered T m ((bs @ new) @ new') st'" by blast
          with n(1) show ?thesis by (intro exI [of _ "new @ new'"]) (simp add: list_all2_appendI)
        qed
        ultimately show ?thesis by blast
      qed
    qed
  qed
  then show "log_grows st st'" and "outcome \<noteq> CallsThrew \<Longrightarrow> answered T m bs st \<Longrightarrow> \<not> is_tool m \<Longrightarrow>
      \<exists>new. list_all2 result_for (concat batches) new \<and> answered T m (bs @ new) st'" by blast+
qed

section \<open>Turns\<close>

lemma result_for_ids: "list_all2 result_for cs bs \<Longrightarrow> List.map_filter block_result_id bs = map cl_id cs"
  by (induction rule: list_all2_induct) (auto simp: result_for_def List.map_filter_simps)

lemma run_calls_pairs:
  assumes "run_calls env calls st = (outcome, st')" and "outcome \<noteq> CallsThrew" and "calls \<noteq> []"
    and "transcript (ls_store st) = T @ [m]" and "pairs_ok T" and "\<not> is_tool m" and "call_ids m = map cl_id calls"
  shows "pairs_ok (transcript (ls_store st'))"
proof -
  have "answered T m [] st" using assms(4) by (simp add: answered_def)
  from run_batches_ok(2) [OF assms(1) [unfolded run_calls_def] assms(2) this assms(6)] obtain new where
    new: "list_all2 result_for calls new" "answered T m new st'" by auto
  have "new \<noteq> []" using new(1) assms(3) by auto
  with new(2) have t: "transcript (ls_store st') = T @ [m, \<lparr>m_role = ToolRole, m_content = new, m_timestamp = None\<rparr>]"
    by (simp add: answered_def)
  have "pairs_ok [m, \<lparr>m_role = ToolRole, m_content = new, m_timestamp = None\<rparr>]"
    using assms(3,6,7) result_for_ids [OF new(1)] by (simp add: is_tool_def result_ids_def)
  with assms(5) show ?thesis unfolding t by (rule pairs_ok_append)
qed

text \<open>Nothing throws in an environment whose summaries, confirmations and system prompt do not.\<close>

definition total_tools :: "'w loop_env \<Rightarrow> bool" where
  "total_tools env =
     ((\<forall>t\<in>snd ` set (le_registry env). \<forall>a w. call_summary t a w \<noteq> None)
      \<and> (\<forall>f. cx_confirm (le_context env) = Some f \<longrightarrow> (\<forall>r w. fst (f r w) \<noteq> None))
      \<and> (\<forall>w. le_prompt env w \<noteq> None))"

lemma confirm_total:
  assumes "\<forall>a w. call_summary t a w \<noteq> None" and "\<forall>f. cx_confirm ctx = Some f \<longrightarrow> (\<forall>r w. fst (f r w) \<noteq> None)"
  shows "fst (confirm_call t args ctx why w) \<noteq> Inl ()"
proof -
  obtain s where s: "call_summary t args w = Some s" using assms(1) by auto
  show ?thesis
  proof (cases "cx_confirm ctx")
    case (Some f)
    have "\<exists>req. confirm_call t args ctx why w = (case f req w of (None, w1) \<Rightarrow> (Inl (), w1)
        | (Some approved, w1) \<Rightarrow> (Inr (if approved then None
            else Some (''The user declined `'' @ t_name t @ ''`. Do not retry it.'')), w1))"
      unfolding confirm_call_def s option.case Some by (rule exI) (rule refl)
    then obtain req where eq: "confirm_call t args ctx why w = (case f req w of (None, w1) \<Rightarrow> (Inl (), w1)
        | (Some approved, w1) \<Rightarrow> (Inr (if approved then None
            else Some (''The user declined `'' @ t_name t @ ''`. Do not retry it.'')), w1))" ..
    have "fst (f req w) \<noteq> None" using assms(2) Some by blast
    then obtain b w1 where "f req w = (Some b, w1)" by (cases "f req w") auto
    then show ?thesis by (simp add: eq)
  qed (simp add: confirm_call_def s)
qed

lemma gate_total:
  assumes "\<forall>a w. call_summary t a w \<noteq> None" and "\<forall>f. cx_confirm ctx = Some f \<longrightarrow> (\<forall>r w. fst (f r w) \<noteq> None)"
  shows "fst (gate t args ctx opts w) \<noteq> Inl ()"
  using confirm_total [OF assms] by (auto simp: gate_def Let_def split: sum.splits)

lemma run_one_total: "total_tools env \<Longrightarrow> fst (run_one env c w) \<noteq> None"
proof -
  assume tot: "total_tools env"
  have nothrow: "fst (call_tool (le_registry env) name args (le_context env) opts w1) \<noteq> Inl ()" for name args opts w1
  proof
    assume thr: "fst (call_tool (le_registry env) name args (le_context env) opts w1) = Inl ()"
    obtain out recs w' where c: "call_tool (le_registry env) name args (le_context env) opts w1 = (out, recs, w')"
      by (cases "call_tool (le_registry env) name args (le_context env) opts w1") auto
    from c show False
    proof (cases rule: call_tool_cases)
      case (threw t)
      then have "t \<in> snd ` set (le_registry env)" by (auto simp: get_tool_def dest: map_of_SomeD intro: image_eqI [rotated])
      with tot have sum: "\<forall>a w. call_summary t a w \<noteq> None" unfolding total_tools_def by blast
      have conf: "\<forall>f. cx_confirm (le_context env) = Some f \<longrightarrow> (\<forall>r w. fst (f r w) \<noteq> None)"
        using tot unfolding total_tools_def by blast
      from gate_total [OF sum conf, of args opts w1] threw(4) show False by simp
    qed (use thr c in auto)
  qed
  obtain before w1 where b: "le_before_tool env c w = (before, w1)" by (cases "le_before_tool env c w")
  have "call_tool (le_registry env) name args (le_context env) opts w1 \<noteq> (Inl (), x, y)" for name args opts w1 x y
    using nothrow [of name args opts w1] by auto
  then show ?thesis
    by (auto simp: run_one_def b Let_def split: prod.splits sum.splits)
qed

lemma run_list_total:
  assumes "\<And>x s. fst (f x s) \<noteq> None"
  shows "None \<notin> set (fst (run_list f xs s))"
proof (induction xs arbitrary: s)
  case (Cons x xs)
  have "None \<noteq> fst (f x s)" using assms [of x s] by metis
  with Cons show ?case by (simp add: split_def Let_def)
qed simp

lemma run_batches_total: "total_tools env \<Longrightarrow> fst (run_batches env bs st) \<noteq> CallsThrew"
proof (induction bs arbitrary: st)
  case (Cons b bs)
  have "fst (run_batch env b st)"
    using run_list_total [of "run_one env", OF run_one_total [OF Cons.prems], of b]
    by (auto simp: run_batch_def Let_def split_def)
  with Cons show ?case by (cases "run_batch env b st") auto
qed simp

lemma prepare_turn_ok:
  assumes "prepare_turn env st = (req, st1)"
  shows "ext neutral (ls_store st) (ls_store st1) \<and> ls_turns st1 = Suc (ls_turns st) \<and> ls_stops st1 = ls_stops st
    \<and> (\<forall>r. req = Some r \<longrightarrow> rq_messages r = trim_tool_results 8000 (transcript (ls_store st1)))
    \<and> (total_tools env \<longrightarrow> req \<noteq> None)"
proof -
  let ?a = "notify env (TurnStart (ls_turns st + 1)) (st\<lparr>ls_turns := ls_turns st + 1\<rparr>)"
  obtain texts w2 where g: "gather_reminders env (ls_world ?a) = (texts, w2)" by (cases "gather_reminders env (ls_world ?a)")
  let ?b = "fold (remind env ''harness'') texts (?a\<lparr>ls_world := w2\<rparr>)"
  let ?c = "if truthy (le_wrap_up env) \<and> le_max_turns env > 4 \<and> ls_turns ?b = le_max_turns env
    then remind env ''turn-limit'' last_turn_note ?b else ?b"
  have b: "keeps (?a\<lparr>ls_world := w2\<rparr>) ?b" by (rule keeps_fold) (rule keeps_remind)
  have c: "keeps ?b ?c" by (simp add: keeps_remind)
  note k0 = keeps_trans [OF b c]
  show ?thesis
  proof (cases "le_prompt env (ls_world ?c)")
    case None
    then have "req = None" "st1 = ?c"
      using assms g unfolding prepare_turn_def Let_def by auto
    with k0 None show ?thesis by (auto simp: keeps_def loop_simps total_tools_def)
  next
    case (Some p)
    have k: "keeps (?a\<lparr>ls_world := w2\<rparr>) (maybe_compact env p ?c)"
      by (rule keeps_trans [OF k0 keeps_maybe_compact])
    have "st1 = maybe_compact env p ?c"
      "req = Some \<lparr>rq_messages = trim_tool_results 8000 (transcript (ls_store st1)), rq_system = p,
         rq_tools = schemas (le_registry env) (cx_mode (le_context env)), rq_no_tool_choice = False\<rparr>"
      using assms g Some unfolding prepare_turn_def Let_def by auto
    with k show ?thesis by (simp add: keeps_def loop_simps)
  qed
qed

lemma maybe_stop_ok:
  assumes "maybe_stop env resp st = (outcome, st')"
  shows "ext neutral (ls_store st) (ls_store st') \<and> ls_turns st' = ls_turns st \<and> outcome \<noteq> Threw
    \<and> ls_stops st \<le> ls_stops st' \<and> (ls_stops st \<le> le_max_stop env \<longrightarrow> ls_stops st' \<le> le_max_stop env)"
  using assms unfolding maybe_stop_def Let_def
  by (auto simp: loop_simps ext_one split: if_splits prod.splits)

lemma after_calls_ok: "keeps st (after_calls env resp st)"
proof -
  define st1 where "st1 = (if rs_stop resp = Length then remind env ''truncation'' cut_call_note st else st)"
  have k: "keeps st st1" by (simp add: st1_def keeps_remind)
  have "keeps s (fold (\<lambda>wn s. notify env (NoticeE (first_line wn)) (remind env ''repeat'' wn s)) ws s)" for ws and s :: "'a loop_state"
    by (rule keeps_fold) (simp add: keeps_remind)
  from this [of "st1\<lparr>ls_repeats := snd (take_warnings (ls_repeats st1))\<rparr>" "fst (take_warnings (ls_repeats st1))"]
  have "keeps (st1\<lparr>ls_repeats := snd (take_warnings (ls_repeats st1))\<rparr>) (after_calls env resp st)"
    unfolding after_calls_def Let_def st1_def [symmetric] split_def .
  moreover have "keeps st (st1\<lparr>ls_repeats := rt\<rparr>)" for rt using k by (simp add: keeps_def)
  ultimately show ?thesis by (blast intro: keeps_trans)
qed

lemma take_response_sel:
  "\<exists>ts. ls_store (take_response env resp st) = appended (AssistantMessage ts (rs_content resp) (Some (rs_usage resp))
     (Some (rs_model resp))) (ls_store st)"
  "ls_turns (take_response env resp st) = ls_turns st" "ls_stops (take_response env resp st) = ls_stops st"
  by (auto simp: take_response_def Let_def loop_simps)

text \<open>A turn: the log grows, the counters move as they should, a paired transcript stays paired.\<close>

lemma turn_step_ok:
  assumes "turn_step env st = (outcome, st')"
  shows "prefix (events (ls_store st)) (events (ls_store st')) \<and> listeners (ls_store st') = listeners (ls_store st)
    \<and> ls_turns st' \<le> Suc (ls_turns st) \<and> (outcome = Continue \<longrightarrow> ls_turns st' = Suc (ls_turns st))
    \<and> (ls_stops st \<le> le_max_stop env \<longrightarrow> ls_stops st' \<le> le_max_stop env)
    \<and> (outcome \<noteq> Threw \<longrightarrow> pairs_ok (transcript (ls_store st)) \<longrightarrow> pairs_ok (transcript (ls_store st')))
    \<and> (total_tools env \<longrightarrow> outcome \<noteq> Threw)"
proof (cases "le_aborted env (ls_world st)")
  case True
  with assms show ?thesis by (auto simp: turn_step_def)
next
  case False
  obtain rq st1 where p0: "prepare_turn env st = (rq, st1)" by (cases "prepare_turn env st")
  note p1 = prepare_turn_ok [OF p0]
  show ?thesis
  proof (cases rq)
    case None
    with assms p0 False p1 ext_prefix [of neutral "ls_store st" "ls_store st1"] show ?thesis by (auto simp: turn_step_def)
  next
    case (Some req)
    note p = p0 [unfolded Some]
    obtain out st2 where s: "send_turn env req (le_delays env) 0 st1 = (out, st2)"
      by (cases "send_turn env req (le_delays env) 0 st1")
    have k2: "keeps st1 st2" using keeps_send [of st1 env req "le_delays env" 0] s by simp
    have e2: "ext neutral (ls_store st) (ls_store st2)" using p1 k2 by (auto simp: keeps_def intro: ext_trans)
    have c2: "ls_turns st2 = Suc (ls_turns st)" "ls_stops st2 = ls_stops st" using p1 k2 by (auto simp: keeps_def)
    have pre2: "prefix (events (ls_store st)) (events (ls_store st2))" "listeners (ls_store st2) = listeners (ls_store st)"
      using ext_prefix [OF e2] by auto
    show ?thesis
    proof (cases out)
      case (Inl r)
      then have "outcome = Finished r" "st' = st2" using assms p s False by (auto simp: turn_step_def)
      with e2 c2 pre2 show ?thesis by (auto intro: ext_pairs)
    next
      case (Inr resp)
      define st3 where "st3 = take_response env resp st2"
      obtain ts where s3: "ls_store st3 = appended (AssistantMessage ts (rs_content resp) (Some (rs_usage resp))
          (Some (rs_model resp))) (ls_store st2)" and c3: "ls_turns st3 = ls_turns st2" "ls_stops st3 = ls_stops st2"
        using take_response_sel [of env resp st2] unfolding st3_def by blast
      have pre3: "prefix (events (ls_store st)) (events (ls_store st3))" "listeners (ls_store st3) = listeners (ls_store st)"
        using pre2 by (auto simp: s3 store_simps)
      show ?thesis
      proof (cases "calls_of (rs_content resp) = []")
        case True
        have ms: "maybe_stop env resp st3 = (outcome, st')"
          using assms p s False Inr True by (simp add: turn_step_def st3_def)
        have "neutral (AssistantMessage ts (rs_content resp) (Some (rs_usage resp)) (Some (rs_model resp)))"
          using True by simp
        then have "ext neutral (ls_store st2) (ls_store st3)" unfolding s3 by (rule ext_one)
        then have "ext neutral (ls_store st) (ls_store st')" using e2 maybe_stop_ok [OF ms] by (blast intro: ext_trans)
        then show ?thesis
          using maybe_stop_ok [OF ms] c2 c3 ext_prefix [of neutral "ls_store st" "ls_store st'"] ext_pairs by auto
      next
        case calls: False
        obtain oc st4 where rc: "run_calls env (calls_of (rs_content resp)) (st3\<lparr>ls_conts := 0\<rparr>) = (oc, st4)"
          by (cases "run_calls env (calls_of (rs_content resp)) (st3\<lparr>ls_conts := 0\<rparr>)")
        have g4: "log_grows (st3\<lparr>ls_conts := 0\<rparr>) st4"
          by (rule run_batches_ok(1) [OF rc [unfolded run_calls_def]])
        have pre4: "prefix (events (ls_store st)) (events (ls_store st4))" "listeners (ls_store st4) = listeners (ls_store st)"
          "ls_turns st4 = Suc (ls_turns st)" "ls_stops st4 = ls_stops st"
          using pre3 g4 c2 c3 by (auto simp: log_grows_def intro: prefix_order.trans)
        have nothrow: "total_tools env \<Longrightarrow> oc \<noteq> CallsThrew"
          using run_batches_total [of env] rc by (metis fst_conv run_calls_def)
        have pairs4: "pairs_ok (transcript (ls_store st4))"
          if "oc \<noteq> CallsThrew" "pairs_ok (transcript (ls_store st))"
        proof (rule run_calls_pairs [OF rc that(1) calls])
          show "transcript (ls_store (st3\<lparr>ls_conts := 0\<rparr>)) = transcript (ls_store st2)
              @ [barrier_message (AssistantMessage ts (rs_content resp) (Some (rs_usage resp)) (Some (rs_model resp)))]"
            by (simp add: s3 transcript_barrier)
          show "pairs_ok (transcript (ls_store st2))" by (rule ext_pairs [OF e2 that(2)])
        qed (simp_all add: is_tool_def call_ids_def)
        have step: "(outcome, st') = (case oc of CallsThrew \<Rightarrow> (Threw, st4)
            | CallsAborted \<Rightarrow> (Finished (finish AbortedRun (Some ''The run was interrupted.'') st4), st4)
            | CallsOk \<Rightarrow> (Continue, after_calls env resp st4))"
          using assms p s False Inr calls rc by (cases oc) (auto simp: turn_step_def st3_def)
        note ac = after_calls_ok [of st4 env resp]
        have ac': "prefix (events (ls_store st4)) (events (ls_store (after_calls env resp st4)))"
          "listeners (ls_store (after_calls env resp st4)) = listeners (ls_store st4)"
          "ls_turns (after_calls env resp st4) = ls_turns st4" "ls_stops (after_calls env resp st4) = ls_stops st4"
          using keeps_log_grows [OF ac] by (auto simp: log_grows_def)
        show ?thesis
        proof (cases oc)
          case CallsOk
          with step pre4 ac' pairs4 ext_pairs ac nothrow show ?thesis
            by (auto simp: keeps_def intro: prefix_order.trans)
        next
          case CallsAborted
          with step pre4 pairs4 nothrow show ?thesis by auto
        next
          case CallsThrew
          with step pre4 nothrow show ?thesis by auto
        qed
      qed
    qed
  qed
qed

section \<open>What a run returns\<close>

lemma finish_turns [simp]: "lr_turns (finish reason err st) = ls_turns st"
  by (simp add: finish_def)

lemma send_turn_result: "send_turn env req delays attempt st = (Inl r, st') \<Longrightarrow> lr_turns r = ls_turns st'"
  by (induction env req delays attempt st rule: send_turn.induct)
    (auto simp: give_up_def Let_def split: prod.splits sum.splits if_splits bool.splits)

lemma maybe_stop_result: "maybe_stop env resp st = (Finished r, st') \<Longrightarrow> lr_turns r = ls_turns st'"
  by (auto simp: maybe_stop_def Let_def split: prod.splits if_splits)

lemma turn_step_result: "turn_step env st = (Finished r, st') \<Longrightarrow> lr_turns r = ls_turns st'"
  by (auto simp: turn_step_def Let_def dest: send_turn_result maybe_stop_result
    split: prod.splits sum.splits if_splits calls_outcome.splits option.splits)

lemma keeps_consume_closing: "consume_closing env es r st = (out, st') \<Longrightarrow> keeps st st'"
proof (induction env es r st rule: consume_closing.induct)
  case (2 env d es r st)
  then have "keeps (notify env (TextDelta d) st) st'" by simp
  moreover have "keeps st (notify env (TextDelta d) st)" by simp
  ultimately show ?case by (rule keeps_trans [rotated])
qed auto

lemma calls_filter: "calls_of (filter (\<lambda>b. block_call b = None) bs) = []"
  by (induction bs) (auto simp: calls_of_def List.map_filter_simps)

lemma closing_answer_keeps: "keeps st (snd (closing_answer env req st))"
proof -
  obtain es w2 where e: "le_stream env req (ls_world st) = (es, w2)" by fastforce
  obtain out st2 where c: "consume_closing env es None (st\<lparr>ls_world := w2\<rparr>) = (out, st2)"
    by (cases "consume_closing env es None (st\<lparr>ls_world := w2\<rparr>)")
  have "keeps st (st\<lparr>ls_world := w2\<rparr>)" by simp
  with keeps_consume_closing [OF c] have k: "keeps st st2" by (blast intro: keeps_trans)
  have "keeps st (put_event (AssistantMessage ts content u m) st2)" if "calls_of content = []" for ts content u m
    using k that by (intro keeps_trans [OF k keeps_put]) simp
  with k show ?thesis
    by (auto simp: closing_answer_def Let_def e c calls_filter calls_of_def [of "[]"] List.map_filter_simps
      split: option.splits)
qed

lemma closing_turn_keeps: "keeps st (snd (closing_turn env question st))"
proof -
  let ?st1 = "remind env ''turn-limit'' question st"
  have r: "keeps st ?st1" by (rule keeps_remind)
  show ?thesis
  proof (cases "le_prompt env (ls_world ?st1)")
    case (Some p)
    have "snd (closing_turn env question st) = snd (closing_answer env (closing_request env ?st1 p) ?st1)"
      using Some by (simp add: closing_turn_def Let_def split_def)
    then show ?thesis using keeps_trans [OF r closing_answer_keeps] by simp
  qed (use r in \<open>simp add: closing_turn_def Let_def\<close>)
qed

lemma closing_turn_total: "total_tools env \<Longrightarrow> fst (closing_turn env question st) \<noteq> None"
  by (auto simp: closing_turn_def Let_def total_tools_def split: option.split prod.split)

lemma out_of_turns_ok:
  "out_of_turns env st = (res, st') \<Longrightarrow> keeps st st' \<and> (\<forall>r. res = Some r \<longrightarrow> lr_turns r = ls_turns st')
     \<and> (total_tools env \<longrightarrow> res \<noteq> None)"
  using closing_turn_keeps [of st env "the (le_wrap_up env)"] closing_turn_total [of env "the (le_wrap_up env)" st]
  by (auto simp: out_of_turns_def Let_def finish_def keeps_def split: if_splits prod.splits option.splits)

text \<open>A pass of the loop counts its turn: with \<open>n\<close> turns left the loop ends after at most \<open>n\<close> passes.\<close>

lemma run_turns_ok:
  assumes "le_max_turns env - ls_turns st = n" and "ls_turns st \<le> le_max_turns env"
  shows "\<exists>res st'. run_turns env st = Some (res, st')
    \<and> prefix (events (ls_store st)) (events (ls_store st')) \<and> listeners (ls_store st') = listeners (ls_store st)
    \<and> ls_turns st' \<le> le_max_turns env
    \<and> (ls_stops st \<le> le_max_stop env \<longrightarrow> ls_stops st' \<le> le_max_stop env)
    \<and> (res \<noteq> None \<longrightarrow> pairs_ok (transcript (ls_store st)) \<longrightarrow> pairs_ok (transcript (ls_store st')))
    \<and> (\<forall>r. res = Some r \<longrightarrow> lr_turns r = ls_turns st')
    \<and> (total_tools env \<longrightarrow> res \<noteq> None)"
  using assms
proof (induction n arbitrary: st)
  case 0
  obtain res st' where r: "out_of_turns env st = (res, st')" by (cases "out_of_turns env st")
  have "run_turns env st = Some (res, st')" using 0 r by (simp add: run_turns.simps [of env st])
  with out_of_turns_ok [OF r] 0 show ?case
    using keeps_log_grows [of st st'] ext_pairs by (auto simp: keeps_def log_grows_def)
next
  case (Suc n)
  obtain o1 st1 where t: "turn_step env st = (o1, st1)" by (cases "turn_step env st")
  note ok = turn_step_ok [OF t]
  have lt: "ls_turns st < le_max_turns env" using Suc.prems by simp
  show ?case
  proof (cases o1)
    case Continue
    then have "run_turns env st = run_turns env st1" using lt t by (simp add: run_turns.simps [of env st])
    moreover have "le_max_turns env - ls_turns st1 = n" "ls_turns st1 \<le> le_max_turns env"
      using ok Continue Suc.prems by simp_all
    from Suc.IH [OF this] obtain res st' where "run_turns env st1 = Some (res, st')
      \<and> prefix (events (ls_store st1)) (events (ls_store st')) \<and> listeners (ls_store st') = listeners (ls_store st1)
      \<and> ls_turns st' \<le> le_max_turns env
      \<and> (ls_stops st1 \<le> le_max_stop env \<longrightarrow> ls_stops st' \<le> le_max_stop env)
      \<and> (res \<noteq> None \<longrightarrow> pairs_ok (transcript (ls_store st1)) \<longrightarrow> pairs_ok (transcript (ls_store st')))
      \<and> (\<forall>r. res = Some r \<longrightarrow> lr_turns r = ls_turns st') \<and> (total_tools env \<longrightarrow> res \<noteq> None)" by blast
    ultimately show ?thesis
      using ok Continue by (intro exI [of _ res] exI [of _ st']) (auto intro: prefix_order.trans)
  next
    case (Finished r)
    then have "run_turns env st = Some (Some r, st1)" using lt t by (simp add: run_turns.simps [of env st])
    then show ?thesis using ok Finished lt turn_step_result [of env st r st1] t by auto
  next
    case Threw
    then have "run_turns env st = Some (None, st1)" using lt t by (simp add: run_turns.simps [of env st])
    then show ?thesis using ok Threw lt by auto
  qed
qed

lemma run_loop_ok:
  "\<exists>res st'. run_loop env store w = Some (res, st')
    \<and> prefix (events store) (events (ls_store st')) \<and> listeners (ls_store st') = listeners store
    \<and> ls_turns st' \<le> le_max_turns env \<and> ls_stops st' \<le> le_max_stop env
    \<and> (res \<noteq> None \<longrightarrow> pairs_ok (transcript store) \<longrightarrow> pairs_ok (transcript (ls_store st')))
    \<and> (\<forall>r. res = Some r \<longrightarrow> lr_turns r = ls_turns st')
    \<and> (total_tools env \<longrightarrow> res \<noteq> None)"
  using run_turns_ok [OF refl, of "initial_state store w" env] by (simp add: run_loop_def initial_state_def)


section \<open>The requests of a run\<close>

lemma trim_block_ids [simp]:
  "block_result_id (trim_block n b) = block_result_id b" "block_call (trim_block n b) = block_call b"
  by (cases b; simp)+

lemma map_filter_trim [simp]:
  "List.map_filter block_result_id (map (trim_block n) bs) = List.map_filter block_result_id bs"
  "calls_of (map (trim_block n) bs) = calls_of bs"
  by (induction bs) (simp_all add: calls_of_def List.map_filter_simps split: option.split)

definition trim_message :: "nat \<Rightarrow> message \<Rightarrow> message" where
  "trim_message n m = (if m_role m \<noteq> ToolRole then m else m\<lparr>m_content := map (trim_block n) (m_content m)\<rparr>)"

lemma trim_message_sel [simp]:
  "is_tool (trim_message n m) = is_tool m" "call_ids (trim_message n m) = call_ids m"
  "result_ids (trim_message n m) = result_ids m"
  by (auto simp: trim_message_def is_tool_def call_ids_def result_ids_def)

lemma trim_tool_results_map: "trim_tool_results n = map (trim_message n)"
  by (simp add: fun_eq_iff trim_tool_results_def trim_message_def)

lemma pairs_ok_trim [simp]: "pairs_ok (trim_tool_results n ms) = pairs_ok ms"
  unfolding trim_tool_results_map by (induction ms rule: pairs_ok.induct) auto

text \<open>The requests a run makes: one a turn, and one for the closing turn.\<close>

inductive sent :: "'w loop_env \<Rightarrow> 'w loop_state \<Rightarrow> request \<Rightarrow> bool" for env where
  sent_now: "ls_turns st < le_max_turns env \<Longrightarrow> \<not> le_aborted env (ls_world st) \<Longrightarrow>
    prepare_turn env st = (Some req, st1) \<Longrightarrow> sent env st req"
| sent_later: "ls_turns st < le_max_turns env \<Longrightarrow> turn_step env st = (Continue, st1) \<Longrightarrow> sent env st1 req \<Longrightarrow>
    sent env st req"
| sent_last: "ls_turns st \<ge> le_max_turns env \<Longrightarrow> st1 = remind env ''turn-limit'' question st \<Longrightarrow>
    le_prompt env (ls_world st1) = Some p \<Longrightarrow> sent env st (closing_request env st1 p)"

text \<open>
  C2. Whatever the model, the tools, the hooks and compaction do, the loop never sends a provider a
  transcript it would refuse: in every request, also after a resume, after an interrupted batch and
  after trimming, each message with tool calls is followed at once by one tool message that answers
  exactly those calls in their order, and there is no other tool message.
\<close>

theorem requests_paired:
  assumes "sent env st req" and "pairs_ok (transcript (ls_store st))"
  shows "pairs_ok (rq_messages req)"
  using assms
proof (induction rule: sent.induct)
  case (sent_now st req st1)
  with prepare_turn_ok [OF sent_now.hyps(3)] show ?case by (auto intro: ext_pairs)
next
  case (sent_later st st1 req)
  with turn_step_ok [OF sent_later.hyps(2)] show ?case by auto
next
  case (sent_last st st1 question p)
  have "pairs_ok (transcript (ls_store (remind env ''turn-limit'' question st)))"
    using keeps_remind [of st env] sent_last.prems by (auto simp: keeps_def intro: ext_pairs)
  with sent_last.hyps(2) show ?case by (simp add: closing_request_def)
qed


section \<open>A run\<close>

text \<open>A model that calls one tool in its first turn and then says it is done; the world counts.\<close>

definition sample_response :: "nat \<Rightarrow> response" where
  "sample_response w = \<lparr>rs_content = (if w = 0 then [ToolCall ''1'' ''bash'' sample_args] else [Text ''done'']),
     rs_stop = (if w = 0 then ToolUse else Stop), rs_usage = \<lparr>inputTokens = 1, outputTokens = 1, cacheReadTokens = 0, cacheWriteTokens = 0\<rparr>,
     rs_model = ''m''\<rparr>"

definition sample_env :: "nat loop_env" where
  "sample_env = \<lparr>le_aborted = (\<lambda>w. False), le_now = (\<lambda>w. w), le_event = (\<lambda>e w. w), le_reminders = (\<lambda>w. (None, w)),
     le_prompt = (\<lambda>w. Some ''system''), le_stream = (\<lambda>req w. ([SDone (sample_response w) []], w + 1)),
     le_pause = (\<lambda>d w. (True, w)), le_registry = [(''bash'', sample_tool Execute)],
     le_context = sample_context Auto None, le_before_tool = (\<lambda>c w. (None, w)), le_after_tool = (\<lambda>c r w. (None, w)),
     le_before_stop = (\<lambda>t w. (None, w)), le_before_compact = (\<lambda>w. w), le_todos = (\<lambda>w. []), le_auto_compact = False,
     le_threshold = 4 / 5, le_catalog = (\<lambda>m p. 1000), le_counter = None, le_model_ref = ''m'', le_max_output = 100,
     le_compaction = (\<lambda>w. \<lparr>ce_reply = (\<lambda>p. None), ce_native = False, ce_snap = (\<lambda>f. None), ce_now = w\<rparr>),
     le_delays = [1000], le_max_turns = 5, le_max_stop = 2, le_wrap_up = None\<rparr>"

lemma sample_env_total: "total_tools sample_env"
  by (simp add: total_tools_def sample_env_def call_summary_def sample_tool_def sample_context_def)

lemma new_store_paired: "pairs_ok (transcript new_store)"
  by code_simp


definition sample_turn :: "nat loop_state" where
  "sample_turn = snd (turn_step sample_env (initial_state new_store 0))"

lemma sample_turn_step: "turn_step sample_env (initial_state new_store 0) = (Continue, sample_turn)"
proof -
  have "fst (turn_step sample_env (initial_state new_store 0)) = Continue" by code_simp
  then show ?thesis by (simp add: sample_turn_def prod_eq_iff)
qed

text \<open>The second request of the run: the call and its result.\<close>

theorem requests_paired_witness:
  "\<exists>req. sent sample_env (initial_state new_store 0) req \<and> map m_role (rq_messages req) = [Assistant, ToolRole]
    \<and> pairs_ok (rq_messages req)"
proof -
  define req where "req = the (fst (prepare_turn sample_env sample_turn))"
  have "fst (prepare_turn sample_env sample_turn) \<noteq> None" by code_simp
  then have p: "prepare_turn sample_env sample_turn = (Some req, snd (prepare_turn sample_env sample_turn))"
    by (simp add: req_def prod_eq_iff)
  have a: "\<not> le_aborted sample_env (ls_world sample_turn)" by (simp add: sample_env_def)
  have l: "ls_turns (initial_state new_store (0 :: nat)) < le_max_turns sample_env"
    by (simp add: initial_state_def sample_env_def)
  have "ls_turns sample_turn < le_max_turns sample_env" by code_simp
  then have s: "sent sample_env (initial_state new_store 0) req"
    by (rule sent_later [OF l sample_turn_step sent_now [OF _ a p]])
  have "map m_role (rq_messages req) = [Assistant, ToolRole]" unfolding req_def by code_simp
  moreover have "pairs_ok (rq_messages req)"
    by (rule requests_paired [OF s]) (simp add: initial_state_def new_store_paired)
  ultimately show ?thesis using s by (intro exI [of _ req] conjI)
qed


end
