(* ===== verification/Glob.thy ===== *)
theory Glob
  imports Jean_Prelude
begin

text \<open>
  Globs and paths: \<open>globToRegExp\<close> of \<open>packages/tools/src/search.ts\<close>, as the language of the regular
  expression it builds, and the POSIX \<open>resolve\<close> of \<open>node:path\<close> the rules rest on.
\<close>

section \<open>The tokens of a glob\<close>

datatype gtok =
    GDirs  \<comment> \<open>\<open>(?:.*/)?\<close>\<close>
  | GAny   \<comment> \<open>\<open>.*\<close>\<close>
  | GStar  \<comment> \<open>\<open>[^/]*\<close>\<close>
  | GOne   \<comment> \<open>\<open>[^/]\<close>\<close>
  | GClass bool "(char \<times> char) list"
  | GLit char

text \<open>
  The body of a character class, as ranges; a single character is a range of one. A range whose ends
  are out of order makes the \<open>RegExp\<close> constructor throw: \<open>None\<close>.
\<close>

fun class_ranges :: "string \<Rightarrow> (char \<times> char) list option" where
  "class_ranges [] = Some []"
| "class_ranges [c] = Some [(c, c)]"
| "class_ranges (c # d # e # cs) =
     (if d = CHR ''-''
      then (if c \<le> e then map_option (\<lambda>rs. (c, e) # rs) (class_ranges cs) else None)
      else map_option (\<lambda>rs. (c, c) # rs) (class_ranges (d # e # cs)))"
| "class_ranges [c, d] = Some [(c, c), (d, d)]"

function glob_tokens :: "string \<Rightarrow> gtok list option" where
  "glob_tokens s =
     (case s of
        [] \<Rightarrow> Some []
      | ch # rest \<Rightarrow>
          if ch = CHR ''*''
          then (case rest of
                  [] \<Rightarrow> Some [GStar]
                | c1 # rest1 \<Rightarrow>
                    if c1 = CHR ''*''
                    then (case rest1 of
                            [] \<Rightarrow> Some [GAny]
                          | c2 # rest2 \<Rightarrow>
                              if c2 = CHR ''/'' then map_option (\<lambda>ts. GDirs # ts) (glob_tokens rest2)
                              else map_option (\<lambda>ts. GAny # ts) (glob_tokens rest1))
                    else map_option (\<lambda>ts. GStar # ts) (glob_tokens rest))
          else if ch = CHR ''?'' then map_option (\<lambda>ts. GOne # ts) (glob_tokens rest)
          else if ch = CHR ''[''
          then (case index_of '']'' rest of
                  None \<Rightarrow> map_option (\<lambda>ts. GLit ch # ts) (glob_tokens rest)
                | Some close \<Rightarrow>
                    (let body = take close rest;
                         negate = (body \<noteq> [] \<and> hd body \<in> {CHR ''!'', CHR ''^''})
                     in case class_ranges (if negate then tl body else body) of
                          None \<Rightarrow> None
                        | Some rs \<Rightarrow> map_option (\<lambda>ts. GClass negate rs # ts) (glob_tokens (drop (Suc close) rest))))
          else map_option (\<lambda>ts. GLit ch # ts) (glob_tokens rest))"
  by pat_completeness auto
termination
  by (relation "measure length") auto

declare glob_tokens.simps [simp del]

section \<open>Matching\<close>

definition line_break :: "char \<Rightarrow> bool" where
  "line_break c = (c = u_lf \<or> c = u_cr)"

definition in_class :: "bool \<Rightarrow> (char \<times> char) list \<Rightarrow> char \<Rightarrow> bool" where
  "in_class negate rs c = (list_ex (\<lambda>(a, b). a \<le> c \<and> c \<le> b) rs \<noteq> negate)"

fun tok_weight :: "gtok \<Rightarrow> nat" where
  "tok_weight GDirs = 3"
| "tok_weight _ = 1"

text \<open>The anchored test: the whole of the string.\<close>

function glob_match :: "gtok list \<Rightarrow> string \<Rightarrow> bool" where
  "glob_match [] s = (s = [])"
| "glob_match (GLit c # ts) s = (case s of [] \<Rightarrow> False | x # xs \<Rightarrow> x = c \<and> glob_match ts xs)"
| "glob_match (GOne # ts) s = (case s of [] \<Rightarrow> False | x # xs \<Rightarrow> x \<noteq> CHR ''/'' \<and> glob_match ts xs)"
| "glob_match (GClass negate rs # ts) s =
     (case s of [] \<Rightarrow> False | x # xs \<Rightarrow> in_class negate rs x \<and> glob_match ts xs)"
| "glob_match (GStar # ts) s =
     (glob_match ts s
      \<or> (case s of [] \<Rightarrow> False | x # xs \<Rightarrow> x \<noteq> CHR ''/'' \<and> glob_match (GStar # ts) xs))"
| "glob_match (GAny # ts) s =
     (glob_match ts s
      \<or> (case s of [] \<Rightarrow> False | x # xs \<Rightarrow> \<not> line_break x \<and> glob_match (GAny # ts) xs))"
| "glob_match (GDirs # ts) s = (glob_match ts s \<or> glob_match (GAny # GLit CHR ''/'' # ts) s)"
  by pat_completeness auto
termination
  by (relation "measures [\<lambda>(ts, s). sum_list (map tok_weight ts), \<lambda>(ts, s). length s]") auto

text \<open>\<open>globToRegExp(glob).test(s)\<close>, \<open>None\<close> when the constructor throws.\<close>

definition glob_test :: "string \<Rightarrow> string \<Rightarrow> bool option" where
  "glob_test glob s = map_option (\<lambda>ts. glob_match ts s) (glob_tokens glob)"

section \<open>Paths\<close>

definition norm_step :: "string list \<Rightarrow> string \<Rightarrow> string list" where
  "norm_step acc c =
     (if c = [] \<or> c = ''.'' then acc else if c = ''..'' then butlast acc else acc @ [c])"

definition norm_comps :: "string \<Rightarrow> string list" where
  "norm_comps p = foldl norm_step [] (split_on CHR ''/'' p)"

definition abs_path :: "string \<Rightarrow> string" where
  "abs_path p = CHR ''/'' # join ''/'' (norm_comps p)"

definition is_abs :: "string \<Rightarrow> bool" where
  "is_abs p = (p \<noteq> [] \<and> hd p = CHR ''/'')"

text \<open>\<open>resolve(base, p)\<close> in a process whose directory is \<open>here\<close>; \<open>resolve(p)\<close> with an empty base.\<close>

definition resolve :: "string \<Rightarrow> string \<Rightarrow> string \<Rightarrow> string" where
  "resolve here base p =
     (if is_abs p then abs_path p
      else if is_abs base then abs_path (base @ ''/'' @ p)
      else abs_path (here @ ''/'' @ base @ ''/'' @ p))"

subsection \<open>Laws\<close>

definition clean_comps :: "string list \<Rightarrow> bool" where
  "clean_comps cs = list_all (\<lambda>c. c \<noteq> [] \<and> c \<noteq> ''.'' \<and> c \<noteq> ''..'' \<and> CHR ''/'' \<notin> set c) cs"

lemma norm_step_clean:
  "clean_comps acc \<Longrightarrow> CHR ''/'' \<notin> set c \<Longrightarrow> clean_comps (norm_step acc c)"
  by (auto simp: clean_comps_def norm_step_def list_all_iff dest: in_set_butlastD)

lemma foldl_norm_clean:
  "clean_comps acc \<Longrightarrow> (\<And>c. c \<in> set cs \<Longrightarrow> CHR ''/'' \<notin> set c) \<Longrightarrow> clean_comps (foldl norm_step acc cs)"
  by (induction cs arbitrary: acc) (auto simp: norm_step_clean)

lemma norm_comps_clean: "clean_comps (norm_comps p)"
  unfolding norm_comps_def
  by (rule foldl_norm_clean) (auto simp: clean_comps_def dest: split_on_no_sep)

lemma foldl_norm_id: "clean_comps cs \<Longrightarrow> foldl norm_step acc cs = acc @ cs"
  by (induction cs arbitrary: acc) (auto simp: clean_comps_def norm_step_def)

lemma abs_path_is_abs [simp]: "is_abs (abs_path p)"
  by (simp add: is_abs_def abs_path_def)

lemma norm_comps_abs_path: "norm_comps (abs_path p) = norm_comps p"
proof (cases "norm_comps p = []")
  case True
  then show ?thesis by (simp add: abs_path_def norm_comps_def [of "''/''"] norm_step_def)
next
  case False
  have "split_on CHR ''/'' (join ''/'' (norm_comps p)) = norm_comps p"
    using norm_comps_clean [of p] False
    by (intro split_on_join) (auto simp: clean_comps_def list_all_iff)
  then have "split_on CHR ''/'' (abs_path p) = [] # norm_comps p" by (simp add: abs_path_def)
  then show ?thesis
    using foldl_norm_id [OF norm_comps_clean, of "[]" p]
    by (simp add: norm_comps_def [of "abs_path p"] norm_step_def)
qed

lemma abs_path_idem [simp]: "abs_path (abs_path p) = abs_path p"
  by (simp add: abs_path_def [of "abs_path p"] norm_comps_abs_path) (simp add: abs_path_def)

lemma resolve_abs [simp]: "is_abs (resolve here base p)"
  by (simp add: resolve_def)

lemma resolve_idem [simp]: "resolve here' base' (resolve here base p) = resolve here base p"
  by (auto simp: resolve_def)

end
