(* ===== verification/Permissions.thy ===== *)
theory Permissions
  imports Tools Glob
begin

text \<open>
  Permission rules: \<open>packages/hooks/src/permissions.ts\<close> and the names of \<open>packages/hooks/src/names.ts\<close>,
  on a POSIX system. What the rules take from the machine is the record \<open>host\<close>: the home and current
  directories, the host name of a URL (\<open>None\<close> when it does not parse) and the text of the engine's
  error for a malformed character class.
\<close>

record host =
  ho_home :: string
  ho_cwd :: string
  ho_url_host :: "string \<Rightarrow> string option"
  ho_regex_error :: string

section \<open>Names\<close>

definition claude_names :: "(string \<times> string) list" where
  "claude_names = [(''bash'', ''Bash''), (''bash_output'', ''BashOutput''), (''read'', ''Read''),
     (''write'', ''Write''), (''edit'', ''Edit''), (''glob'', ''Glob''), (''grep'', ''Grep''),
     (''web_fetch'', ''WebFetch''), (''web_search'', ''WebSearch''), (''todo'', ''TodoWrite''),
     (''spawn'', ''Task''), (''ask'', ''AskUserQuestion'')]"

definition extra_aliases :: "(string \<times> string) list" where
  "extra_aliases = [(''MultiEdit'', ''edit''), (''NotebookEdit'', ''edit''), (''Agent'', ''spawn''),
     (''LS'', ''read''), (''KillShell'', ''bash_output''), (''KillBash'', ''bash_output'')]"

definition to_jean :: "(string \<times> string) list" where
  "to_jean = map (\<lambda>(jean, claude). (claude, jean)) claude_names @ extra_aliases"

definition claude_name :: "string \<Rightarrow> string" where
  "claude_name n = (case map_of claude_names n of None \<Rightarrow> n | Some c \<Rightarrow> c)"

definition jean_name :: "string \<Rightarrow> string" where
  "jean_name n = (case map_of to_jean n of None \<Rightarrow> n | Some j \<Rightarrow> j)"

definition names_of :: "string \<Rightarrow> string list" where
  "names_of n = dedupe ([n, claude_name n] @ map fst (filter (\<lambda>(a, target). target = n) extra_aliases))"

definition is_record :: "json \<Rightarrow> bool" where
  "is_record v = (case v of JObj _ \<Rightarrow> True | JArr _ \<Rightarrow> True | _ \<Rightarrow> False)"

definition path_of :: "host \<Rightarrow> json \<Rightarrow> string \<Rightarrow> string option" where
  "path_of h input cwd =
     (if \<not> is_record input then None
      else (case nullish (nullish (jget input ''path'') (jget input ''file_path'')) (jget input ''notebook_path'') of
              JStr raw \<Rightarrow> if raw = [] then None else Some (resolve (ho_cwd h) cwd raw)
            | _ \<Rightarrow> None))"

text \<open>Setting a field of an object literal, and the aliases a Claude Code hook script reads.\<close>

definition set_field :: "string \<Rightarrow> json \<Rightarrow> (string \<times> json) list \<Rightarrow> (string \<times> json) list" where
  "set_field k v kvs = AList.update k v kvs"

definition set_if_undefined :: "string \<Rightarrow> json \<Rightarrow> (string \<times> json) list \<Rightarrow> (string \<times> json) list" where
  "set_if_undefined k v kvs = (if jget (JObj kvs) k = JUndef then set_field k v kvs else kvs)"

definition claude_input :: "host \<Rightarrow> string \<Rightarrow> json \<Rightarrow> string \<Rightarrow> (string \<times> json) list" where
  "claude_input h tool input cwd =
     (let r0 = (case input of JObj kvs \<Rightarrow> kvs | _ \<Rightarrow> []);
          r1 = (case path_of h input cwd of None \<Rightarrow> r0 | Some p \<Rightarrow> set_if_undefined ''file_path'' (JStr p) r0);
          r2 = (if tool = ''spawn''
                then (let a = (case jget (JObj r1) ''agent'' of
                                 JStr g \<Rightarrow> set_if_undefined ''subagent_type'' (JStr g) r1 | _ \<Rightarrow> r1)
                      in case jget (JObj a) ''task'' of
                           JStr g \<Rightarrow> set_if_undefined ''prompt'' (JStr g) a | _ \<Rightarrow> a)
                else r1)
      in if tool = ''grep'' \<or> tool = ''glob'' then set_if_undefined ''path'' (JStr cwd) r2 else r2)"

section \<open>Rules\<close>

record rule =
  ru_raw :: string
  ru_tool :: string
  ru_spec :: "string option"
  ru_decision :: decision
  ru_source :: string

definition rule_name_char :: "char \<Rightarrow> bool" where
  "rule_name_char c = (CHR ''A'' \<le> c \<and> c \<le> CHR ''Z'' \<or> CHR ''a'' \<le> c \<and> c \<le> CHR ''z'' \<or> is_digit c
     \<or> c \<in> {CHR ''_'', CHR ''*'', CHR ''-''})"

text \<open>\<open>/^([A-Za-z0-9_*-]+)(?:\(([\s\S]*)\))?$/\<close> on the trimmed text.\<close>

definition parse_rule :: "string \<Rightarrow> decision \<Rightarrow> string \<Rightarrow> rule option" where
  "parse_rule raw d source =
     (let text = trim raw;
          name = takeWhile rule_name_char text;
          rest = dropWhile rule_name_char text;
          make = (\<lambda>spec. Some \<lparr>ru_raw = text, ru_tool = jean_name name, ru_spec = spec, ru_decision = d,
                               ru_source = source\<rparr>)
      in if name = [] then None
         else if rest = [] then make None
         else if length rest \<ge> 2 \<and> hd rest = CHR ''('' \<and> last rest = CHR '')''
         then (let s = trim (butlast (tl rest)) in make (if s = [] \<or> s = ''*'' then None else Some s))
         else None)"

definition tool_matches :: "string \<Rightarrow> string \<Rightarrow> bool" where
  "tool_matches rule_tool tool =
     (if rule_tool = ''*'' \<or> rule_tool = tool then True
      else if ends_with rule_tool ''*'' then starts_with tool (butlast rule_tool)
      else if starts_with rule_tool ''mcp__'' then starts_with tool (rule_tool @ ''__'')
      else False)"

subsection \<open>Commands\<close>

text \<open>\<open>wildcard\<close>: \<open>*\<close> is any text, \<open>?\<close> any one character, everything else itself; anchored.\<close>

fun wild_match :: "string \<Rightarrow> string \<Rightarrow> bool" where
  "wild_match [] s = (s = [])"
| "wild_match (p # ps) s =
     (if p = CHR ''*''
      then wild_match ps s \<or> (case s of [] \<Rightarrow> False | x # xs \<Rightarrow> wild_match (p # ps) xs)
      else (case s of [] \<Rightarrow> False | x # xs \<Rightarrow> (p = CHR ''?'' \<or> p = x) \<and> wild_match ps xs))"

definition wildcard :: "string \<Rightarrow> string \<Rightarrow> bool" where
  "wildcard pattern s = wild_match (trim pattern) s"

text \<open>\<open>CHAINING\<close>: one of \<open>;\<close>, \<open>&&\<close>, \<open>|\<close>, a backtick, \<open>$(\<close>, a line break, \<open>>\<close>, \<open><\<close> somewhere.\<close>

definition chaining :: "string \<Rightarrow> bool" where
  "chaining s = (list_ex (\<lambda>c. c \<in> {CHR '';'', CHR ''|'', CHR 0x60, u_lf, CHR ''>'', CHR ''<''}) s
     \<or> str_includes s ''&&'' \<or> str_includes s ''$('')"

definition single :: "string \<Rightarrow> string \<Rightarrow> bool" where
  "single spec command =
     (if ends_with spec '':*''
      then (let pre = trim (take (length spec - 2) spec)
            in command = pre \<or> starts_with command (pre @ '' ''))
      else if CHR ''*'' \<in> set spec then wildcard spec command
      else command = trim spec)"

text \<open>\<open>split(/;|&&|\|\||\||\n/)\<close>, a line of pieces with some empty.\<close>

fun split_chain :: "string \<Rightarrow> string list" where
  "split_chain [] = [[]]"
| "split_chain (c # cs) =
     (if c \<in> {CHR '';'', CHR ''|'', u_lf} then [] # split_chain cs
      else if c = CHR ''&'' \<and> cs \<noteq> [] \<and> hd cs = CHR ''&'' then [] # split_chain (tl cs)
      else (case split_chain cs of [] \<Rightarrow> [[c]] | p # ps \<Rightarrow> (c # p) # ps))"

definition chain_parts :: "string \<Rightarrow> string list" where
  "chain_parts s = filter (\<lambda>p. p \<noteq> []) (map trim (split_chain s))"

definition strip_substitution :: "string \<Rightarrow> string" where
  "strip_substitution p =
     (let a = (if starts_with p ''$('' then drop 2 p else p)
      in if ends_with a '')'' then butlast a else a)"

definition normalize_command :: "string \<Rightarrow> string" where
  "normalize_command command = trim (collapse_ws command)"

definition command_matches :: "string \<Rightarrow> string \<Rightarrow> decision \<Rightarrow> string list option \<Rightarrow> bool" where
  "command_matches spec command d parsed =
     (let normalized = normalize_command command
      in if d = Allow
         then (if chaining normalized \<and> \<not> chaining spec then False
               else if (case parsed of None \<Rightarrow> False | Some ls \<Rightarrow> length ls > 1) \<and> \<not> chaining spec then False
               else single spec normalized)
         else (single spec normalized
               \<or> list_ex (\<lambda>p. single spec (strip_substitution p)) (chain_parts normalized)
               \<or> list_ex (single spec) (case parsed of None \<Rightarrow> [] | Some ls \<Rightarrow> ls)))"

subsection \<open>Domains, parameters, paths\<close>

definition domain_matches :: "host \<Rightarrow> string \<Rightarrow> json \<Rightarrow> bool" where
  "domain_matches h domain url =
     (case url of
        JStr u \<Rightarrow> (case ho_url_host h u of
            None \<Rightarrow> False
          | Some hn \<Rightarrow> (let name = to_lower hn; want = to_lower (trim domain)
                       in name = want \<or> ends_with name (CHR ''.'' # want)))
      | _ \<Rightarrow> False)"

definition is_alpha :: "char \<Rightarrow> bool" where
  "is_alpha c = (CHR ''A'' \<le> c \<and> c \<le> CHR ''Z'' \<or> CHR ''a'' \<le> c \<and> c \<le> CHR ''z'')"

text \<open>\<open>/^[A-Za-z]:[\\/]/\<close>\<close>

definition looks_like_path :: "string \<Rightarrow> bool" where
  "looks_like_path s = (case s of
     a # b # c # _ \<Rightarrow> is_alpha a \<and> b = CHR '':'' \<and> c \<in> {CHR 0x5C, CHR ''/''} | _ \<Rightarrow> False)"

text \<open>\<open>/^([A-Za-z_][A-Za-z0-9_]*):([\s\S]+)$/\<close>\<close>

definition param_spec :: "string \<Rightarrow> (string \<times> string) option" where
  "param_spec s =
     (let word = (\<lambda>c. is_alpha c \<or> c = CHR ''_'' \<or> is_digit c);
          name = takeWhile word s; rest = dropWhile word s
      in if name \<noteq> [] \<and> \<not> is_digit (hd name) \<and> length rest \<ge> 2 \<and> hd rest = CHR '':''
         then Some (name, tl rest) else None)"

text \<open>\<open>String(v)\<close>\<close>

fun js_string :: "json \<Rightarrow> string" where
  "js_string JUndef = ''undefined''"
| "js_string JNull = ''null''"
| "js_string (JBool b) = (if b then ''true'' else ''false'')"
| "js_string (JNum n) = int_str n"
| "js_string (JDec m k) = dec_str m k"
| "js_string (JStr s) = s"
| "js_string (JArr xs) =
     join '','' (map (\<lambda>(x, s). if x = JUndef \<or> x = JNull then [] else s) (map (\<lambda>x. (x, js_string x)) xs))"
| "js_string (JObj _) = ''[object Object]''"

text \<open>Whether a value has a text: an object with a \<open>toString\<close> of its own, which is no function, has none.\<close>

fun nameable :: "json \<Rightarrow> bool" where
  "nameable (JArr vs) = list_all nameable vs"
| "nameable (JObj kvs) = (jget (JObj kvs) ''toString'' = JUndef)"
| "nameable v = True"

text \<open>Backslashes to slashes, then no slash at the end.\<close>

definition strip_slashes :: "string \<Rightarrow> string" where
  "strip_slashes p = rev (dropWhile (\<lambda>c. c = CHR ''/'') (rev p))"

definition normalize_path :: "string \<Rightarrow> string" where
  "normalize_path p = strip_slashes (map (\<lambda>c. if c = CHR 0x5C then CHR ''/'' else c) p)"

definition resolve_glob :: "host \<Rightarrow> string \<Rightarrow> string \<Rightarrow> string" where
  "resolve_glob h base pattern =
     rev (dropWhile (\<lambda>c. c = CHR ''/'' \<or> c = CHR 0x5C) (rev (resolve (ho_cwd h) [] base))) @ ''/'' @ pattern"

text \<open>Where a pattern starts: its base (empty for an absolute one) and what is left of it.\<close>

definition pattern_base :: "host \<Rightarrow> string \<Rightarrow> string \<Rightarrow> string \<times> string" where
  "pattern_base h spec cwd =
     (let pattern = trim spec
      in if starts_with pattern ''//'' then ([], drop 1 pattern)
         else if starts_with pattern ''~/'' then (ho_home h, drop 2 pattern)
         else if looks_like_path pattern then ([], pattern)
         else if starts_with pattern ''./'' then (cwd, drop 2 pattern)
         else if starts_with pattern ''/'' then (cwd, drop 1 pattern)
         else (cwd, pattern))"

definition path_matches :: "host \<Rightarrow> string \<Rightarrow> string \<Rightarrow> string \<Rightarrow> bool option" where
  "path_matches h spec target cwd =
     (case pattern_base h spec cwd of (base, pattern) \<Rightarrow>
        (let full = normalize_path (if base = [] then pattern else resolve_glob h base pattern);
             file = normalize_path (resolve (ho_cwd h) [] target)
         in if \<not> list_ex (\<lambda>c. c \<in> {CHR ''*'', CHR ''?'', CHR ''[''}) full
            then Some (file = full \<or> starts_with file (full @ ''/''))
            else glob_test full file))"

subsection \<open>Evaluation\<close>

text \<open>Whether a rule covers a call; \<open>None\<close> when a malformed glob throws.\<close>

definition rule_matches :: "host \<Rightarrow> rule \<Rightarrow> string \<Rightarrow> json \<Rightarrow> string \<Rightarrow> string list option \<Rightarrow> bool option" where
  "rule_matches h r tool args cwd facts =
     (if \<not> tool_matches (ru_tool r) tool then Some False
      else case ru_spec r of
          None \<Rightarrow> Some True
        | Some spec \<Rightarrow>
            if tool = ''bash''
            then Some (command_matches spec (case jget args ''command'' of JStr c \<Rightarrow> c | _ \<Rightarrow> []) (ru_decision r) facts)
            else if tool = ''web_fetch'' \<and> starts_with spec ''domain:''
            then Some (domain_matches h (drop 7 spec) (jget args ''url''))
            else (case (if looks_like_path spec then None else param_spec spec) of
                    Some (name, pattern) \<Rightarrow>
                      (let value = jget args name
                       in Some (value \<noteq> JUndef \<and> value \<noteq> JNull \<and> wildcard pattern (js_string value)))
                  | None \<Rightarrow>
                      (case (case path_of h args cwd of
                               Some p \<Rightarrow> Some p
                             | None \<Rightarrow> if tool = ''grep'' \<or> tool = ''glob'' then Some cwd else None) of
                         None \<Rightarrow> Some False
                       | Some target \<Rightarrow> if target = [] then Some False else path_matches h spec target cwd)))"

text \<open>The first rule of one decision that covers the call.\<close>

fun first_rule :: "(rule \<Rightarrow> bool option) \<Rightarrow> decision \<Rightarrow> rule list \<Rightarrow> unit + rule option" where
  "first_rule covers d [] = Inr None"
| "first_rule covers d (r # rs) =
     (if ru_decision r \<noteq> d then first_rule covers d rs
      else case covers r of
          None \<Rightarrow> Inl ()
        | Some True \<Rightarrow> Inr (Some r)
        | Some False \<Rightarrow> first_rule covers d rs)"

fun first_decision :: "(rule \<Rightarrow> bool option) \<Rightarrow> decision list \<Rightarrow> rule list \<Rightarrow> unit + verdict option" where
  "first_decision covers [] rs = Inr None"
| "first_decision covers (d # ds) rs =
     (case first_rule covers d rs of
        Inl u \<Rightarrow> Inl ()
      | Inr (Some r) \<Rightarrow> Inr (Some \<lparr>v_decision = d, v_rule = ru_raw r\<rparr>)
      | Inr None \<Rightarrow> first_decision covers ds rs)"

definition evaluate_rules :: "host \<Rightarrow> rule list \<Rightarrow> string \<Rightarrow> string \<Rightarrow> json \<Rightarrow> string list option \<Rightarrow>
    string + verdict option" where
  "evaluate_rules h rules cwd tool args facts =
     (case first_decision (\<lambda>r. rule_matches h r tool args cwd facts) [Deny, AskUser, Allow] rules of
        Inl _ \<Rightarrow> Inl (ho_regex_error h)
      | Inr v \<Rightarrow> Inr v)"

section \<open>Laws\<close>

lemma first_rule_None: "first_rule covers d rs = Inr None \<longleftrightarrow> (\<forall>r\<in>set rs. ru_decision r = d \<longrightarrow> covers r = Some False)"
  by (induction rs) (auto split: option.splits bool.splits)

lemma first_rule_Some:
  "first_rule covers d rs = Inr (Some r) \<Longrightarrow> r \<in> set rs \<and> ru_decision r = d \<and> covers r = Some True"
  by (induction rs) (auto split: option.splits bool.splits if_splits)

lemma first_decision_cases:
  assumes "first_decision covers ds rs = Inr (Some v)"
  shows "\<exists>r pre post. ds = pre @ v_decision v # post \<and> r \<in> set rs \<and> ru_decision r = v_decision v
    \<and> covers r = Some True \<and> v_rule v = ru_raw r
    \<and> (\<forall>d\<in>set pre. \<forall>r\<in>set rs. ru_decision r = d \<longrightarrow> covers r = Some False)"
  using assms
proof (induction ds)
  case (Cons d ds)
  show ?case
  proof (cases "first_rule covers d rs")
    case (Inl u)
    with Cons.prems show ?thesis by simp
  next
    case (Inr m)
    show ?thesis
    proof (cases m)
      case (Some r)
      with Cons.prems Inr have "v = \<lparr>v_decision = d, v_rule = ru_raw r\<rparr>" by simp
      with first_rule_Some [of covers d rs r] Inr Some show ?thesis
        by (intro exI [of _ r] exI [of _ "[]"] exI [of _ ds]) simp
    next
      case None
      with Cons.prems Inr have "first_decision covers ds rs = Inr (Some v)" by simp
      from Cons.IH [OF this] obtain r pre post where
        "ds = pre @ v_decision v # post" "r \<in> set rs" "ru_decision r = v_decision v" "covers r = Some True"
        "v_rule v = ru_raw r" "\<forall>d\<in>set pre. \<forall>r\<in>set rs. ru_decision r = d \<longrightarrow> covers r = Some False" by blast
      moreover have "\<forall>r\<in>set rs. ru_decision r = d \<longrightarrow> covers r = Some False"
        using Inr None first_rule_None by blast
      ultimately show ?thesis by (intro exI [of _ r] exI [of _ "d # pre"] exI [of _ post]) auto
    qed
  qed
qed simp

lemma first_decision_head:
  assumes "r \<in> set rs" and "ru_decision r = d" and "covers r = Some True"
  shows "(\<exists>e. first_decision covers (d # ds) rs = Inl e)
    \<or> (\<exists>v. first_decision covers (d # ds) rs = Inr (Some v) \<and> v_decision v = d)"
proof -
  have "first_rule covers d rs \<noteq> Inr None" using assms by (auto simp: first_rule_None)
  then show ?thesis by (auto split: sum.splits option.splits)
qed

interpretation rules: tool_policy "evaluate_rules h rs cwd"
  "\<lambda>tool args facts. \<exists>r\<in>set rs. ru_decision r = Deny \<and> rule_matches h r tool args cwd facts = Some True"
  for h rs cwd
proof
  fix tool args facts
  assume "\<exists>r\<in>set rs. ru_decision r = Deny \<and> rule_matches h r tool args cwd facts = Some True"
  then obtain r where "r \<in> set rs" "ru_decision r = Deny" "rule_matches h r tool args cwd facts = Some True"
    by blast
  then have "(\<exists>e. first_decision (\<lambda>r. rule_matches h r tool args cwd facts) [Deny, AskUser, Allow] rs = Inl e)
    \<or> (\<exists>v. first_decision (\<lambda>r. rule_matches h r tool args cwd facts) [Deny, AskUser, Allow] rs = Inr (Some v)
         \<and> v_decision v = Deny)"
    by (rule first_decision_head)
  then
  show "(\<exists>e. evaluate_rules h rs cwd tool args facts = Inl e)
    \<or> (\<exists>v. evaluate_rules h rs cwd tool args facts = Inr (Some v) \<and> v_decision v = Deny)"
    by (auto simp: evaluate_rules_def)
qed

lemma single_prefix: "trim p = p \<Longrightarrow> single (p @ '':*'') c \<longleftrightarrow> c = p \<or> starts_with c (p @ '' '')"
  by (auto simp: single_def ends_with_def Let_def suffix_def)

lemma split_chain_not_Nil [simp]: "split_chain s \<noteq> []"
  by (induction s rule: split_chain.induct) (auto split: list.splits)

text \<open>A text that holds no separator and does not end in an ampersand is split off whole.\<close>

lemma split_chain_append:
  assumes "\<not> str_includes a ''&&''" and "list_all (\<lambda>c. c \<notin> {CHR '';'', CHR ''|'', u_lf}) a"
    and "a = [] \<or> last a \<noteq> CHR ''&'' \<or> s = [] \<or> hd s \<noteq> CHR ''&''"
  shows "split_chain (a @ s) = (a @ hd (split_chain s)) # tl (split_chain s)"
  using assms
proof (induction a)
  case (Cons c cs)
  have inc: "\<not> str_includes cs ''&&''" and nopre: "\<not> prefix ''&&'' (c # cs)"
    using Cons.prems(1) by (auto simp: str_includes_def split: if_splits)
  have last: "cs = [] \<or> last cs \<noteq> CHR ''&'' \<or> s = [] \<or> hd s \<noteq> CHR ''&''"
    using Cons.prems(3) by (cases cs) auto
  have "\<not> (c = CHR ''&'' \<and> cs @ s \<noteq> [] \<and> hd (cs @ s) = CHR ''&'')"
    using nopre Cons.prems(3) by (cases cs) auto
  moreover have "split_chain (cs @ s) = (cs @ hd (split_chain s)) # tl (split_chain s)"
    using Cons.IH [OF inc _ last] Cons.prems(2) by simp
  ultimately show ?case using Cons.prems(2) by simp
qed simp

text \<open>The pieces of \<open>pre op post\<close> are those of \<open>pre\<close> and of \<open>post\<close>.\<close>

lemma split_chain_sep: "c \<in> {CHR '';'', CHR ''|'', u_lf} \<Longrightarrow> split_chain (pre @ c # post) = split_chain pre @ split_chain post"
proof (induction pre rule: split_chain.induct)
  case (2 d ds)
  show ?case
  proof (cases "d \<in> {CHR '';'', CHR ''|'', u_lf}")
    case True
    with 2 show ?thesis by auto
  next
    case d: False
    show ?thesis
    proof (cases "d = CHR ''&'' \<and> ds \<noteq> [] \<and> hd ds = CHR ''&''")
      case True
      with "2.IH"(2) [OF d] "2.prems" d show ?thesis by (cases ds) auto
    next
      case False
      have "\<not> (d = CHR ''&'' \<and> ds @ c # post \<noteq> [] \<and> hd (ds @ c # post) = CHR ''&'')"
        using False "2.prems" by (cases ds) (auto simp: u_lf_def)
      moreover obtain p ps where "split_chain ds = p # ps" by (cases "split_chain ds") auto
      ultimately show ?thesis
        using "2.IH"(3) [OF d False] "2.prems" d False by auto
    qed
  qed
qed simp

lemma split_chain_and:
  "pre = [] \<or> last pre \<noteq> CHR ''&'' \<Longrightarrow>
   split_chain (pre @ CHR ''&'' # CHR ''&'' # s) = split_chain pre @ split_chain s"
proof (induction pre rule: split_chain.induct)
  case (2 c cs)
  show ?case
  proof (cases "c \<in> {CHR '';'', CHR ''|'', u_lf}")
    case True
    with 2 show ?thesis by (cases cs) auto
  next
    case c: False
    show ?thesis
    proof (cases "c = CHR ''&'' \<and> cs \<noteq> [] \<and> hd cs = CHR ''&''")
      case True
      with "2.IH"(2) [OF c] "2.prems" c show ?thesis by (cases cs) (auto split: if_splits)
    next
      case False
      have "cs = [] \<or> last cs \<noteq> CHR ''&''" using "2.prems" by (cases cs) auto
      moreover have "\<not> (c = CHR ''&'' \<and> cs @ CHR ''&'' # CHR ''&'' # s \<noteq> []
          \<and> hd (cs @ CHR ''&'' # CHR ''&'' # s) = CHR ''&'')"
        using False "2.prems" by (cases cs) auto
      moreover obtain q qs where "split_chain cs = q # qs" by (cases "split_chain cs") auto
      ultimately show ?thesis using "2.IH"(3) [OF c False] c False by auto
    qed
  qed
qed (simp add: u_lf_def)

section \<open>Correctness\<close>

text \<open>
  Rules have the precedence deny, ask, allow: the verdict comes from a rule of the list that
  covers the call, a deny rule that covers it is never overridden, and an allow verdict means that
  no deny and no ask rule covers it.
\<close>

theorem rule_precedence:
  assumes "evaluate_rules h rs cwd tool args facts = Inr (Some v)"
  shows "(\<exists>r\<in>set rs. ru_decision r = v_decision v \<and> ru_raw r = v_rule v
        \<and> rule_matches h r tool args cwd facts = Some True)
    \<and> ((\<exists>r\<in>set rs. ru_decision r = Deny \<and> rule_matches h r tool args cwd facts = Some True)
        \<longleftrightarrow> v_decision v = Deny)
    \<and> (v_decision v = Allow \<longrightarrow> (\<forall>r\<in>set rs. ru_decision r \<noteq> Allow \<longrightarrow>
         rule_matches h r tool args cwd facts = Some False))"
proof -
  let ?covers = "\<lambda>r. rule_matches h r tool args cwd facts"
  have "first_decision ?covers [Deny, AskUser, Allow] rs = Inr (Some v)"
    using assms by (auto simp: evaluate_rules_def split: sum.splits)
  from first_decision_cases [OF this] obtain r pre post where
    ds: "[Deny, AskUser, Allow] = pre @ v_decision v # post" and
    r: "r \<in> set rs" "ru_decision r = v_decision v" "?covers r = Some True" "v_rule v = ru_raw r" and
    pre: "\<forall>d\<in>set pre. \<forall>r\<in>set rs. ru_decision r = d \<longrightarrow> ?covers r = Some False" by blast
  have before: "pre = (case v_decision v of Deny \<Rightarrow> [] | AskUser \<Rightarrow> [Deny] | Allow \<Rightarrow> [Deny, AskUser])"
    using ds by (cases "v_decision v") (auto simp: Cons_eq_append_conv)
  have deny: "v_decision v = Deny" if "s \<in> set rs" "ru_decision s = Deny" "?covers s = Some True" for s
  proof (rule ccontr)
    assume "v_decision v \<noteq> Deny"
    then have "Deny \<in> set pre" by (cases "v_decision v") (simp_all add: before)
    with pre that show False by fastforce
  qed
  have allow: "?covers s = Some False" if "v_decision v = Allow" "s \<in> set rs" "ru_decision s \<noteq> Allow" for s
  proof -
    have "ru_decision s \<in> set pre" using that by (cases "ru_decision s") (simp_all add: before)
    with pre that(2) show ?thesis by blast
  qed
  from r deny allow show ?thesis by metis
qed

definition sample_host :: host where
  "sample_host = \<lparr>ho_home = ''/home/u'', ho_cwd = ''/proj'', ho_url_host = (\<lambda>u. None), ho_regex_error = ''bad range''\<rparr>"

definition sample_rules :: "rule list" where
  "sample_rules = [\<lparr>ru_raw = ''Bash(rm:*)'', ru_tool = ''bash'', ru_spec = Some ''rm:*'', ru_decision = Deny, ru_source = ''s''\<rparr>,
     \<lparr>ru_raw = ''Bash'', ru_tool = ''bash'', ru_spec = None, ru_decision = Allow, ru_source = ''s''\<rparr>]"

definition rm_call :: json where
  "rm_call = JObj [(''command'', JStr ''cd x; rm y'')]"

lemma rm_verdict:
  "evaluate_rules sample_host sample_rules ''/proj'' ''bash'' rm_call None
    = Inr (Some \<lparr>v_decision = Deny, v_rule = ''Bash(rm:*)''\<rparr>)"
  "rule_matches sample_host (hd sample_rules) ''bash'' rm_call ''/proj'' None = Some True"
  by code_simp+

theorem rule_precedence_witness:
  "v_decision \<lparr>v_decision = Deny, v_rule = ''Bash(rm:*)''\<rparr> = Deny
   \<and> (\<exists>r\<in>set sample_rules. ru_decision r = Deny \<and> rule_matches sample_host r ''bash'' rm_call ''/proj'' None = Some True)"
  using rule_precedence [OF rm_verdict(1)] by simp

lemma deny_verdict:
  assumes "r \<in> set rs" and "ru_decision r = Deny" and "rule_matches h r tool args cwd facts = Some True"
    and "\<forall>s\<in>set rs. ru_decision s = Deny \<longrightarrow> rule_matches h s tool args cwd facts \<noteq> None"
  shows "\<exists>v. evaluate_rules h rs cwd tool args facts = Inr (Some v) \<and> v_decision v = Deny"
proof -
  let ?covers = "\<lambda>r. rule_matches h r tool args cwd facts"
  have "first_rule ?covers Deny rs \<noteq> Inr None" using assms(1-3) by (auto simp: first_rule_None)
  moreover have "first_rule ?covers Deny rs \<noteq> Inl u" for u
    using assms(4) by (induction rs) (auto split: option.splits bool.splits if_splits)
  ultimately obtain r' where "first_rule ?covers Deny rs = Inr (Some r')"
    by (cases "first_rule ?covers Deny rs") auto
  then show ?thesis by (simp add: evaluate_rules_def)
qed

lemma denied_call_unchanged:
  assumes "cx_policy ctx = Some evaluate" and "get_tool reg name = Some t"
    and "evaluate (t_name t) args (call_facts t args ctx) = Inr (Some v)" and "v_decision v = Deny"
  shows "\<exists>res recs. call_tool reg name args ctx opts w = (Inr res, recs, w) \<and> tr_error res"
proof -
  have "rules_verdict t args ctx = Inr (Some v)" using assms(1,3) by (simp add: rules_verdict_def)
  from gate_deny [OF this assms(4), of opts w] show ?thesis
    using assms(2)
    by (cases "is_visible t (cx_mode ctx)"; cases "validate_args t args")
      (simp_all add: call_tool_def record_call_def error_result_def Let_def)
qed

text \<open>
  A call that a deny rule of the settings covers changes nothing, whatever the mode, the other rules, the hooks
  and the user say: the world is the one before the call and the answer is an error. Only where the glob of some deny
  rule is malformed, so that checking the rules throws, is the user asked; the tool then runs at most when the user
  approves the very request it made, and otherwise nothing happens but the question.
\<close>

theorem denied_call_never_runs_unasked:
  assumes "cx_policy ctx = Some (evaluate_rules h rs cwd)" and "get_tool reg name = Some t"
    and "r \<in> set rs" and "ru_decision r = Deny"
    and "rule_matches h r (t_name t) args cwd (call_facts t args ctx) = Some True"
    and "call_tool reg name args ctx opts w = (out, recs, w')"
  shows "((\<forall>s\<in>set rs. ru_decision s = Deny \<longrightarrow> rule_matches h s (t_name t) args cwd (call_facts t args ctx) \<noteq> None)
          \<longrightarrow> w' = w \<and> (\<exists>res. out = Inr res \<and> tr_error res))
    \<and> ((\<exists>w1. asked_and_approved t ctx w w1)
       \<or> (w' = w \<or> w' = snd (gate t args ctx opts w)) \<and> (\<forall>res. out = Inr res \<longrightarrow> tr_error res))"
proof (intro conjI impI)
  assume "\<forall>s\<in>set rs. ru_decision s = Deny \<longrightarrow> rule_matches h s (t_name t) args cwd (call_facts t args ctx) \<noteq> None"
  from deny_verdict [OF assms(3-5) this] obtain v
    where v: "evaluate_rules h rs cwd (t_name t) args (call_facts t args ctx) = Inr (Some v)" "v_decision v = Deny" by blast
  from denied_call_unchanged [OF assms(1,2) v, of opts w] assms(6)
  show "w' = w" "\<exists>res. out = Inr res \<and> tr_error res" by auto
next
  show "(\<exists>w1. asked_and_approved t ctx w w1)
    \<or> (w' = w \<or> w' = snd (gate t args ctx opts w)) \<and> (\<forall>res. out = Inr res \<longrightarrow> tr_error res)"
    by (rule rules.forbidden_call [OF assms(1,2) _ assms(6)]) (use assms(3-5) in blast)
qed

theorem denied_call_never_runs_unasked_witness:
  "\<exists>res recs. call_tool [(''bash'', sample_tool Execute)] ''bash'' rm_call
     (sample_context Full (Some (evaluate_rules sample_host sample_rules ''/proj'')))
     \<lparr>co_approve = True, co_ask = None\<rparr> 7 = (Inr res, recs, 7) \<and> tr_error res"
proof -
  let ?ctx = "sample_context Full (Some (evaluate_rules sample_host sample_rules ''/proj''))"
  let ?call = "call_tool [(''bash'', sample_tool Execute)] ''bash'' rm_call ?ctx \<lparr>co_approve = True, co_ask = None\<rparr> 7"
  obtain out recs w' where c: "?call = (out, recs, w')" by (cases ?call) auto
  have facts: "call_facts (sample_tool Execute) rm_call ?ctx = None"
    by (simp add: call_facts_def rm_call_def sample_context_def)
  have m: "rule_matches sample_host (hd sample_rules) (t_name (sample_tool Execute)) rm_call ''/proj''
      (call_facts (sample_tool Execute) rm_call ?ctx) = Some True"
    using rm_verdict(2) by (simp add: facts)
  have "hd sample_rules \<in> set sample_rules" "ru_decision (hd sample_rules) = Deny"
    by (simp_all add: sample_rules_def)
  from denied_call_never_runs_unasked [OF _ _ this m c]
  have "(\<forall>s\<in>set sample_rules. ru_decision s = Deny \<longrightarrow> rule_matches sample_host s (t_name (sample_tool Execute)) rm_call
      ''/proj'' (call_facts (sample_tool Execute) rm_call ?ctx) \<noteq> None) \<longrightarrow> w' = 7 \<and> (\<exists>res. out = Inr res \<and> tr_error res)"
    by (simp add: get_tool_def)
  then show ?thesis using c m by (auto simp: sample_rules_def)
qed

subsection \<open>Chains of commands\<close>

text \<open>A chain: commands joined by the operators that split one, none of them inside a command.\<close>

definition chain_operators :: "string list" where
  "chain_operators = ['';'', ''|'', ''||'', ''&&'']"

definition one_command :: "string \<Rightarrow> bool" where
  "one_command p = (\<not> str_includes p ''&&'' \<and> list_all (\<lambda>c. c \<notin> {CHR '';'', CHR ''|'', u_lf}) p
     \<and> (p = [] \<or> hd p \<noteq> CHR ''&'' \<and> last p \<noteq> CHR ''&''))"

definition chain_text :: "string \<Rightarrow> (string \<times> string) list \<Rightarrow> string" where
  "chain_text first rest = first @ concat (map (\<lambda>(opr, p). opr @ p) rest)"

lemma split_one_command: "one_command p \<Longrightarrow> split_chain p = [p]"
  using split_chain_append [of p "[]"] by (simp add: one_command_def)

lemma chain_parts_append: "split_chain s = split_chain a @ split_chain b \<Longrightarrow> chain_parts s = chain_parts a @ chain_parts b"
  by (simp add: chain_parts_def)

lemma chain_parts_step:
  assumes "one_command p" and "opr \<in> set chain_operators"
  shows "chain_parts (p @ opr @ s) = chain_parts p @ chain_parts s"
proof -
  have "opr = '';'' \<or> opr = ''|'' \<or> opr = ''||'' \<or> opr = ''&&''" using assms(2) by (auto simp: chain_operators_def)
  then show ?thesis
  proof (elim disjE)
    assume "opr = ''&&''"
    then show ?thesis
      using split_chain_and [of p s] assms(1) by (intro chain_parts_append) (auto simp: one_command_def)
  next
    assume o: "opr = ''||''"
    have "chain_parts (CHR ''|'' # s) = chain_parts s" by (simp add: chain_parts_def trim_def trim_start_def trim_end_def)
    then show ?thesis
      using o chain_parts_append [OF split_chain_sep [of "CHR ''|''" p "CHR ''|'' # s"]] by simp
  qed (use split_chain_sep [of "CHR '';''" p s] split_chain_sep [of "CHR ''|''" p s] in \<open>auto intro: chain_parts_append\<close>)
qed

lemma chain_parts_text:
  assumes "one_command first" and "\<forall>(opr, p)\<in>set rest. opr \<in> set chain_operators \<and> one_command p"
  shows "chain_parts (chain_text first rest) = filter (\<lambda>p. p \<noteq> []) (map trim (first # map snd rest))"
  using assms
proof (induction rest arbitrary: first)
  case Nil
  then show ?case by (simp add: chain_text_def chain_parts_def split_one_command)
next
  case (Cons x rest)
  obtain opr p where x: "x = (opr, p)" by (cases x)
  have "chain_text first (x # rest) = first @ opr @ chain_text p rest" by (simp add: chain_text_def x)
  then have "chain_parts (chain_text first (x # rest)) = chain_parts first @ chain_parts (chain_text p rest)"
    using chain_parts_step [of first opr "chain_text p rest"] Cons.prems x by simp
  moreover have "chain_parts first = filter (\<lambda>p. p \<noteq> []) [trim first]"
    using Cons.prems by (simp add: chain_parts_def split_one_command)
  ultimately show ?case using Cons.IH [of p] Cons.prems x by simp
qed



text \<open>The operators an allow rule is held against, as they stand in the text of a command.\<close>

definition shell_operators :: "string list" where
  "shell_operators = ['';'', ''|'', ''&&'', [CHR 0x60], ''$('', ''>'', ''<'']"

lemma includes_sublist: "str_includes s p = sublist p s"
proof -
  have "sublist p s" if "prefix p (drop i s)" for i
    using that append_take_drop_id [of i s] unfolding prefix_def sublist_def by metis
  moreover have "\<exists>i\<le>length s. prefix p (drop i s)" if sub: "sublist p s"
  proof -
    obtain a b where "s = a @ p @ b" using sub unfolding sublist_def by blast
    then show ?thesis by (intro exI [of _ "length a"]) simp
  qed
  ultimately show ?thesis
    unfolding str_includes_def index_of_None_iff by blast
qed

lemma collapse_prefix: "prefix p (collapse_ws s) \<Longrightarrow> list_all (\<lambda>c. \<not> is_ws c) p \<Longrightarrow> prefix p s"
proof (induction s arbitrary: p rule: collapse_ws.induct)
  case (2 c cs)
  show ?case
  proof (cases p)
    case (Cons d q)
    show ?thesis
    proof (cases "is_ws c")
      case True
      have head: "collapse_ws (x # xs) \<noteq> [] \<and> hd (collapse_ws (x # xs)) = CHR '' ''" if "is_ws x" for x xs
        using that
      proof (induction xs arbitrary: x)
        case (Cons y ys)
        then show ?case by (cases "is_ws y") simp_all
      qed simp
      then have "d = CHR '' ''"
        using 2(4) Cons True by (metis hd_append2 list.distinct(1) list.sel(1) prefix_def)
      then show ?thesis using 2(5) Cons by (simp add: is_ws_def)
    next
      case False
      then show ?thesis using 2(3-5) Cons by simp
    qed
  qed simp
qed simp

lemma collapse_prefixI: "prefix p s \<Longrightarrow> list_all (\<lambda>c. \<not> is_ws c) p \<Longrightarrow> prefix p (collapse_ws s)"
proof (induction p arbitrary: s)
  case (Cons d q)
  then show ?case by (cases s) auto
qed simp

text \<open>Collapsing white space neither hides nor makes a text without white space.\<close>

lemma collapse_sublist: "list_all (\<lambda>c. \<not> is_ws c) p \<Longrightarrow> p \<noteq> [] \<Longrightarrow> sublist p (collapse_ws s) = sublist p s"
proof (induction s rule: collapse_ws.induct)
  case (2 c cs)
  have start: "prefix p (collapse_ws (c # cs)) = prefix p (c # cs)"
    using collapse_prefix collapse_prefixI 2(4) by blast
  show ?case
  proof (cases "is_ws c")
    case False
    then show ?thesis
      using 2 start by (simp add: sublist_Cons_right)
  next
    case True
    then have "\<not> prefix p (c # cs)" "\<not> prefix p (CHR '' '' # t)" for t
      using 2(4,5) by (cases p; auto)+
    then show ?thesis
      using 2 True by (cases cs) (auto simp: sublist_Cons_right)
  qed
qed simp

lemma strip_start_sublist:
  "p \<noteq> [] \<Longrightarrow> \<not> is_ws (hd p) \<Longrightarrow> sublist p (dropWhile is_ws s) = sublist p s"
proof (induction s)
  case (Cons c s)
  have "\<not> prefix p (c # s)" if "is_ws c"
    using that Cons.prems by (cases p) auto
  then show ?case
    using Cons by (auto simp: sublist_Cons_right)
qed simp

lemma trim_sublist: "list_all (\<lambda>c. \<not> is_ws c) p \<Longrightarrow> p \<noteq> [] \<Longrightarrow> sublist p (trim s) = sublist p s"
proof -
  assume p: "list_all (\<lambda>c. \<not> is_ws c) p" "p \<noteq> []"
  have "\<not> is_ws (hd p)" using p by (cases p) simp_all
  moreover have "\<not> is_ws (hd (rev p))" using p by (cases p rule: rev_cases) simp_all
  ultimately show "sublist p (trim s) = sublist p s"
    unfolding trim_def trim_start_def trim_end_def sublist_rev_right using p(2) by (simp add: strip_start_sublist)
qed

lemma no_line_break: "u_lf \<notin> set (normalize_command command)"
proof -
  have lf: "is_ws u_lf" "u_lf \<noteq> CHR '' ''" by (simp_all add: u_lf_def is_ws_def)
  have "u_lf \<notin> set (collapse_ws s)" for s
  proof (induction s rule: collapse_ws.induct)
    case (2 c cs)
    have "c \<noteq> u_lf" if "\<not> is_ws c" using lf(1) that by blast
    then show ?case using 2 lf(2) by (cases cs) (auto split: if_splits)
  qed simp
  then show ?thesis
    by (auto simp: normalize_command_def trim_def trim_start_def trim_end_def dest!: set_dropWhileD)
qed

lemma chaining_operators: "chaining (normalize_command command) = list_ex (\<lambda>opr. sublist opr command) shell_operators"
proof -
  have raw: "sublist opr (normalize_command command) = sublist opr command" if "opr \<in> set shell_operators" for opr
  proof -
    have "list_all (\<lambda>p. list_all (\<lambda>c. \<not> is_ws c) p \<and> p \<noteq> []) shell_operators" by code_simp
    then have "list_all (\<lambda>c. \<not> is_ws c) opr" "opr \<noteq> []" using that by (auto simp: list_all_iff)
    then show ?thesis unfolding normalize_command_def by (simp add: trim_sublist collapse_sublist)
  qed
  have one: "sublist [c] t \<longleftrightarrow> c \<in> set t" for c and t :: string
    by (auto simp: sublist_def in_set_conv_decomp)
  have "chaining (normalize_command command) = list_ex (\<lambda>opr. sublist opr (normalize_command command)) shell_operators"
    using no_line_break [of command] by (auto simp: chaining_def shell_operators_def includes_sublist one list_ex_iff)
  also have "\<dots> = list_ex (\<lambda>opr. sublist opr command) shell_operators"
    using raw by (simp add: list_ex_iff)
  finally show ?thesis .
qed

text \<open>
  C9. An allow rule that does not itself spell out a chain never covers a command in whose text one of the operators \<open>;\<close>,
  \<open>|\<close>, \<open>&&\<close>, a backtick, \<open>$(\<close>, \<open>>\<close> and \<open><\<close> stands anywhere, nor one that the parser splits in several; it covers exactly the
  other commands that fit it with their white space collapsed, and the rules that deny see such a command as a single
  piece. A line break and a single ampersand are none of the operators, and are only noticed by the parser.
\<close>

theorem allow_rule_covers_one_command:
  assumes "\<not> chaining spec"
  shows "(command_matches spec command Allow parsed \<longleftrightarrow>
      single spec (normalize_command command) \<and> (\<forall>opr\<in>set shell_operators. \<not> sublist opr command)
      \<and> (\<forall>ls. parsed = Some ls \<longrightarrow> length ls \<le> 1))
    \<and> (command_matches spec command Allow parsed \<longrightarrow>
         split_chain (normalize_command command) = [normalize_command command])"
proof (intro conjI impI)
  have plain: "\<not> chaining (normalize_command command) \<longleftrightarrow> (\<forall>opr\<in>set shell_operators. \<not> sublist opr command)"
    by (simp add: chaining_operators list_ex_iff)
  show "command_matches spec command Allow parsed \<longleftrightarrow>
      single spec (normalize_command command) \<and> (\<forall>opr\<in>set shell_operators. \<not> sublist opr command)
      \<and> (\<forall>ls. parsed = Some ls \<longrightarrow> length ls \<le> 1)"
    unfolding plain [symmetric] using assms by (auto simp: command_matches_def Let_def split: option.splits)
  assume "command_matches spec command Allow parsed"
  then have nc: "\<not> chaining (normalize_command command)"
    using assms by (auto simp: command_matches_def Let_def split: if_splits)
  then have "\<not> str_includes (normalize_command command) ''&&''"
    "list_all (\<lambda>c. c \<notin> {CHR '';'', CHR ''|'', u_lf}) (normalize_command command)"
    by (auto simp: chaining_def list_all_iff list_ex_iff)
  from split_chain_append [OF this, of "[]"]
  show "split_chain (normalize_command command) = [normalize_command command]" by simp
qed

text \<open>
  Without the parser's facts, a line break and a single ampersand are no operators to it: white
  space is collapsed before the test, so what follows either of them runs under the allow rule, and
  escapes a deny rule.
\<close>

theorem allow_rule_covers_one_command_witness:
  "split_chain (normalize_command (''npm test'' @ [u_lf] @ ''rm -rf x''))
     = [normalize_command (''npm test'' @ [u_lf] @ ''rm -rf x'')]
   \<and> command_matches ''npm test:*'' (''npm test'' @ [u_lf] @ ''rm -rf x'') Allow None
   \<and> command_matches ''npm test:*'' ''npm test & rm -rf x'' Allow None
   \<and> \<not> command_matches ''rm:*'' (''npm test'' @ [u_lf] @ ''rm -rf x'') Deny None
   \<and> \<not> command_matches ''rm:*'' ''npm test & rm -rf x'' Deny None"
proof -
  have c: "command_matches ''npm test:*'' (''npm test'' @ [u_lf] @ ''rm -rf x'') Allow None"
    "command_matches ''npm test:*'' ''npm test & rm -rf x'' Allow None"
    "\<not> command_matches ''rm:*'' (''npm test'' @ [u_lf] @ ''rm -rf x'') Deny None"
    "\<not> command_matches ''rm:*'' ''npm test & rm -rf x'' Deny None" "\<not> chaining ''npm test:*''"
    by code_simp+
  from allow_rule_covers_one_command [OF c(5)] c(1-4) show ?thesis by blast
qed

lemma abs_path_resolve [simp]: "abs_path (resolve a b c) = resolve a b c"
  by (simp add: resolve_def)

text \<open>
  A path rule covers a file by its real location: the test depends only on the path the file
  resolves to, so dots and repeated slashes never slip past a rule, and a plain rule covers exactly
  the path it names and what lies below it.
\<close>

theorem path_rule_sees_real_file:
  "path_matches h spec target cwd = path_matches h spec (resolve (ho_cwd h) [] target) cwd
   \<and> (full = normalize_path (resolve_glob h cwd name)
        \<and> pattern_base h name cwd = (cwd, name) \<and> cwd \<noteq> []
        \<and> \<not> list_ex (\<lambda>c. c \<in> {CHR ''*'', CHR ''?'', CHR ''[''}) full \<longrightarrow>
      path_matches h name target cwd
        = Some (normalize_path (resolve (ho_cwd h) [] target) = full
            \<or> prefix (full @ ''/'') (normalize_path (resolve (ho_cwd h) [] target))))"
  by (auto simp: path_matches_def Let_def starts_with_def)

theorem path_rule_sees_real_file_witness:
  "path_matches sample_host ''src'' ''/proj/x/../src/a.ts'' ''/proj'' = Some True"
proof -
  define full where "full = normalize_path (resolve_glob sample_host ''/proj'' ''src'')"
  have f: "full = ''/proj/src''" "pattern_base sample_host ''src'' ''/proj'' = (''/proj'', ''src'')"
    "normalize_path (resolve (ho_cwd sample_host) [] ''/proj/x/../src/a.ts'') = ''/proj/src/a.ts''"
    unfolding full_def by code_simp+
  show ?thesis
    using path_rule_sees_real_file [of sample_host "''src''" "''/proj/x/../src/a.ts''" "''/proj''" full "''src''"] f
    by (auto simp: full_def [symmetric])
qed

end
