(* ===== verification/Replace.thy ===== *)
theory Replace
  imports Jean_Prelude
begin

text \<open>
  String-replacement edits: \<open>packages/tools/src/replace.ts\<close>. A cascade of six matchers, each turning
  a quote into character spans of the LF-normalised file, and the splice that applies them.

  Similarity scores and the indent ratio are rationals; the program's doubles differ from them only
  in the last bit of a quotient, which the thresholds see at exact ties alone.
\<close>

section \<open>Results and errors\<close>

datatype strategy = Exact | LineTrimmed | WhitespaceNormalized | EscapeNormalized
  | TrimmedBoundary | BlockAnchor

record replace_result =
  r_content :: string
  r_count :: nat
  r_strategy :: strategy
  r_first_line :: nat
  r_last_line :: nat

datatype replace_error = ENotFound string | EAmbiguous "nat list" | ENoOp | EEmpty

record span =
  sp_start :: nat
  sp_end :: nat
  sp_text :: string

type_synonym matcher = "string \<Rightarrow> string \<Rightarrow> string \<Rightarrow> span list"

section \<open>Helpers\<close>

definition crlf_to_lf :: "string \<Rightarrow> string" where
  "crlf_to_lf s = replace_all [u_cr, u_lf] [u_lf] s"

definition lf_to_crlf :: "string \<Rightarrow> string" where
  "lf_to_crlf s = replace_all [u_lf] [u_cr, u_lf] s"

definition collapse_line :: "string \<Rightarrow> string" where
  "collapse_line line = collapse_ws (trim line)"

text \<open>The seven two-character escapes, decoded one kind after another.\<close>

definition unescape :: "string \<Rightarrow> string" where
  "unescape t =
     replace_all [CHR 0x5C, CHR 0x5C] [CHR 0x5C]
      (replace_all [CHR 0x5C, CHR 0x60] [CHR 0x60]
       (replace_all [CHR 0x5C, CHR 0x27] [CHR 0x27]
        (replace_all [CHR 0x5C, CHR 0x22] [CHR 0x22]
         (replace_all [CHR 0x5C, CHR ''r''] [u_cr]
          (replace_all [CHR 0x5C, CHR ''t''] [u_tab]
           (replace_all [CHR 0x5C, CHR ''n''] [u_lf] t))))))"

fun has_escape :: "string \<Rightarrow> bool" where
  "has_escape (a # b # s) =
     ((a = CHR 0x5C \<and> b \<in> {CHR ''n'', CHR ''t'', CHR ''r'', CHR 0x22, CHR 0x27, CHR 0x5C, CHR 0x60})
      \<or> has_escape (b # s))"
| "has_escape _ = False"

definition line_at :: "string \<Rightarrow> nat \<Rightarrow> nat" where
  "line_at content offset = 1 + count_list (take offset content) u_lf"

fun take_spans :: "nat \<Rightarrow> span list \<Rightarrow> span list" where
  "take_spans last_end [] = []"
| "take_spans last_end (sp # sps) =
     (if sp_start sp < last_end then take_spans last_end sps
      else sp # take_spans (sp_end sp) sps)"

definition non_overlapping :: "span list \<Rightarrow> span list" where
  "non_overlapping spans = take_spans 0 (sort_key sp_start spans)"

fun splice_from :: "string \<Rightarrow> nat \<Rightarrow> span list \<Rightarrow> string" where
  "splice_from content cursor [] = drop cursor content"
| "splice_from content cursor (sp # sps) =
     slice cursor (sp_start sp) content @ sp_text sp @ splice_from content (sp_end sp) sps"

definition splice_all :: "string \<Rightarrow> span list \<Rightarrow> string" where
  "splice_all content spans = splice_from content 0 spans"

section \<open>Indentation\<close>

definition indent_of :: "string \<Rightarrow> string" where
  "indent_of line = takeWhile (\<lambda>c. c = CHR '' '' \<or> c = u_tab) line"

fun indent_map_acc :: "(string \<times> string) list \<Rightarrow> (string \<times> string) list \<Rightarrow> (string \<times> string) list" where
  "indent_map_acc m [] = m"
| "indent_map_acc m ((quoted, actual) # ps) =
     (if trim quoted = [] \<or> trim actual = [] then indent_map_acc m ps
      else (let frm = indent_of quoted
            in indent_map_acc (if map_of m frm = None then AList.update frm (indent_of actual) m else m) ps))"

definition indent_map :: "(string \<times> string) list \<Rightarrow> (string \<times> string) list" where
  "indent_map pairs = indent_map_acc [] pairs"

definition unit_ratio :: "(string \<times> string) list \<Rightarrow> rat" where
  "unit_ratio known =
     (if length known < 2 then 1
      else (let (low_from, low_to) = hd known; (high_from, high_to) = last known;
                model_span = int (length high_from) - int (length low_from);
                file_span = int (length high_to) - int (length low_to)
            in if model_span \<le> 0 \<or> file_span \<le> 0 then 1
               else of_int file_span / of_int model_span))"

definition js_round :: "rat \<Rightarrow> int" where
  "js_round x = \<lfloor>x + 1 / 2\<rfloor>"

text \<open>The nearest quoted level at or below this one, else the shallowest.\<close>

definition nearest_level :: "(string \<times> string) list \<Rightarrow> string \<Rightarrow> string \<times> string" where
  "nearest_level known indent =
     foldl (\<lambda>base entry. if length (fst entry) \<le> length indent then entry else base) (hd known) known"

definition reindent_line :: "(string \<times> string) list \<Rightarrow> (string \<times> string) list \<Rightarrow> rat \<Rightarrow> string \<Rightarrow> string" where
  "reindent_line m known r line =
     (if trim line = [] then line
      else (let indent = indent_of line; body = drop (length indent) line
            in case map_of m indent of
                 Some direct \<Rightarrow> direct @ body
               | None \<Rightarrow>
                   (let base = nearest_level known indent;
                        extra = int (length indent) - int (length (fst base));
                        unit_char = (if u_tab \<in> set (snd base) then u_tab else CHR '' '')
                    in if extra \<le> 0 then snd base @ body
                       else (let scaled = (if unit_char = u_tab then max 1 (js_round (of_int extra * r))
                                           else js_round (of_int extra * r))
                             in snd base @ replicate (nat scaled) unit_char @ body))))"

definition reindent :: "string \<Rightarrow> (string \<times> string) list \<Rightarrow> string" where
  "reindent text m =
     (if list_all (\<lambda>(frm, to). frm = to) m then text
      else (let known = sort_key (\<lambda>e. length (fst e)) m; r = unit_ratio known
            in unlines (map (reindent_line m known r) (lines_of text))))"

section \<open>Line windows\<close>

definition split_trailing_newline :: "string \<Rightarrow> string \<Rightarrow> string \<times> string \<times> bool" where
  "split_trailing_newline old_text new_text =
     (if \<not> ends_with old_text [u_lf] then (old_text, new_text, False)
      else if ends_with new_text [u_lf] then (butlast old_text, butlast new_text, False)
      else (butlast old_text, new_text, True))"

text \<open>Characters of a run of lines, each with its line break.\<close>

definition lines_width :: "string list \<Rightarrow> nat" where
  "lines_width ls = sum_list (map (\<lambda>l. length l + 1) ls)"

definition window_pairs :: "string list \<Rightarrow> string list \<Rightarrow> (string \<times> string) list" where
  "window_pairs want window =
     (if length window = length want then zip want window
      else [(hd want, hd window), (last want, last window)])"

definition to_span :: "string \<Rightarrow> string list \<Rightarrow> nat \<Rightarrow> nat \<Rightarrow> string list \<Rightarrow> string \<Rightarrow> bool \<Rightarrow> span" where
  "to_span content lines start_line end_line want replacement consume_newline =
     (let start = lines_width (take start_line lines);
          window = slice start_line end_line lines;
          e = start + lines_width window - 1;
          e' = (if consume_newline \<and> e < length content \<and> content ! e = u_lf then e + 1 else e)
      in \<lparr>sp_start = start, sp_end = e',
          sp_text = reindent replacement (indent_map (window_pairs want window))\<rparr>)"

function windows_from :: "(string \<Rightarrow> string \<Rightarrow> bool) \<Rightarrow> string \<Rightarrow> string list \<Rightarrow> string list \<Rightarrow>
    string \<Rightarrow> bool \<Rightarrow> nat \<Rightarrow> span list" where
  "windows_from eq content lines want replacement consume i =
     (if want \<noteq> [] \<and> i + length want \<le> length lines
      then (if list_all2 eq (slice i (i + length want) lines) want
            then to_span content lines i (i + length want) want replacement consume
                 # windows_from eq content lines want replacement consume (i + length want)
            else windows_from eq content lines want replacement consume (Suc i))
      else [])"
  by pat_completeness auto
termination
  by (relation "measure (\<lambda>(eq, content, lines, want, replacement, consume, i). length lines - i)")
     (auto simp: neq_Nil_conv)

declare windows_from.simps [simp del]

definition line_windows :: "(string \<Rightarrow> string \<Rightarrow> bool) \<Rightarrow> matcher" where
  "line_windows eq content old_text new_text =
     (case split_trailing_newline old_text new_text of (body, replacement, consume) \<Rightarrow>
        (let want = lines_of body
         in if list_all (\<lambda>l. trim l = []) want then []
            else windows_from eq content (lines_of content) want replacement consume 0))"

section \<open>Similarity\<close>

text \<open>One row of the edit-distance table: the cells right of \<open>left\<close>, over the previous row.\<close>

fun lev_cells :: "char \<Rightarrow> string \<Rightarrow> nat \<Rightarrow> nat list \<Rightarrow> nat list" where
  "lev_cells ca (cb # bs) left (diag # up # rest) =
     (let v = min (min (up + 1) (left + 1)) (diag + (if ca = cb then 0 else 1))
      in v # lev_cells ca bs v (up # rest))"
| "lev_cells ca _ left _ = []"

text \<open>The outer loop over \<open>a\<close>, row \<open>i\<close> first.\<close>

fun lev_rows :: "string \<Rightarrow> string \<Rightarrow> nat \<Rightarrow> nat list \<Rightarrow> nat list" where
  "lev_rows [] b i prev = prev"
| "lev_rows (ca # as) b i prev = lev_rows as b (Suc i) (i # lev_cells ca b i prev)"

definition levenshtein :: "string \<Rightarrow> string \<Rightarrow> nat" where
  "levenshtein a b = lev_rows a b 1 [0..<length b + 1] ! length b"

definition line_overlap :: "string \<Rightarrow> string \<Rightarrow> rat" where
  "line_overlap a b =
     (let left = lines_of a; right = set (lines_of b);
          shared = length (filter (\<lambda>l. l \<in> right) left)
      in of_nat shared / of_nat (max (length left) (card right)))"

definition similarity :: "string \<Rightarrow> string \<Rightarrow> rat" where
  "similarity a b =
     (if a = b then 1
      else if a = [] \<or> b = [] then 0
      else if length a * length b > 4000000 then line_overlap a b
      else 1 - of_nat (levenshtein a b) / of_nat (max (length a) (length b)))"

section \<open>The matchers, strictest first\<close>

text \<open>
  The search loop of \<open>exact\<close>. The program loops forever on an empty needle; \<open>replaceText\<close> and the
  two matchers that call it with a text of their own never pass one (\<open>unescape_nonempty\<close>).
\<close>

function exact_from :: "string \<Rightarrow> string \<Rightarrow> string \<Rightarrow> nat \<Rightarrow> span list" where
  "exact_from content old_text new_text from =
     (if old_text = [] then []
      else case index_from old_text content from of
        None \<Rightarrow> []
      | Some i \<Rightarrow>
          \<lparr>sp_start = i, sp_end = i + length old_text, sp_text = new_text\<rparr>
          # exact_from content old_text new_text (i + length old_text))"
  by pat_completeness auto
termination
proof (relation "measure (\<lambda>(content, old_text, new_text, from). length content - from)")
  fix content old_text new_text :: string and "from" i :: nat
  assume ne: "old_text \<noteq> []" and i: "index_from old_text content from = Some i"
  then obtain k where k: "index_of old_text (drop from content) = Some k" "i = from + k"
    by (auto simp: index_from_def)
  then have "k + length old_text \<le> length content - from"
    using index_of_bound by fastforce
  moreover have "0 < length old_text" using ne by simp
  ultimately show "((content, old_text, new_text, i + length old_text), content, old_text, new_text, from)
      \<in> measure (\<lambda>(content, old_text, new_text, from). length content - from)"
    unfolding in_measure prod.case using k(2) by linarith
qed auto

declare exact_from.simps [simp del]

definition exact :: matcher where
  "exact content old_text new_text = exact_from content old_text new_text 0"

definition line_trimmed :: matcher where
  "line_trimmed = line_windows (\<lambda>a b. trim a = trim b)"

definition whitespace_normalized :: matcher where
  "whitespace_normalized = line_windows (\<lambda>a b. collapse_line a = collapse_line b)"

definition escape_normalized :: matcher where
  "escape_normalized content old_text new_text =
     (if \<not> has_escape old_text then []
      else (let decoded = unescape old_text
            in if decoded = old_text then []
               else (let replacement = unescape new_text; direct = exact content decoded replacement
                     in if direct \<noteq> [] then direct else line_trimmed content decoded replacement)))"

definition trimmed_boundary :: matcher where
  "trimmed_boundary content old_text new_text =
     (let trimmed = trim old_text
      in if trimmed = old_text \<or> trimmed = [] then []
         else (let at0 = (case index_of trimmed old_text of None \<Rightarrow> 0 | Some i \<Rightarrow> i);
                   lead = slice 0 at0 old_text;
                   trail = drop (at0 + length trimmed) old_text;
                   r1 = (if lead \<noteq> [] \<and> starts_with new_text lead then drop (length lead) new_text
                         else new_text);
                   r2 = (if trail \<noteq> [] \<and> ends_with r1 trail
                         then slice 0 (length r1 - length trail) r1 else r1)
               in exact content trimmed r2))"

record candidate =
  c_start :: nat
  c_end :: nat
  c_score :: rat

definition interior :: "string list \<Rightarrow> string" where
  "interior ls = unlines (map trim (butlast (tl ls)))"

text \<open>Windows of \<open>len\<close> to \<open>max_len\<close> lines that start at line \<open>i\<close>.\<close>

definition anchor_candidates :: "string list \<Rightarrow> string list \<Rightarrow> nat \<Rightarrow> candidate list" where
  "anchor_candidates lines want i =
     (let fst_line = trim (hd want); lst_line = trim (last want);
          min_len = max 3 (length want * 3 div 4);
          max_len = (length want * 5 + 3) div 4 + 1
      in if trim (lines ! i) \<noteq> fst_line then []
         else concat (map (\<lambda>len.
                if i + len \<le> length lines \<and> trim (lines ! (i + len - 1)) = lst_line
                then [\<lparr>c_start = i, c_end = i + len,
                       c_score = similarity (interior (slice i (i + len) lines)) (interior want)\<rparr>]
                else []) [min_len..<max_len + 1]))"

definition block_anchor :: matcher where
  "block_anchor content old_text new_text =
     (case split_trailing_newline old_text new_text of (find_body, replacement, consume) \<Rightarrow>
        (let want = lines_of find_body
         in if length want < 3 then []
            else (let lines = lines_of content
                  in if trim (hd want) = [] \<or> trim (last want) = [] then []
                     else (let candidates = concat (map (anchor_candidates lines want) [0..<length lines]);
                               good = sort_key (\<lambda>c. - c_score c)
                                        (filter (\<lambda>c. c_score c \<ge> 4 / 5) candidates)
                           in case good of
                                [] \<Rightarrow> []
                              | best # others \<Rightarrow>
                                  if (case others of [] \<Rightarrow> False
                                      | second # _ \<Rightarrow> c_score second \<ge> c_score best - 1 / 20)
                                  then []
                                  else [to_span content lines (c_start best) (c_end best) want
                                          replacement consume]))))"

definition matchers :: "(strategy \<times> matcher) list" where
  "matchers =
     [(Exact, exact), (LineTrimmed, line_trimmed), (WhitespaceNormalized, whitespace_normalized),
      (EscapeNormalized, escape_normalized), (TrimmedBoundary, trimmed_boundary),
      (BlockAnchor, block_anchor)]"

section \<open>The closest region, for the error\<close>

definition count_wanted :: "string list \<Rightarrow> string list" where
  "count_wanted want = filter (\<lambda>l. l \<noteq> []) want"

definition region_score :: "string list \<Rightarrow> string list \<Rightarrow> nat \<Rightarrow> nat" where
  "region_score lines want i =
     sum_list (map (\<lambda>k.
       let line = trim (lines ! (i + k))
       in if line = [] then 0 else if line = want ! k then 2
          else if line \<in> set (count_wanted want) then 1 else 0)
       (filter (\<lambda>k. i + k < length lines) [0..<length want]))"

text \<open>The best start so far and its score; the first of equal scores wins.\<close>

fun best_region :: "string list \<Rightarrow> string list \<Rightarrow> nat list \<Rightarrow> nat option \<times> nat \<Rightarrow> nat option \<times> nat" where
  "best_region lines want [] acc = acc"
| "best_region lines want (i # is) (best, score) =
     (let s = region_score lines want i
      in best_region lines want is (if s > score then (Some i, s) else (best, score)))"

definition pad_start :: "nat \<Rightarrow> string \<Rightarrow> string" where
  "pad_start width s = replicate (width - length s) (CHR '' '') @ s"

definition generic_hint :: string where
  "generic_hint = ''Re-read the file and copy the text exactly, including indentation. '' @
     ''Quote a few complete lines rather than a fragment.''"

definition excerpt_line :: "nat \<Rightarrow> nat \<Rightarrow> string list \<Rightarrow> nat \<Rightarrow> string \<Rightarrow> string" where
  "excerpt_line width best_start want k line =
     pad_start width (nat_str (best_start + k + 1)) @
     [if k < length want \<and> trim line = want ! k then CHR '' '' else u_neq, u_bar, CHR '' ''] @ line"

definition suggest_closest :: "string \<Rightarrow> string \<Rightarrow> string" where
  "suggest_closest content old_text =
     (let want = map trim (lines_of (if ends_with old_text [u_lf] then butlast old_text else old_text));
          lines = lines_of content
      in if length lines * length want > 3000000 then generic_hint
         else case best_region lines want [0..<length lines] (None, 0) of
                (None, _) \<Rightarrow> generic_hint
              | (Some best_start, best_score) \<Rightarrow>
                  if best_score < 2 \<or> 2 * best_score < length want then generic_hint
                  else (let e = min (length lines) (best_start + length want);
                            width = length (nat_str e);
                            excerpt = unlines (map (\<lambda>(k, line). excerpt_line width best_start want k line)
                              (List.enumerate 0 (slice best_start e lines)))
                        in ''The closest text in the file is at lines '' @ nat_str (best_start + 1) @ ''-'' @
                           nat_str e @ '' ('' @ [u_neq] @ '' marks lines that differ from your old_string):'' @
                           [u_lf] @ excerpt @ [u_lf] @ ''Copy from this excerpt exactly and retry.''))"

section \<open>replaceText\<close>

fun run_matchers :: "(strategy \<times> matcher) list \<Rightarrow> string \<Rightarrow> string \<Rightarrow> string \<Rightarrow> (strategy \<times> span list) option" where
  "run_matchers [] source wanted replacement = None"
| "run_matchers ((strategy, m) # ms) source wanted replacement =
     (let spans = non_overlapping (m source wanted replacement)
      in if spans = [] then run_matchers ms source wanted replacement else Some (strategy, spans))"

definition replace_text :: "string \<Rightarrow> string \<Rightarrow> string \<Rightarrow> bool \<Rightarrow> replace_error + replace_result" where
  "replace_text content old_text new_text all =
     (let crlf = str_includes content [u_cr, u_lf];
          source = (if crlf then crlf_to_lf content else content);
          wanted = crlf_to_lf old_text;
          replacement = crlf_to_lf new_text
      in if wanted = [] then Inl EEmpty
         else if wanted = replacement then Inl ENoOp
         else case run_matchers matchers source wanted replacement of
                None \<Rightarrow> Inl (ENotFound (suggest_closest source wanted))
              | Some (strategy, spans) \<Rightarrow>
                  if length spans > 1 \<and> \<not> all
                  then Inl (EAmbiguous (map (\<lambda>sp. line_at source (sp_start sp)) spans))
                  else (let applied = splice_all source (if all then spans else take 1 spans);
                            first_span = hd spans;
                            first_line = line_at applied (sp_start first_span)
                        in Inr \<lparr>r_content = (if crlf then lf_to_crlf applied else applied),
                                r_count = (if all then length spans else 1),
                                r_strategy = strategy,
                                r_first_line = first_line,
                                r_last_line = first_line +
                                  (length (lines_of (sp_text first_span)) - 1)\<rparr>))"

end
