(* ===== verification/Replace_Laws.thy ===== *)
theory Replace_Laws
  imports Replace
begin

text \<open>
  What the edit primitive of \<open>Replace\<close> guarantees: an edit changes the matched segments and nothing
  else; an exact edit is the global string replacement; the window matchers take whole lines; line
  endings survive; the edit-distance table computes the edit distance.
\<close>

section \<open>Spans that follow one another\<close>

fun span_chain :: "nat \<Rightarrow> nat \<Rightarrow> span list \<Rightarrow> bool" where
  "span_chain cur n [] = (cur \<le> n)"
| "span_chain cur n (sp # sps) =
     (cur \<le> sp_start sp \<and> sp_start sp \<le> sp_end sp \<and> span_chain (sp_end sp) n sps)"

definition span_ok :: "nat \<Rightarrow> span \<Rightarrow> bool" where
  "span_ok n sp = (sp_start sp \<le> sp_end sp \<and> sp_end sp \<le> n)"

lemma span_chain_le: "span_chain cur n sps \<Longrightarrow> cur \<le> n"
  by (induction sps arbitrary: cur) fastforce+

lemma take_spans_chain:
  "list_all (span_ok n) sps \<Longrightarrow> cur \<le> n \<Longrightarrow> span_chain cur n (take_spans cur sps)"
  by (induction cur sps rule: take_spans.induct) (auto simp: span_ok_def)

lemma take_spans_of_chain: "span_chain cur n sps \<Longrightarrow> take_spans cur sps = sps"
  by (induction sps arbitrary: cur) auto

lemma span_chain_sorted: "span_chain cur n sps \<Longrightarrow>
    sorted (map sp_start sps) \<and> (\<forall>sp\<in>set sps. cur \<le> sp_start sp)"
  by (induction sps arbitrary: cur) fastforce+

lemma non_overlapping_of_chain:
  "span_chain 0 n sps \<Longrightarrow> non_overlapping sps = sps"
  unfolding non_overlapping_def
  using span_chain_sorted [of 0 n sps] take_spans_of_chain [of 0 n sps]
  by (simp add: sort_key_id_if_sorted)

lemma non_overlapping_chain:
  "list_all (span_ok n) sps \<Longrightarrow> span_chain 0 n (non_overlapping sps)"
  unfolding non_overlapping_def
  by (rule take_spans_chain) (simp_all add: list_all_iff)

lemma set_take_spans: "set (take_spans cur sps) \<subseteq> set sps"
  by (induction cur sps rule: take_spans.induct) auto

lemma set_non_overlapping: "set (non_overlapping sps) \<subseteq> set sps"
  using set_take_spans by (fastforce simp: non_overlapping_def)

lemma non_overlapping_Nil [simp]: "non_overlapping sps = [] \<longleftrightarrow> sps = []"
proof -
  have "take_spans 0 xs = [] \<longleftrightarrow> xs = []" for xs
    by (cases xs) auto
  then show ?thesis
    by (simp add: non_overlapping_def) (metis length_0_conv length_sort)
qed

section \<open>Segments and gaps\<close>

text \<open>
  \<open>weave gaps segments\<close> is the gaps with the segments between them. A file with a chain of spans is
  such a weave, and so is its edited version: same gaps, other segments.
\<close>

fun weave :: "string list \<Rightarrow> string list \<Rightarrow> string" where
  "weave [] segs = []"
| "weave (g # gs) [] = g @ concat gs"
| "weave (g # gs) (x # xs) = g @ x @ weave gs xs"

fun gaps_from :: "string \<Rightarrow> nat \<Rightarrow> span list \<Rightarrow> string list" where
  "gaps_from content cur [] = [drop cur content]"
| "gaps_from content cur (sp # sps) =
     slice cur (sp_start sp) content # gaps_from content (sp_end sp) sps"

definition segment :: "string \<Rightarrow> span \<Rightarrow> string" where
  "segment content sp = slice (sp_start sp) (sp_end sp) content"

lemma length_gaps_from [simp]: "length (gaps_from content cur sps) = Suc (length sps)"
  by (induction sps arbitrary: cur) auto

lemma slice_drop: "a \<le> b \<Longrightarrow> slice a b s @ drop b s = drop a s"
  by (simp add: slice_def) (metis append_take_drop_id drop_drop le_add_diff_inverse2)

lemma weave_source:
  "span_chain cur (length content) sps \<Longrightarrow>
   weave (gaps_from content cur sps) (map (segment content) sps) = drop cur content"
proof (induction sps arbitrary: cur)
  case (Cons sp sps)
  then have le: "cur \<le> sp_start sp" "sp_start sp \<le> sp_end sp"
    and IH: "weave (gaps_from content (sp_end sp) sps) (map (segment content) sps)
      = drop (sp_end sp) content" by auto
  show ?case
    using slice_drop [OF le(1), of content] slice_drop [OF le(2), of content]
    by (simp add: IH) (simp add: segment_def)
qed simp

lemma weave_edited:
  "splice_from content cur sps = weave (gaps_from content cur sps) (map sp_text sps)"
  by (induction sps arbitrary: cur) auto

section \<open>The matcher contract\<close>

text \<open>
  What \<open>replaceText\<close> needs of a matcher: spans inside the file. The six matchers share the
  conclusions below through their interpretations.
\<close>

locale text_matcher =
  fixes m :: matcher
  assumes in_file: "old_text \<noteq> [] \<Longrightarrow> sp \<in> set (m content old_text new_text) \<Longrightarrow>
    span_ok (length content) sp"
begin

lemma chain: "old_text \<noteq> [] \<Longrightarrow>
    span_chain 0 (length content) (non_overlapping (m content old_text new_text))"
  by (rule non_overlapping_chain) (auto simp: list_all_iff intro: in_file)

lemma source_weave:
  assumes "old_text \<noteq> []" and "sps = non_overlapping (m content old_text new_text)"
  shows "content = weave (gaps_from content 0 sps) (map (segment content) sps)"
  using weave_source [OF chain [OF assms(1)], of content new_text] by (simp add: assms(2))

end

subsection \<open>exact\<close>

lemma index_from_SomeD:
  assumes "index_from p s from = Some i"
  shows "from \<le> i" and "i + length p \<le> max from (length s)" and "from \<le> length s \<Longrightarrow> i + length p \<le> length s"
    and "slice i (i + length p) s = p"
proof -
  obtain k where k: "index_of p (drop from s) = Some k" "i = from + k"
    using assms by (auto simp: index_from_def)
  then show "from \<le> i" by simp
  have b: "k + length p \<le> length s - from" using index_of_bound [OF k(1)] by simp
  then show "i + length p \<le> max from (length s)" using k(2) by linarith
  show "from \<le> length s \<Longrightarrow> i + length p \<le> length s" using b k(2) by linarith
  have "prefix p (drop k (drop from s))" using k(1) by (simp add: index_of_Some_iff)
  then show "slice i (i + length p) s = p"
    by (auto simp: slice_def k(2) prefix_def add.commute)
qed

lemma exact_from_chain:
  "old_text \<noteq> [] \<Longrightarrow> from \<le> length content \<Longrightarrow>
   span_chain from (length content) (exact_from content old_text new_text from)"
proof (induction content old_text new_text "from" rule: exact_from.induct)
  case (1 content old_text new_text "from")
  show ?case
  proof (cases "index_from old_text content from")
    case None
    with 1 show ?thesis by (simp add: exact_from.simps [of content])
  next
    case (Some i)
    with 1 index_from_SomeD [OF Some] show ?thesis
      by (simp add: exact_from.simps [of content old_text new_text "from"])
  qed
qed

lemma exact_from_segments:
  "sp \<in> set (exact_from content old_text new_text from) \<Longrightarrow>
   segment content sp = old_text \<and> sp_text sp = new_text"
proof (induction content old_text new_text "from" rule: exact_from.induct)
  case (1 content old_text new_text "from")
  show ?case
  proof (cases "index_from old_text content from")
    case None
    with "1.prems" show ?thesis by (simp add: exact_from.simps [of content] split: if_splits)
  next
    case (Some i)
    with "1.prems" consider "old_text \<noteq> []" "sp = \<lparr>sp_start = i, sp_end = i + length old_text, sp_text = new_text\<rparr>"
      | "old_text \<noteq> []" "sp \<in> set (exact_from content old_text new_text (i + length old_text))"
      by (auto simp: exact_from.simps [of content old_text new_text "from"] split: if_splits)
    then show ?thesis
      using index_from_SomeD(4) [OF Some] "1.IH" [OF _ Some]
      by cases (simp_all add: segment_def)
  qed
qed

lemma span_chain_ok: "span_chain cur n sps \<Longrightarrow> sp \<in> set sps \<Longrightarrow> span_ok n sp"
  by (induction sps arbitrary: cur) (auto simp: span_ok_def dest: span_chain_le)

lemma exact_chain: "old_text \<noteq> [] \<Longrightarrow> span_chain 0 (length content) (exact content old_text new_text)"
  unfolding exact_def by (rule exact_from_chain) auto

interpretation exact_m: text_matcher exact
  by unfold_locales (rule span_chain_ok [OF exact_chain])

text \<open>Splicing the exact spans is the global replacement of the needle.\<close>

lemma replace_all_step:
  assumes "p \<noteq> []" and "index_of p s = Some i"
  shows "replace_all p r s = take i s @ r @ replace_all p r (drop (i + length p) s)"
  using assms(2)
proof (induction s arbitrary: i)
  case Nil
  with assms(1) show ?case by simp
next
  case (Cons c cs)
  show ?case
  proof (cases "prefix p (c # cs)")
    case True
    with Cons.prems assms(1) show ?thesis
      by (simp add: replace_all.simps [of p r "c # cs"])
  next
    case False
    with Cons.prems obtain k where k: "index_of p cs = Some k" "i = Suc k" by auto
    with False Cons.IH [OF k(1)] assms(1) show ?thesis
      by (simp add: replace_all.simps [of p r "c # cs"])
  qed
qed

lemma replace_all_absent: "index_of p s = None \<Longrightarrow> replace_all p r s = s"
proof (induction s)
  case Nil
  then show ?case by (simp add: replace_all.simps [of p r "[]"])
next
  case (Cons c cs)
  then show ?case by (simp add: replace_all.simps [of p r "c # cs"] split: if_splits)
qed

lemma splice_exact_from:
  "old_text \<noteq> [] \<Longrightarrow> from \<le> length content \<Longrightarrow>
   splice_from content from (exact_from content old_text new_text from)
     = replace_all old_text new_text (drop from content)"
proof (induction content old_text new_text "from" rule: exact_from.induct)
  case (1 content old_text new_text "from")
  show ?case
  proof (cases "index_from old_text content from")
    case None
    then have "index_of old_text (drop from content) = None" by (simp add: index_from_def)
    with None 1 show ?thesis
      by (simp add: exact_from.simps [of content] replace_all_absent)
  next
    case (Some i)
    then obtain k where k: "index_of old_text (drop from content) = Some k" "i = from + k"
      by (auto simp: index_from_def)
    have "i + length old_text \<le> length content"
      using index_from_SomeD(3) [OF Some] "1.prems" by simp
    with 1 Some replace_all_step [OF "1.prems"(1) k(1), of new_text] k(2) show ?thesis
      by (simp add: exact_from.simps [of content old_text new_text "from"] slice_def add.commute
        add.left_commute)
  qed
qed

lemma splice_exact: "old_text \<noteq> [] \<Longrightarrow>
    splice_all content (exact content old_text new_text) = replace_all old_text new_text content"
  using splice_exact_from [of old_text 0 content new_text] by (simp add: splice_all_def exact_def)

lemma exact_Nil_iff: "old_text \<noteq> [] \<Longrightarrow> exact content old_text new_text = [] \<longleftrightarrow> index_of old_text content = None"
  by (simp add: exact_def exact_from.simps [of content old_text new_text 0] index_from_def
    split: option.splits)

subsection \<open>Line windows\<close>

lemma unlines_split:
  assumes "0 < k" and "k < length ls"
  shows "unlines ls = unlines (take k ls) @ u_lf # unlines (drop k ls)"
proof -
  have "take k ls \<noteq> []" "drop k ls \<noteq> []" using assms by auto
  from join_append [OF this, of "[u_lf]"] show ?thesis by simp
qed

lemma length_unlines: "ls \<noteq> [] \<Longrightarrow> Suc (length (unlines ls)) = lines_width ls"
  by (induction "[u_lf]" ls rule: join.induct) (auto simp: lines_width_def)

lemma drop_unlines:
  assumes "i < length ls"
  shows "drop (lines_width (take i ls)) (unlines ls) = unlines (drop i ls)"
proof (cases "i = 0")
  case False
  then have ne: "take i ls \<noteq> []" using assms by auto
  have "lines_width (take i ls) = length (unlines (take i ls) @ [u_lf])"
    using length_unlines [OF ne] by simp
  moreover have "unlines ls = (unlines (take i ls) @ [u_lf]) @ unlines (drop i ls)"
    using unlines_split [of i ls] False assms by simp
  ultimately show ?thesis by (metis append_eq_conv_conj)
qed (simp add: lines_width_def)

text \<open>The plain window, without a consumed line break, is exactly its lines.\<close>

lemma window_segment:
  assumes "i < j" and "j \<le> length ls"
  defines "st \<equiv> lines_width (take i ls)" and "w \<equiv> slice i j ls"
  shows "slice st (st + lines_width w - 1) (unlines ls) = unlines w"
    and "st + lines_width w - 1 \<le> length (unlines ls)"
    and "st < st + lines_width w"
    and "st + lines_width w - 1 < length (unlines ls) \<Longrightarrow> unlines ls ! (st + lines_width w - 1) = u_lf"
proof -
  have w: "w = take (j - i) (drop i ls)" by (simp add: w_def slice_def)
  have wne: "w \<noteq> []" unfolding w using assms(1,2) by simp
  have len: "Suc (length (unlines w)) = lines_width w" by (rule length_unlines [OF wne])
  have d: "drop st (unlines ls) = unlines (drop i ls)"
    unfolding st_def by (rule drop_unlines) (use assms in simp)
  have e: "\<exists>rest. unlines (drop i ls) = unlines w @ rest \<and> (rest = [] \<or> hd rest = u_lf)"
  proof (cases "j - i < length (drop i ls)")
    case True
    then show ?thesis using unlines_split [of "j - i" "drop i ls"] assms by (auto simp: w)
  next
    case False
    then show ?thesis by (auto simp: w)
  qed
  then obtain rest where rest: "unlines (drop i ls) = unlines w @ rest" "rest = [] \<or> hd rest = u_lf"
    by blast
  have st_le: "st \<le> length (unlines ls)"
  proof (rule ccontr)
    assume "\<not> ?thesis"
    then have "st > length (unlines ls)" by simp
    moreover have "st < lines_width ls"
    proof -
      have "lines_width ls = st + lines_width (drop i ls)"
        unfolding st_def lines_width_def by (metis append_take_drop_id map_append sum_list_append)
      moreover have "0 < lines_width (drop i ls)"
        using length_unlines [of "drop i ls"] assms by fastforce
      ultimately show ?thesis by simp
    qed
    moreover have "ls \<noteq> []" using assms by auto
    ultimately show False using length_unlines [of ls] by simp
  qed
  have total: "unlines ls = take st (unlines ls) @ unlines w @ rest"
    using d rest(1) by (metis append_take_drop_id)
  have eq: "st + lines_width w - 1 = st + length (unlines w)" using len by simp
  show "slice st (st + lines_width w - 1) (unlines ls) = unlines w"
    unfolding eq by (simp add: slice_def d rest(1))
  have "length (unlines ls) = st + length (unlines w) + length rest"
    using arg_cong [OF total, of length] st_le by simp
  then show "st + lines_width w - 1 \<le> length (unlines ls)" unfolding eq by simp
  show "st < st + lines_width w" using len by simp
  assume "st + lines_width w - 1 < length (unlines ls)"
  then have "rest \<noteq> []" using \<open>length (unlines ls) = _\<close> unfolding eq by auto
  moreover have "unlines ls ! (st + length (unlines w)) = (unlines w @ rest) ! length (unlines w)"
    using st_le d rest(1) by (metis nth_drop)
  ultimately show "unlines ls ! (st + lines_width w - 1) = u_lf"
    unfolding eq using rest(2) by (simp add: nth_append hd_conv_nth)
qed

lemma slice_snoc: "a \<le> b \<Longrightarrow> b < length s \<Longrightarrow> slice a (b + 1) s = slice a b s @ [s ! b]"
  by (simp add: slice_def Suc_diff_le take_Suc_conv_app_nth)

lemma to_span_text: "sp_text (to_span content lines i j want replacement consume)
    = reindent replacement (indent_map (window_pairs want (slice i j lines)))"
  by (simp add: to_span_def Let_def)

text \<open>A window span covers its lines, and the line break after them when it is consumed.\<close>

lemma to_span_segment:
  fixes want :: "string list" and replacement :: string and consume :: bool
  assumes "i < j" and "j \<le> length (lines_of content)"
  defines "sp \<equiv> to_span content (lines_of content) i j want replacement consume"
  shows "span_ok (length content) sp"
    and "segment content sp = unlines (slice i j (lines_of content)) \<or>
         consume \<and> segment content sp = unlines (slice i j (lines_of content)) @ [u_lf]"
proof -
  let ?ls = "lines_of content"
  let ?st = "lines_width (take i ?ls)" and ?w = "slice i j ?ls"
  let ?e = "?st + lines_width ?w - 1"
  have seg: "slice ?st ?e content = unlines ?w" and le: "?e \<le> length content" "?st \<le> ?e"
    using window_segment [OF assms(1,2)] by simp_all
  have e: "sp_start sp = ?st" "sp_end sp =
      (if consume \<and> ?e < length content \<and> content ! ?e = u_lf then ?e + 1 else ?e)"
    by (simp_all add: sp_def to_span_def Let_def)
  show "span_ok (length content) sp"
    using le by (auto simp: span_ok_def e)
  show "segment content sp = unlines ?w \<or> consume \<and> segment content sp = unlines ?w @ [u_lf]"
  proof (cases "consume \<and> ?e < length content \<and> content ! ?e = u_lf")
    case True
    then have "slice ?st (?e + 1) content = slice ?st ?e content @ [u_lf]"
      using slice_snoc [OF le(2), of content] by simp
    then show ?thesis using True seg by (simp add: segment_def e)
  next
    case False
    then have "sp_end sp = ?e" using e(2) by simp
    then show ?thesis using seg e(1) by (simp add: segment_def)
  qed
qed

text \<open>Where the spans of \<open>lineWindows\<close> come from.\<close>

lemma windows_from_set:
  "sp \<in> set (windows_from eq content lines want replacement consume i) \<Longrightarrow>
   \<exists>k. k + length want \<le> length lines \<and> want \<noteq> [] \<and> list_all2 eq (slice k (k + length want) lines) want \<and>
       sp = to_span content lines k (k + length want) want replacement consume"
proof (induction eq content lines want replacement consume i rule: windows_from.induct)
  case (1 eq content lines want replacement consume i)
  show ?case
  proof (cases "want \<noteq> [] \<and> i + length want \<le> length lines")
    case False
    with "1.prems" show ?thesis by (simp add: windows_from.simps [of eq content lines want _ _ i])
  next
    case True
    note unfold = windows_from.simps [of eq content lines want replacement consume i]
    show ?thesis
    proof (cases "list_all2 eq (slice i (i + length want) lines) want")
      case hit: True
      have step: "windows_from eq content lines want replacement consume i =
          to_span content lines i (i + length want) want replacement consume
          # windows_from eq content lines want replacement consume (i + length want)"
        using unfold unfolding if_P [OF True] if_P [OF hit] .
      from "1.prems" consider "sp = to_span content lines i (i + length want) want replacement consume"
        | "sp \<in> set (windows_from eq content lines want replacement consume (i + length want))"
        unfolding step set_simps by blast
      then show ?thesis
      proof cases
        case 1
        with True hit show ?thesis by blast
      next
        case 2
        show ?thesis by (rule "1.IH"(1) [OF True hit 2])
      qed
    next
      case False
      have step: "windows_from eq content lines want replacement consume i =
          windows_from eq content lines want replacement consume (Suc i)"
        using unfold unfolding if_P [OF True] if_not_P [OF False] .
      have "sp \<in> set (windows_from eq content lines want replacement consume (Suc i))"
        using "1.prems" unfolding step .
      then show ?thesis by (rule "1.IH"(2) [OF True False])
    qed
  qed
qed

lemma line_windows_set:
  assumes "sp \<in> set (line_windows eq content old_text new_text)"
  obtains body replacement consume k where
    "split_trailing_newline old_text new_text = (body, replacement, consume)"
    "k + length (lines_of body) \<le> length (lines_of content)"
    "list_all2 eq (slice k (k + length (lines_of body)) (lines_of content)) (lines_of body)"
    "sp = to_span content (lines_of content) k (k + length (lines_of body)) (lines_of body) replacement consume"
proof -
  obtain body replacement consume where
    b: "split_trailing_newline old_text new_text = (body, replacement, consume)"
    by (cases "split_trailing_newline old_text new_text") auto
  with assms have "sp \<in> set (windows_from eq content (lines_of content) (lines_of body) replacement consume 0)"
    by (simp add: line_windows_def Let_def split: if_splits)
  from windows_from_set [OF this] obtain k where
    "k + length (lines_of body) \<le> length (lines_of content)"
    "list_all2 eq (slice k (k + length (lines_of body)) (lines_of content)) (lines_of body)"
    "sp = to_span content (lines_of content) k (k + length (lines_of body)) (lines_of body) replacement consume"
    by (elim exE conjE)
  with b show ?thesis by (rule that)
qed

lemma line_windows_ok:
  assumes "sp \<in> set (line_windows eq content old_text new_text)"
  shows "span_ok (length content) sp"
proof -
  obtain body replacement consume k where
    "split_trailing_newline old_text new_text = (body, replacement, consume)"
    and k: "k + length (lines_of body) \<le> length (lines_of content)"
    and "list_all2 eq (slice k (k + length (lines_of body)) (lines_of content)) (lines_of body)"
    and sp: "sp = to_span content (lines_of content) k (k + length (lines_of body)) (lines_of body) replacement consume"
    using assms by (rule line_windows_set)
  show ?thesis unfolding sp by (rule to_span_segment(1) [OF _ k]) simp
qed

interpretation line_trimmed_m: text_matcher line_trimmed
  by unfold_locales (simp add: line_trimmed_def line_windows_ok)

interpretation whitespace_m: text_matcher whitespace_normalized
  by unfold_locales (simp add: whitespace_normalized_def line_windows_ok)

subsection \<open>Escapes, boundaries, blocks\<close>

lemma replace_all_nonempty:
  assumes "r \<noteq> []" and "s \<noteq> []"
  shows "replace_all p r s \<noteq> []"
proof (cases s)
  case (Cons c cs)
  with assms show ?thesis by (subst replace_all.simps) auto
qed (use assms in simp)

lemma unescape_nonempty: "t \<noteq> [] \<Longrightarrow> unescape t \<noteq> []"
  by (simp add: unescape_def replace_all_nonempty)

interpretation escape_m: text_matcher escape_normalized
proof unfold_locales
  fix old_text new_text content :: string and sp
  assume ne: "old_text \<noteq> []" and sp: "sp \<in> set (escape_normalized content old_text new_text)"
  from unescape_nonempty [OF ne] sp show "span_ok (length content) sp"
    by (auto simp: escape_normalized_def Let_def split: if_splits
      intro: exact_m.in_file line_trimmed_m.in_file)
qed

interpretation boundary_m: text_matcher trimmed_boundary
  by unfold_locales
     (auto simp: trimmed_boundary_def Let_def split: if_splits intro: exact_m.in_file)

lemma anchor_candidates_set:
  "c \<in> set (anchor_candidates lines want i) \<Longrightarrow>
     c_start c = i \<and> i + 3 \<le> c_end c \<and> c_end c \<le> length lines \<and> 
     trim (lines ! i) = trim (hd want) \<and> trim (lines ! (c_end c - 1)) = trim (last want)"
  by (auto simp: anchor_candidates_def Let_def split: if_splits)

lemma block_anchor_set:
  assumes "sp \<in> set (block_anchor content old_text new_text)"
  obtains body replacement consume c where
    "split_trailing_newline old_text new_text = (body, replacement, consume)"
    "c \<in> set (concat (map (anchor_candidates (lines_of content) (lines_of body)) [0..<length (lines_of content)]))"
    "c_score c \<ge> 4 / 5"
    "block_anchor content old_text new_text =
       [to_span content (lines_of content) (c_start c) (c_end c) (lines_of body) replacement consume]"
proof -
  obtain body replacement consume where
    b: "split_trailing_newline old_text new_text = (body, replacement, consume)"
    by (cases "split_trailing_newline old_text new_text") auto
  let ?cs = "concat (map (anchor_candidates (lines_of content) (lines_of body)) [0..<length (lines_of content)])"
  let ?good = "sort_key (\<lambda>c. - c_score c) (filter (\<lambda>c. c_score c \<ge> 4 / 5) ?cs)"
  have eq: "block_anchor content old_text new_text =
     (if length (lines_of body) < 3 then []
      else if trim (hd (lines_of body)) = [] \<or> trim (last (lines_of body)) = [] then []
      else case ?good of [] \<Rightarrow> []
        | best # others \<Rightarrow>
            if (case others of [] \<Rightarrow> False | second # _ \<Rightarrow> c_score second \<ge> c_score best - 1 / 20) then []
            else [to_span content (lines_of content) (c_start best) (c_end best) (lines_of body) replacement consume])"
    unfolding block_anchor_def b Let_def prod.case ..
  have "?good \<noteq> []"
  proof
    assume "?good = []"
    then have "block_anchor content old_text new_text = []" unfolding eq by simp
    with assms show False by simp
  qed
  then obtain best others where g: "?good = best # others" by (meson neq_Nil_conv)
  have r: "block_anchor content old_text new_text =
       [to_span content (lines_of content) (c_start best) (c_end best) (lines_of body) replacement consume]"
    using assms unfolding eq g by (auto split: if_splits)
  have "best \<in> set ?good" using g by simp
  then have "best \<in> set ?cs" "c_score best \<ge> 4 / 5" by auto
  with b r show ?thesis by (intro that)
qed

interpretation block_m: text_matcher block_anchor
proof unfold_locales
  fix old_text new_text content :: string and sp
  assume sp: "sp \<in> set (block_anchor content old_text new_text)"
  obtain body replacement consume c where
    "split_trailing_newline old_text new_text = (body, replacement, consume)"
    and c: "c \<in> set (concat (map (anchor_candidates (lines_of content) (lines_of body)) [0..<length (lines_of content)]))"
    and "c_score c \<ge> 4 / 5"
    and b: "block_anchor content old_text new_text =
       [to_span content (lines_of content) (c_start c) (c_end c) (lines_of body) replacement consume]"
    using sp by (rule block_anchor_set)
  have "c_start c < c_end c" "c_end c \<le> length (lines_of content)"
    using c anchor_candidates_set by fastforce+
  then show "span_ok (length content) sp"
    using sp to_span_segment(1) by (simp add: b)
qed

text \<open>Whatever matcher found them, the spans are a chain inside the file.\<close>

lemma run_matchers_sound:
  "run_matchers ms source wanted replacement = Some (strategy, spans) \<Longrightarrow>
   \<exists>m. (strategy, m) \<in> set ms \<and> spans = non_overlapping (m source wanted replacement) \<and> spans \<noteq> []"
proof (induction ms)
  case (Cons x xs)
  show ?case
  proof (cases x)
    case (Pair st m)
    with Cons show ?thesis
      by (cases "m source wanted replacement = []") (auto simp: Let_def)
  qed
qed simp

lemma run_matchers_None:
  "run_matchers ms source wanted replacement = None \<longleftrightarrow>
   (\<forall>(strategy, m)\<in>set ms. m source wanted replacement = [])"
proof (induction ms)
  case (Cons x xs)
  then show ?case by (cases x) (simp add: Let_def)
qed simp

lemma matchers_chain:
  assumes "(strategy, m) \<in> set matchers" and "wanted \<noteq> []"
  shows "span_chain 0 (length source) (non_overlapping (m source wanted replacement))"
proof -
  consider "m = exact" | "m = line_trimmed" | "m = whitespace_normalized" | "m = escape_normalized"
    | "m = trimmed_boundary" | "m = block_anchor"
    using assms(1) unfolding matchers_def by auto
  then show ?thesis
  proof cases
    case 1 show ?thesis unfolding 1 by (rule exact_m.chain [OF assms(2)])
  next
    case 2 show ?thesis unfolding 2 by (rule line_trimmed_m.chain [OF assms(2)])
  next
    case 3 show ?thesis unfolding 3 by (rule whitespace_m.chain [OF assms(2)])
  next
    case 4 show ?thesis unfolding 4 by (rule escape_m.chain [OF assms(2)])
  next
    case 5 show ?thesis unfolding 5 by (rule boundary_m.chain [OF assms(2)])
  next
    case 6 show ?thesis unfolding 6 by (rule block_m.chain [OF assms(2)])
  qed
qed

lemma run_matchers_chain:
  assumes "run_matchers matchers source wanted replacement = Some (strategy, spans)"
    and "wanted \<noteq> []"
  shows "span_chain 0 (length source) spans" and "spans \<noteq> []"
  using run_matchers_sound [OF assms(1)] matchers_chain [OF _ assms(2)] by blast+

section \<open>Line endings\<close>

lemma lf_to_crlf_concat: "lf_to_crlf s = concat (map (\<lambda>c. if c = u_lf then [u_cr, u_lf] else [c]) s)"
  unfolding lf_to_crlf_def
proof (induction s)
  case Nil
  then show ?case by (simp add: replace_all.simps [of _ _ "[]"])
next
  case (Cons c cs)
  then show ?case by (simp add: replace_all.simps [of _ _ "c # cs"])
qed

lemma lf_to_crlf_append [simp]: "lf_to_crlf (s @ t) = lf_to_crlf s @ lf_to_crlf t"
  by (simp add: lf_to_crlf_concat)

lemma lf_to_crlf_Cons: "lf_to_crlf (c # s) = (if c = u_lf then [u_cr, u_lf] else [c]) @ lf_to_crlf s"
  by (simp add: lf_to_crlf_concat)

lemma lf_to_crlf_Nil [simp]: "lf_to_crlf [] = []"
  by (simp add: lf_to_crlf_concat)

lemma crlf_to_lf_Nil [simp]: "crlf_to_lf [] = []"
  by (simp add: crlf_to_lf_def replace_all.simps [of _ _ "[]"])

lemma crlf_to_lf_Cons:
  "crlf_to_lf (c # cs) =
     (case cs of d # ds \<Rightarrow> if c = u_cr \<and> d = u_lf then u_lf # crlf_to_lf ds else c # crlf_to_lf cs
      | [] \<Rightarrow> [c])"
proof (cases cs)
  case Nil
  then show ?thesis
    by (simp add: crlf_to_lf_def replace_all.simps [of _ _ "[c]"] replace_all.simps [of _ _ "[]"])
next
  case (Cons d ds)
  then show ?thesis
    by (simp add: crlf_to_lf_def replace_all.simps [of "[u_cr, u_lf]" "[u_lf]" "c # d # ds"])
qed

lemma u_cr_lf [simp]: "u_cr \<noteq> u_lf" "u_lf \<noteq> u_cr"
  by (simp_all add: code_units)

lemma crlf_roundtrip [simp]: "crlf_to_lf (lf_to_crlf s) = s"
proof (induction s)
  case (Cons c s)
  show ?case
  proof (cases "c = u_lf")
    case True
    with Cons show ?thesis by (simp add: lf_to_crlf_Cons crlf_to_lf_Cons)
  next
    case False
    have "lf_to_crlf s = [] \<Longrightarrow> s = []" using Cons by (metis crlf_to_lf_Nil)
    moreover have "lf_to_crlf s = d # ds \<Longrightarrow> \<not> (c = u_cr \<and> d = u_lf)" for d ds
      by (cases s) (auto simp: lf_to_crlf_Cons split: if_splits)
    ultimately show ?thesis using False Cons
      by (cases "lf_to_crlf s") (auto simp: lf_to_crlf_Cons crlf_to_lf_Cons)
  qed
qed simp

lemma lf_to_crlf_concat_list: "lf_to_crlf (concat xs) = concat (map lf_to_crlf xs)"
  by (induction xs) auto

lemma lf_to_crlf_weave: "lf_to_crlf (weave gs xs) = weave (map lf_to_crlf gs) (map lf_to_crlf xs)"
  by (induction gs xs rule: weave.induct) (auto simp: lf_to_crlf_concat_list)

text \<open>A file whose every line break is CR LF is the restoration of its normal form.\<close>

definition uniform_crlf :: "string \<Rightarrow> bool" where
  "uniform_crlf s = (lf_to_crlf (crlf_to_lf s) = s)"

section \<open>Edit distance\<close>

text \<open>The textbook recursion, on reversed prefixes: the last characters are compared first.\<close>

fun lev :: "'a list \<Rightarrow> 'a list \<Rightarrow> nat" where
  "lev [] ys = length ys"
| "lev (x # xs) [] = Suc (length xs)"
| "lev (x # xs) (y # ys) =
     min (min (lev xs (y # ys) + 1) (lev (x # xs) ys + 1)) (lev xs ys + (if x = y then 0 else 1))"

lemma lev_Nil2 [simp]: "lev xs [] = length xs"
  by (cases xs) auto

lemma lev_sym: "lev xs ys = lev ys xs"
proof (induction xs ys rule: lev.induct)
  case (3 x xs y ys)
  then show ?case by (simp add: min.commute min.left_commute min.assoc)
qed auto

lemma lev_le_max: "lev xs ys \<le> max (length xs) (length ys)"
  by (induction xs ys rule: lev.induct) auto

lemma lev_0_iff: "lev xs ys = 0 \<longleftrightarrow> xs = ys"
proof
  show "lev xs ys = 0 \<Longrightarrow> xs = ys"
    by (induction xs ys rule: lev.induct) (auto simp: min_def split: if_splits)
  have "lev xs xs = 0"
    by (induction xs) auto
  then show "xs = ys \<Longrightarrow> lev xs ys = 0" by simp
qed

text \<open>Row \<open>i\<close> of the table: distances of one prefix of \<open>a\<close> to all prefixes of \<open>b\<close>.\<close>

definition lev_row :: "string \<Rightarrow> string \<Rightarrow> nat list" where
  "lev_row a b = map (\<lambda>j. lev (rev a) (rev (take j b))) [0..<length b + 1]"

lemma lev_cells_row:
  "lev_cells ca bs (lev (ca # ra) (rev p))
     (map (\<lambda>j. lev ra (rev (take j (p @ bs)))) [length p..<length (p @ bs) + 1])
   = map (\<lambda>j. lev (ca # ra) (rev (take j (p @ bs)))) [length p + 1..<length (p @ bs) + 1]"
proof (induction bs arbitrary: p)
  case (Cons cb bs)
  let ?q = "p @ [cb]"
  let ?f = "\<lambda>j. lev ra (rev (take j (p @ cb # bs)))"
  have split1: "[length p..<length (p @ cb # bs) + 1]
      = length p # length ?q # [length ?q + 1..<length (?q @ bs) + 1]"
    by (simp add: upt_conv_Cons del: upt_Suc)
  have split2: "[length ?q..<length (?q @ bs) + 1]
      = length ?q # [length ?q + 1..<length (?q @ bs) + 1]"
    by (simp add: upt_conv_Cons del: upt_Suc)
  have fp: "?f (length p) = lev ra (rev p)" and fq: "?f (length ?q) = lev ra (cb # rev p)"
    by simp_all
  have cell: "min (min (lev ra (cb # rev p) + 1) (lev (ca # ra) (rev p) + 1))
      (lev ra (rev p) + (if ca = cb then 0 else 1)) = lev (ca # ra) (rev ?q)"
    by simp
  have IH: "lev_cells ca bs (lev (ca # ra) (rev ?q)) (map ?f [length ?q..<length (?q @ bs) + 1])
    = map (\<lambda>j. lev (ca # ra) (rev (take j (p @ cb # bs)))) [length ?q + 1..<length (?q @ bs) + 1]"
    using Cons.IH [of ?q] by simp
  have "lev_cells ca (cb # bs) (lev (ca # ra) (rev p)) (map ?f [length p..<length (p @ cb # bs) + 1])
    = lev (ca # ra) (rev ?q) #
      lev_cells ca bs (lev (ca # ra) (rev ?q)) (map ?f [length ?q..<length (?q @ bs) + 1])"
    unfolding split1 split2 list.map fp fq lev_cells.simps Let_def cell ..
  also have "\<dots> = map (\<lambda>j. lev (ca # ra) (rev (take j (p @ cb # bs)))) [length p + 1..<length (p @ cb # bs) + 1]"
    unfolding IH by (simp add: upt_conv_Cons del: upt_Suc)
  finally show ?case .
qed simp

lemma lev_row_step: "length a # lev_cells ca b (length a) (lev_row a0 b) = lev_row a b"
  if "a = a0 @ [ca]"
proof -
  have "lev_cells ca b (length a) (lev_row a0 b)
      = map (\<lambda>j. lev (rev a) (rev (take j b))) [1..<length b + 1]"
    using lev_cells_row [of ca b "rev a0" "[]"] by (simp add: lev_row_def that)
  then show ?thesis
    by (simp add: lev_row_def upt_conv_Cons del: upt_Suc)
qed

lemma lev_rows_row: "lev_rows as b (Suc (length a0)) (lev_row a0 b) = lev_row (a0 @ as) b"
proof (induction as arbitrary: a0)
  case (Cons ca as)
  have "lev_rows (ca # as) b (Suc (length a0)) (lev_row a0 b)
      = lev_rows as b (Suc (length (a0 @ [ca]))) (lev_row (a0 @ [ca]) b)"
    using lev_row_step [of "a0 @ [ca]" a0 ca b] by simp
  also have "\<dots> = lev_row (a0 @ ca # as) b"
    using Cons.IH [of "a0 @ [ca]"] by simp
  finally show ?case .
qed simp

lemma lev_row_Nil: "lev_row [] b = [0..<length b + 1]"
  by (rule nth_equalityI) (auto simp: lev_row_def simp del: upt_Suc)

lemma levenshtein_lev: "levenshtein a b = lev (rev a) (rev b)"
proof -
  have "lev_rows a b 1 [0..<length b + 1] = lev_row a b"
    using lev_rows_row [of a b "[]"] lev_row_Nil [of b] by simp
  then show ?thesis
    by (simp add: levenshtein_def lev_row_def del: upt_Suc)
qed

section \<open>Completeness of the line windows\<close>

lemma windows_from_Nil:
  "windows_from eq content lines want replacement consume i = [] \<Longrightarrow> want \<noteq> [] \<Longrightarrow> i \<le> k \<Longrightarrow>
   k + length want \<le> length lines \<Longrightarrow> \<not> list_all2 eq (slice k (k + length want) lines) want"
proof (induction eq content lines want replacement consume i rule: windows_from.induct)
  case (1 eq content lines want replacement consume i)
  note unfold = windows_from.simps [of eq content lines want replacement consume i]
  have T: "want \<noteq> [] \<and> i + length want \<le> length lines"
    using "1.prems" by simp
  have F: "\<not> list_all2 eq (slice i (i + length want) lines) want"
  proof
    assume hit: "list_all2 eq (slice i (i + length want) lines) want"
    from "1.prems"(1) show False unfolding unfold if_P [OF T] if_P [OF hit] by simp
  qed
  have nil: "windows_from eq content lines want replacement consume (Suc i) = []"
    using "1.prems"(1) unfolding unfold if_P [OF T] if_not_P [OF F] .
  show ?case
  proof (cases "k = i")
    case True
    with F show ?thesis by simp
  next
    case False
    then have "Suc i \<le> k" using "1.prems"(3) by simp
    from "1.IH"(2) [OF T F nil "1.prems"(2) this "1.prems"(4)] show ?thesis .
  qed
qed

section \<open>Re-indentation touches leading blanks only\<close>

definition blank_indent :: "string \<Rightarrow> bool" where
  "blank_indent s = list_all (\<lambda>c. c = CHR '' '' \<or> c = u_tab) s"

lemma blank_indent_append [simp]: "blank_indent (s @ t) = (blank_indent s \<and> blank_indent t)"
  by (simp add: blank_indent_def)

lemma indent_of_blank [simp]: "blank_indent (indent_of s)"
  by (auto simp: indent_of_def blank_indent_def list_all_iff dest: set_takeWhileD)

lemma blank_indent_ws: "blank_indent s \<Longrightarrow> list_all is_ws s"
  unfolding blank_indent_def by (erule list.pred_mono_strong) auto

lemma blank_indent_no_lf: "blank_indent w \<Longrightarrow> u_lf \<notin> set w"
proof
  assume "blank_indent w" "u_lf \<in> set w"
  then have "u_lf = CHR '' '' \<or> u_lf = u_tab" unfolding blank_indent_def list_all_iff by blast
  then show False by (simp add: code_units)
qed

lemma trim_ws_prefix: "list_all is_ws w \<Longrightarrow> trim (w @ s) = trim s"
  by (simp add: trim_def trim_start_def dropWhile_append2 list_all_iff)

lemma indent_body: "indent_of line @ drop (length (indent_of line)) line = line"
proof -
  have "indent_of line = take (length (indent_of line)) line"
    unfolding indent_of_def by (rule takeWhile_eq_take)
  then show ?thesis by (metis append_take_drop_id)
qed

lemma trim_body: "trim (drop (length (indent_of line)) line) = trim line"
  by (metis indent_body trim_ws_prefix blank_indent_ws indent_of_blank)

definition indents_blank :: "(string \<times> string) list \<Rightarrow> bool" where
  "indents_blank m = list_all (\<lambda>(frm, to). blank_indent to) m"

lemma indents_blank_update: "indents_blank m \<Longrightarrow> blank_indent v \<Longrightarrow> indents_blank (AList.update k v m)"
  by (induction m) (auto simp: indents_blank_def)

lemma indent_map_acc_blank: "indents_blank m \<Longrightarrow> indents_blank (indent_map_acc m ps)"
  by (induction m ps rule: indent_map_acc.induct) (auto simp: Let_def indents_blank_update)

lemma indent_map_blank [simp]: "indents_blank (indent_map ps)"
  unfolding indent_map_def by (rule indent_map_acc_blank) (simp add: indents_blank_def)

lemma nearest_level_mem: "known \<noteq> [] \<Longrightarrow> nearest_level known indent \<in> set known"
proof -
  have "foldl (\<lambda>base entry. if length (fst entry) \<le> length indent then entry else base) b ks
      \<in> insert b (set ks)" for b ks
  proof (induction ks arbitrary: b)
    case (Cons k ks)
    show ?case
      using Cons.IH [of "if length (fst k) \<le> length indent then k else b"] by (auto split: if_splits)
  qed simp
  from this [of "hd known" known] show "known \<noteq> [] \<Longrightarrow> nearest_level known indent \<in> set known"
    by (auto simp: nearest_level_def)
qed

lemma reindent_line_shape:
  assumes "indents_blank m" and "indents_blank known" and "known \<noteq> []" and "trim line \<noteq> []"
  shows "\<exists>w. blank_indent w \<and> reindent_line m known r line = w @ drop (length (indent_of line)) line"
proof (cases "map_of m (indent_of line)")
  case (Some direct)
  then have "blank_indent direct"
    using assms(1) by (auto simp: indents_blank_def list_all_iff dest: map_of_SomeD)
  with Some assms(4) show ?thesis by (auto simp: reindent_line_def)
next
  case None
  have "\<forall>x\<in>set known. blank_indent (snd x)"
    using assms(2) unfolding indents_blank_def list_all_iff case_prod_unfold .
  then have b: "blank_indent (snd (nearest_level known (indent_of line)))"
    by (rule bspec) (rule nearest_level_mem [OF assms(3)])
  let ?base = "nearest_level known (indent_of line)"
  let ?unit = "if u_tab \<in> set (snd ?base) then u_tab else CHR '' ''"
  have "\<exists>n. reindent_line m known r line =
      snd ?base @ replicate n ?unit @ drop (length (indent_of line)) line"
  proof (cases "int (length (indent_of line)) - int (length (fst ?base)) \<le> 0")
    case True
    with None assms(4) show ?thesis
      by (intro exI [of _ 0]) (simp add: reindent_line_def Let_def)
  next
    case False
    show ?thesis
      unfolding reindent_line_def Let_def if_not_P [OF assms(4)] None option.case if_not_P [OF False]
      by blast
  qed
  then obtain n where line: "reindent_line m known r line =
      (snd ?base @ replicate n ?unit) @ drop (length (indent_of line)) line"
    unfolding append_assoc by blast
  have "blank_indent (replicate n ?unit)"
    by (simp add: blank_indent_def list_all_iff set_replicate_conv_if)
  with b have "blank_indent (snd ?base @ replicate n ?unit)"
    unfolding blank_indent_append by blast
  with line show ?thesis by blast
qed

lemma reindent_line_trim:
  assumes "indents_blank m" and "indents_blank known" and "known \<noteq> []"
  shows "trim (reindent_line m known r line) = trim line"
proof (cases "trim line = []")
  case False
  from reindent_line_shape [OF assms False] obtain w where
    "blank_indent w" "reindent_line m known r line = w @ drop (length (indent_of line)) line" by blast
  then show ?thesis by (simp add: trim_ws_prefix [OF blank_indent_ws] trim_body)
qed (simp add: reindent_line_def)

lemma reindent_line_no_lf:
  assumes "indents_blank m" and "indents_blank known" and "known \<noteq> []" and "u_lf \<notin> set line"
  shows "u_lf \<notin> set (reindent_line m known r line)"
proof (cases "trim line = []")
  case False
  from reindent_line_shape [OF assms(1-3) False] obtain w where
    "blank_indent w" "reindent_line m known r line = w @ drop (length (indent_of line)) line" by blast
  then show ?thesis
    using assms(4) blank_indent_no_lf by (auto dest: in_set_dropD)
qed (use assms(4) in \<open>simp add: reindent_line_def\<close>)

section \<open>The guarantees of an edit\<close>

text \<open>The file with its line breaks as LF, as \<open>replaceText\<close> searches it.\<close>

definition lf_form :: "string \<Rightarrow> string" where
  "lf_form content = (if str_includes content [u_cr, u_lf] then crlf_to_lf content else content)"

definition undo_crlf :: "string \<Rightarrow> string \<Rightarrow> string" where
  "undo_crlf content result = (if str_includes content [u_cr, u_lf] then crlf_to_lf result else result)"

lemma replace_text_InrD:
  assumes "replace_text content old_text new_text all = Inr r"
  obtains spans where
    "crlf_to_lf old_text \<noteq> []"
    "run_matchers matchers (lf_form content) (crlf_to_lf old_text) (crlf_to_lf new_text)
       = Some (r_strategy r, spans)"
    "all \<or> length spans \<le> 1"
    "r_count r = (if all then length spans else 1)"
    "r_content r = (let applied = splice_all (lf_form content) (if all then spans else take 1 spans)
       in if str_includes content [u_cr, u_lf] then lf_to_crlf applied else applied)"
proof -
  let ?run = "run_matchers matchers (lf_form content) (crlf_to_lf old_text) (crlf_to_lf new_text)"
  have ne1: "crlf_to_lf old_text \<noteq> []"
  proof
    assume "crlf_to_lf old_text = []"
    with assms show False by (simp add: replace_text_def Let_def)
  qed
  have ne2: "crlf_to_lf old_text \<noteq> crlf_to_lf new_text"
  proof
    assume "crlf_to_lf old_text = crlf_to_lf new_text"
    with assms ne1 show False by (simp add: replace_text_def Let_def)
  qed
  note ne = ne1 ne2
  have eq: "replace_text content old_text new_text all =
     (case ?run of None \<Rightarrow> Inl (ENotFound (suggest_closest (lf_form content) (crlf_to_lf old_text)))
      | Some (strategy, spans) \<Rightarrow>
          if length spans > 1 \<and> \<not> all
          then Inl (EAmbiguous (map (\<lambda>sp. line_at (lf_form content) (sp_start sp)) spans))
          else (let applied = splice_all (lf_form content) (if all then spans else take 1 spans);
                    first_span = hd spans;
                    first_line = line_at applied (sp_start first_span)
                in Inr \<lparr>r_content = (if str_includes content [u_cr, u_lf] then lf_to_crlf applied else applied),
                        r_count = (if all then length spans else 1),
                        r_strategy = strategy, r_first_line = first_line,
                        r_last_line = first_line + (length (lines_of (sp_text first_span)) - 1)\<rparr>))"
    unfolding replace_text_def Let_def lf_form_def [symmetric] if_not_P [OF ne(1)] if_not_P [OF ne(2)] ..
  obtain strategy spans where run: "?run = Some (strategy, spans)"
    using assms unfolding eq by (cases ?run) auto
  have amb: "\<not> (length spans > 1 \<and> \<not> all)"
    using assms unfolding eq run option.case prod.case by (rule contrapos_pn) simp
  show ?thesis
    using assms unfolding eq run option.case prod.case if_not_P [OF amb] Let_def sum.inject
    by (intro that [OF ne(1), of spans]) (use run amb in auto)
qed

lemma replace_text_parts:
  assumes "replace_text content old_text new_text all = Inr r"
  shows "\<exists>m spans. (r_strategy r, m) \<in> set matchers
    \<and> spans = non_overlapping (m (lf_form content) (crlf_to_lf old_text) (crlf_to_lf new_text))
    \<and> span_chain 0 (length (lf_form content)) spans
    \<and> r_count r = length spans \<and> 0 < length spans \<and> (all \<or> length spans = 1)
    \<and> lf_form content = weave (gaps_from (lf_form content) 0 spans) (map (segment (lf_form content)) spans)
    \<and> undo_crlf content (r_content r) = weave (gaps_from (lf_form content) 0 spans) (map sp_text spans)
    \<and> r_content r = (let edited = weave (gaps_from (lf_form content) 0 spans) (map sp_text spans)
        in if str_includes content [u_cr, u_lf] then lf_to_crlf edited else edited)
    \<and> (\<not> str_includes content [u_cr, u_lf] \<longrightarrow> lf_form content = content)"
proof -
  from assms obtain spans where
    ne: "crlf_to_lf old_text \<noteq> []" and
    run: "run_matchers matchers (lf_form content) (crlf_to_lf old_text) (crlf_to_lf new_text)
       = Some (r_strategy r, spans)" and
    one: "all \<or> length spans \<le> 1" and
    cnt: "r_count r = (if all then length spans else 1)" and
    res: "r_content r = (let applied = splice_all (lf_form content) (if all then spans else take 1 spans)
       in if str_includes content [u_cr, u_lf] then lf_to_crlf applied else applied)"
    by (rule replace_text_InrD)
  from run_matchers_sound [OF run] obtain m where m: "(r_strategy r, m) \<in> set matchers"
    "spans = non_overlapping (m (lf_form content) (crlf_to_lf old_text) (crlf_to_lf new_text))" "spans \<noteq> []"
    by blast
  have chain: "span_chain 0 (length (lf_form content)) spans"
    by (rule run_matchers_chain(1) [OF run ne])
  have count: "length spans = 1" if "\<not> all" using one m(3) that by (cases spans) auto
  have all_spans: "(if all then spans else take 1 spans) = spans" using count by simp
  have "undo_crlf content (r_content r) = splice_all (lf_form content) spans"
    unfolding res all_spans Let_def undo_crlf_def by simp
  moreover have "r_content r = (let edited = splice_all (lf_form content) spans
      in if str_includes content [u_cr, u_lf] then lf_to_crlf edited else edited)"
    unfolding res all_spans ..
  moreover have "splice_all (lf_form content) spans = weave (gaps_from (lf_form content) 0 spans) (map sp_text spans)"
    using weave_edited [of "lf_form content" 0 spans] chain by (simp add: splice_all_def)
  moreover have "\<not> str_includes content [u_cr, u_lf] \<longrightarrow> lf_form content = content" by (simp add: lf_form_def)
  ultimately show ?thesis
    using m chain cnt count weave_source [OF chain] by (intro exI [of _ m] exI [of _ spans]) auto
qed

text \<open>
  C10. An edit is local: when \<open>replaceText\<close> succeeds, the spans of the strictest matcher that found anything lie in order
  inside the file, there is exactly one unless all were asked for, and the new file is the old one with those segments
  exchanged, everything between them as it was. That is so to the letter in a file without CRLF line ends; a file
  that has one is edited in its form with LF line ends and every line end of the result is written as CRLF, so line ends
  outside the spans change where the file mixed both.
\<close>

theorem replace_text_local:
  assumes "replace_text content old_text new_text all = Inr r"
  shows "\<exists>m spans. (r_strategy r, m) \<in> set matchers
    \<and> spans = non_overlapping (m (lf_form content) (crlf_to_lf old_text) (crlf_to_lf new_text))
    \<and> span_chain 0 (length (lf_form content)) spans
    \<and> r_count r = length spans \<and> 0 < length spans \<and> (all \<or> length spans = 1)
    \<and> lf_form content = weave (gaps_from (lf_form content) 0 spans) (map (segment (lf_form content)) spans)
    \<and> undo_crlf content (r_content r) = weave (gaps_from (lf_form content) 0 spans) (map sp_text spans)
    \<and> r_content r = (let edited = weave (gaps_from (lf_form content) 0 spans) (map sp_text spans)
        in if str_includes content [u_cr, u_lf] then lf_to_crlf edited else edited)
    \<and> (\<not> str_includes content [u_cr, u_lf] \<longrightarrow> lf_form content = content)"
  using assms by (rule replace_text_parts)

theorem replace_text_local_witness:
  "\<exists>m spans. (Exact, m) \<in> set matchers
    \<and> spans = non_overlapping (m (lf_form ''abc'') (crlf_to_lf ''b'') (crlf_to_lf ''xy''))
    \<and> lf_form ''abc'' = weave (gaps_from (lf_form ''abc'') 0 spans) (map (segment (lf_form ''abc'')) spans)
    \<and> undo_crlf ''abc'' ''axyc'' = weave (gaps_from (lf_form ''abc'') 0 spans) (map sp_text spans)"
proof -
  have "replace_text ''abc'' ''b'' ''xy'' False =
    Inr \<lparr>r_content = ''axyc'', r_count = 1, r_strategy = Exact, r_first_line = 1, r_last_line = 1\<rparr>"
    by code_simp
  from replace_text_local [OF this] show ?thesis by (simp only: replace_result.simps) blast
qed

lemma run_matchers_exact:
  assumes "wanted \<noteq> []" and "index_of wanted source \<noteq> None"
  shows "run_matchers matchers source wanted replacement = Some (Exact, exact source wanted replacement)"
proof -
  have ne: "exact source wanted replacement \<noteq> []"
    using exact_Nil_iff [OF assms(1)] assms(2) by simp
  have "non_overlapping (exact source wanted replacement) = exact source wanted replacement"
    by (rule non_overlapping_of_chain [OF exact_chain [OF assms(1)]])
  then show ?thesis by (simp add: matchers_def ne)
qed

lemma replace_text_cases:
  assumes "crlf_to_lf old_text \<noteq> []" and "crlf_to_lf old_text \<noteq> crlf_to_lf new_text"
    and "run_matchers matchers (lf_form content) (crlf_to_lf old_text) (crlf_to_lf new_text)
       = Some (strategy, spans)"
    and "all \<or> length spans \<le> 1"
  shows "\<exists>r. replace_text content old_text new_text all = Inr r \<and> r_strategy r = strategy
    \<and> undo_crlf content (r_content r) = splice_all (lf_form content) (if all then spans else take 1 spans)
    \<and> r_content r = (let applied = splice_all (lf_form content) (if all then spans else take 1 spans)
        in if str_includes content [u_cr, u_lf] then lf_to_crlf applied else applied)"
proof -
  have amb: "\<not> (length spans > 1 \<and> \<not> all)" using assms(4) by auto
  show ?thesis
    unfolding replace_text_def Let_def lf_form_def [symmetric] if_not_P [OF assms(1)]
      if_not_P [OF assms(2)] assms(3) option.case prod.case if_not_P [OF amb] undo_crlf_def
    by (auto simp: crlf_roundtrip)
qed

text \<open>
  C11. A \<open>replace_all\<close> edit whose quote occurs in the file verbatim is the global replacement of the
  quote, and is reported as an exact match.
\<close>

theorem replace_all_exact:
  assumes "index_of (crlf_to_lf old_text) (lf_form content) \<noteq> None"
    and "crlf_to_lf old_text \<noteq> []" and "crlf_to_lf old_text \<noteq> crlf_to_lf new_text"
  shows "\<exists>r. replace_text content old_text new_text True = Inr r \<and> r_strategy r = Exact
    \<and> undo_crlf content (r_content r)
        = replace_all (crlf_to_lf old_text) (crlf_to_lf new_text) (lf_form content)"
  using replace_text_cases [OF assms(2,3) run_matchers_exact [OF assms(2,1)], of True]
  by (auto simp: splice_exact [OF assms(2)])

theorem replace_all_exact_witness:
  "\<exists>r. replace_text ''a.b.'' ''.'' ''--'' True = Inr r \<and> r_strategy r = Exact
    \<and> undo_crlf ''a.b.'' (r_content r) = replace_all (crlf_to_lf ''.'') (crlf_to_lf ''--'') (lf_form ''a.b.'')"
  by (rule replace_all_exact; code_simp)

text \<open>
  A plain edit whose quote occurs in the file exactly once, as text, replaces that occurrence:
  what stands before and after it is kept verbatim.
\<close>

theorem replace_unique_exact:
  assumes "lf_form content = pre @ crlf_to_lf old_text @ post"
    and "index_of (crlf_to_lf old_text) (lf_form content) = Some (length pre)"
    and "index_of (crlf_to_lf old_text) post = None"
    and "crlf_to_lf old_text \<noteq> []" and "crlf_to_lf old_text \<noteq> crlf_to_lf new_text"
  shows "\<exists>r. replace_text content old_text new_text False = Inr r \<and> r_strategy r = Exact
    \<and> undo_crlf content (r_content r) = pre @ crlf_to_lf new_text @ post"
proof -
  let ?w = "crlf_to_lf old_text" and ?n = "crlf_to_lf new_text" and ?s = "lf_form content"
  have found: "index_from ?w ?s 0 = Some (length pre)" using assms(2) by (simp add: index_from_def)
  have "index_from ?w ?s (length pre + length ?w) = None"
    using assms(1,3) by (simp add: index_from_def)
  then have one: "exact ?s ?w ?n =
      [\<lparr>sp_start = length pre, sp_end = length pre + length ?w, sp_text = ?n\<rparr>]"
    unfolding exact_def using assms(4) found
    by (simp add: exact_from.simps [of ?s ?w ?n 0] exact_from.simps [of ?s ?w ?n "length pre + length ?w"])
  have "index_of ?w ?s \<noteq> None" using assms(2) by simp
  from replace_text_cases [OF assms(4,5) run_matchers_exact [OF assms(4) this], of False] one
  obtain r where r: "replace_text content old_text new_text False = Inr r" "r_strategy r = Exact"
    "undo_crlf content (r_content r) = splice_all ?s (exact ?s ?w ?n)" by auto
  moreover have "splice_all ?s (exact ?s ?w ?n) = pre @ ?n @ post"
    unfolding one by (simp add: splice_all_def slice_def assms(1))
  ultimately show ?thesis by auto
qed

theorem replace_unique_exact_witness:
  "\<exists>r. replace_text ''let x;'' ''x'' ''y'' False = Inr r \<and> r_strategy r = Exact
    \<and> undo_crlf ''let x;'' (r_content r) = ''let '' @ crlf_to_lf ''y'' @ '';''"
  by (rule replace_unique_exact; code_simp)

text \<open>
  \<open>not-found\<close> is never reported while the quote, or a run of file lines that equals it line by
  line up to white space, is there: the reported failure is real.
\<close>

theorem not_found_complete:
  assumes "replace_text content old_text new_text all = Inl (ENotFound hint)"
    and "split_trailing_newline (crlf_to_lf old_text) (crlf_to_lf new_text) = (body, replacement, consume)"
    and "\<not> list_all (\<lambda>l. trim l = []) (lines_of body)"
    and "k + length (lines_of body) \<le> length (lines_of (lf_form content))"
  shows "index_of (crlf_to_lf old_text) (lf_form content) = None
    \<and> \<not> list_all2 (\<lambda>a b. collapse_line a = collapse_line b)
         (slice k (k + length (lines_of body)) (lines_of (lf_form content))) (lines_of body)"
proof -
  let ?w = "crlf_to_lf old_text" and ?n = "crlf_to_lf new_text" and ?s = "lf_form content"
  have ne: "?w \<noteq> []"
  proof
    assume "?w = []"
    with assms(1) show False by (simp add: replace_text_def Let_def)
  qed
  have "run_matchers matchers ?s ?w ?n = None"
  proof (rule ccontr)
    assume "run_matchers matchers ?s ?w ?n \<noteq> None"
    then obtain strategy spans where run: "run_matchers matchers ?s ?w ?n = Some (strategy, spans)" by auto
    show False
    proof (cases "?w = ?n")
      case True
      with assms(1) ne show False by (simp add: replace_text_def)
    next
      case False
      show False
      proof (cases "length spans > 1 \<and> \<not> all")
        case True
        show False
          using assms(1) unfolding replace_text_def Let_def lf_form_def [symmetric] if_not_P [OF ne]
            if_not_P [OF False] run option.case prod.case if_P [OF True] by simp
      next
        case amb: False
        show False
          using assms(1) unfolding replace_text_def Let_def lf_form_def [symmetric] if_not_P [OF ne]
            if_not_P [OF False] run option.case prod.case if_not_P [OF amb] by simp
      qed
    qed
  qed
  then have none: "\<forall>(strategy, m)\<in>set matchers. m ?s ?w ?n = []" by (simp add: run_matchers_None)
  have "exact ?s ?w ?n = []" using none by (simp add: matchers_def)
  moreover have "whitespace_normalized ?s ?w ?n = []" using none by (simp add: matchers_def)
  then have "windows_from (\<lambda>a b. collapse_line a = collapse_line b) ?s (lines_of ?s) (lines_of body)
      replacement consume 0 = []"
    unfolding whitespace_normalized_def line_windows_def assms(2) prod.case Let_def if_not_P [OF assms(3)] .
  ultimately show ?thesis
    using exact_Nil_iff [OF ne] windows_from_Nil [OF _ split_on_not_Nil le0 assms(4)] by blast
qed

theorem not_found_complete_witness:
  "index_of (crlf_to_lf ''b'') (lf_form ''a'') = None
    \<and> \<not> list_all2 (\<lambda>a b. collapse_line a = collapse_line b)
         (slice 0 (0 + length (lines_of ''b'')) (lines_of (lf_form ''a''))) (lines_of ''b'')"
proof -
  have run: "run_matchers matchers ''a'' ''b'' ''c'' = None"
    and lf: "str_includes ''a'' [u_cr, u_lf] = False" "crlf_to_lf ''b'' = ''b''" "crlf_to_lf ''c'' = ''c''"
    by code_simp+
  have "\<exists>hint. replace_text ''a'' ''b'' ''c'' False = Inl (ENotFound hint)"
    by (simp add: replace_text_def lf run)
  then obtain hint where h: "replace_text ''a'' ''b'' ''c'' False = Inl (ENotFound hint)" by blast
  show ?thesis
    by (rule not_found_complete [OF h, of "''b''" "''c''" False]; code_simp)
qed

lemma list_all2_map_eq: "list_all2 (\<lambda>a b. f a = f b) xs ys \<Longrightarrow> map f xs = map f ys"
  by (induction rule: list_all2_induct) auto

text \<open>
  A match that ignored indentation replaces whole lines: each exchanged segment is a run of
  lines of the file, as many as were quoted, equal to them after trimming (with the line break
  after the run when the quote ended in one and the replacement does not).
\<close>

theorem line_trimmed_whole_lines:
  assumes "replace_text content old_text new_text all = Inr r" and "r_strategy r = LineTrimmed"
  shows "\<exists>spans body replacement consume.
    spans = non_overlapping (line_trimmed (lf_form content) (crlf_to_lf old_text) (crlf_to_lf new_text))
    \<and> r_count r = length spans
    \<and> split_trailing_newline (crlf_to_lf old_text) (crlf_to_lf new_text) = (body, replacement, consume)
    \<and> (\<forall>sp\<in>set spans. \<exists>k. let run = slice k (k + length (lines_of body)) (lines_of (lf_form content)) in
         map trim run = map trim (lines_of body)
         \<and> (segment (lf_form content) sp = unlines run
            \<or> consume \<and> segment (lf_form content) sp = unlines run @ [u_lf])
         \<and> sp_text sp = reindent replacement (indent_map (window_pairs (lines_of body) run)))"
proof -
  let ?w = "crlf_to_lf old_text" and ?n = "crlf_to_lf new_text" and ?s = "lf_form content"
  from replace_text_parts [OF assms(1)] obtain m spans where
    m: "(r_strategy r, m) \<in> set matchers" and sp: "spans = non_overlapping (m ?s ?w ?n)"
    and cnt: "r_count r = length spans" by blast
  have "m = line_trimmed" using m assms(2) by (simp add: matchers_def)
  obtain body replacement consume where b: "split_trailing_newline ?w ?n = (body, replacement, consume)"
    by (cases "split_trailing_newline ?w ?n") auto
  have "\<exists>k. let run = slice k (k + length (lines_of body)) (lines_of ?s) in
         map trim run = map trim (lines_of body)
         \<and> (segment ?s sp = unlines run \<or> consume \<and> segment ?s sp = unlines run @ [u_lf])
         \<and> sp_text sp = reindent replacement (indent_map (window_pairs (lines_of body) run))"
    if "sp \<in> set spans" for sp
  proof -
    have "sp \<in> set (line_windows (\<lambda>a b. trim a = trim b) ?s ?w ?n)"
      using that set_non_overlapping sp \<open>m = line_trimmed\<close> by (auto simp: line_trimmed_def)
    then obtain body' replacement' consume' k where
      "split_trailing_newline ?w ?n = (body', replacement', consume')" and
      k: "k + length (lines_of body') \<le> length (lines_of ?s)" and
      eq: "list_all2 (\<lambda>a b. trim a = trim b) (slice k (k + length (lines_of body')) (lines_of ?s)) (lines_of body')" and
      to: "sp = to_span ?s (lines_of ?s) k (k + length (lines_of body')) (lines_of body') replacement' consume'"
      by (rule line_windows_set)
    with b have [simp]: "body' = body" "replacement' = replacement" "consume' = consume" by auto
    have "map trim (slice k (k + length (lines_of body)) (lines_of ?s)) = map trim (lines_of body)"
      using list_all2_map_eq [OF eq] by simp
    moreover have "k < k + length (lines_of body)" by simp
    ultimately show ?thesis
      using to_span_segment(2) [of k "k + length (lines_of body)" ?s "lines_of body" replacement consume] k
      by (intro exI [of _ k]) (auto simp: Let_def to to_span_text)
  qed
  with b sp cnt \<open>m = line_trimmed\<close> show ?thesis by blast
qed

theorem line_trimmed_whole_lines_witness:
  "\<exists>spans body replacement consume.
    spans = non_overlapping (line_trimmed (lf_form '' x'') (crlf_to_lf ''x '') (crlf_to_lf ''y''))
    \<and> (1::nat) = length spans
    \<and> split_trailing_newline (crlf_to_lf ''x '') (crlf_to_lf ''y'') = (body, replacement, consume)"
proof -
  have r: "replace_text '' x'' ''x '' ''y'' False = Inr \<lparr>r_content = '' y'', r_count = 1,
      r_strategy = LineTrimmed, r_first_line = 1, r_last_line = 1\<rparr>"
    by code_simp
  from line_trimmed_whole_lines [OF r] show ?thesis by (simp only: replace_result.simps) blast
qed

text \<open>
  Line endings survive: in a file whose line breaks are all CR LF, the untouched text comes
  back byte for byte, and every line break of the result, the new text's included, is CR LF.
\<close>

theorem crlf_preserved:
  assumes "replace_text content old_text new_text all = Inr r"
    and "str_includes content [u_cr, u_lf]" and "uniform_crlf content"
  shows "uniform_crlf (r_content r) \<and> (\<exists>gaps olds news.
    length gaps = Suc (r_count r) \<and> length olds = r_count r \<and> length news = r_count r
    \<and> gaps = map lf_to_crlf (gaps_from (lf_form content) 0
         (non_overlapping (snd (hd (filter (\<lambda>x. fst x = r_strategy r) matchers))
           (lf_form content) (crlf_to_lf old_text) (crlf_to_lf new_text))))
    \<and> content = weave gaps olds \<and> r_content r = weave gaps news)"
proof -
  let ?s = "lf_form content" and ?w = "crlf_to_lf old_text" and ?n = "crlf_to_lf new_text"
  from replace_text_parts [OF assms(1)] obtain m spans where
    m: "(r_strategy r, m) \<in> set matchers" and sp: "spans = non_overlapping (m ?s ?w ?n)" and
    cnt: "r_count r = length spans" and
    src: "?s = weave (gaps_from ?s 0 spans) (map (segment ?s) spans)" and
    res: "undo_crlf content (r_content r) = weave (gaps_from ?s 0 spans) (map sp_text spans)"
    by blast
  have the_m: "m = snd (hd (filter (\<lambda>x. fst x = r_strategy r) matchers))"
    using m by (auto simp: matchers_def)
  from assms(1) obtain sps where c: "r_content r = (let applied = splice_all ?s (if all then sps else take 1 sps)
       in if str_includes content [u_cr, u_lf] then lf_to_crlf applied else applied)"
    by (rule replace_text_InrD)
  then obtain applied where a: "r_content r = lf_to_crlf applied" using assms(2) by (simp add: Let_def)
  then have "applied = weave (gaps_from ?s 0 spans) (map sp_text spans)"
    using res assms(2) by (simp add: undo_crlf_def)
  then have new: "r_content r = weave (map lf_to_crlf (gaps_from ?s 0 spans)) (map lf_to_crlf (map sp_text spans))"
    using a by (simp add: lf_to_crlf_weave)
  have "content = lf_to_crlf ?s"
    using assms(2,3) by (simp add: lf_form_def uniform_crlf_def)
  then have old: "content = weave (map lf_to_crlf (gaps_from ?s 0 spans)) (map lf_to_crlf (map (segment ?s) spans))"
    using src by (metis lf_to_crlf_weave)
  have "uniform_crlf (r_content r)" using a by (simp add: uniform_crlf_def)
  with old new cnt sp the_m show ?thesis
    by (intro conjI exI [of _ "map lf_to_crlf (gaps_from ?s 0 spans)"]
      exI [of _ "map lf_to_crlf (map (segment ?s) spans)"] exI [of _ "map lf_to_crlf (map sp_text spans)"]) auto
qed

theorem crlf_preserved_witness:
  "uniform_crlf [CHR ''a'', u_cr, u_lf, CHR ''c'']"
proof -
  have r: "replace_text [CHR ''a'', u_cr, u_lf, CHR ''b''] ''b'' ''c'' False = Inr \<lparr>r_content =
      [CHR ''a'', u_cr, u_lf, CHR ''c''], r_count = 1, r_strategy = Exact, r_first_line = 2, r_last_line = 2\<rparr>"
    by code_simp
  have "str_includes [CHR ''a'', u_cr, u_lf, CHR ''b''] [u_cr, u_lf]" by code_simp
  moreover have "uniform_crlf [CHR ''a'', u_cr, u_lf, CHR ''b'']" unfolding uniform_crlf_def by code_simp
  ultimately show ?thesis
    using crlf_preserved [OF r] by simp
qed

text \<open>
  The two-row table of \<open>similarity\<close> computes the edit distance of its arguments.
\<close>

theorem levenshtein_is_edit_distance: "levenshtein a b = lev (rev a) (rev b)"
  by (rule levenshtein_lev)

text \<open>
  A similarity lies between 0 and 1; within the size the table is used for it is 1 exactly on
  equal texts and does not depend on the order of its arguments.
\<close>

theorem similarity_bounds:
  "0 \<le> similarity a b \<and> similarity a b \<le> 1
   \<and> (length a * length b \<le> 4000000 \<longrightarrow>
        similarity a b = similarity b a \<and> (similarity a b = 1 \<longleftrightarrow> a = b))"
proof -
  have lo: "0 \<le> line_overlap a b \<and> line_overlap a b \<le> 1"
  proof -
    have pos: "0 < max (length (lines_of a)) (card (set (lines_of b)))"
      by (simp add: less_max_iff_disj)
    have "length (filter (\<lambda>l. l \<in> set (lines_of b)) (lines_of a))
        \<le> max (length (lines_of a)) (card (set (lines_of b)))"
      by (rule order_trans [OF length_filter_le]) simp
    then have "(of_nat (length (filter (\<lambda>l. l \<in> set (lines_of b)) (lines_of a))) :: rat)
        \<le> of_nat (max (length (lines_of a)) (card (set (lines_of b))))"
      by (simp only: of_nat_le_iff)
    then show ?thesis using pos
      unfolding line_overlap_def Let_def by (simp only: divide_le_eq_1_pos of_nat_0_less_iff) simp
  qed
  have le: "levenshtein a b \<le> max (length a) (length b)"
    using lev_le_max [of "rev a" "rev b"] by (simp add: levenshtein_lev)
  have sym: "levenshtein a b = levenshtein b a"
    by (simp add: levenshtein_lev lev_sym)
  have zero: "levenshtein a b = 0 \<longleftrightarrow> a = b"
    by (simp add: levenshtein_lev lev_0_iff)
  have frac: "0 \<le> (of_nat (levenshtein a b) / of_nat (max (length a) (length b)) :: rat)"
    "(of_nat (levenshtein a b) / of_nat (max (length a) (length b)) :: rat) \<le> 1"
    using le zero by (auto simp: divide_le_eq_1 less_max_iff_disj)
  have one: "a \<noteq> [] \<Longrightarrow> (of_nat (levenshtein a b) / of_nat (max (length a) (length b)) :: rat) = 0 \<longleftrightarrow> a = b"
    using zero by (cases a) auto
  show ?thesis
    using lo frac one sym by (auto simp: similarity_def max.commute mult.commute)
qed

theorem similarity_bounds_witness:
  "similarity ''ab'' ''ac'' = similarity ''ac'' ''ab'' \<and> similarity ''ab'' ''ac'' \<noteq> 1"
  using similarity_bounds [of "''ab''" "''ac''"] by simp

text \<open>
  Re-indentation to the file's levels, as learned from the quoted lines, never changes a line
  beyond its leading blanks: it keeps the number of lines and the trimmed text of each.
\<close>

theorem reindent_keeps_text:
  "map trim (lines_of (reindent text (indent_map pairs))) = map trim (lines_of text)"
proof (cases "list_all (\<lambda>(frm, to). frm = to) (indent_map pairs)")
  case False
  let ?m = "indent_map pairs" and ?known = "sort_key (\<lambda>e. length (fst e)) (indent_map pairs)"
  have "?m \<noteq> []" using False by auto
  then have ne: "?known \<noteq> []" by (metis length_0_conv length_sort)
  have ok: "indents_blank ?m" "indents_blank ?known"
    using indent_map_blank [of pairs] by (simp_all add: indents_blank_def list_all_iff)
  let ?f = "reindent_line ?m ?known (unit_ratio ?known)"
  have "reindent text ?m = unlines (map ?f (lines_of text))"
    using False by (simp add: reindent_def Let_def)
  moreover have "lines_of (unlines (map ?f (lines_of text))) = map ?f (lines_of text)"
    using reindent_line_no_lf [OF ok ne] split_on_no_sep
    by (intro split_on_join) auto
  ultimately show ?thesis
    by (simp add: reindent_line_trim [OF ok ne])
qed (simp add: reindent_def)

end
