(* ===== verification/FileHistory.thy ===== *)
theory FileHistory
  imports Jean_Prelude
begin

text \<open>
  The file system as the program uses it, and per-turn file history for \<open>/rewind\<close>, \<open>/undo\<close> and
  \<open>/redo\<close>: \<open>packages/core/src/history.ts\<close>.

  A path is the list of its components, so \<open>dirname\<close> drops the last one. The file system maps
  paths to files and directories. An operation that throws in the program is \<open>None\<close>: writing below
  a file or onto a directory, and removing a directory or something below a file.
\<close>

section \<open>The file system\<close>

type_synonym path = "string list"

datatype node = FileN string | DirN

type_synonym fs = "path \<Rightarrow> node option"

definition is_file :: "node option \<Rightarrow> bool" where
  "is_file n = (case n of Some (FileN _) \<Rightarrow> True | _ \<Rightarrow> False)"

text \<open>What reading a path gives: the content of a file, nothing for a directory or no entry.\<close>

definition fs_contents :: "fs \<Rightarrow> path \<Rightarrow> string option" where
  "fs_contents s p = (case s p of Some (FileN c) \<Rightarrow> Some c | _ \<Rightarrow> None)"

definition mkdir_p :: "path \<Rightarrow> fs \<Rightarrow> fs option" where
  "mkdir_p d s =
     (if list_ex (\<lambda>q. is_file (s q)) (prefixes d) then None
      else Some (fold (\<lambda>q s. s(q \<mapsto> DirN)) (prefixes d) s))"

text \<open>\<open>mkdirSync(dirname(p), recursive)\<close> and then \<open>writeFileSync(p, c)\<close>.\<close>

definition fs_write :: "path \<Rightarrow> string \<Rightarrow> fs \<Rightarrow> fs option" where
  "fs_write p c s =
     (case mkdir_p (butlast p) s of
        None \<Rightarrow> None
      | Some s1 \<Rightarrow> if p = [] \<or> s1 p = Some DirN then None else Some (s1(p \<mapsto> FileN c)))"

text \<open>\<open>rmSync(p, force)\<close>: a missing entry is no error.\<close>

definition rm_force :: "path \<Rightarrow> fs \<Rightarrow> fs option" where
  "rm_force p s =
     (if list_ex (\<lambda>q. is_file (s q)) (prefixes (butlast p)) \<or> s p = Some DirN then None
      else Some (s(p := None)))"

text \<open>
  A path that can be written and removed, and two paths neither of which lies below the other.
\<close>

definition fs_plain :: "fs \<Rightarrow> path \<Rightarrow> bool" where
  "fs_plain s p = (p \<noteq> [] \<and> s p \<noteq> Some DirN \<and> \<not> list_ex (\<lambda>q. is_file (s q)) (prefixes (butlast p)))"

definition apart :: "path \<Rightarrow> path \<Rightarrow> bool" where
  "apart p q = (\<not> strict_prefix p q \<and> \<not> strict_prefix q p)"

subsection \<open>The contract the history relies on\<close>

text \<open>Writing a list of recorded states back, stopping at the first that throws.\<close>

fun restore_with :: "('p \<Rightarrow> 'c \<Rightarrow> 's \<Rightarrow> 's option) \<Rightarrow> ('p \<Rightarrow> 's \<Rightarrow> 's option) \<Rightarrow>
    ('p \<times> 'c option) list \<Rightarrow> 's \<Rightarrow> bool \<times> 's" where
  "restore_with wr rm [] s = (True, s)"
| "restore_with wr rm ((p, content) # es) s =
     (case (case content of None \<Rightarrow> rm p s | Some c \<Rightarrow> wr p c s) of
        None \<Rightarrow> (False, s)
      | Some s' \<Rightarrow> restore_with wr rm es s')"

definition overlay :: "('p \<times> 'c option) list \<Rightarrow> ('p \<Rightarrow> 'c option) \<Rightarrow> 'p \<Rightarrow> 'c option" where
  "overlay es m = (\<lambda>p. case map_of (rev es) p of None \<Rightarrow> m p | Some v \<Rightarrow> v)"

lemma overlay_Nil [simp]: "overlay [] m = m"
  by (simp add: overlay_def)

lemma overlay_Cons: "overlay ((p, v) # es) m = overlay es (m(p := v))"
  by (auto simp: overlay_def map_add_def fun_eq_iff split: option.splits)

lemma overlay_append: "overlay (xs @ ys) m = overlay ys (overlay xs m)"
  by (auto simp: overlay_def map_add_def fun_eq_iff split: option.splits)

locale file_store =
  fixes rd :: "'s \<Rightarrow> 'p \<Rightarrow> 'c option"
    and wr :: "'p \<Rightarrow> 'c \<Rightarrow> 's \<Rightarrow> 's option"
    and rm :: "'p \<Rightarrow> 's \<Rightarrow> 's option"
    and plain :: "'s \<Rightarrow> 'p \<Rightarrow> bool"
    and sep :: "'p \<Rightarrow> 'p \<Rightarrow> bool"
  assumes wr_rd: "wr p c s = Some s' \<Longrightarrow> rd s' = (rd s)(p \<mapsto> c)"
    and rm_rd: "rm p s = Some s' \<Longrightarrow> rd s' = (rd s)(p := None)"
    and wr_ok: "plain s p \<Longrightarrow> \<exists>s'. wr p c s = Some s'"
    and rm_ok: "plain s p \<Longrightarrow> \<exists>s'. rm p s = Some s'"
    and wr_plain: "wr p c s = Some s' \<Longrightarrow> sep p q \<Longrightarrow> plain s q \<Longrightarrow> plain s' q"
    and rm_plain: "rm p s = Some s' \<Longrightarrow> plain s q \<Longrightarrow> plain s' q"
begin

lemma restore_rd:
  "restore_with wr rm es s = (True, s') \<Longrightarrow> rd s' = overlay es (rd s)"
proof (induction es arbitrary: s)
  case (Cons e es)
  obtain p v where e: "e = (p, v)" by (cases e)
  with Cons.prems obtain s1 where s1: "(case v of None \<Rightarrow> rm p s | Some c \<Rightarrow> wr p c s) = Some s1"
    and rest: "restore_with wr rm es s1 = (True, s')" by (auto split: option.splits)
  have "rd s1 = (rd s)(p := v)" using s1 wr_rd rm_rd by (cases v) auto
  with Cons.IH [OF rest] show ?case unfolding e overlay_Cons by (simp only:)
qed simp

lemma restore_ok:
  assumes "\<And>p. p \<in> fst ` set es \<Longrightarrow> plain s p"
    and "\<And>p q. p \<in> fst ` set es \<Longrightarrow> q \<in> fst ` set es \<Longrightarrow> sep p q"
  shows "\<exists>s'. restore_with wr rm es s = (True, s') \<and> rd s' = overlay es (rd s)
    \<and> (\<forall>q. plain s q \<and> (\<forall>p\<in>fst ` set es. sep p q) \<longrightarrow> plain s' q)"
  using assms
proof (induction es arbitrary: s)
  case (Cons e es)
  obtain p v where e: "e = (p, v)" by (cases e)
  have "plain s p" using Cons.prems(1) e by simp
  then obtain s1 where s1: "(case v of None \<Rightarrow> rm p s | Some c \<Rightarrow> wr p c s) = Some s1"
    using wr_ok [of s p] rm_ok [of s p] by (cases v) (simp_all, blast+)
  have rd1: "rd s1 = (rd s)(p := v)" using s1 wr_rd rm_rd by (cases v) auto
  have keep: "plain s1 q" if "plain s q" "sep p q" for q
    using s1 that wr_plain rm_plain by (cases v) auto
  have "plain s1 q" if "q \<in> fst ` set es" for q
    using keep [of q] Cons.prems that e by simp
  with Cons.IH [of s1] Cons.prems(2) obtain s' where
    s': "restore_with wr rm es s1 = (True, s')" "rd s' = overlay es (rd s1)"
      "\<And>q. plain s1 q \<Longrightarrow> (\<forall>p\<in>fst ` set es. sep p q) \<Longrightarrow> plain s' q" by auto
  have "plain s' q" if "plain s q" "\<forall>p\<in>fst ` set (e # es). sep p q" for q
    using that e by (intro s'(3) keep) auto
  moreover have "restore_with wr rm (e # es) s = (True, s')" using s'(1) s1 e by simp
  moreover have "rd s' = overlay (e # es) (rd s)" unfolding e overlay_Cons s'(2) rd1 ..
  ultimately show ?case by blast
qed simp

end

lemma mkdir_p_contents: "mkdir_p d s = Some s' \<Longrightarrow> fs_contents s' = fs_contents s"
proof -
  have mk: "fs_contents (fold (\<lambda>q s. s(q \<mapsto> DirN)) qs s) = fs_contents s"
    if "\<not> list_ex (\<lambda>q. is_file (s q)) qs" for qs and s :: fs
    using that
  proof (induction qs arbitrary: s)
    case (Cons q qs)
    have "fs_contents (s(q \<mapsto> DirN)) = fs_contents s"
      using Cons.prems by (auto simp: fs_contents_def is_file_def fun_eq_iff split: option.splits node.splits)
    moreover have "\<not> list_ex (\<lambda>q'. is_file ((s(q \<mapsto> DirN)) q')) qs"
      using Cons.prems by (auto simp: list_ex_iff is_file_def)
    ultimately show ?case using Cons.IH [of "s(q \<mapsto> DirN)"] unfolding fold_Cons o_apply by (simp only: simp_thms)
  qed simp
  show "mkdir_p d s = Some s' \<Longrightarrow> fs_contents s' = fs_contents s"
    by (auto simp: mkdir_p_def mk split: if_splits)
qed

lemma fold_dirs: "fold (\<lambda>q s. s(q \<mapsto> DirN)) qs s p = (if p \<in> set qs then Some DirN else s p)"
  for s :: fs
  by (induction qs arbitrary: s) auto

lemma mkdir_p_at: "mkdir_p d s = Some s' \<Longrightarrow> s' p = (if prefix p d then Some DirN else s p)"
  by (auto simp: mkdir_p_def fold_dirs split: if_splits)

lemma prefix_butlast: "p \<noteq> [] \<Longrightarrow> prefix q (butlast p) \<longleftrightarrow> strict_prefix q p"
  by (cases p rule: rev_cases) (auto simp: strict_prefix_def prefix_snoc dest: prefix_length_le)

lemma fs_write_at:
  assumes "fs_write p c s = Some s'"
  shows "p \<noteq> []" "s' q = (if q = p then Some (FileN c) else if strict_prefix q p then Some DirN else s q)"
proof -
  from assms obtain s1 where s1: "mkdir_p (butlast p) s = Some s1" "p \<noteq> []" "s' = s1(p \<mapsto> FileN c)"
    by (auto simp: fs_write_def split: option.splits if_splits)
  show "p \<noteq> []" by (rule s1(2))
  show "s' q = (if q = p then Some (FileN c) else if strict_prefix q p then Some DirN else s q)"
    using mkdir_p_at [OF s1(1), of q] s1(2,3) by (simp add: prefix_butlast)
qed

interpretation disk: file_store fs_contents fs_write rm_force fs_plain apart
proof
  show "fs_contents s' = (fs_contents s)(p \<mapsto> c)" if "fs_write p c s = Some s'" for p c s s'
  proof -
    from that obtain s1 where s1: "mkdir_p (butlast p) s = Some s1" "s' = s1(p \<mapsto> FileN c)"
      by (auto simp: fs_write_def split: option.splits if_splits)
    then show ?thesis
      using mkdir_p_contents [OF s1(1)] by (auto simp: fs_contents_def fun_eq_iff)
  qed
  show "fs_contents s' = (fs_contents s)(p := None)" if "rm_force p s = Some s'" for p s s'
    using that by (auto simp: rm_force_def fs_contents_def fun_eq_iff split: if_splits)
  show "\<exists>s'. fs_write p c s = Some s'" if "fs_plain s p" for s p c
  proof -
    have nf: "\<not> list_ex (\<lambda>q. is_file (s q)) (prefixes (butlast p))" and ne: "p \<noteq> []" and nd: "s p \<noteq> Some DirN"
      using that by (simp_all add: fs_plain_def)
    then obtain s1 where s1: "mkdir_p (butlast p) s = Some s1" by (simp add: mkdir_p_def)
    have "s1 p = s p" using mkdir_p_at [OF s1, of p] ne by (simp add: prefix_butlast)
    then show ?thesis using s1 ne nd by (simp add: fs_write_def)
  qed
  show "\<exists>s'. rm_force p s = Some s'" if "fs_plain s p" for s p
    using that by (auto simp: fs_plain_def rm_force_def)
  show "fs_plain s' q" if "fs_write p c s = Some s'" "apart p q" "fs_plain s q" for p c s s' q
    using fs_write_at(2) [OF that(1)] that(2,3)
    by (auto simp: fs_plain_def apart_def list_ex_iff prefix_butlast is_file_def)
  show "fs_plain s' q" if "rm_force p s = Some s'" "fs_plain s q" for p s s' q
    using that by (auto simp: fs_plain_def rm_force_def list_ex_iff is_file_def split: if_splits)
qed

section \<open>The history\<close>

record turn =
  t_event :: nat
  t_prompt :: string
  t_files :: "(path \<times> string option) list"

record 'e undone =
  u_turns :: "turn list"
  u_after :: "(path \<times> string option) list"
  u_events :: "'e list"

record 'e history =
  h_stack :: "turn list"
  h_undone :: "'e undone list"
  h_max :: nat

record rewind_result =
  rw_event :: nat
  rw_prompt :: string
  rw_restored :: "path list"
  rw_removed :: "path list"
  rw_turns :: nat

record 'e redo_result =
  rd_turns :: nat
  rd_prompt :: string
  rd_restored :: "path list"
  rd_removed :: "path list"
  rd_events :: "'e list"

definition new_history :: "nat \<Rightarrow> 'e history" where
  "new_history max_turns = \<lparr>h_stack = [], h_undone = [], h_max = max_turns\<rparr>"

definition begin_turn :: "nat \<Rightarrow> string \<Rightarrow> 'e history \<Rightarrow> 'e history" where
  "begin_turn event_index prompt h =
     (let stack = h_stack h @ [\<lparr>t_event = event_index, t_prompt = prompt, t_files = []\<rparr>]
      in h\<lparr>h_stack := (if length stack > h_max h then tl stack else stack), h_undone := []\<rparr>)"

definition capture :: "path \<Rightarrow> fs \<Rightarrow> 'e history \<Rightarrow> 'e history" where
  "capture p s h =
     (if h_stack h = [] then h
      else (let t = last (h_stack h)
            in if p \<in> set (map fst (t_files t)) then h
               else h\<lparr>h_stack := butlast (h_stack h)
                      @ [t\<lparr>t_files := AList.update p (fs_contents s p) (t_files t)\<rparr>]\<rparr>))"

definition turns_of :: "'e history \<Rightarrow> (string \<times> nat) list" where
  "turns_of h = map (\<lambda>t. (t_prompt t, length (t_files t))) (h_stack h)"

text \<open>What the turns left behind: the first sighting of a path counts.\<close>

definition keep_after :: "fs \<Rightarrow> path list \<Rightarrow> (path \<times> string option) list" where
  "keep_after s ps = map (\<lambda>p. (p, fs_contents s p)) (dedupe ps)"

text \<open>\<open>restored\<close> and \<open>removed\<close> of a rewind: a path is in the set its last entry put it in.\<close>

definition set_add :: "'a \<Rightarrow> 'a list \<Rightarrow> 'a list" where
  "set_add x xs = (if x \<in> set xs then xs else xs @ [x])"

fun tally :: "(path \<times> string option) list \<Rightarrow> path list \<times> path list \<Rightarrow> path list \<times> path list" where
  "tally [] acc = acc"
| "tally ((p, None) # es) (restored, removed) =
     tally es (filter (\<lambda>x. x \<noteq> p) restored, set_add p removed)"
| "tally ((p, Some c) # es) (restored, removed) =
     tally es (set_add p restored, filter (\<lambda>x. x \<noteq> p) removed)"

text \<open>
  \<open>rewind\<close> and \<open>redo\<close> return \<open>Inl ()\<close> when writing a file threw: the turns have then left the
  stack already, and the files before the one that threw are written.
\<close>

definition rewind_files :: "int \<Rightarrow> 'e history \<Rightarrow> fs \<Rightarrow>
    (unit + rewind_result option) \<times> 'e history \<times> fs" where
  "rewind_files steps h s =
     (if h_stack h = [] then (Inr None, h, s)
      else (let count = nat (min (max 1 steps) (int (length (h_stack h))));
                kept = take (length (h_stack h) - count) (h_stack h);
                gone = rev (drop (length (h_stack h) - count) (h_stack h));
                after = keep_after s (concat (map (\<lambda>t. map fst (t_files t)) gone));
                h' = h\<lparr>h_stack := kept,
                       h_undone := h_undone h @ [\<lparr>u_turns = rev gone, u_after = after, u_events = []\<rparr>]\<rparr>;
                entries = concat (map t_files gone)
            in case restore_with fs_write rm_force entries s of
                 (False, s') \<Rightarrow> (Inl (), h', s')
               | (True, s') \<Rightarrow>
                   (let (restored, removed) = tally entries ([], [])
                    in (Inr (Some \<lparr>rw_event = t_event (last gone), rw_prompt = t_prompt (last gone),
                          rw_restored = restored, rw_removed = removed, rw_turns = count\<rparr>), h', s'))))"

definition remember_rewound :: "'e list \<Rightarrow> 'e history \<Rightarrow> 'e history" where
  "remember_rewound es h =
     (if h_undone h = [] then h
      else h\<lparr>h_undone := butlast (h_undone h) @ [(last (h_undone h))\<lparr>u_events := es\<rparr>]\<rparr>)"

definition redoable :: "'e history \<Rightarrow> nat" where
  "redoable h = length (h_undone h)"

definition redo_files :: "'e history \<Rightarrow> fs \<Rightarrow> (unit + 'e redo_result option) \<times> 'e history \<times> fs" where
  "redo_files h s =
     (if h_undone h = [] then (Inr None, h, s)
      else (let entry = last (h_undone h);
                h1 = h\<lparr>h_undone := butlast (h_undone h)\<rparr>
            in case restore_with fs_write rm_force (u_after entry) s of
                 (False, s') \<Rightarrow> (Inl (), h1, s')
               | (True, s') \<Rightarrow>
                   (Inr (Some \<lparr>rd_turns = length (u_turns entry),
                      rd_prompt = (case u_turns entry of [] \<Rightarrow> [] | t # _ \<Rightarrow> t_prompt t),
                      rd_restored = map fst (filter (\<lambda>(p, c). c \<noteq> None) (u_after entry)),
                      rd_removed = map fst (filter (\<lambda>(p, c). c = None) (u_after entry)),
                      rd_events = u_events entry\<rparr>),
                    h1\<lparr>h_stack := h_stack h1 @ u_turns entry\<rparr>, s')))"

section \<open>Runs of an agent that captures before it changes\<close>

text \<open>
  The runs the history is built for: a turn begins, a path is captured, and only captured paths
  are changed until the next turn begins. The last argument is the contents of the file system
  at the start of each turn on the stack.
\<close>

definition captured :: "'e history \<Rightarrow> path \<Rightarrow> bool" where
  "captured h p = (h_stack h \<noteq> [] \<and> p \<in> set (map fst (t_files (last (h_stack h)))))"

inductive hist_run :: "'e history \<Rightarrow> fs \<Rightarrow> (path \<Rightarrow> string option) list \<Rightarrow> bool" where
  start: "hist_run (new_history mx) s []"
| turn: "hist_run h s bases \<Longrightarrow>
    hist_run (begin_turn i prompt h) s
      (let bs = bases @ [fs_contents s] in if length bs > h_max h then tl bs else bs)"
| capture: "hist_run h s bases \<Longrightarrow> hist_run (capture p s h) s bases"
| change: "hist_run h s bases \<Longrightarrow> captured h p \<Longrightarrow> fs_write p c s = Some s' \<Longrightarrow> hist_run h s' bases"
| erase: "hist_run h s bases \<Longrightarrow> captured h p \<Longrightarrow> rm_force p s = Some s' \<Longrightarrow> hist_run h s' bases"

text \<open>The contents at the start of a turn are those at its end, overlaid with what it captured.\<close>

fun turns_ok :: "turn list \<Rightarrow> (path \<Rightarrow> string option) list \<Rightarrow> (path \<Rightarrow> string option) \<Rightarrow> bool" where
  "turns_ok [] [] now = True"
| "turns_ok (t # ts) (b # bs) now =
     (distinct (map fst (t_files t)) \<and> b = overlay (t_files t) (hd (bs @ [now])) \<and> turns_ok ts bs now)"
| "turns_ok _ _ now = False"

lemma turns_ok_snoc:
  "turns_ok (ts @ [t]) (bs @ [b]) now =
     (turns_ok ts bs b \<and> distinct (map fst (t_files t)) \<and> b = overlay (t_files t) now)"
  apply (induction ts bs now rule: turns_ok.induct)
  subgoal by auto
  subgoal for t' ts b' bs now by (cases bs) auto
  subgoal for v va now by (cases va) auto
  subgoal for v va now by (cases va) auto
  done

lemma turns_ok_length: "turns_ok ts bs now \<Longrightarrow> length ts = length bs"
  by (induction ts bs now rule: turns_ok.induct) auto

lemma turns_ok_tl: "turns_ok ts bs now \<Longrightarrow> turns_ok (tl ts) (tl bs) now"
  by (cases ts; cases bs) auto

lemma overlay_fresh: "p \<notin> set (map fst es) \<Longrightarrow> overlay es m p = m p"
proof (induction es arbitrary: m)
  case (Cons e es)
  obtain q v where e: "e = (q, v)" by (cases e)
  have "overlay es (m(q := v)) p = (m(q := v)) p" using Cons by simp
  then show ?case using Cons.prems by (simp add: e overlay_Cons)
qed simp

lemma overlay_distinct_snoc:
  "p \<notin> set (map fst es) \<Longrightarrow> overlay (es @ [(p, m p)]) m = overlay es m"
  using overlay_fresh [of p es m] unfolding overlay_append overlay_Cons overlay_Nil
  by (metis fun_upd_triv)

lemma update_fresh: "p \<notin> set (map fst es) \<Longrightarrow> AList.update p v es = es @ [(p, v)]"
  by (induction es) auto

lemma overlay_captured:
  "p \<in> set (map fst es) \<Longrightarrow> overlay es (m(p := v)) = overlay es m"
proof (induction es arbitrary: m)
  case (Cons e es)
  obtain q v' where e: "e = (q, v')" by (cases e)
  show ?case
  proof (cases "q = p")
    case True
    show ?thesis unfolding e overlay_Cons True fun_upd_upd ..
  next
    case False
    then have "p \<in> set (map fst es)" using Cons.prems e by simp
    from Cons.IH [OF this, of "m(q := v')"] show ?thesis
      unfolding e overlay_Cons fun_upd_twist [OF False] .
  qed
qed simp

lemma captured_last:
  assumes "captured h p"
  obtains ts t where "h_stack h = ts @ [t]" "p \<in> set (map fst (t_files t))"
  using assms by (cases "h_stack h" rule: rev_cases) (auto simp: captured_def)

lemma hist_run_ok:
  "hist_run h s bases \<Longrightarrow> turns_ok (h_stack h) bases (fs_contents s)"
proof (induction rule: hist_run.induct)
  case (turn h s bases i prompt)
  let ?t = "\<lparr>t_event = i, t_prompt = prompt, t_files = []\<rparr>"
  have ok: "turns_ok (h_stack h @ [?t]) (bases @ [fs_contents s]) (fs_contents s)"
    by (simp add: turns_ok_snoc turn.IH)
  show ?case
    using ok turns_ok_tl [OF ok] turns_ok_length [OF turn.IH] by (simp add: begin_turn_def Let_def)
next
  case (capture h s bases p)
  show ?case
  proof (cases "h_stack h = [] \<or> p \<in> set (map fst (t_files (last (h_stack h))))")
    case True
    with capture.IH show ?thesis by (auto simp: capture_def Let_def)
  next
    case False
    then obtain ts t where st: "h_stack h = ts @ [t]" by (metis rev_exhaust)
    with capture.IH obtain bs b where bs: "bases = bs @ [b]"
      by (cases bases rule: rev_cases) (auto dest: turns_ok_length)
    have fresh: "p \<notin> set (map fst (t_files t))" using False st by simp
    have "overlay (t_files t @ [(p, fs_contents s p)]) (fs_contents s) = overlay (t_files t) (fs_contents s)"
      by (rule overlay_distinct_snoc [OF fresh])
    then have "turns_ok (ts @ [t\<lparr>t_files := t_files t @ [(p, fs_contents s p)]\<rparr>]) bases (fs_contents s)"
      using capture.IH fresh unfolding st bs turns_ok_snoc by auto
    with fresh False show ?thesis by (simp add: st capture_def Let_def update_fresh)
  qed
next
  case (change h s bases p c s')
  have c: "fs_contents s' = (fs_contents s)(p := Some c)" by (rule disk.wr_rd [OF change.hyps(3)])
  from change.hyps(2) obtain ts t where st: "h_stack h = ts @ [t]" and p: "p \<in> set (map fst (t_files t))"
    by (rule captured_last)
  with change.IH obtain bs b where bs: "bases = bs @ [b]"
    by (cases bases rule: rev_cases) (auto dest: turns_ok_length)
  show ?case using change.IH unfolding st bs c turns_ok_snoc overlay_captured [OF p] .
next
  case (erase h s bases p s')
  have c: "fs_contents s' = (fs_contents s)(p := None)" by (rule disk.rm_rd [OF erase.hyps(3)])
  from erase.hyps(2) obtain ts t where st: "h_stack h = ts @ [t]" and p: "p \<in> set (map fst (t_files t))"
    by (rule captured_last)
  with erase.IH obtain bs b where bs: "bases = bs @ [b]"
    by (cases bases rule: rev_cases) (auto dest: turns_ok_length)
  show ?case using erase.IH unfolding st bs c turns_ok_snoc overlay_captured [OF p] .
qed (simp add: new_history_def)

section \<open>Correctness\<close>

definition stack_paths :: "'e history \<Rightarrow> path set" where
  "stack_paths h = (\<Union>t\<in>set (h_stack h). fst ` set (t_files t))"

text \<open>The condition under which writing the files back cannot fail.\<close>

definition restorable :: "'e history \<Rightarrow> fs \<Rightarrow> bool" where
  "restorable h s \<longleftrightarrow> (\<forall>p\<in>stack_paths h. fs_plain s p) \<and> (\<forall>p\<in>stack_paths h. \<forall>q\<in>stack_paths h. apart p q)"

text \<open>Undoing the turns from the newest backwards ends at the contents before the oldest.\<close>

lemma turns_ok_overlay:
  "turns_ok (ts @ us) (bs @ cs) now \<Longrightarrow> length ts = length bs \<Longrightarrow> us \<noteq> [] \<Longrightarrow>
   hd cs = overlay (concat (map t_files (rev us))) now"
proof (induction us arbitrary: ts bs cs)
  case (Cons u us)
  have "length (ts @ u # us) = length (bs @ cs)" by (rule turns_ok_length [OF Cons.prems(1)])
  with Cons.prems(2) obtain c cs' where cs: "cs = c # cs'" by (cases cs) auto
  have "turns_ok (u # us) (c # cs') now"
    using Cons.prems(1,2) unfolding cs
  proof (induction ts arbitrary: bs)
    case (Cons t ts)
    then show ?case by (cases bs) auto
  qed simp
  then have c: "c = overlay (t_files u) (hd (cs' @ [now]))" and ok: "turns_ok us cs' now" by auto
  show ?case
  proof (cases "us = []")
    case True
    with ok have "cs' = []" by (auto dest: turns_ok_length)
    with c True show ?thesis by (simp add: cs)
  next
    case False
    then have "cs' \<noteq> []" using ok by (cases us; cases cs') auto
    then have "hd (cs' @ [now]) = overlay (concat (map t_files (rev us))) now"
      using Cons.IH [of "[]" "[]" cs'] ok False by simp
    then show ?thesis by (simp add: cs c overlay_append)
  qed
qed simp

lemma restore_restorable:
  assumes "restorable h s" and "fst ` set es \<subseteq> stack_paths h"
  obtains s' where "restore_with fs_write rm_force es s = (True, s')"
    "fs_contents s' = overlay es (fs_contents s)" "\<forall>q\<in>stack_paths h. fs_plain s' q"
proof -
  have "fs_plain s p" if "p \<in> stack_paths h" for p
    using assms(1) that by (simp add: restorable_def)
  moreover have "apart p q" if "p \<in> stack_paths h" "q \<in> stack_paths h" for p q
    using assms(1) that by (simp add: restorable_def)
  ultimately have "\<exists>s'. restore_with fs_write rm_force es s = (True, s')
      \<and> fs_contents s' = overlay es (fs_contents s)
      \<and> (\<forall>q. fs_plain s q \<and> (\<forall>p\<in>fst ` set es. apart p q) \<longrightarrow> fs_plain s' q)"
    using assms(2) by (intro disk.restore_ok) (simp_all add: subset_iff)
  then obtain s' where s': "restore_with fs_write rm_force es s = (True, s')"
    "fs_contents s' = overlay es (fs_contents s)"
    "\<And>q. fs_plain s q \<Longrightarrow> (\<forall>p\<in>fst ` set es. apart p q) \<Longrightarrow> fs_plain s' q" by metis
  have "\<forall>q\<in>stack_paths h. fs_plain s' q"
    using assms by (intro ballI s'(3)) (auto simp: restorable_def subset_iff)
  then show thesis by (rule that [OF s'(1,2)])
qed

lemma rewind_files_ok:
  assumes "h_stack h = ts @ us" and "us \<noteq> []" and "k = int (length us)" and "restorable h s"
  shows "\<exists>r h' s'. rewind_files k h s = (Inr (Some r), h', s') \<and> rw_turns r = length us
    \<and> rw_event r = t_event (hd us) \<and> rw_prompt r = t_prompt (hd us) \<and> h_stack h' = ts \<and> h_max h' = h_max h
    \<and> h_undone h' = h_undone h @ [\<lparr>u_turns = us,
        u_after = keep_after s (concat (map (\<lambda>t. map fst (t_files t)) (rev us))), u_events = []\<rparr>]
    \<and> fs_contents s' = overlay (concat (map t_files (rev us))) (fs_contents s)
    \<and> (\<forall>p\<in>stack_paths h. fs_plain s' p)"
proof -
  let ?es = "concat (map t_files (rev us))"
  have sub: "fst ` set ?es \<subseteq> stack_paths h" by (auto simp: stack_paths_def assms(1))
  obtain s' where s': "restore_with fs_write rm_force ?es s = (True, s')"
    "fs_contents s' = overlay ?es (fs_contents s)" "\<forall>q\<in>stack_paths h. fs_plain s' q"
    by (rule restore_restorable [OF assms(4) sub])
  obtain restored removed where tl: "tally ?es ([], []) = (restored, removed)"
    by (cases "tally ?es ([], [])")
  have n: "nat (min (max 1 k) (int (length (h_stack h)))) = length us"
    using assms(1-3) by (cases us) auto
  have ne: "h_stack h \<noteq> []" and lr: "last (rev us) = hd us"
    and parts: "take (length (h_stack h) - length us) (h_stack h) = ts"
      "drop (length (h_stack h) - length us) (h_stack h) = us"
    using assms(1,2) by (simp_all add: last_rev)
  show ?thesis
    unfolding rewind_files_def if_not_P [OF ne] Let_def n parts s'(1) prod.case bool.case tl lr rev_rev_ident
    using s'(2,3) by simp
qed



lemma keep_after_fst: "fst ` set (keep_after s ps) = set ps"
  by (auto simp: keep_after_def image_image)

lemma overlay_keep: "overlay (keep_after s ps) m p = (if p \<in> set ps then fs_contents s p else m p)"
proof -
  have "overlay (map (\<lambda>p. (p, f p)) qs) m p = (if p \<in> set qs then f p else m p)" for qs and f :: "path \<Rightarrow> string option"
    by (induction qs arbitrary: m) (simp_all add: overlay_Cons)
  then show ?thesis by (simp add: keep_after_def)
qed

text \<open>
  \<open>/redo\<close> takes a rewind back: files, turns and the older rewinds are as before it, and the
  transcript that was cut off is handed over to be put back.
\<close>

theorem redo_undoes_rewind:
  assumes "1 \<le> k" and "k \<le> length (h_stack h)" and "restorable h s"
  shows "\<exists>r h1 s1 d h2 s2. rewind_files (int k) h s = (Inr (Some r), h1, s1)
    \<and> redo_files (remember_rewound es h1) s1 = (Inr (Some d), h2, s2)
    \<and> fs_contents s2 = fs_contents s \<and> h2 = h \<and> rd_events d = es \<and> rd_turns d = rw_turns r
    \<and> rd_prompt d = rw_prompt r"
proof -
  let ?n = "length (h_stack h) - k"
  let ?ts = "take ?n (h_stack h)" and ?us = "drop ?n (h_stack h)"
  let ?ps = "concat (map (\<lambda>t. map fst (t_files t)) (rev ?us))"
  have us: "h_stack h = ?ts @ ?us" "?us \<noteq> []" "int k = int (length ?us)"
    using assms(1,2) by auto
  from rewind_files_ok [OF us assms(3)] obtain r h1 s1 where
    rw: "rewind_files (int k) h s = (Inr (Some r), h1, s1)" "rw_turns r = length ?us"
      "rw_prompt r = t_prompt (hd ?us)" and
    h1: "h_stack h1 = ?ts" "h_max h1 = h_max h" "h_undone h1 = h_undone h @ [\<lparr>u_turns = ?us,
        u_after = keep_after s ?ps, u_events = []\<rparr>]" and
    s1: "fs_contents s1 = overlay (concat (map t_files (rev ?us))) (fs_contents s)"
      "\<forall>p\<in>stack_paths h. fs_plain s1 p" by metis
  have us_paths: "(\<Union>t\<in>set ?us. fst ` set (t_files t)) \<subseteq> stack_paths h"
    using set_drop_subset [of ?n "h_stack h"] by (auto simp: stack_paths_def)
  have ps: "set ?ps = (\<Union>t\<in>set ?us. fst ` set (t_files t))" by auto
  have sub: "fst ` set (keep_after s ?ps) \<subseteq> stack_paths h"
    using us_paths unfolding keep_after_fst ps .
  have "restorable h s1" using s1(2) assms(3) by (simp add: restorable_def)
  then obtain s2 where
    s2: "restore_with fs_write rm_force (keep_after s ?ps) s1 = (True, s2)"
      "fs_contents s2 = overlay (keep_after s ?ps) (fs_contents s1)"
    by (rule restore_restorable [OF _ sub])
  have "fs_contents s2 p = fs_contents s p" for p
  proof (cases "p \<in> set ?ps")
    case False
    then have "p \<notin> set (map fst (concat (map t_files (rev ?us))))" unfolding ps by auto
    then show ?thesis using False unfolding s2(2) overlay_keep s1(1) by (simp add: overlay_fresh)
  qed (simp add: s2(2) overlay_keep)
  then have "fs_contents s2 = fs_contents s" by (rule ext)
  moreover have "h1\<lparr>h_undone := h_undone h, h_stack := ?ts @ ?us\<rparr> = h"
    using us(1) h1(2) by (intro history.equality) simp_all
  moreover have "(case ?us of [] \<Rightarrow> [] | t # _ \<Rightarrow> t_prompt t) = t_prompt (hd ?us)"
    using us(2) by (cases ?us) auto
  ultimately show ?thesis
    using rw s2(1) h1 by (simp add: remember_rewound_def redo_files_def)
qed

theorem redo_undoes_rewind_witness:
  "\<exists>h s r h1 s1 d h2 s2. rewind_files (int 1) (h :: nat history) s = (Inr (Some r), h1, s1)
    \<and> redo_files (remember_rewound [7] h1) s1 = (Inr (Some d), h2, s2)
    \<and> fs_contents s2 = fs_contents s \<and> fs_contents s [''a''] = Some ''x'' \<and> fs_contents s1 [''a''] = None"
proof -
  define h :: "nat history" where
    "h = \<lparr>h_stack = [\<lparr>t_event = 3, t_prompt = ''go'', t_files = [([''a''], None)]\<rparr>], h_undone = [], h_max = 100\<rparr>"
  define s :: fs where "s = Map.empty([''a''] \<mapsto> FileN ''x'')"
  have ok: "restorable h s"
    by (simp add: restorable_def stack_paths_def h_def fs_plain_def apart_def s_def is_file_def)
  from redo_undoes_rewind [OF _ _ ok, of 1 "[7]"] obtain r h1 s1 d h2 s2 where
    r: "rewind_files (int 1) h s = (Inr (Some r), h1, s1)"
      "redo_files (remember_rewound [7] h1) s1 = (Inr (Some d), h2, s2)" "fs_contents s2 = fs_contents s"
    by (auto simp: h_def)
  have "rm_force [''a''] s = Some Map.empty"
    by (auto simp: rm_force_def s_def is_file_def)
  then have "s1 = Map.empty" using r(1)
    by (simp add: rewind_files_def h_def)
  then have "fs_contents s1 [''a''] = None" by (simp add: fs_contents_def)
  moreover have "fs_contents s [''a''] = Some ''x''" by (simp add: fs_contents_def s_def)
  ultimately show ?thesis using r by blast
qed

end
