(* ===== verification/Freshness.thy ===== *)
theory Freshness
  imports Jean_Prelude
begin

text \<open>
  Files that change underneath the agent: \<open>packages/core/src/freshness.ts\<close>. The state of the disk
  is a parameter, \<open>stamp_of\<close>: the modification time and size of a regular file, \<open>None\<close> for
  anything else. The map of what the agent knows keeps the order of the last observation.
\<close>

type_synonym stamp = "nat \<times> nat"

type_synonym disk_stamps = "string \<Rightarrow> stamp option"

record freshness =
  seen :: "(string \<times> stamp) list"
  seen_limit :: nat

definition new_freshness :: "nat \<Rightarrow> freshness" where
  "new_freshness n = \<lparr>seen = [], seen_limit = n\<rparr>"

definition observe :: "disk_stamps \<Rightarrow> string \<Rightarrow> freshness \<Rightarrow> freshness" where
  "observe stamp_of p f =
     (let seen1 = AList.delete p (seen f);
          seen2 = (case stamp_of p of None \<Rightarrow> seen1 | Some st \<Rightarrow> AList.update p st seen1);
          seen3 = (if length seen2 > seen_limit f
                   then (case seen2 of [] \<Rightarrow> [] | (oldest, _) # _ \<Rightarrow> AList.delete oldest seen2)
                   else seen2)
      in f\<lparr>seen := seen3\<rparr>)"

text \<open>
  The loop over the map: an entry is dropped, given its new stamp in place, or left. The result
  pairs a path with whether the file is gone.
\<close>

fun changed_from :: "disk_stamps \<Rightarrow> (string \<times> stamp) list \<Rightarrow>
    (string \<times> bool) list \<times> (string \<times> stamp) list" where
  "changed_from stamp_of [] = ([], [])"
| "changed_from stamp_of ((p, known) # rest) =
     (let (out, kept) = changed_from stamp_of rest
      in case stamp_of p of
           None \<Rightarrow> ((p, True) # out, kept)
         | Some now \<Rightarrow>
             if fst now \<noteq> fst known \<or> snd now \<noteq> snd known then ((p, False) # out, (p, now) # kept)
             else (out, (p, known) # kept))"

definition changed :: "disk_stamps \<Rightarrow> freshness \<Rightarrow> (string \<times> bool) list \<times> freshness" where
  "changed stamp_of f =
     (let (out, kept) = changed_from stamp_of (seen f) in (out, f\<lparr>seen := kept\<rparr>))"

section \<open>Laws\<close>

definition fresh_ok :: "freshness \<Rightarrow> bool" where
  "fresh_ok f = (distinct (map fst (seen f)) \<and> length (seen f) \<le> seen_limit f)"

lemma changed_from_eq:
  "fst (changed_from d xs) = map (\<lambda>(p, st). (p, d p = None)) (filter (\<lambda>(p, st). d p \<noteq> Some st) xs)
   \<and> snd (changed_from d xs) = map (\<lambda>(p, st). (p, the (d p))) (filter (\<lambda>(p, st). d p \<noteq> None) xs)"
proof (induction xs)
  case (Cons x xs)
  obtain p st where x: "x = (p, st)" by (cases x)
  show ?case
    using Cons.IH by (cases "d p") (auto simp: x Let_def split_def prod_eq_iff)
qed simp

lemma changed_eq:
  "changed d f = (map (\<lambda>(p, st). (p, d p = None)) (filter (\<lambda>(p, st). d p \<noteq> Some st) (seen f)),
     f\<lparr>seen := map (\<lambda>(p, st). (p, the (d p))) (filter (\<lambda>(p, st). d p \<noteq> None) (seen f))\<rparr>)"
  using changed_from_eq [of d "seen f"] by (simp add: changed_def split_def)

lemma observe_ok:
  assumes "fresh_ok f" and "0 < seen_limit f"
  shows "fresh_ok (observe d p f)"
proof -
  define seen1 where "seen1 = AList.delete p (seen f)"
  define seen2 where "seen2 = (case d p of None \<Rightarrow> seen1 | Some st \<Rightarrow> AList.update p st seen1)"
  have ok: "distinct (map fst (seen f))" "length (seen f) \<le> seen_limit f"
    using assms(1) by (auto simp: fresh_ok_def)
  have d1: "distinct (map fst seen1)" unfolding seen1_def by (rule jm.ok_del [OF ok(1)])
  have d2: "distinct (map fst seen2)"
    using d1 jm.ok_put [OF d1] by (auto simp: seen2_def split: option.splits)
  have "length (map fst seen1) \<le> seen_limit f"
    unfolding seen1_def using jm.length_del_le [of p "seen f"] ok(2) by simp
  then have l2: "length seen2 \<le> Suc (seen_limit f)"
    using jm.length_put_le [of p _ seen1] by (auto simp: seen2_def split: option.splits intro: order_trans)
  have drop: "distinct (map fst (AList.delete q seen2))
      \<and> length (AList.delete q seen2) \<le> seen_limit f" if "seen2 = (q, st) # rest" for q st rest
  proof -
    have "length (AList.delete q rest) \<le> length rest"
      using jm.length_del_le [of q rest] by simp
    then show ?thesis using jm.ok_del [OF d2, of q] l2 that by simp
  qed
  show ?thesis
    using d2 drop
    by (auto simp: fresh_ok_def observe_def Let_def seen1_def [symmetric] seen2_def [symmetric]
      split: list.splits)
qed

lemma observe_get:
  assumes "fresh_ok f" and "0 < seen_limit f"
  shows "map_of (seen (observe d p f)) p = d p"
proof -
  define seen1 where "seen1 = AList.delete p (seen f)"
  have d1: "map_of seen1 p = None" by (simp add: seen1_def jm.get_del)
  show ?thesis
  proof (cases "d p")
    case None
    have "length seen1 \<le> seen_limit f"
      using jm.length_del_le [of p "seen f"] assms(1) by (simp add: seen1_def fresh_ok_def)
    then show ?thesis using None d1 by (simp add: observe_def Let_def seen1_def [symmetric])
  next
    case (Some st)
    have fresh: "p \<notin> set (map fst seen1)" using d1 by (simp add: map_of_eq_None_iff)
    then have up: "AList.update p st seen1 = seen1 @ [(p, st)]" by (induction seen1) auto
    show ?thesis
    proof (cases seen1)
      case Nil
      then show ?thesis using Some assms(2) up
        by (simp add: observe_def Let_def seen1_def [symmetric])
    next
      case (Cons e rest)
      obtain q st' where e: "e = (q, st')" by (cases e)
      have "p \<noteq> q" using fresh Cons e by auto
      then show ?thesis using Some up d1
        by (simp add: observe_def Let_def seen1_def [symmetric] Cons e jm.get_del)
          (simp add: map_add_def)
    qed
  qed
qed

section \<open>Correctness\<close>

text \<open>
  A changed file is reported exactly when the agent has seen it and its stamp on disk is another
  one, as deleted when it has none; a second look reports nothing, a file just observed is
  never reported, and the number of files kept never exceeds the limit.
\<close>

theorem changes_reported_once:
  assumes "fresh_ok f" and "0 < seen_limit f" and "changed d f = (out, f')"
  shows "set out = {(p, d p = None) | p st. (p, st) \<in> set (seen f) \<and> d p \<noteq> Some st}
    \<and> distinct (map fst out)
    \<and> fst (changed d f') = [] \<and> fresh_ok f'
    \<and> (\<forall>gone. (p, gone) \<notin> set (fst (changed d (observe d p f)))) \<and> fresh_ok (observe d p f)"
proof -
  have out: "out = map (\<lambda>(p, st). (p, d p = None)) (filter (\<lambda>(p, st). d p \<noteq> Some st) (seen f))"
    and f': "f' = f\<lparr>seen := map (\<lambda>(p, st). (p, the (d p))) (filter (\<lambda>(p, st). d p \<noteq> None) (seen f))\<rparr>"
    using assms(3) by (simp_all add: changed_eq)
  have keys: "map fst (map (\<lambda>(p, st). (p, g p)) (filter P (seen f))) = map fst (filter P (seen f))" for g P
    by (induction "seen f") (auto simp: split_def)
  have dist: "distinct (map fst (filter P (seen f)))" for P
    using assms(1) by (simp add: fresh_ok_def distinct_map_filter)
  have len: "length (filter P (seen f)) \<le> seen_limit f" for P
    using assms(1) order_trans [OF length_filter_le] by (auto simp: fresh_ok_def)
  have "fst (changed d f') = []"
    by (auto simp: changed_eq f' filter_empty_conv)
  moreover have "fresh_ok f'"
    using dist len by (simp add: fresh_ok_def f' keys del: map_map)
  moreover have "(p, gone) \<notin> set (fst (changed d (observe d p f)))" for gone
  proof
    assume "(p, gone) \<in> set (fst (changed d (observe d p f)))"
    then obtain st where st: "(p, st) \<in> set (seen (observe d p f))" "d p \<noteq> Some st"
      by (auto simp: changed_eq)
    have "distinct (map fst (seen (observe d p f)))"
      using observe_ok [OF assms(1,2)] by (simp add: fresh_ok_def)
    with st(1) have "map_of (seen (observe d p f)) p = Some st" by simp
    with st(2) show False using observe_get [OF assms(1,2)] by simp
  qed
  ultimately show ?thesis
    using dist observe_ok [OF assms(1,2)] by (auto simp: out keys simp del: map_map)
qed

theorem changes_reported_once_witness:
  "changed (\<lambda>p. if p = ''b'' then Some (5, 3) else None)
     \<lparr>seen = [(''a'', (1, 1)), (''b'', (2, 3))], seen_limit = 2\<rparr>
     = ([(''a'', True), (''b'', False)], \<lparr>seen = [(''b'', (5, 3))], seen_limit = 2\<rparr>)
   \<and> fst (changed (\<lambda>p. if p = ''b'' then Some (5, 3) else None) \<lparr>seen = [(''b'', (5, 3))], seen_limit = 2\<rparr>) = []"
proof -
  have c: "changed (\<lambda>p. if p = ''b'' then Some (5, 3) else None)
     \<lparr>seen = [(''a'', (1, 1)), (''b'', (2, 3))], seen_limit = 2\<rparr>
     = ([(''a'', True), (''b'', False)], \<lparr>seen = [(''b'', (5, 3))], seen_limit = 2\<rparr>)"
    by (simp add: changed_def)
  show ?thesis
    using changes_reported_once [OF _ _ c] c by (simp add: fresh_ok_def)
qed

end
