(* ===== verification/Cron.thy ===== *)
theory Cron
  imports Jean_Prelude
begin

text \<open>
  Cron expressions and the next time one fires: \<open>packages/scheduler/src/index.ts\<close>.

  A \<open>Date\<close> is its local time in milliseconds since 1970-01-01, in a zone without transitions. The
  calendar getters are those of the language's standard: the year of a day is the greatest one that
  begins no later. \<open>Number\<close> reads its text exactly, without the rounding of doubles.
\<close>

section \<open>Numbers\<close>

definition dec_value :: "string \<Rightarrow> nat" where
  "dec_value ds = str_nat ds"

text \<open>The exponent part: \<open>None\<close> when the rest is not one.\<close>

definition exponent_of :: "string \<Rightarrow> int option" where
  "exponent_of s =
     (case s of [] \<Rightarrow> Some 0
      | c # rest \<Rightarrow>
          if c = CHR ''e'' \<or> c = CHR ''E''
          then (let signed = rest \<noteq> [] \<and> hd rest \<in> {CHR ''+'', CHR ''-''};
                    ds = (if signed then tl rest else rest)
                in if ds \<noteq> [] \<and> list_all is_digit ds
                   then Some (if signed \<and> hd rest = CHR ''-'' then - int (str_nat ds) else int (str_nat ds))
                   else None)
          else None)"

definition scaled :: "nat \<Rightarrow> int \<Rightarrow> rat" where
  "scaled n e = (if 0 \<le> e then of_nat n * 10 ^ nat e else of_nat n / 10 ^ nat (- e))"

definition decimal_of :: "string \<Rightarrow> rat option" where
  "decimal_of s =
     (let whole = takeWhile is_digit s; rest = dropWhile is_digit s;
          dotted = rest \<noteq> [] \<and> hd rest = CHR ''.'';
          frac = (if dotted then takeWhile is_digit (tl rest) else []);
          rest' = (if dotted then dropWhile is_digit (tl rest) else rest)
      in if whole @ frac = [] then None
         else map_option (\<lambda>e. scaled (str_nat (whole @ frac)) (e - int (length frac))) (exponent_of rest'))"

definition radix_digit :: "nat \<Rightarrow> char \<Rightarrow> nat option" where
  "radix_digit base c =
     (let n = (if is_digit c then of_char c - 48
               else if CHR ''a'' \<le> c \<and> c \<le> CHR ''f'' then of_char c - 87
               else if CHR ''A'' \<le> c \<and> c \<le> CHR ''F'' then of_char c - 55 else 99)
      in if n < base then Some n else None)"

definition radix_value :: "nat \<Rightarrow> string \<Rightarrow> rat option" where
  "radix_value base ds =
     (if ds = [] \<or> list_ex (\<lambda>c. radix_digit base c = None) ds then None
      else Some (of_nat (foldl (\<lambda>a c. base * a + the (radix_digit base c)) 0 ds)))"

text \<open>\<open>Number(s)\<close>; \<open>None\<close> for \<open>NaN\<close> and the infinities, which a short text without exponent never is.\<close>

definition js_number :: "string \<Rightarrow> rat option" where
  "js_number s =
     (let t = trim s
      in if t = [] then Some 0
         else if length t \<ge> 2 \<and> hd t = CHR ''0'' \<and> t ! 1 \<in> {CHR ''x'', CHR ''X''} then radix_value 16 (drop 2 t)
         else if length t \<ge> 2 \<and> hd t = CHR ''0'' \<and> t ! 1 \<in> {CHR ''o'', CHR ''O''} then radix_value 8 (drop 2 t)
         else if length t \<ge> 2 \<and> hd t = CHR ''0'' \<and> t ! 1 \<in> {CHR ''b'', CHR ''B''} then radix_value 2 (drop 2 t)
         else (let v = (if hd t = CHR ''-'' then map_option uminus (decimal_of (tl t))
                        else if hd t = CHR ''+'' then decimal_of (tl t) else decimal_of t)
               in case v of None \<Rightarrow> None
                  | Some r \<Rightarrow>
                      if length t \<le> 300 \<and> CHR ''e'' \<notin> set t \<and> CHR ''E'' \<notin> set t then Some r
                      else if \<bar>r\<bar> < 2 ^ 1024 - 2 ^ 970 then Some r else None))"

text \<open>\<open>Number(s)\<close> when \<open>Number.isInteger\<close> holds of it.\<close>

definition js_integer :: "string \<Rightarrow> int option" where
  "js_integer s =
     (case js_number s of None \<Rightarrow> None
      | Some r \<Rightarrow> if of_int \<lfloor>r\<rfloor> = r then Some \<lfloor>r\<rfloor> else None)"

text \<open>A text of digits is the number it spells; with it the simplifier evaluates the parser.\<close>

lemma is_digit_facts: "is_digit c \<Longrightarrow> \<not> is_ws c \<and> c \<noteq> CHR ''.'' \<and> c \<noteq> CHR ''-'' \<and> c \<noteq> CHR ''+'' \<and> c \<noteq> CHR ''e'' \<and> c \<noteq> CHR ''E''
   \<and> c \<noteq> CHR ''x'' \<and> c \<noteq> CHR ''X'' \<and> c \<noteq> CHR ''o'' \<and> c \<noteq> CHR ''O'' \<and> c \<noteq> CHR ''b'' \<and> c \<noteq> CHR ''B''"
  by (auto simp: is_digit_def is_ws_def less_eq_char_def)

lemma js_integer_digits:
  assumes "ds \<noteq> []" "list_all is_digit ds" "length ds \<le> 300"
  shows "js_integer ds = Some (int (str_nat ds))"
proof -
  have d: "\<And>c. c \<in> set ds \<Longrightarrow> is_digit c" using assms(2) by (simp add: list_all_iff)
  have t: "trim ds = ds"
  proof -
    have "\<not> is_ws (hd ds)" "\<not> is_ws (last ds)" using d is_digit_facts assms(1) by simp_all
    then have "dropWhile is_ws ds = ds" "dropWhile is_ws (rev ds) = rev ds"
      using assms(1) by (simp_all add: dropWhile_eq_self_iff hd_rev)
    then show ?thesis by (simp add: trim_def trim_start_def trim_end_def)
  qed
  have h: "hd ds \<noteq> CHR ''-''" "hd ds \<noteq> CHR ''+''" using d is_digit_facts assms(1) by (metis list.set_sel(1))+
  have one: "ds ! 1 \<notin> {CHR ''x'', CHR ''X''}" "ds ! 1 \<notin> {CHR ''o'', CHR ''O''}" "ds ! 1 \<notin> {CHR ''b'', CHR ''B''}" if "2 \<le> length ds"
    using d [of "ds ! 1"] that is_digit_facts [of "ds ! 1"] by simp_all
  have e: "CHR ''e'' \<notin> set ds" "CHR ''E'' \<notin> set ds" using d is_digit_facts by blast+
  have whole: "takeWhile is_digit ds = ds" "dropWhile is_digit ds = []" using d by simp_all
  have "decimal_of ds = Some (of_nat (str_nat ds))"
    unfolding decimal_of_def Let_def whole using assms(1) by (simp add: exponent_of_def scaled_def)
  then have "js_number ds = Some (of_nat (str_nat ds))"
    using t h one e assms(1,3) by (auto simp: js_number_def)
  then show ?thesis by (simp add: js_integer_def floor_of_nat)
qed

section \<open>Expressions\<close>

record cron_fields =
  cf_minute :: "nat list"
  cf_hour :: "nat list"
  cf_dom :: "nat list"
  cf_month :: "nat list"
  cf_dow :: "nat list"

definition quoted :: "string \<Rightarrow> string" where
  "quoted s = [CHR 0x22] @ s @ [CHR 0x22]"

text \<open>\<open>for (value = from; value <= to; value += step)\<close>.\<close>

function step_range :: "nat \<Rightarrow> nat \<Rightarrow> nat \<Rightarrow> nat list" where
  "step_range lo hi step =
     (if step = 0 \<or> hi < lo then [] else lo # step_range (lo + step) hi step)"
  by pat_completeness auto
termination by (relation "measure (\<lambda>(lo, hi, step). Suc hi - lo)") auto

declare step_range.simps [simp del]

text \<open>The two halves of a part: its step, and the first and last value its range allows.\<close>

definition part_step :: "string option \<Rightarrow> string \<Rightarrow> string + nat" where
  "part_step step_text name =
     (case (case step_text of None \<Rightarrow> Some 1 | Some s \<Rightarrow> js_integer s) of
        None \<Rightarrow> Inl (''invalid step '' @ quoted (the step_text) @ '' in the '' @ name @ '' field'')
      | Some st \<Rightarrow>
          if st < 1 then Inl (''invalid step '' @ quoted (the step_text) @ '' in the '' @ name @ '' field'')
          else Inr (nat st))"

definition part_bounds :: "string \<Rightarrow> bool \<Rightarrow> nat \<Rightarrow> nat \<Rightarrow> string \<Rightarrow> string + nat \<times> nat" where
  "part_bounds rng stepped mn mx name =
     (if rng = ''*'' \<or> rng = [] then Inr (mn, mx)
      else (let ends = split_on (CHR ''-'') rng; single = length ends = 1;
                lo = js_integer (hd ends);
                hi = (if single then lo else js_integer (ends ! 1))
            in case (lo, hi) of
                 (Some a, Some b) \<Rightarrow>
                   if a < int mn \<or> b > int mx \<or> a > b
                   then Inl (name @ '' must be between '' @ nat_str mn @ '' and '' @ nat_str mx
                     @ ''; got '' @ quoted rng)
                   else Inr (nat a, if single \<and> stepped then mx else nat b)
               | _ \<Rightarrow> Inl (quoted rng @ '' is not a valid '' @ name @ '' value'')))"

definition parse_part :: "string \<Rightarrow> nat \<Rightarrow> nat \<Rightarrow> string \<Rightarrow> string + nat list" where
  "parse_part part mn mx name =
     (let pieces = split_on (CHR ''/'') part;
          step_text = (if length pieces > 1 then Some (pieces ! 1) else None)
      in or_throw (part_step step_text name) (\<lambda>st.
           or_throw (part_bounds (hd pieces) (step_text \<noteq> None) mn mx name) (\<lambda>(lo, hi).
             Inr (step_range lo hi st))))"

fun parse_parts :: "string list \<Rightarrow> nat \<Rightarrow> nat \<Rightarrow> string \<Rightarrow> string + nat list" where
  "parse_parts [] mn mx name = Inr []"
| "parse_parts (p # ps) mn mx name =
     or_throw (parse_part p mn mx name) (\<lambda>vs.
       or_throw (parse_parts ps mn mx name) (\<lambda>ws. Inr (vs @ ws)))"

definition parse_field :: "string \<Rightarrow> nat \<Rightarrow> nat \<Rightarrow> string \<Rightarrow> string + nat list" where
  "parse_field field mn mx name =
     or_throw (parse_parts (split_on (CHR '','') field) mn mx name) (\<lambda>vs. Inr (sort (dedupe vs)))"

text \<open>\<open>s.trim().split(/\\s+/)\<close>: runs of white space collapsed first.\<close>

definition cron_parts :: "string \<Rightarrow> string list" where
  "cron_parts s = split_on (CHR '' '') (collapse_ws (trim s))"

definition parse_cron :: "string \<Rightarrow> string + cron_fields" where
  "parse_cron expression =
     (let parts = cron_parts expression
      in if length parts \<noteq> 5
         then Inl (''a cron expression needs 5 fields (minute hour day-of-month month day-of-week); ''
           @ quoted expression @ '' has '' @ nat_str (length parts))
         else or_throw (parse_field (parts ! 0) 0 59 ''minute'') (\<lambda>mi.
           or_throw (parse_field (parts ! 1) 0 23 ''hour'') (\<lambda>h.
           or_throw (parse_field (parts ! 2) 1 31 ''dayOfMonth'') (\<lambda>d.
           or_throw (parse_field (parts ! 3) 1 12 ''month'') (\<lambda>mo.
           or_throw (parse_field (parts ! 4) 0 6 ''dayOfWeek'') (\<lambda>w.
             Inr \<lparr>cf_minute = mi, cf_hour = h, cf_dom = d, cf_month = mo, cf_dow = w\<rparr>))))))"

lemmas parse_eval = parse_cron_def cron_parts_def trim_def trim_start_def trim_end_def is_ws_def parse_field_def parse_part_def
  part_step_def part_bounds_def js_integer_digits is_digit_def step_range.simps str_nat_def dedupe_def Let_def

section \<open>Dates\<close>

definition leap :: "nat \<Rightarrow> bool" where
  "leap y = (y mod 4 = 0 \<and> y mod 100 \<noteq> 0 \<or> y mod 400 = 0)"

text \<open>The day number of the first of January, for years from 1970 on.\<close>

definition day_from_year :: "nat \<Rightarrow> nat" where
  "day_from_year y = 365 * (y - 1970) + (y - 1969) div 4 + (y - 1601) div 400 - (y - 1901) div 100"

lemma div_step: "Suc m div n = m div n + (if (Suc m + q * n) mod n = 0 then 1 else (0 :: nat))"
  by (simp add: div_Suc)

lemma leap_step:
  fixes a b c k :: nat
  assumes "a' = a + (if p then 1 else 0)" "b' = b + (if r then 1 else 0)" "c' = c + (if q then 1 else 0)"
    and "q \<Longrightarrow> p" "r \<Longrightarrow> q" "c \<le> 365 * k" "c' \<le> 365 * k + 365"
  shows "365 * k + 365 + a' + b' - c' = 365 * k + a + b - c + (if p \<and> \<not> q \<or> r then 366 else 365)"
  using assms by (cases p; cases q; cases r) auto

lemma day_from_year_Suc:
  assumes "1970 \<le> y"
  shows "day_from_year (Suc y) = day_from_year y + (if leap y then 366 else 365)"
proof -
  obtain k where y: "y = k + 1970" using assms by (metis le_add_diff_inverse2)
  have four: "(k + 2) div 4 = (k + 1) div 4 + (if y mod 4 = 0 then 1 else 0)"
    using div_step [of "k + 1" 4 492] by (simp add: y add.commute [of k])
  have hundred: "(k + 70) div 100 = (k + 69) div 100 + (if y mod 100 = 0 then 1 else 0)"
    using div_step [of "k + 69" 100 19] by (simp add: y add.commute [of k])
  have four_hundred: "(k + 370) div 400 = (k + 369) div 400 + (if y mod 400 = 0 then 1 else 0)"
    using div_step [of "k + 369" 400 4] by (simp add: y add.commute [of k])
  have le: "(k + 69) div 100 \<le> 365 * k" "(k + 70) div 100 \<le> 365 * k + 365"
    using div_mult_mod_eq [of "k + 69" 100] div_mult_mod_eq [of "k + 70" 100] by linarith+
  have dvd: "y mod 100 = 0 \<Longrightarrow> y mod 4 = 0" "y mod 400 = 0 \<Longrightarrow> y mod 100 = 0"
    using dvd_trans [of 4 100 y] dvd_trans [of 100 400 y] by (simp_all add: mod_eq_0_iff_dvd)
  have "day_from_year y = 365 * k + (k + 1) div 4 + (k + 369) div 400 - (k + 69) div 100"
    "day_from_year (Suc y) = 365 * k + 365 + (k + 2) div 4 + (k + 370) div 400 - (k + 70) div 100"
  proof -
    have n: "k + 1970 - 1970 = k" "k + 1970 - 1969 = k + 1" "k + 1970 - 1601 = k + 369" "k + 1970 - 1901 = k + 69"
      "Suc (k + 1970) - 1970 = k + 1" "Suc (k + 1970) - 1969 = k + 2" "Suc (k + 1970) - 1601 = k + 370" "Suc (k + 1970) - 1901 = k + 70"
      by simp_all
    show "day_from_year y = 365 * k + (k + 1) div 4 + (k + 369) div 400 - (k + 69) div 100"
      "day_from_year (Suc y) = 365 * k + 365 + (k + 2) div 4 + (k + 370) div 400 - (k + 70) div 100"
      unfolding day_from_year_def y n by simp_all
  qed
  then show ?thesis
    unfolding leap_def using leap_step [OF four four_hundred hundred dvd le] by simp
qed

lemma day_from_year_mono:
  assumes "1970 \<le> a" and "a \<le> b"
  shows "day_from_year a + 365 * (b - a) \<le> day_from_year b"
  using assms(2)
proof (induction b rule: dec_induct)
  case (step b)
  with assms(1) show ?case by (auto simp: day_from_year_Suc Suc_diff_le)
qed simp

lemma day_from_1970 [simp]: "day_from_year 1970 = 0"
  by (simp add: day_from_year_def)

lemma year_le_day: "1970 \<le> y \<Longrightarrow> y \<le> 1970 + day_from_year y"
  using day_from_year_mono [of 1970 y] by simp

text \<open>The year a day lies in: the last that begins no later.\<close>

function year_from :: "nat \<Rightarrow> nat \<Rightarrow> nat" where
  "year_from y day = (if 1970 \<le> y \<and> day_from_year (Suc y) \<le> day then year_from (Suc y) day else y)"
  by pat_completeness auto
termination
proof (relation "measure (\<lambda>(y, day). 1971 + day - y)")
  fix y day :: nat
  assume "1970 \<le> y \<and> day_from_year (Suc y) \<le> day"
  with year_le_day [of "Suc y"] have "y < 1970 + day" by linarith
  then show "((Suc y, day), (y, day)) \<in> measure (\<lambda>(y, day). 1971 + day - y)" by simp
qed simp

declare year_from.simps [simp del]

definition year_of :: "nat \<Rightarrow> nat" where
  "year_of day = year_from 1970 day"

lemma year_from_bounds:
  "1970 \<le> y \<Longrightarrow> day_from_year y \<le> day
    \<Longrightarrow> y \<le> year_from y day \<and> day_from_year (year_from y day) \<le> day \<and> day < day_from_year (Suc (year_from y day))"
proof (induction y day rule: year_from.induct)
  case (1 y day)
  then show ?case by (subst (1 2 3) year_from.simps) (auto simp: not_le)
qed

lemma year_of_bounds:
  "1970 \<le> year_of day" "day_from_year (year_of day) \<le> day" "day < day_from_year (Suc (year_of day))"
  using year_from_bounds [of 1970 day] by (simp_all add: year_of_def)

lemma year_of_eq:
  assumes "1970 \<le> y" "day_from_year y \<le> day" "day < day_from_year (Suc y)"
  shows "year_of day = y"
proof (rule antisym)
  show "year_of day \<le> y"
  proof (rule ccontr)
    assume "\<not> year_of day \<le> y"
    then have "Suc y \<le> year_of day" by simp
    then have "day_from_year (Suc y) \<le> day_from_year (year_of day)"
      using day_from_year_mono [of "Suc y" "year_of day"] assms(1) by simp
    with assms(3) year_of_bounds(2) [of day] show False by simp
  qed
  show "y \<le> year_of day"
  proof (rule ccontr)
    assume "\<not> y \<le> year_of day"
    then have "Suc (year_of day) \<le> y" by simp
    then have "day_from_year (Suc (year_of day)) \<le> day_from_year y"
      using day_from_year_mono [of "Suc (year_of day)" y] year_of_bounds(1) [of day] by simp
    with assms(2) year_of_bounds(3) [of day] show False by simp
  qed
qed

definition month_lengths :: "nat \<Rightarrow> nat list" where
  "month_lengths y = [31, if leap y then 29 else 28, 31, 30, 31, 30, 31, 31, 30, 31, 30, 31]"

text \<open>Month, from 1, and day of the month of the \<open>d\<close>-th day, from 0.\<close>

fun month_day :: "nat list \<Rightarrow> nat \<Rightarrow> nat \<Rightarrow> nat \<times> nat" where
  "month_day [] k d = (k, Suc d)"
| "month_day (l # ls) k d = (if d < l then (k, Suc d) else month_day ls (Suc k) (d - l))"

lemma month_day_at:
  "i < length ls \<Longrightarrow> j < ls ! i \<Longrightarrow> month_day ls k (sum_list (take i ls) + j) = (k + i, Suc j)"
  by (induction ls arbitrary: i k) (auto simp: less_Suc_eq_0_disj)

lemma month_day_inv:
  assumes "month_day ls k d = (k', j)" "d < sum_list ls"
  shows "k \<le> k' \<and> k' - k < length ls \<and> 1 \<le> j \<and> j \<le> ls ! (k' - k) \<and> d = sum_list (take (k' - k) ls) + (j - 1)"
  using assms
proof (induction ls arbitrary: k d)
  case (Cons l ls)
  show ?case
  proof (cases "d < l")
    case False
    then have "month_day ls (Suc k) (d - l) = (k', j)" "d - l < sum_list ls" using Cons.prems by auto
    from Cons.IH [OF this] have IH: "Suc k \<le> k'" "k' - Suc k < length ls" "1 \<le> j" "j \<le> ls ! (k' - Suc k)"
      "d - l = sum_list (take (k' - Suc k) ls) + (j - 1)" by blast+
    then have "k' - k = Suc (k' - Suc k)" by simp
    with IH False show ?thesis by simp
  qed (use Cons.prems in auto)
qed simp

lemma length_month_lengths [simp]: "length (month_lengths y) = 12"
  by (simp add: month_lengths_def)

lemma sum_month_lengths: "sum_list (month_lengths y) = (if leap y then 366 else 365)"
  by (simp add: month_lengths_def)

text \<open>\<open>getMinutes\<close>, \<open>getHours\<close>, \<open>getDate\<close>, \<open>getMonth() + 1\<close> and \<open>getDay\<close> of a minute count.\<close>

definition day_of :: "nat \<Rightarrow> nat" where
  "day_of m = m div 1440"

definition date_of :: "nat \<Rightarrow> nat \<times> nat" where
  "date_of m = month_day (month_lengths (year_of (day_of m))) 1 (day_of m - day_from_year (year_of (day_of m)))"

definition minute_of :: "nat \<Rightarrow> nat" where "minute_of m = m mod 60"
definition hour_of :: "nat \<Rightarrow> nat" where "hour_of m = m div 60 mod 24"
definition month_of :: "nat \<Rightarrow> nat" where "month_of m = fst (date_of m)"
definition dom_of :: "nat \<Rightarrow> nat" where "dom_of m = snd (date_of m)"
definition dow_of :: "nat \<Rightarrow> nat" where "dow_of m = (day_of m + 4) mod 7"

text \<open>The day number of a date.\<close>

definition day_number :: "nat \<Rightarrow> nat \<Rightarrow> nat \<Rightarrow> nat" where
  "day_number y m d = day_from_year y + sum_list (take (m - 1) (month_lengths y)) + (d - 1)"

lemma sum_take_le:
  "i < length ls \<Longrightarrow> j < ls ! i \<Longrightarrow> sum_list (take i ls) + j < sum_list (ls :: nat list)"
proof (induction ls arbitrary: i)
  case (Cons l ls)
  show ?case
  proof (cases i)
    case 0
    with Cons.prems show ?thesis by simp
  next
    case (Suc i')
    with Cons.IH [of i'] Cons.prems show ?thesis by simp
  qed
qed simp

lemma date_of_day_number:
  assumes "1970 \<le> y" "1 \<le> m" "m \<le> 12" "1 \<le> d" "d \<le> month_lengths y ! (m - 1)" "day_of t = day_number y m d"
  shows "date_of t = (m, d)" "year_of (day_of t) = y"
proof -
  have i: "m - 1 < length (month_lengths y)" "d - 1 < month_lengths y ! (m - 1)" using assms(2-5) by auto
  have "sum_list (take (m - 1) (month_lengths y)) + (d - 1) < (if leap y then 366 else 365)"
    using sum_take_le [OF i] unfolding sum_month_lengths .
  then show yr: "year_of (day_of t) = y"
    using assms(1,6) by (intro year_of_eq) (simp_all add: day_number_def day_from_year_Suc)
  show "date_of t = (m, d)"
    using month_day_at [OF i, of 1] assms(2,4) unfolding date_of_def yr by (simp add: assms(6) day_number_def)
qed

section \<open>The next run\<close>

definition fires_at :: "cron_fields \<Rightarrow> nat \<Rightarrow> bool" where
  "fires_at fs m \<longleftrightarrow> minute_of m \<in> set (cf_minute fs) \<and> hour_of m \<in> set (cf_hour fs) \<and> dom_of m \<in> set (cf_dom fs)
     \<and> month_of m \<in> set (cf_month fs) \<and> dow_of m \<in> set (cf_dow fs)"

fun scan_minutes :: "cron_fields \<Rightarrow> nat \<Rightarrow> nat \<Rightarrow> nat option" where
  "scan_minutes fs m 0 = None"
| "scan_minutes fs m (Suc n) = (if fires_at fs m then Some m else scan_minutes fs (Suc m) n)"

definition scan_limit :: nat where
  "scan_limit = 366 * 4 * 24 * 60"

definition next_run :: "string \<Rightarrow> nat \<Rightarrow> string + nat" where
  "next_run expression from =
     or_throw (parse_cron expression) (\<lambda>fs.
       case scan_minutes fs (from div 60000 + 1) scan_limit of
         None \<Rightarrow> Inl (quoted expression @ '' never fires'')
       | Some m \<Rightarrow> Inr (60000 * m))"

lemma scan_minutes_Some:
  "scan_minutes fs m n = Some t \<longleftrightarrow> m \<le> t \<and> t < m + n \<and> fires_at fs t \<and> (\<forall>j. m \<le> j \<longrightarrow> j < t \<longrightarrow> \<not> fires_at fs j)"
proof (induction n arbitrary: m)
  case (Suc n)
  show ?case
  proof (cases "fires_at fs m")
    case True
    then show ?thesis by (auto dest: le_neq_implies_less)
  next
    case False
    have "m \<le> t \<and> fires_at fs t \<longleftrightarrow> Suc m \<le> t \<and> fires_at fs t" using False by (metis Suc_leD Suc_leI le_neq_implies_less)
    moreover have "(\<forall>j. m \<le> j \<longrightarrow> j < t \<longrightarrow> \<not> fires_at fs j) \<longleftrightarrow> (\<forall>j. Suc m \<le> j \<longrightarrow> j < t \<longrightarrow> \<not> fires_at fs j)"
      using False by (metis Suc_leD Suc_leI le_neq_implies_less)
    ultimately show ?thesis using False Suc.IH [of "Suc m"] by auto
  qed
qed auto

lemma scan_minutes_None: "scan_minutes fs m n = None \<longleftrightarrow> (\<forall>j. m \<le> j \<longrightarrow> j < m + n \<longrightarrow> \<not> fires_at fs j)"
proof (induction n arbitrary: m)
  case (Suc n)
  have "(\<forall>j. m \<le> j \<longrightarrow> j < m + Suc n \<longrightarrow> \<not> fires_at fs j)
      \<longleftrightarrow> \<not> fires_at fs m \<and> (\<forall>j. Suc m \<le> j \<longrightarrow> j < Suc m + n \<longrightarrow> \<not> fires_at fs j)"
  proof (intro iffI conjI allI impI)
    fix j
    assume all: "\<not> fires_at fs m \<and> (\<forall>j. Suc m \<le> j \<longrightarrow> j < Suc m + n \<longrightarrow> \<not> fires_at fs j)" "m \<le> j" "j < m + Suc n"
    then show "\<not> fires_at fs j" by (cases "j = m") auto
  qed auto
  with Suc.IH [of "Suc m"] show ?case by simp
qed auto

section \<open>Laws\<close>

lemma step_range_mem:
  "0 < st \<Longrightarrow> v \<in> set (step_range lo hi st) \<longleftrightarrow> lo \<le> v \<and> v \<le> hi \<and> st dvd v - lo"
proof (induction lo hi st rule: step_range.induct)
  case (1 lo hi st)
  have IH: "lo \<le> hi \<Longrightarrow> v \<in> set (step_range (lo + st) hi st) \<longleftrightarrow> lo + st \<le> v \<and> v \<le> hi \<and> st dvd v - (lo + st)"
    using 1 by simp
  have dvd: "st dvd v - lo \<longleftrightarrow> v = lo \<or> lo + st \<le> v \<and> st dvd v - (lo + st)" if "lo \<le> v"
  proof (cases "lo + st \<le> v")
    case True
    then have "v - lo = st + (v - (lo + st))" by simp
    then have "st dvd v - lo \<longleftrightarrow> st dvd v - (lo + st)" by (metis dvd_add_triv_left_iff)
    with True 1(2) show ?thesis by simp
  next
    case False
    with that show ?thesis by (auto dest: dvd_imp_le)
  qed
  show ?case
  proof (cases "lo \<le> hi")
    case True
    with 1(2) IH dvd show ?thesis by (subst step_range.simps) auto
  next
    case False
    then show ?thesis by (subst step_range.simps) auto
  qed
qed

text \<open>What a part allows: every value from a first to a last that is a multiple of the step away.\<close>

lemma part_step_pos: "part_step step_text name = Inr st \<Longrightarrow> 0 < st"
  by (auto simp: part_step_def split: option.splits if_splits)

lemma part_bounds_ok:
  "part_bounds rng stepped mn mx name = Inr (lo, hi) \<Longrightarrow> mn \<le> mx \<Longrightarrow> mn \<le> lo \<and> lo \<le> hi \<and> hi \<le> mx"
  by (auto simp: part_bounds_def Let_def split: option.splits if_splits)

lemma parse_part_values:
  assumes "parse_part part mn mx name = Inr vs" and "mn \<le> mx"
  shows "\<exists>lo hi st. mn \<le> lo \<and> lo \<le> hi \<and> hi \<le> mx \<and> 0 < st
    \<and> set vs = {v. lo \<le> v \<and> v \<le> hi \<and> st dvd v - lo}"
proof -
  obtain given rng st lo hi where
    "part_step given name = Inr st" "part_bounds rng (given \<noteq> None) mn mx name = Inr (lo, hi)" "vs = step_range lo hi st"
    using assms(1) unfolding parse_part_def Let_def by auto
  with part_step_pos [of given name st] part_bounds_ok [of rng _ mn mx name lo hi] assms(2) show ?thesis
    by (intro exI [of _ lo] exI [of _ hi] exI [of _ st]) (auto simp: step_range_mem)
qed

lemma parse_parts_mem:
  "parse_parts ps mn mx name = Inr vs \<Longrightarrow>
    (\<forall>p\<in>set ps. \<exists>ws. parse_part p mn mx name = Inr ws)
    \<and> (v \<in> set vs \<longleftrightarrow> (\<exists>p\<in>set ps. \<exists>ws. parse_part p mn mx name = Inr ws \<and> v \<in> set ws))"
proof (induction ps arbitrary: vs)
  case (Cons p ps)
  then obtain ws us where w: "parse_part p mn mx name = Inr ws" "parse_parts ps mn mx name = Inr us" "vs = ws @ us"
    by auto
  from Cons.IH [OF w(2)] w show ?case by simp
qed simp

lemma parse_field_ok:
  assumes "parse_field field mn mx name = Inr vs" and "mn \<le> mx"
  shows "sorted vs" "distinct vs" "vs \<noteq> []" "set vs \<subseteq> {mn..mx}"
    "v \<in> set vs \<longleftrightarrow> (\<exists>p\<in>set (split_on (CHR '','') field). \<exists>ws. parse_part p mn mx name = Inr ws \<and> v \<in> set ws)"
proof -
  let ?ps = "split_on (CHR '','') field"
  obtain us where us: "parse_parts ?ps mn mx name = Inr us" "vs = sort (dedupe us)"
    using assms(1) by (auto simp: parse_field_def)
  show "sorted vs" "distinct vs" by (simp_all add: us(2))
  have mem: "x \<in> set vs \<longleftrightarrow> (\<exists>p\<in>set ?ps. \<exists>ws. parse_part p mn mx name = Inr ws \<and> x \<in> set ws)" for x
    using parse_parts_mem [OF us(1), of x] by (simp add: us(2))
  then show "v \<in> set vs \<longleftrightarrow> (\<exists>p\<in>set ?ps. \<exists>ws. parse_part p mn mx name = Inr ws \<and> v \<in> set ws)" .
  show "set vs \<subseteq> {mn..mx}"
  proof
    fix x assume "x \<in> set vs"
    then obtain p ws where p: "parse_part p mn mx name = Inr ws" "x \<in> set ws" using mem by blast
    from parse_part_values [OF p(1) assms(2)] p(2) show "x \<in> {mn..mx}" by auto
  qed
  have "hd ?ps \<in> set ?ps" by simp
  then obtain ws where ws: "parse_part (hd ?ps) mn mx name = Inr ws" using parse_parts_mem [OF us(1)] by blast
  from parse_part_values [OF this assms(2)] obtain lo hi st where
    "lo \<le> hi" "set ws = {v. lo \<le> v \<and> v \<le> hi \<and> st dvd v - lo}" by blast
  then have "lo \<in> set ws" by simp
  with mem [of lo] ws \<open>hd ?ps \<in> set ?ps\<close> show "vs \<noteq> []" by (metis empty_iff empty_set)
qed

lemma five_cases:
  assumes "length xs = 5"
  obtains a b c d e where "xs = [a, b, c, d, e]"
  using assms by (auto simp: numeral_eq_Suc length_Suc_conv)

lemma parse_cron_fields:
  assumes "parse_cron e = Inr fs"
  shows "\<exists>mi h d mo w. cron_parts e = [mi, h, d, mo, w]
    \<and> parse_field mi 0 59 ''minute'' = Inr (cf_minute fs) \<and> parse_field h 0 23 ''hour'' = Inr (cf_hour fs)
    \<and> parse_field d 1 31 ''dayOfMonth'' = Inr (cf_dom fs) \<and> parse_field mo 1 12 ''month'' = Inr (cf_month fs)
    \<and> parse_field w 0 6 ''dayOfWeek'' = Inr (cf_dow fs)"
proof -
  have "length (cron_parts e) = 5" using assms by (auto simp: parse_cron_def Let_def split: if_splits)
  then obtain mi h d mo w where p: "cron_parts e = [mi, h, d, mo, w]"
    by (rule five_cases)
  have "parse_field mi 0 59 ''minute'' = Inr (cf_minute fs) \<and> parse_field h 0 23 ''hour'' = Inr (cf_hour fs)
    \<and> parse_field d 1 31 ''dayOfMonth'' = Inr (cf_dom fs) \<and> parse_field mo 1 12 ''month'' = Inr (cf_month fs)
    \<and> parse_field w 0 6 ''dayOfWeek'' = Inr (cf_dow fs)"
    using assms unfolding parse_cron_def Let_def p by clarsimp
  with p show ?thesis by blast
qed

section \<open>What the scheduler can rely on\<close>

text \<open>
  An expression that parses allows, in each field, a sorted list without repetitions of values in
  the field's range, never empty: exactly the union of what its comma-separated parts allow, each of
  which is an arithmetic progression inside the range.
\<close>

theorem cron_field_values:
  assumes "parse_field field mn mx name = Inr vs" and "mn \<le> mx"
  shows "sorted vs \<and> distinct vs \<and> vs \<noteq> [] \<and> set vs \<subseteq> {mn..mx}
    \<and> (\<forall>v. v \<in> set vs \<longleftrightarrow> (\<exists>p\<in>set (split_on (CHR '','') field). \<exists>ws. parse_part p mn mx name = Inr ws \<and> v \<in> set ws))
    \<and> (\<forall>p\<in>set (split_on (CHR '','') field). \<forall>ws. parse_part p mn mx name = Inr ws \<longrightarrow>
         (\<exists>lo hi st. mn \<le> lo \<and> lo \<le> hi \<and> hi \<le> mx \<and> 0 < st \<and> set ws = {v. lo \<le> v \<and> v \<le> hi \<and> st dvd v - lo}))"
  by (intro conjI allI ballI impI parse_field_ok [OF assms] parse_part_values [OF _ assms(2)])

theorem cron_field_values_witness:
  "parse_field ''5/20,1-3'' 0 59 ''minute'' = Inr [1, 2, 3, 5, 25, 45] \<and> sorted [1, 2, 3, 5, 25, 45 :: nat]"
proof -
  have p: "parse_field ''5/20,1-3'' 0 59 ''minute'' = Inr [1, 2, 3, 5, 25, 45]" by (simp add: parse_eval)
  then show ?thesis using cron_field_values [OF p] by simp
qed

text \<open>
  C28. The next run of an expression is an instant exactly when its fields are read and some minute after the given
  instant, no further than the minutes searched, fires; then it is the first such minute, a whole minute strictly later
  than the instant, even when the instant itself is a firing minute. Otherwise the answer is the error of the fields, or
  that the expression never fires. Instants are local times of a zone without transitions.
\<close>

theorem next_run_least:
  "case next_run e from of
     Inr t \<Rightarrow> \<exists>fs m. parse_cron e = Inr fs \<and> t = 60000 * m \<and> from < t \<and> m \<le> from div 60000 + scan_limit \<and> fires_at fs m
              \<and> (\<forall>j. from < 60000 * j \<longrightarrow> j < m \<longrightarrow> \<not> fires_at fs j)
   | Inl msg \<Rightarrow> parse_cron e = Inl msg
       \<or> (\<exists>fs. parse_cron e = Inr fs \<and> msg = quoted e @ '' never fires''
            \<and> (\<forall>j. from < 60000 * j \<longrightarrow> j \<le> from div 60000 + scan_limit \<longrightarrow> \<not> fires_at fs j))"
proof (cases "parse_cron e")
  case (Inl msg)
  then show ?thesis by (simp add: next_run_def)
next
  case (Inr fs)
  have later: "from div 60000 < j \<longleftrightarrow> from < 60000 * j" for j by (simp add: div_less_iff_less_mult mult.commute)
  show ?thesis
  proof (cases "scan_minutes fs (from div 60000 + 1) scan_limit")
    case None
    then have "\<not> fires_at fs j" if "from < 60000 * j" "j \<le> from div 60000 + scan_limit" for j
      using that later [of j] unfolding scan_minutes_None by auto
    then show ?thesis using Inr None by (auto simp: next_run_def)
  next
    case (Some m)
    have s: "from div 60000 + 1 \<le> m" "m < from div 60000 + 1 + scan_limit" "fires_at fs m"
      "\<And>j. from div 60000 + 1 \<le> j \<Longrightarrow> j < m \<Longrightarrow> \<not> fires_at fs j"
      using Some unfolding scan_minutes_Some by auto
    then have "from < 60000 * m" using later [of m] by simp
    then show ?thesis
      using s Inr Some later by (auto simp: next_run_def Suc_le_eq)
  qed
qed

theorem next_run_least_witness:
  "next_run ''30 0 1 1 *'' 0 = Inr 1800000
    \<and> (\<exists>fs m. parse_cron ''30 0 1 1 *'' = Inr fs \<and> (1800000 :: nat) = 60000 * m \<and> fires_at fs m)"
proof -
  define fs where "fs = \<lparr>cf_minute = [30], cf_hour = [0], cf_dom = [1], cf_month = [1], cf_dow = [0, 1, 2, 3, 4, 5, 6]\<rparr>"
  have p: "parse_cron ''30 0 1 1 *'' = Inr fs" unfolding fs_def by (simp add: parse_eval)
  have "date_of 30 = (1, 1)"
    by (rule date_of_day_number [of 1970]) (simp_all add: month_lengths_def day_of_def day_number_def)
  then have f: "fires_at fs 30"
    by (simp add: fires_at_def fs_def month_of_def dom_of_def minute_of_def hour_of_def dow_of_def day_of_def)
  have "\<not> fires_at fs j" if "j < 30" for j using that by (simp add: fires_at_def fs_def minute_of_def)
  with f have "scan_minutes fs 1 scan_limit = Some 30"
    unfolding scan_minutes_Some by (simp add: scan_limit_def)
  with p have n: "next_run ''30 0 1 1 *'' 0 = Inr 1800000" by (simp add: next_run_def)
  with next_run_least [of "''30 0 1 1 *''" 0] show ?thesis by auto
qed

section \<open>Whether an expression fires at all\<close>

lemma common_month_le:
  assumes "1 \<le> mo" "mo \<le> 12"
  shows "month_lengths 1970 ! (mo - 1) \<le> month_lengths y ! (mo - 1)"
proof -
  have "\<not> leap 1970" by (simp add: leap_def)
  then show ?thesis using assms by (simp add: month_lengths_def nth_Cons')
qed

lemma day_number_next_year:
  assumes "1 \<le> mo" "mo \<le> 12" "1 \<le> d" "d \<le> month_lengths 1970 ! (mo - 1)"
    and y: "1970 \<le> y" "day_from_year y \<le> day" "day < day_from_year (Suc y)"
  shows "day < day_number (Suc y) mo d" "day_number (Suc y) mo d < day + 733"
proof -
  show "day < day_number (Suc y) mo d" using y(3) by (simp add: day_number_def)
  have "d - 1 < month_lengths (Suc y) ! (mo - 1)" using assms(3,4) common_month_le [OF assms(1,2), of "Suc y"] by linarith
  then have "sum_list (take (mo - 1) (month_lengths (Suc y))) + (d - 1) < sum_list (month_lengths (Suc y))"
    using assms(1,2) by (intro sum_take_le) simp_all
  also have "\<dots> \<le> 366" by (simp add: sum_month_lengths)
  finally show "day_number (Suc y) mo d < day + 733"
    using y by (simp add: day_number_def day_from_year_Suc split: if_splits)
qed

lemma parse_field_some:
  assumes "parse_field field mn mx name = Inr vs" and "mn \<le> mx"
  shows "\<exists>v\<in>set vs. v \<le> mx"
proof -
  from parse_field_ok(3) [OF assms] obtain v where "v \<in> set vs" by (cases vs) auto
  with parse_field_ok(4) [OF assms] show ?thesis by (intro bexI [of _ v]) auto
qed

lemma day_of_bounds: "day_of m * 1440 \<le> m" "m < day_of m * 1440 + 1440"
  using mod_less_divisor [of 1440 m] div_mult_mod_eq [of m 1440] by (simp_all add: day_of_def)

lemma minute_parts:
  assumes "mi < 60" "h < 24" and t_def: "t = day * 1440 + h * 60 + mi"
  shows "minute_of t = mi" "hour_of t = h" "day_of t = day"
proof -
  have t: "t = (day * 24 + h) * 60 + mi" by (simp add: t_def)
  show "minute_of t = mi" using assms(1) unfolding minute_of_def t by (simp only: mod_mult_self3 mod_less)
  have "t div 60 = day * 24 + h" unfolding t using assms(1) by (simp only: div_mult_self3)
  then show "hour_of t = h" using assms(2) by (simp add: hour_of_def)
  have "t div 1440 = t div 60 div 24" by (simp add: div_mult2_eq [symmetric])
  also have "\<dots> = day" unfolding \<open>t div 60 = day * 24 + h\<close> using assms(2) by (simp only: div_mult_self3)
  finally show "day_of t = day" by (simp add: day_of_def)
qed

text \<open>
  An expression whose weekday field allows every day and whose month and day fields name a date
  that every year has is never given up on: it has a next run, less than 734 days after the instant.
\<close>

theorem next_run_exists:
  assumes "parse_cron e = Inr fs" and "{0..6} \<subseteq> set (cf_dow fs)"
    and "mo \<in> set (cf_month fs)" and "d \<in> set (cf_dom fs)" and "d \<le> month_lengths 1970 ! (mo - 1)"
  shows "\<exists>t. next_run e from = Inr t \<and> from < t \<and> t < from + 734 * 86400000"
proof -
  obtain fmi fh fd fmo fw where f: "parse_field fmi 0 59 ''minute'' = Inr (cf_minute fs)"
    "parse_field fh 0 23 ''hour'' = Inr (cf_hour fs)" "parse_field fd 1 31 ''dayOfMonth'' = Inr (cf_dom fs)"
    "parse_field fmo 1 12 ''month'' = Inr (cf_month fs)" "parse_field fw 0 6 ''dayOfWeek'' = Inr (cf_dow fs)"
    using parse_cron_fields [OF assms(1)] by blast
  have mo: "1 \<le> mo" "mo \<le> 12" "1 \<le> d" using parse_field_ok(4) [OF f(3)] parse_field_ok(4) [OF f(4)] assms(3,4) by auto
  obtain mi h where mi: "mi \<in> set (cf_minute fs)" "mi < 60" and h: "h \<in> set (cf_hour fs)" "h < 24"
    using parse_field_some [OF f(1)] parse_field_some [OF f(2)] by force
  let ?start = "from div 60000 + 1"
  define D where "D = day_number (Suc (year_of (day_of ?start))) mo d"
  define t where "t = D * 1440 + h * 60 + mi"
  have D: "day_of ?start < D" "D < day_of ?start + 733"
    unfolding D_def by (rule day_number_next_year [OF mo assms(5) year_of_bounds])+
  note parts = minute_parts [OF mi(2) h(2) t_def]
  have "d \<le> month_lengths (Suc (year_of (day_of ?start))) ! (mo - 1)"
    using assms(5) common_month_le [OF mo(1,2)] le_trans by blast
  then have "date_of t = (mo, d)"
    using date_of_day_number(1) [of "Suc (year_of (day_of ?start))" mo d t] mo parts(3) year_of_bounds(1) [of "day_of ?start"]
    by (simp add: D_def)
  moreover have "dow_of t \<in> set (cf_dow fs)" using assms(2) by (auto simp: dow_of_def)
  ultimately have fires: "fires_at fs t"
    using parts mi(1) h(1) assms(3,4) by (simp add: fires_at_def month_of_def dom_of_def)
  have bounds: "?start \<le> t" "t < ?start + 733 * 1440"
    using D mi(2) h(2) day_of_bounds [of ?start] unfolding t_def by linarith+
  have "scan_minutes fs ?start scan_limit \<noteq> None"
    using scan_minutes_None [of fs ?start scan_limit] fires bounds by (auto simp: scan_limit_def)
  then obtain m where m: "scan_minutes fs ?start scan_limit = Some m" by blast
  then have le: "?start \<le> m" "m \<le> t" using fires bounds(1) unfolding scan_minutes_Some by (auto simp: not_le [symmetric])
  have "next_run e from = Inr (60000 * m)" using assms(1) m by (simp add: next_run_def)
  moreover have "from < 60000 * m" "60000 * m < from + 734 * 86400000"
    using le bounds(2) mod_less_divisor [of 60000 "from"] div_mult_mod_eq [of "from" 60000] by linarith+
  ultimately show ?thesis by blast
qed

theorem next_run_exists_witness:
  "\<exists>t. next_run ''0 9 31 12 *'' 1767225600000 = Inr t \<and> 1767225600000 < t"
proof -
  define fs where "fs = \<lparr>cf_minute = [0], cf_hour = [9], cf_dom = [31], cf_month = [12], cf_dow = [0, 1, 2, 3, 4, 5, 6]\<rparr>"
  have p: "parse_cron ''0 9 31 12 *'' = Inr fs" unfolding fs_def by (simp add: parse_eval)
  have "{0..6} \<subseteq> set (cf_dow fs)" "12 \<in> set (cf_month fs)" "31 \<in> set (cf_dom fs)" by (auto simp: fs_def)
  moreover have "(31 :: nat) \<le> month_lengths 1970 ! (12 - 1)" by (simp add: month_lengths_def)
  ultimately show ?thesis using next_run_exists [OF p] by blast
qed

lemma date_Feb_29:
  assumes "date_of t = (2, 29)"
  shows "leap (year_of (day_of t))" "day_of t = day_from_year (year_of (day_of t)) + 59"
proof -
  define d where "d = day_of t - day_from_year (year_of (day_of t))"
  have "month_day (month_lengths (year_of (day_of t))) 1 d = (2, 29)" using assms by (simp add: date_of_def d_def)
  moreover have "d < sum_list (month_lengths (year_of (day_of t)))"
    using year_of_bounds [of "day_of t"] day_from_year_Suc [of "year_of (day_of t)"] unfolding d_def sum_month_lengths by simp
  ultimately have "29 \<le> month_lengths (year_of (day_of t)) ! 1" "d = sum_list (take 1 (month_lengths (year_of (day_of t)))) + 28"
    using month_day_inv [of "month_lengths (year_of (day_of t))" 1 d 2 29] by simp_all
  then have "leap (year_of (day_of t))" "d = 59" by (simp_all add: month_lengths_def split: if_splits)
  then show "leap (year_of (day_of t))" "day_of t = day_from_year (year_of (day_of t)) + 59"
    using year_of_bounds(2) [of "day_of t"] unfolding d_def by linarith+
qed

lemma no_leap_monday:
  assumes "20454 \<le> day_of t" "day_of t < 22000" "date_of t = (2, 29)"
  shows "dow_of t \<noteq> 1"
proof -
  let ?y = "year_of (day_of t)"
  have "?y < 2031"
  proof (rule ccontr)
    assume "\<not> ?y < 2031"
    then have "day_from_year 2031 \<le> day_from_year ?y" using day_from_year_mono [of 2031 ?y] by simp
    with year_of_bounds(2) [of "day_of t"] assms(2) show False by (simp add: day_from_year_def)
  qed
  moreover have "2026 \<le> ?y"
  proof (rule ccontr)
    assume "\<not> 2026 \<le> ?y"
    then have "day_from_year (Suc ?y) \<le> day_from_year 2026"
      using day_from_year_mono [of "Suc ?y" 2026] year_of_bounds(1) [of "day_of t"] by simp
    with year_of_bounds(3) [of "day_of t"] assms(1) show False by (simp add: day_from_year_def)
  qed
  ultimately have "?y = 2026 \<or> ?y = 2027 \<or> ?y = 2028 \<or> ?y = 2029 \<or> ?y = 2030" by arith
  with date_Feb_29(1) [OF assms(3)] have y: "?y = 2028" by (auto simp: leap_def)
  have "day_of t = day_from_year 2028 + 59" using date_Feb_29(2) [OF assms(3)] unfolding y .
  then show ?thesis by (simp add: dow_of_def day_from_year_def)
qed

definition leap_monday :: cron_fields where
  "leap_monday = \<lparr>cf_minute = [0], cf_hour = [0], cf_dom = [29], cf_month = [2], cf_dow = [1]\<rparr>"

lemma leap_monday_parsed: "parse_cron ''0 0 29 2 1'' = Inr leap_monday"
  unfolding leap_monday_def by (simp add: parse_eval)

lemma leap_monday_given_up: "next_run ''0 0 29 2 1'' 1767225600000 = Inl (quoted ''0 0 29 2 1'' @ '' never fires'')"
proof -
  have "\<not> fires_at leap_monday j" if "29453761 \<le> j" "j < 29453761 + scan_limit" for j
  proof
    assume f: "fires_at leap_monday j"
    then have "date_of j = (2, 29)" "dow_of j = 1"
      by (simp_all add: fires_at_def leap_monday_def month_of_def dom_of_def prod_eq_iff)
    moreover have "20454 \<le> day_of j" "day_of j < 22000"
      using that day_of_bounds [of j] by (simp_all add: scan_limit_def)
    ultimately show False using no_leap_monday by blast
  qed
  then have "scan_minutes leap_monday 29453761 scan_limit = None" unfolding scan_minutes_None by blast
  then show ?thesis using leap_monday_parsed by (simp add: next_run_def)
qed

text \<open>
  The search gives up on expressions that do fire. From the first of January 2026 the expression
  for midnight on a 29th of February that is a Monday is answered with the error that it never fires,
  because the next such day lies beyond the four years searched; it fires on 29 February 2044.
\<close>

theorem next_run_gives_up:
  "next_run ''0 0 29 2 1'' 1767225600000 = Inl (quoted ''0 0 29 2 1'' @ '' never fires'')
    \<and> (\<exists>fs. parse_cron ''0 0 29 2 1'' = Inr fs \<and> fires_at fs (1440 * day_number 2044 2 29))"
proof -
  let ?t = "1440 * day_number 2044 2 29"
  have day: "day_of ?t = day_number 2044 2 29" by (simp add: day_of_def)
  have "date_of ?t = (2, 29)"
    by (rule date_of_day_number [of 2044]) (simp_all add: day, simp add: month_lengths_def leap_def)
  moreover have "day_number 2044 2 29 = 27087" by (simp add: day_number_def day_from_year_def month_lengths_def)
  ultimately have "fires_at leap_monday ?t"
    by (simp add: fires_at_def leap_monday_def month_of_def dom_of_def dow_of_def minute_of_def hour_of_def day_of_def)
  with leap_monday_given_up leap_monday_parsed show ?thesis by blast
qed

end
