(* ===== verification/Scheduler.thy ===== *)
theory Scheduler
  imports Cron
begin

text \<open>
  The schedule store and the daemon that fires its schedules: \<open>packages/scheduler/src/daemon.ts\<close> and
  \<open>describeSchedule\<close> of \<open>index.ts\<close>.

  The file is what \<open>save\<close> last wrote, as \<open>load\<close> would read it. A daemon is driven by a list of events:
  its timer, the settling of a run it started, and the calls of its user; every event reads the clock
  once. A daemon is one process: its restart from the file in the middle of a run is not an event.
  \<open>Date.parse\<close> and the rendering of a time are parameters.
\<close>

section \<open>Schedules\<close>

datatype schedule_kind = CronKind | Once | Trigger | AlwaysOn

record schedule =
  sc_id :: string
  sc_kind :: schedule_kind
  sc_when :: string
  sc_prompt :: string
  sc_cwd :: string
  sc_enabled :: bool
  sc_created :: nat
  sc_last :: "nat option"
  sc_next :: "nat option"

record schedule_run =
  rn_id :: string
  rn_started :: nat
  rn_finished :: "nat option"
  rn_ok :: bool
  rn_output :: "string option"
  rn_error :: "string option"

record sched_env =
  se_date :: "string \<Rightarrow> nat option"
  se_locale :: "nat \<Rightarrow> string"

definition describe_schedule :: "sched_env \<Rightarrow> nat \<Rightarrow> schedule \<Rightarrow> bool \<times> string" where
  "describe_schedule env now s =
     (case sc_kind s of
        CronKind \<Rightarrow> (case next_run (sc_when s) now of
            Inl e \<Rightarrow> (False, e) | Inr t \<Rightarrow> (True, ''next run '' @ se_locale env t))
      | Once \<Rightarrow> (case se_date env (sc_when s) of
            None \<Rightarrow> (False, quoted (sc_when s) @ '' is not a timestamp'')
          | Some t \<Rightarrow> (True, if t < now then ''already past'' else ''runs at '' @ se_locale env t))
      | Trigger \<Rightarrow> (True, ''fires on '' @ quoted (sc_when s))
      | AlwaysOn \<Rightarrow> (True, ''runs continuously''))"

section \<open>The store\<close>

record sched_data =
  sd_schedules :: "schedule list"
  sd_history :: "schedule_run list"

datatype store_file = NoFile | Corrupt | Parsed "schedule list option" "schedule_run list option"

record sched_store =
  ss_data :: sched_data
  ss_file :: store_file

definition load_store :: "store_file \<Rightarrow> sched_data" where
  "load_store f =
     (case f of
        Parsed ss hs \<Rightarrow> \<lparr>sd_schedules = (case ss of None \<Rightarrow> [] | Some x \<Rightarrow> x), sd_history = (case hs of None \<Rightarrow> [] | Some x \<Rightarrow> x)\<rparr>
      | _ \<Rightarrow> \<lparr>sd_schedules = [], sd_history = []\<rparr>)"

definition open_store :: "store_file \<Rightarrow> sched_store" where
  "open_store f = \<lparr>ss_data = load_store f, ss_file = f\<rparr>"

definition save_store :: "sched_store \<Rightarrow> sched_store" where
  "save_store st =
     (let d = (ss_data st)\<lparr>sd_history := slice_last 500 (sd_history (ss_data st))\<rparr>
      in \<lparr>ss_data = d, ss_file = Parsed (Some (sd_schedules d)) (Some (sd_history d))\<rparr>)"

definition with_schedules :: "(schedule list \<Rightarrow> schedule list) \<Rightarrow> sched_store \<Rightarrow> sched_store" where
  "with_schedules f st = st\<lparr>ss_data := (ss_data st)\<lparr>sd_schedules := f (sd_schedules (ss_data st))\<rparr>\<rparr>"

text \<open>Changing the first schedule with an id, as \<open>find\<close> does.\<close>

fun change_first :: "string \<Rightarrow> (schedule \<Rightarrow> schedule) \<Rightarrow> schedule list \<Rightarrow> schedule list" where
  "change_first i f [] = []"
| "change_first i f (s # ss) = (if sc_id s = i then f s # ss else s # change_first i f ss)"

definition get_schedule :: "string \<Rightarrow> sched_store \<Rightarrow> schedule option" where
  "get_schedule i st = List.find (\<lambda>s. sc_id s = i) (sd_schedules (ss_data st))"

definition add_schedule :: "sched_env \<Rightarrow> nat \<Rightarrow> string \<Rightarrow> schedule \<Rightarrow> sched_store \<Rightarrow> (string + schedule) \<times> sched_store" where
  "add_schedule env now i s st =
     (let validation = describe_schedule env now s
      in if \<not> fst validation then (Inl (snd validation), st)
         else (case (if sc_kind s = CronKind then map_sum id Some (next_run (sc_when s) now) else Inr None) of
                 Inl e \<Rightarrow> (Inl e, st)
               | Inr next \<Rightarrow>
                   (let created = s\<lparr>sc_id := i, sc_created := now, sc_next := next\<rparr>
                    in (Inr created, save_store (with_schedules (\<lambda>ss. ss @ [created]) st)))))"

definition remove_schedule :: "string \<Rightarrow> sched_store \<Rightarrow> bool \<times> sched_store" where
  "remove_schedule i st =
     (let kept = filter (\<lambda>s. sc_id s \<noteq> i) (sd_schedules (ss_data st))
      in if length kept = length (sd_schedules (ss_data st)) then (False, st)
         else (True, save_store (with_schedules (\<lambda>_. kept) st)))"

text \<open>The first component is what was thrown; a throw leaves the change in memory and the file alone.\<close>

definition set_enabled :: "nat \<Rightarrow> string \<Rightarrow> bool \<Rightarrow> sched_store \<Rightarrow> string option \<times> bool \<times> sched_store" where
  "set_enabled now i enabled st =
     (case get_schedule i st of
        None \<Rightarrow> (None, False, st)
      | Some s \<Rightarrow>
          (let st1 = with_schedules (change_first i (sc_enabled_update (\<lambda>_. enabled))) st
           in if enabled \<and> sc_kind s = CronKind
              then (case next_run (sc_when s) now of
                      Inl e \<Rightarrow> (Some e, False, st1)
                    | Inr t \<Rightarrow> (None, True, save_store (with_schedules (change_first i (sc_next_update (\<lambda>_. Some t))) st1)))
              else (None, True, save_store st1)))"

definition run_history :: "string option \<Rightarrow> nat \<Rightarrow> sched_store \<Rightarrow> schedule_run list" where
  "run_history i most st =
     (let runs = (if truthy i then filter (\<lambda>r. rn_id r = the i) (sd_history (ss_data st)) else sd_history (ss_data st))
      in rev (slice_last most runs))"

definition record_run :: "schedule_run \<Rightarrow> sched_store \<Rightarrow> sched_store" where
  "record_run r st = save_store (st\<lparr>ss_data := (ss_data st)\<lparr>sd_history := sd_history (ss_data st) @ [r]\<rparr>\<rparr>)"

definition mark_fired :: "nat \<Rightarrow> string \<Rightarrow> sched_store \<Rightarrow> string option \<times> sched_store" where
  "mark_fired now i st =
     (case get_schedule i st of
        None \<Rightarrow> (None, st)
      | Some s \<Rightarrow>
          (let st1 = with_schedules (change_first i (sc_last_update (\<lambda>_. Some now))) st
           in case sc_kind s of
                CronKind \<Rightarrow>
                  (case next_run (sc_when s) now of
                     Inl e \<Rightarrow> (Some e, st1)
                   | Inr t \<Rightarrow> (None, save_store (with_schedules (change_first i (sc_next_update (\<lambda>_. Some t))) st1)))
              | Once \<Rightarrow> (None, save_store (with_schedules (change_first i
                  (sc_enabled_update (\<lambda>_. False) \<circ> sc_next_update (\<lambda>_. None))) st1))
              | _ \<Rightarrow> (None, save_store st1)))"

definition is_due :: "sched_env \<Rightarrow> nat \<Rightarrow> schedule \<Rightarrow> bool" where
  "is_due env now s =
     (sc_enabled s \<and>
      (case sc_kind s of
         CronKind \<Rightarrow> (case sc_next s of None \<Rightarrow> False | Some t \<Rightarrow> t \<le> now)
       | Once \<Rightarrow> (case se_date env (sc_when s) of None \<Rightarrow> False
           | Some t \<Rightarrow> t \<le> now \<and> (sc_last s = None \<or> sc_last s = Some 0))
       | AlwaysOn \<Rightarrow> True
       | Trigger \<Rightarrow> False))"

definition due_schedules :: "sched_env \<Rightarrow> nat \<Rightarrow> sched_store \<Rightarrow> schedule list" where
  "due_schedules env now st = filter (is_due env now) (sd_schedules (ss_data st))"

section \<open>The daemon\<close>

text \<open>\<open>dm_flight\<close> holds the runs that have started and not settled, each with its start time.\<close>

record daemon =
  dm_store :: sched_store
  dm_running :: "string list"
  dm_stopped :: bool
  dm_flight :: "(schedule \<times> nat) list"

definition new_daemon :: "store_file \<Rightarrow> daemon" where
  "new_daemon f = \<lparr>dm_store = open_store f, dm_running = [], dm_stopped = True, dm_flight = []\<rparr>"

definition begin_run :: "nat \<Rightarrow> schedule \<Rightarrow> daemon \<Rightarrow> daemon" where
  "begin_run now s d = d\<lparr>dm_running := List.insert (sc_id s) (dm_running d), dm_flight := dm_flight d @ [(s, now)]\<rparr>"

definition to_start :: "sched_env \<Rightarrow> nat \<Rightarrow> daemon \<Rightarrow> schedule list" where
  "to_start env now d =
     (if dm_stopped d then []
      else filter (\<lambda>s. sc_id s \<notin> set (dm_running d)) (due_schedules env now (dm_store d)))"

definition tick :: "sched_env \<Rightarrow> nat \<Rightarrow> daemon \<Rightarrow> nat \<times> daemon" where
  "tick env now d = (length (to_start env now d), fold (begin_run now) (to_start env now d) d)"

definition start_daemon :: "sched_env \<Rightarrow> nat \<Rightarrow> daemon \<Rightarrow> daemon" where
  "start_daemon env now d = (if \<not> dm_stopped d then d else snd (tick env now (d\<lparr>dm_stopped := False\<rparr>)))"

definition stop_daemon :: "daemon \<Rightarrow> daemon" where
  "stop_daemon d = d\<lparr>dm_stopped := True\<rparr>"

definition triggered :: "string \<Rightarrow> daemon \<Rightarrow> schedule list" where
  "triggered name d =
     filter (\<lambda>s. sc_id s \<notin> set (dm_running d))
       (filter (\<lambda>s. sc_kind s = Trigger \<and> sc_enabled s \<and> sc_when s = name) (sd_schedules (ss_data (dm_store d))))"

definition fire_trigger :: "nat \<Rightarrow> string \<Rightarrow> daemon \<Rightarrow> nat \<times> daemon" where
  "fire_trigger now name d = (length (triggered name d), fold (begin_run now) (triggered name d) d)"

text \<open>The end of \<open>execute\<close>: the \<open>k\<close>-th run in flight returns its output or throws a message.\<close>

definition finished_run :: "nat \<Rightarrow> schedule \<times> nat \<Rightarrow> string + string \<Rightarrow> schedule_run" where
  "finished_run now fl outcome =
     (case outcome of
        Inr output \<Rightarrow> \<lparr>rn_id = sc_id (fst fl), rn_started = snd fl, rn_finished = Some now, rn_ok = True,
                       rn_output = Some (slice 0 4000 output), rn_error = None\<rparr>
      | Inl e \<Rightarrow> \<lparr>rn_id = sc_id (fst fl), rn_started = snd fl, rn_finished = Some now, rn_ok = False,
                  rn_output = None, rn_error = Some e\<rparr>)"

definition settle_run :: "nat \<Rightarrow> nat \<Rightarrow> string + string \<Rightarrow> daemon \<Rightarrow> string option \<times> daemon" where
  "settle_run now k outcome d =
     (let fl = dm_flight d ! k; i = sc_id (fst fl);
          d1 = d\<lparr>dm_flight := take k (dm_flight d) @ drop (Suc k) (dm_flight d)\<rparr>
      in case mark_fired now i (record_run (finished_run now fl outcome) (dm_store d)) of
           (Some e, st) \<Rightarrow> (Some e, d1\<lparr>dm_store := st\<rparr>)
         | (None, st) \<Rightarrow> (None, d1\<lparr>dm_store := st, dm_running := remove1 i (dm_running d)\<rparr>))"

datatype daemon_event =
    StartD nat
  | StopD
  | TickD nat
  | FireD nat string
  | SettleD nat nat "string + string"
  | AddD nat string schedule
  | RemoveD string
  | EnableD nat string bool

definition daemon_do :: "sched_env \<Rightarrow> daemon_event \<Rightarrow> daemon \<Rightarrow> daemon" where
  "daemon_do env ev d =
     (case ev of
        StartD now \<Rightarrow> start_daemon env now d
      | StopD \<Rightarrow> stop_daemon d
      | TickD now \<Rightarrow> snd (tick env now d)
      | FireD now name \<Rightarrow> snd (fire_trigger now name d)
      | SettleD now k outcome \<Rightarrow> (if k < length (dm_flight d) then snd (settle_run now k outcome d) else d)
      | AddD now i s \<Rightarrow> d\<lparr>dm_store := snd (add_schedule env now i s (dm_store d))\<rparr>
      | RemoveD i \<Rightarrow> d\<lparr>dm_store := snd (remove_schedule i (dm_store d))\<rparr>
      | EnableD now i b \<Rightarrow> d\<lparr>dm_store := snd (snd (set_enabled now i b (dm_store d)))\<rparr>)"

text \<open>The schedules an event starts.\<close>

definition starts :: "sched_env \<Rightarrow> daemon_event \<Rightarrow> daemon \<Rightarrow> schedule list" where
  "starts env ev d =
     (case ev of
        StartD now \<Rightarrow> (if dm_stopped d then to_start env now (d\<lparr>dm_stopped := False\<rparr>) else [])
      | TickD now \<Rightarrow> to_start env now d
      | FireD now name \<Rightarrow> triggered name d
      | _ \<Rightarrow> [])"

fun daemon_run :: "sched_env \<Rightarrow> daemon_event list \<Rightarrow> daemon \<Rightarrow> schedule list \<times> daemon" where
  "daemon_run env [] d = ([], d)"
| "daemon_run env (ev # evs) d =
     (case daemon_run env evs (daemon_do env ev d) of (ss, d') \<Rightarrow> (starts env ev d @ ss, d'))"

section \<open>Changing one schedule\<close>

abbreviation schedules :: "daemon \<Rightarrow> schedule list" where
  "schedules d \<equiv> sd_schedules (ss_data (dm_store d))"

definition ids_distinct :: "schedule list \<Rightarrow> bool" where
  "ids_distinct ss = distinct (map sc_id ss)"

lemma map_id_change [simp]:
  "(\<And>s. sc_id (f s) = sc_id s) \<Longrightarrow> map sc_id (change_first i f ss) = map sc_id ss"
  by (induction ss) auto

lemma ids_distinct_change [simp]:
  "(\<And>s. sc_id (f s) = sc_id s) \<Longrightarrow> ids_distinct (change_first i f ss) = ids_distinct ss"
  by (simp add: ids_distinct_def)

lemma set_change_first: "s \<in> set (change_first i f ss) \<Longrightarrow> s \<in> set ss \<or> (\<exists>s0\<in>set ss. sc_id s0 = i \<and> s = f s0)"
  by (induction ss) (auto split: if_splits)

text \<open>With distinct ids the first schedule with an id is the only one.\<close>

lemma change_first_only:
  assumes "ids_distinct ss" "\<And>s. sc_id (f s) = sc_id s" "s \<in> set (change_first i f ss)" "sc_id s = i"
  shows "\<exists>s0\<in>set ss. sc_id s0 = i \<and> s = f s0"
  using assms
proof (induction ss)
  case (Cons a ss)
  then show ?case by (cases "sc_id a = i") (auto simp: ids_distinct_def)
qed simp

lemma get_schedule_SomeD:
  "get_schedule i st = Some s \<Longrightarrow> s \<in> set (sd_schedules (ss_data st)) \<and> sc_id s = i"
  by (auto simp: get_schedule_def find_Some_iff)

lemma get_schedule_None:
  "get_schedule i st = None \<longleftrightarrow> (\<forall>s\<in>set (sd_schedules (ss_data st)). sc_id s \<noteq> i)"
  by (auto simp: get_schedule_def find_None_iff)

lemma store_schedules [simp]:
  "sd_schedules (ss_data (save_store st)) = sd_schedules (ss_data st)"
  "sd_schedules (ss_data (with_schedules f st)) = f (sd_schedules (ss_data st))"
  "sd_schedules (ss_data (record_run r st)) = sd_schedules (ss_data st)"
  by (simp_all add: save_store_def with_schedules_def record_run_def Let_def)

text \<open>What firing and enabling do to the schedules: only the one with the id changes, never in id or kind.\<close>

definition marks :: "nat \<Rightarrow> string \<Rightarrow> schedule list \<Rightarrow> schedule list \<Rightarrow> bool" where
  "marks now i ss ss' \<longleftrightarrow>
     (\<exists>f. (\<forall>s. sc_id (f s) = sc_id s \<and> sc_kind (f s) = sc_kind s \<and> sc_last (f s) = Some now) \<and> ss' = change_first i f ss)"

lemma change_first_change:
  "(\<And>s. sc_id (f s) = sc_id s) \<Longrightarrow> change_first i g (change_first i f ss) = change_first i (g \<circ> f) ss"
  by (induction ss) auto

lemma mark_fired_marks:
  assumes "mark_fired now i st = (err, st')"
  shows "sd_schedules (ss_data st') = sd_schedules (ss_data st) \<and> get_schedule i st = None
    \<or> marks now i (sd_schedules (ss_data st)) (sd_schedules (ss_data st'))"
proof (cases "get_schedule i st")
  case None
  with assms show ?thesis by (simp add: mark_fired_def)
next
  case (Some s)
  let ?m = "sc_last_update (\<lambda>_. Some now)"
  have "\<exists>g. (\<forall>s. sc_id (g s) = sc_id s \<and> sc_kind (g s) = sc_kind s \<and> sc_last (g s) = sc_last s)
      \<and> sd_schedules (ss_data st') = change_first i g (change_first i ?m (sd_schedules (ss_data st)))"
  proof (cases "sc_kind s")
    case CronKind
    show ?thesis
    proof (cases "next_run (sc_when s) now")
      case (Inl e)
      have "change_first i (\<lambda>s. s) ss = ss" for ss by (induction ss) auto
      with assms Some CronKind Inl show ?thesis by (intro exI [of _ "\<lambda>s. s"]) (auto simp: mark_fired_def Let_def)
    next
      case (Inr t)
      with assms Some CronKind show ?thesis
        by (intro exI [of _ "sc_next_update (\<lambda>_. Some t)"]) (auto simp: mark_fired_def Let_def)
    qed
  next
    case Once
    with assms Some show ?thesis
      by (intro exI [of _ "sc_enabled_update (\<lambda>_. False) \<circ> sc_next_update (\<lambda>_. None)"]) (auto simp: mark_fired_def Let_def)
  next
    case Trigger
    have "change_first i (\<lambda>s. s) ss = ss" for ss by (induction ss) auto
    with assms Some Trigger show ?thesis by (intro exI [of _ "\<lambda>s. s"]) (auto simp: mark_fired_def Let_def)
  next
    case AlwaysOn
    have "change_first i (\<lambda>s. s) ss = ss" for ss by (induction ss) auto
    with assms Some AlwaysOn show ?thesis by (intro exI [of _ "\<lambda>s. s"]) (auto simp: mark_fired_def Let_def)
  qed
  then obtain g where g: "\<forall>s. sc_id (g s) = sc_id s \<and> sc_kind (g s) = sc_kind s \<and> sc_last (g s) = sc_last s"
    "sd_schedules (ss_data st') = change_first i g (change_first i ?m (sd_schedules (ss_data st)))" by blast
  then have "sd_schedules (ss_data st') = change_first i (g \<circ> ?m) (sd_schedules (ss_data st))"
    by (simp add: change_first_change)
  with g(1) show ?thesis unfolding marks_def by (intro disjI2 exI [of _ "g \<circ> ?m"]) simp
qed

lemma set_enabled_keeps:
  "\<exists>f. (\<forall>s. sc_id (f s) = sc_id s \<and> sc_kind (f s) = sc_kind s \<and> sc_last (f s) = sc_last s)
    \<and> sd_schedules (ss_data (snd (snd (set_enabled now i b st)))) = change_first i f (sd_schedules (ss_data st))"
proof -
  have id: "change_first i (\<lambda>s. s) ss = ss" for ss by (induction ss) auto
  let ?e = "sc_enabled_update (\<lambda>_. b)"
  show ?thesis
  proof (cases "get_schedule i st")
    case None
    then show ?thesis by (intro exI [of _ "\<lambda>s. s"]) (simp add: set_enabled_def id)
  next
    case (Some s)
    show ?thesis
    proof (cases "b \<and> sc_kind s = CronKind")
      case False
      with Some show ?thesis by (intro exI [of _ ?e]) (auto simp: set_enabled_def Let_def)
    next
      case True
      show ?thesis
      proof (cases "next_run (sc_when s) now")
        case (Inl e)
        with Some True show ?thesis by (intro exI [of _ ?e]) (auto simp: set_enabled_def Let_def)
      next
        case (Inr t)
        with Some True show ?thesis
          by (intro exI [of _ "sc_next_update (\<lambda>_. Some t) \<circ> ?e"]) (auto simp: set_enabled_def Let_def change_first_change)
      qed
    qed
  qed
qed

lemma add_schedule_cases:
  "(\<exists>e. add_schedule env now i s st = (Inl e, st))
    \<or> (\<exists>c. add_schedule env now i s st = (Inr c, save_store (with_schedules (\<lambda>ss. ss @ [c]) st)) \<and> sc_id c = i)"
  by (auto simp: add_schedule_def Let_def split: sum.splits)

lemma remove_schedule_sub:
  "\<exists>P. sd_schedules (ss_data (snd (remove_schedule i st))) = filter P (sd_schedules (ss_data st))"
proof (cases "length (filter (\<lambda>s. sc_id s \<noteq> i) (sd_schedules (ss_data st))) = length (sd_schedules (ss_data st))")
  case True
  then show ?thesis by (intro exI [of _ "\<lambda>_. True"]) (simp add: remove_schedule_def Let_def)
next
  case False
  then show ?thesis by (intro exI [of _ "\<lambda>s. sc_id s \<noteq> i"]) (simp add: remove_schedule_def Let_def)
qed

section \<open>One run at a time\<close>

definition flight_ids :: "daemon \<Rightarrow> string list" where
  "flight_ids d = map (sc_id \<circ> fst) (dm_flight d)"

definition daemon_ok :: "daemon \<Rightarrow> bool" where
  "daemon_ok d \<longleftrightarrow> ids_distinct (schedules d) \<and> distinct (flight_ids d) \<and> distinct (dm_running d)
     \<and> set (flight_ids d) \<subseteq> set (dm_running d)"

lemma fold_begin:
  "dm_store (fold (begin_run now) ss d) = dm_store d"
  "dm_stopped (fold (begin_run now) ss d) = dm_stopped d"
  "flight_ids (fold (begin_run now) ss d) = flight_ids d @ map sc_id ss"
  "set (dm_running (fold (begin_run now) ss d)) = set (dm_running d) \<union> sc_id ` set ss"
  "distinct (dm_running d) \<Longrightarrow> distinct (dm_running (fold (begin_run now) ss d))"
  by (induction ss arbitrary: d) (auto simp: begin_run_def flight_ids_def)

lemma fold_begin_ok:
  assumes "daemon_ok d" "distinct (map sc_id ss)" "\<forall>s\<in>set ss. sc_id s \<notin> set (dm_running d)"
  shows "daemon_ok (fold (begin_run now) ss d)"
  using assms unfolding daemon_ok_def fold_begin(1,3,4) by (auto simp: fold_begin(5))

lemma distinct_map_filter2: "distinct (map f xs) \<Longrightarrow> distinct (map f (filter P xs))"
  by (induction xs) auto

lemma to_start_ok:
  assumes "ids_distinct (schedules d)"
  shows "distinct (map sc_id (to_start env now d))" "\<forall>s\<in>set (to_start env now d). sc_id s \<notin> set (dm_running d)"
    "set (to_start env now d) \<subseteq> {s \<in> set (schedules d). is_due env now s}"
  using assms by (auto simp: to_start_def due_schedules_def ids_distinct_def distinct_map_filter2)

lemma triggered_ok:
  assumes "ids_distinct (schedules d)"
  shows "distinct (map sc_id (triggered name d))" "\<forall>s\<in>set (triggered name d). sc_id s \<notin> set (dm_running d)"
    "set (triggered name d) \<subseteq> {s \<in> set (schedules d). sc_kind s = Trigger}"
  using assms by (auto simp: triggered_def ids_distinct_def distinct_map_filter2)

text \<open>The ids the user's additions will use.\<close>

fun added :: "daemon_event list \<Rightarrow> string list" where
  "added [] = []"
| "added (AddD now i s # evs) = i # added evs"
| "added (_ # evs) = added evs"

lemma settle_flight:
  assumes "k < length (dm_flight d)" "settle_run now k outcome d = (err, d')"
  shows "flight_ids d' = take k (flight_ids d) @ drop (Suc k) (flight_ids d)" "dm_stopped d' = dm_stopped d"
    "dm_running d' = (if err = None then remove1 (flight_ids d ! k) (dm_running d) else dm_running d)"
    "mark_fired now (flight_ids d ! k) (record_run (finished_run now (dm_flight d ! k) outcome) (dm_store d)) = (err, dm_store d')"
  using assms
  by (auto simp: settle_run_def Let_def flight_ids_def take_map drop_map split: prod.splits option.splits)

lemma marks_ids: "marks now i ss ss' \<Longrightarrow> map sc_id ss' = map sc_id ss"
  unfolding marks_def by auto

lemma settle_ids:
  assumes "k < length (dm_flight d)" "settle_run now k outcome d = (err, d')"
  shows "map sc_id (schedules d') = map sc_id (schedules d)"
  using mark_fired_marks [OF settle_flight(4) [OF assms]] by (auto dest: marks_ids)

lemma distinct_drop_nth: "distinct xs \<Longrightarrow> k < length xs \<Longrightarrow> distinct (take k xs @ drop (Suc k) xs) \<and> xs ! k \<notin> set (take k xs @ drop (Suc k) xs)"
  by (subst (asm) id_take_nth_drop [of k xs]) auto

lemma settle_ok:
  assumes "daemon_ok d" "k < length (dm_flight d)" "settle_run now k outcome d = (err, d')"
  shows "daemon_ok d'"
proof -
  have k: "k < length (flight_ids d)" using assms(2) by (simp add: flight_ids_def)
  note s = settle_flight [OF assms(2,3)]
  have sub: "set (take k (flight_ids d) @ drop (Suc k) (flight_ids d)) \<subseteq> set (flight_ids d)"
    by (auto dest: in_set_takeD in_set_dropD)
  from assms(1) distinct_drop_nth [OF _ k] sub settle_ids [OF assms(2,3)] show ?thesis
    unfolding daemon_ok_def s(1,3) ids_distinct_def by (auto simp: distinct_remove1)
qed

lemma daemon_do_ids:
  "(\<exists>P. map sc_id (schedules (daemon_do env ev d)) = map sc_id (filter P (schedules d)))
    \<or> (\<exists>now i s. ev = AddD now i s \<and> map sc_id (schedules (daemon_do env ev d)) = map sc_id (schedules d) @ [i])"
proof (cases ev)
  case (StartD now)
  then show ?thesis
    by (intro disjI1 exI [of _ "\<lambda>_. True"]) (auto simp: daemon_do_def start_daemon_def tick_def fold_begin)
next
  case StopD
  then show ?thesis by (intro disjI1 exI [of _ "\<lambda>_. True"]) (auto simp: daemon_do_def stop_daemon_def)
next
  case (TickD now)
  then show ?thesis by (intro disjI1 exI [of _ "\<lambda>_. True"]) (auto simp: daemon_do_def tick_def fold_begin)
next
  case (FireD now name)
  then show ?thesis by (intro disjI1 exI [of _ "\<lambda>_. True"]) (auto simp: daemon_do_def fire_trigger_def fold_begin)
next
  case (SettleD now k outcome)
  then show ?thesis
    using settle_ids [of k d now outcome "fst (settle_run now k outcome d)" "snd (settle_run now k outcome d)"]
    by (intro disjI1 exI [of _ "\<lambda>_. True"]) (auto simp: daemon_do_def)
next
  case (AddD now i s)
  then show ?thesis
    using add_schedule_cases [of env now i s "dm_store d"]
    by (auto simp: daemon_do_def intro: exI [of _ "\<lambda>_. True"])
next
  case (RemoveD i)
  then show ?thesis using remove_schedule_sub [of i "dm_store d"] by (auto simp: daemon_do_def)
next
  case (EnableD now i b)
  then show ?thesis
    using set_enabled_keeps [of now i b "dm_store d"]
    by (intro disjI1 exI [of _ "\<lambda>_. True"]) (auto simp: daemon_do_def)
qed

lemma daemon_do_ok:
  assumes "daemon_ok d" and "distinct (map sc_id (schedules d) @ added (ev # evs))"
  shows "daemon_ok (daemon_do env ev d) \<and> distinct (map sc_id (schedules (daemon_do env ev d)) @ added evs)"
proof
  from daemon_do_ids [of env ev d] show dist: "distinct (map sc_id (schedules (daemon_do env ev d)) @ added evs)"
  proof (elim disjE exE conjE)
    fix P assume "map sc_id (schedules (daemon_do env ev d)) = map sc_id (filter P (schedules d))"
    then show ?thesis using assms(2) by (cases ev) (auto simp: distinct_map_filter2)
  qed (use assms(2) in auto)
  have ids: "ids_distinct (schedules d)" using assms(2) by (simp add: ids_distinct_def)
  show "daemon_ok (daemon_do env ev d)"
  proof (cases ev)
    case (StartD now)
    let ?d = "d\<lparr>dm_stopped := False\<rparr>"
    have ok: "daemon_ok ?d" using assms(1) by (simp add: daemon_ok_def flight_ids_def)
    have "ids_distinct (schedules ?d)" using ids by simp
    from fold_begin_ok [OF ok to_start_ok(1,2) [OF this]] assms(1) StartD show ?thesis
      by (simp add: daemon_do_def start_daemon_def tick_def)
  next
    case StopD
    with assms(1) show ?thesis by (simp add: daemon_do_def stop_daemon_def daemon_ok_def flight_ids_def)
  next
    case (TickD now)
    with assms(1) fold_begin_ok [OF assms(1) to_start_ok(1,2) [OF ids]] show ?thesis by (simp add: daemon_do_def tick_def)
  next
    case (FireD now name)
    with fold_begin_ok [OF assms(1) triggered_ok(1,2) [OF ids]] show ?thesis by (simp add: daemon_do_def fire_trigger_def)
  next
    case (SettleD now k outcome)
    with assms(1) settle_ok [OF assms(1), of k now outcome "fst (settle_run now k outcome d)" "snd (settle_run now k outcome d)"]
    show ?thesis by (simp add: daemon_do_def)
  next
    case (AddD now i s)
    with assms(1) dist show ?thesis by (simp add: daemon_do_def daemon_ok_def flight_ids_def ids_distinct_def)
  next
    case (RemoveD i)
    with assms(1) dist show ?thesis by (simp add: daemon_do_def daemon_ok_def flight_ids_def ids_distinct_def)
  next
    case (EnableD now i b)
    with assms(1) dist show ?thesis by (simp add: daemon_do_def daemon_ok_def flight_ids_def ids_distinct_def)
  qed
qed

text \<open>The start of a run and its effect, for every event that is not the settling of one.\<close>

lemma settle_error_flight:
  assumes "daemon_ok d" "k < length (dm_flight d)" "settle_run now k outcome d = (err, d')"
  shows "flight_ids d ! k \<notin> set (flight_ids d')" "flight_ids d ! k \<in> set (dm_running d)"
proof -
  have k: "k < length (flight_ids d)" using assms(2) by (simp add: flight_ids_def)
  with assms(1) show "flight_ids d ! k \<in> set (dm_running d)" unfolding daemon_ok_def using nth_mem by blast
  from assms(1) distinct_drop_nth [OF _ k] show "flight_ids d ! k \<notin> set (flight_ids d')"
    unfolding settle_flight(1) [OF assms(2,3)] daemon_ok_def by blast
qed

lemma settle_other:
  assumes "k < length (dm_flight d)" "i \<noteq> flight_ids d ! k" "i \<in> set (dm_running d)"
  shows "i \<in> set (dm_running (snd (settle_run now k outcome d)))"
proof -
  obtain err d' where s: "settle_run now k outcome d = (err, d')" by fastforce
  from assms(2,3) show ?thesis unfolding s snd_conv settle_flight(3) [OF assms(1) s] by (auto simp: in_set_remove1)
qed

lemma settle_flight_sub:
  assumes "k < length (dm_flight d)"
  shows "set (flight_ids (snd (settle_run now k outcome d))) \<subseteq> set (flight_ids d)"
proof -
  obtain err d' where s: "settle_run now k outcome d = (err, d')" by fastforce
  show ?thesis unfolding s snd_conv settle_flight(1) [OF assms s] by (auto dest: in_set_takeD in_set_dropD)
qed

lemma starts_not_running: "s \<in> set (starts env ev d) \<Longrightarrow> sc_id s \<notin> set (dm_running d)"
  by (auto simp: starts_def to_start_def triggered_def split: daemon_event.splits if_splits)

lemma daemon_do_running:
  assumes "i \<in> set (dm_running d)"
    and "\<And>now k outcome. ev = SettleD now k outcome \<Longrightarrow> k < length (dm_flight d) \<Longrightarrow> flight_ids d ! k \<noteq> i"
  shows "i \<in> set (dm_running (daemon_do env ev d))"
proof (cases ev)
  case (SettleD now k outcome)
  with assms settle_other [of k d i now outcome] show ?thesis by (auto simp: daemon_do_def)
qed (use assms(1) in \<open>auto simp: daemon_do_def start_daemon_def stop_daemon_def tick_def fire_trigger_def fold_begin\<close>)

lemma daemon_do_flight:
  "set (flight_ids (daemon_do env ev d)) \<subseteq> set (flight_ids d) \<union> sc_id ` set (starts env ev d)"
proof (cases ev)
  case (SettleD now k outcome)
  with settle_flight_sub [of k d now outcome] show ?thesis by (auto simp: daemon_do_def)
next
  case (StartD now)
  have "flight_ids (d\<lparr>dm_stopped := False\<rparr>) = flight_ids d" by (simp add: flight_ids_def)
  with StartD show ?thesis by (auto simp: daemon_do_def start_daemon_def tick_def starts_def fold_begin(3))
qed (auto simp: daemon_do_def stop_daemon_def tick_def fire_trigger_def fold_begin(3) starts_def,
     auto simp: flight_ids_def)

lemma stuck_step:
  assumes "i \<in> set (dm_running d)" "i \<notin> set (flight_ids d)"
  shows "i \<in> set (dm_running (daemon_do env ev d))" "i \<notin> set (flight_ids (daemon_do env ev d))"
proof -
  show "i \<in> set (dm_running (daemon_do env ev d))"
    by (rule daemon_do_running [OF assms(1)]) (use assms(2) in \<open>auto simp: flight_ids_def\<close>)
  show "i \<notin> set (flight_ids (daemon_do env ev d))"
    using daemon_do_flight [of env ev d] starts_not_running [of _ env ev d] assms by blast
qed

lemma daemon_run_Cons [simp]:
  "fst (daemon_run env (ev # evs) d) = starts env ev d @ fst (daemon_run env evs (daemon_do env ev d))"
  "snd (daemon_run env (ev # evs) d) = snd (daemon_run env evs (daemon_do env ev d))"
  by (simp_all split: prod.splits)

declare daemon_run.simps(2) [simp del]

lemma stuck_run:
  assumes "i \<in> set (dm_running d)" "i \<notin> set (flight_ids d)" "s \<in> set (fst (daemon_run env evs d))"
  shows "sc_id s \<noteq> i"
  using assms
proof (induction evs arbitrary: d)
  case (Cons ev evs)
  then show ?case
    using stuck_step [OF Cons.prems(1,2), of env ev] starts_not_running [of s env ev d] by auto
qed simp

lemma daemon_run_ok:
  assumes "daemon_ok d" and "distinct (map sc_id (schedules d) @ added evs)"
  shows "daemon_ok (snd (daemon_run env evs d))"
  using assms
proof (induction evs arbitrary: d)
  case (Cons ev evs)
  from daemon_do_ok [OF Cons.prems, of env] Cons.IH [of "daemon_do env ev d"] show ?case by simp
qed simp

lemma new_daemon_ok: "distinct (map sc_id (schedules (new_daemon f))) \<Longrightarrow> daemon_ok (new_daemon f)"
  by (simp add: daemon_ok_def new_daemon_def ids_distinct_def flight_ids_def)

section \<open>What the daemon guarantees\<close>

definition sample_sched :: "schedule_kind \<Rightarrow> string \<Rightarrow> string \<Rightarrow> schedule" where
  "sample_sched kind i when = \<lparr>sc_id = i, sc_kind = kind, sc_when = when, sc_prompt = ''report'', sc_cwd = ''/w'',
     sc_enabled = True, sc_created = 1, sc_last = None, sc_next = Some 5\<rparr>"

definition sample_sched_env :: sched_env where
  "sample_sched_env = \<lparr>se_date = (\<lambda>s. if s = ''soon'' then Some 10 else None), se_locale = (\<lambda>_. ''10:00'')\<rparr>"

text \<open>
  C26. No schedule runs twice at the same time. Whatever ticks, triggers, settlements and edits a daemon
  goes through, if the ids in its file and those its user adds are distinct then the runs in flight
  have distinct ids, and each of them is marked as running.
\<close>

theorem single_flight:
  assumes "distinct (map sc_id (schedules (new_daemon f)) @ added evs)" and "daemon_run env evs (new_daemon f) = (started, d)"
  shows "distinct (map (sc_id \<circ> fst) (dm_flight d)) \<and> (\<forall>r\<in>set (dm_flight d). sc_id (fst r) \<in> set (dm_running d))"
proof -
  from daemon_run_ok [OF new_daemon_ok assms(1), of env] assms have "daemon_ok d" by simp
  then show ?thesis unfolding daemon_ok_def flight_ids_def by auto
qed

theorem single_flight_witness:
  "\<exists>started d. daemon_run sample_sched_env [StartD 20, TickD 30] (new_daemon (Parsed (Some [sample_sched AlwaysOn ''a'' '''', sample_sched Once ''b'' ''soon'']) None))
      = (started, d) \<and> distinct (map (sc_id \<circ> fst) (dm_flight d)) \<and> length (dm_flight d) = 2"
proof -
  let ?f = "Parsed (Some [sample_sched AlwaysOn ''a'' '''', sample_sched Once ''b'' ''soon'']) None"
  let ?r = "daemon_run sample_sched_env [StartD 20, TickD 30] (new_daemon ?f)"
  have "distinct (map sc_id (schedules (new_daemon ?f)) @ added [StartD 20, TickD 30])" by code_simp
  from single_flight [OF this prod.collapse [symmetric]]
  have "distinct (map (sc_id \<circ> fst) (dm_flight (snd ?r)))" by (rule conjunct1)
  moreover have "length (dm_flight (snd ?r)) = 2" by code_simp
  ultimately show ?thesis by (intro exI conjI) (rule prod.collapse [symmetric])
qed

text \<open>
  A run whose settlement throws is never forgotten. When the next time of the schedule cannot be
  computed as its run settles, the throw leaves the schedule marked as running, and whatever happens
  afterwards this daemon never starts it again.
\<close>

theorem throw_blocks_schedule:
  assumes "daemon_ok d" and "k < length (dm_flight d)" and "settle_run now k outcome d = (Some e, d')"
    and "s \<in> set (fst (daemon_run env evs d'))"
  shows "sc_id s \<noteq> sc_id (fst (dm_flight d ! k))"
proof -
  have i: "flight_ids d ! k = sc_id (fst (dm_flight d ! k))" using assms(2) by (simp add: flight_ids_def)
  have "flight_ids d ! k \<in> set (dm_running d')"
    using settle_error_flight(2) [OF assms(1-3)] settle_flight(3) [OF assms(2,3)] by simp
  from stuck_run [OF this settle_error_flight(1) [OF assms(1-3)] assms(4)] show ?thesis by (simp add: i)
qed

theorem throw_blocks_schedule_witness:
  "\<exists>d. fst (settle_run 1767225600000 0 (Inr ''done'') (snd (daemon_run sample_sched_env [StartD 20]
            (new_daemon (Parsed (Some [sample_sched CronKind ''a'' ''0 0 29 2 1'']) None))))) = Some (quoted ''0 0 29 2 1'' @ '' never fires'')
     \<and> snd (settle_run 1767225600000 0 (Inr ''done'') (snd (daemon_run sample_sched_env [StartD 20]
            (new_daemon (Parsed (Some [sample_sched CronKind ''a'' ''0 0 29 2 1'']) None))))) = d
     \<and> \<not> (\<exists>s\<in>set (fst (daemon_run sample_sched_env [TickD 1767225700000, EnableD 1767225800000 ''a'' True, TickD 1767225900000] d)). sc_id s = ''a'')"
proof -
  define s where "s = sample_sched CronKind ''a'' ''0 0 29 2 1''"
  define d where "d = snd (daemon_run sample_sched_env [StartD 20] (new_daemon (Parsed (Some [s]) None)))"
  have d: "dm_flight d = [(s, 20)]" "dm_running d = [''a'']" "schedules d = [s]" "sc_id s = ''a''"
    "sc_kind s = CronKind" "sc_when s = ''0 0 29 2 1''"
    by (simp_all add: d_def s_def new_daemon_def open_store_def load_store_def daemon_do_def start_daemon_def tick_def to_start_def
        due_schedules_def is_due_def sample_sched_def begin_run_def)
  have ok: "daemon_ok d" by (simp add: daemon_ok_def flight_ids_def d ids_distinct_def)
  let ?r = "settle_run 1767225600000 0 (Inr ''done'') d"
  have thrown: "fst ?r = Some (quoted ''0 0 29 2 1'' @ '' never fires'')"
    by (simp add: settle_run_def mark_fired_def get_schedule_def d Let_def leap_monday_given_up)
  then have r: "?r = (Some (quoted ''0 0 29 2 1'' @ '' never fires''), snd ?r)" by (metis prod.collapse)
  have "sc_id x \<noteq> ''a''" if "x \<in> set (fst (daemon_run sample_sched_env evs (snd ?r)))" for x evs
    using throw_blocks_schedule [OF ok _ r that] d by simp
  then show ?thesis using thrown unfolding d_def [symmetric] s_def [symmetric] by blast
qed

section \<open>A one-off schedule\<close>

definition once_only :: "string \<Rightarrow> daemon \<Rightarrow> bool" where
  "once_only i d \<longleftrightarrow> (\<forall>s\<in>set (schedules d). sc_id s = i \<longrightarrow> sc_kind s = Once)"

definition spent :: "string \<Rightarrow> daemon \<Rightarrow> bool" where
  "spent i d \<longleftrightarrow> i \<in> set (dm_running d) \<or> (\<forall>s\<in>set (schedules d). sc_id s = i \<longrightarrow> (\<exists>t>0. sc_last s = Some t))"

fun only_once :: "string \<Rightarrow> daemon_event \<Rightarrow> bool" where
  "only_once i (AddD now j s) = (j = i \<longrightarrow> sc_kind s = Once)"
| "only_once i (SettleD now k outcome) = (now > 0)"
| "only_once i _ = True"

lemma once_starts:
  assumes "once_only i d" "s \<in> set (starts env ev d)" "sc_id s = i"
  shows "sc_kind s = Once \<and> (sc_last s = None \<or> sc_last s = Some 0) \<and> s \<in> set (schedules d)"
  using assms
  by (auto simp: once_only_def starts_def to_start_def due_schedules_def triggered_def is_due_def
      split: daemon_event.splits if_splits schedule_kind.splits option.splits)

lemma spent_no_start:
  assumes "once_only i d" "spent i d" "s \<in> set (starts env ev d)"
  shows "sc_id s \<noteq> i"
proof
  assume i: "sc_id s = i"
  from once_starts [OF assms(1,3) i] starts_not_running [OF assms(3)] assms(2) i show False unfolding spent_def by auto
qed

lemma starts_distinct:
  assumes "ids_distinct (schedules d)"
  shows "distinct (map sc_id (starts env ev d))"
  using assms to_start_ok(1) [OF assms] to_start_ok(1) [of "d\<lparr>dm_stopped := False\<rparr>" env] triggered_ok(1) [OF assms]
  by (cases ev) (auto simp: starts_def)

lemma count_distinct_le: "distinct (map f xs) \<Longrightarrow> length (filter (\<lambda>x. f x = i) xs) \<le> 1"
proof (induction xs)
  case (Cons x xs)
  then show ?case by (cases "f x = i") (auto simp: filter_empty_conv image_iff)
qed simp

lemma starts_running:
  assumes "s \<in> set (starts env ev d)"
  shows "sc_id s \<in> set (dm_running (daemon_do env ev d))"
  using assms
  by (auto simp: starts_def daemon_do_def start_daemon_def tick_def fire_trigger_def fold_begin(4)
      split: daemon_event.splits if_splits)

text \<open>What an event does to the schedules with one id, where ids are distinct.\<close>

lemma settle_schedules:
  assumes "ids_distinct (schedules d)" "k < length (dm_flight d)" "settle_run now k outcome d = (err, d')" "s \<in> set (schedules d')"
  shows "\<exists>s0\<in>set (schedules d). sc_id s = sc_id s0 \<and> sc_kind s = sc_kind s0
    \<and> (sc_last s = sc_last s0 \<or> sc_last s = Some now) \<and> (sc_id s = flight_ids d ! k \<longrightarrow> sc_last s = Some now)"
proof -
  let ?i = "flight_ids d ! k"
  from mark_fired_marks [OF settle_flight(4) [OF assms(2,3)]]
  consider "schedules d' = schedules d" "\<forall>s\<in>set (schedules d). sc_id s \<noteq> ?i"
    | "marks now ?i (schedules d) (schedules d')"
    by (auto simp: get_schedule_None)
  then show ?thesis
  proof cases
    case 1
    with assms(4) show ?thesis by auto
  next
    case 2
    then obtain f where f: "\<And>s. sc_id (f s) = sc_id s" "\<And>s. sc_kind (f s) = sc_kind s" "\<And>s. sc_last (f s) = Some now"
      "schedules d' = change_first ?i f (schedules d)" unfolding marks_def by blast
    show ?thesis
    proof (cases "sc_id s = ?i")
      case True
      from change_first_only [OF assms(1) f(1) _ True] assms(4) f show ?thesis by auto
    next
      case False
      with set_change_first [of s ?i f "schedules d"] assms(4) f show ?thesis by auto
    qed
  qed
qed

lemma set_enabled_schedules:
  assumes "s \<in> set (sd_schedules (ss_data (snd (snd (set_enabled now i b st)))))"
  shows "\<exists>s0\<in>set (sd_schedules (ss_data st)). sc_id s = sc_id s0 \<and> sc_kind s = sc_kind s0 \<and> sc_last s = sc_last s0"
proof -
  obtain f where f: "\<And>s. sc_id (f s) = sc_id s \<and> sc_kind (f s) = sc_kind s \<and> sc_last (f s) = sc_last s"
    "sd_schedules (ss_data (snd (snd (set_enabled now i b st)))) = change_first i f (sd_schedules (ss_data st))"
    using set_enabled_keeps [of now i b st] by blast
  from set_change_first [OF assms [unfolded f(2)]] f(1) show ?thesis by fastforce
qed

lemma add_schedule_set:
  assumes "s \<in> set (sd_schedules (ss_data (snd (add_schedule env now i s0 st))))"
  shows "s \<in> set (sd_schedules (ss_data st)) \<or> sc_id s = i \<and> sc_kind s = sc_kind s0"
  using assms by (auto simp: add_schedule_def Let_def split: sum.splits if_splits)

lemma daemon_do_once:
  assumes "daemon_ok d" "once_only i d" "only_once i ev"
  shows "once_only i (daemon_do env ev d)"
proof (cases ev)
  case (SettleD now k outcome)
  show ?thesis
  proof (cases "k < length (dm_flight d)")
    case True
    obtain err d' where s: "settle_run now k outcome d = (err, d')" by fastforce
    from settle_schedules [OF _ True s] assms SettleD s True show ?thesis
      by (fastforce simp: once_only_def daemon_do_def daemon_ok_def)
  qed (use assms SettleD in \<open>simp add: daemon_do_def\<close>)
next
  case (AddD now j s)
  show ?thesis unfolding once_only_def
  proof (intro ballI impI)
    fix x assume "x \<in> set (schedules (daemon_do env ev d))" "sc_id x = i"
    with AddD add_schedule_set [of x env now j s "dm_store d"] assms show "sc_kind x = Once"
      by (auto simp: once_only_def daemon_do_def)
  qed
next
  case (RemoveD j)
  with assms remove_schedule_sub [of j "dm_store d"] show ?thesis by (auto simp: once_only_def daemon_do_def)
next
  case (EnableD now j b)
  with assms show ?thesis using set_enabled_schedules [of _ now j b "dm_store d"] by (fastforce simp: once_only_def daemon_do_def)
qed (use assms in \<open>auto simp: once_only_def daemon_do_def start_daemon_def stop_daemon_def tick_def fire_trigger_def fold_begin\<close>)

lemma daemon_do_spent:
  assumes "daemon_ok d" "spent i d" "only_once i ev" "i \<notin> set (added [ev])"
  shows "spent i (daemon_do env ev d)"
proof (cases ev)
  case (SettleD now k outcome)
  show ?thesis
  proof (cases "k < length (dm_flight d)")
    case True
    obtain err d' where s: "settle_run now k outcome d = (err, d')" by fastforce
    have dd: "daemon_do env ev d = d'" using SettleD True s by (simp add: daemon_do_def)
    have ids: "ids_distinct (schedules d)" using assms(1) by (simp add: daemon_ok_def)
    have now: "now > 0" using assms(3) SettleD by simp
    show ?thesis
    proof (cases "i \<in> set (dm_running d) \<and> i \<noteq> flight_ids d ! k")
      case True
      with settle_other [OF \<open>k < length (dm_flight d)\<close>, of i now outcome] s show ?thesis
        unfolding spent_def dd by simp
    next
      case False
      have "\<exists>t>0. sc_last x = Some t" if x: "x \<in> set (schedules d')" "sc_id x = i" for x
      proof -
        from settle_schedules [OF ids True s x(1)] obtain s0 where s0: "s0 \<in> set (schedules d)" "sc_id x = sc_id s0"
          "sc_last x = sc_last s0 \<or> sc_last x = Some now" "sc_id x = flight_ids d ! k \<longrightarrow> sc_last x = Some now" by blast
        show ?thesis
        proof (cases "i = flight_ids d ! k")
          case True
          with s0(4) x(2) now show ?thesis by simp
        next
          case neq: False
          with False assms(2) s0(1,2) x(2) have "\<exists>t>0. sc_last s0 = Some t" unfolding spent_def by auto
          with s0(3) now show ?thesis by auto
        qed
      qed
      then show ?thesis unfolding spent_def dd by blast
    qed
  qed (use assms SettleD in \<open>simp add: daemon_do_def\<close>)
next
  case (AddD now j s)
  have j: "j \<noteq> i" using assms(4) AddD by auto
  have "\<And>x. x \<in> set (schedules (daemon_do env ev d)) \<Longrightarrow> sc_id x = i \<Longrightarrow> x \<in> set (schedules d)"
    using add_schedule_set [of _ env now j s "dm_store d"] AddD j by (auto simp: daemon_do_def)
  moreover have "dm_running (daemon_do env ev d) = dm_running d" using AddD by (simp add: daemon_do_def)
  ultimately show ?thesis using assms(2) unfolding spent_def by auto
next
  case (RemoveD j)
  with assms(2) remove_schedule_sub [of j "dm_store d"] show ?thesis by (auto simp: spent_def daemon_do_def)
next
  case (EnableD now j b)
  have "\<exists>s0\<in>set (schedules d). sc_id x = sc_id s0 \<and> sc_last x = sc_last s0"
    if "x \<in> set (schedules (daemon_do env ev d))" for x
    using set_enabled_schedules [of x now j b "dm_store d"] that EnableD by (auto simp: daemon_do_def)
  moreover have "dm_running (daemon_do env ev d) = dm_running d" using EnableD by (simp add: daemon_do_def)
  ultimately show ?thesis using assms(2) unfolding spent_def by fastforce
qed (use assms(2) in \<open>auto simp: spent_def daemon_do_def start_daemon_def stop_daemon_def tick_def fire_trigger_def fold_begin\<close>)

lemma spent_run:
  assumes "daemon_ok d" "distinct (map sc_id (schedules d) @ added evs)" "once_only i d" "spent i d"
    "list_all (only_once i) evs" "i \<notin> set (added evs)" "s \<in> set (fst (daemon_run env evs d))"
  shows "sc_id s \<noteq> i"
  using assms
proof (induction evs arbitrary: d)
  case (Cons ev evs)
  note ok = daemon_do_ok [OF Cons.prems(1,2), of env]
  have ev: "only_once i ev" "list_all (only_once i) evs" using Cons.prems(5) by simp_all
  have i: "i \<notin> set (added [ev])" "i \<notin> set (added evs)" using Cons.prems(6) by (cases ev; simp)+
  from Cons.prems(7) spent_no_start [OF Cons.prems(3,4)]
    Cons.IH [OF conjunct1 [OF ok] conjunct2 [OF ok] daemon_do_once [OF Cons.prems(1,3) ev(1)]
      daemon_do_spent [OF Cons.prems(1,4) ev(1) i(1)] ev(2) i(2)]
  show ?case by auto
qed simp

lemma once_run:
  assumes "daemon_ok d" "distinct (map sc_id (schedules d) @ added evs)" "once_only i d" "list_all (only_once i) evs"
  shows "length (filter (\<lambda>s. sc_id s = i) (fst (daemon_run env evs d))) \<le> 1"
  using assms
proof (induction evs arbitrary: d)
  case (Cons ev evs)
  let ?d = "daemon_do env ev d"
  note ok = daemon_do_ok [OF Cons.prems(1,2), of env]
  have ev: "only_once i ev" "list_all (only_once i) evs" using Cons.prems(4) by simp_all
  note once = daemon_do_once [OF Cons.prems(1,3) ev(1), of env]
  show ?case
  proof (cases "\<exists>s\<in>set (starts env ev d). sc_id s = i")
    case False
    then have "filter (\<lambda>s. sc_id s = i) (starts env ev d) = []" by (simp add: filter_empty_conv)
    with Cons.IH [OF conjunct1 [OF ok] conjunct2 [OF ok] once ev(2)] show ?thesis by simp
  next
    case True
    then obtain s where s: "s \<in> set (starts env ev d)" "sc_id s = i" by blast
    have "spent i ?d" using starts_running [OF s(1)] s(2) by (simp add: spent_def)
    moreover have "i \<notin> set (added evs)"
      using once_starts [OF Cons.prems(3) s] s(2) Cons.prems(2) by (cases ev) auto
    ultimately have "filter (\<lambda>s. sc_id s = i) (fst (daemon_run env evs ?d)) = []"
      using spent_run [OF conjunct1 [OF ok] conjunct2 [OF ok] once _ ev(2)] by (auto simp: filter_empty_conv)
    moreover have "ids_distinct (schedules d)" using Cons.prems(1) by (simp add: daemon_ok_def)
    ultimately show ?thesis using count_distinct_le [OF starts_distinct [of d env ev], of i] by simp
  qed
qed simp

text \<open>
  C27. A one-off schedule is started at most once. Over any sequence of ticks, triggers, settlements,
  edits and restarts of the timer, however late and however often the daemon polls, and whether or not
  the run fails, a schedule of kind \<open>once\<close> is started at most one time.
\<close>

theorem once_started_once:
  assumes "distinct (map sc_id (schedules (new_daemon f)) @ added evs)"
    and "\<forall>s\<in>set (schedules (new_daemon f)). sc_id s = i \<longrightarrow> sc_kind s = Once"
    and "list_all (only_once i) evs"
  shows "length (filter (\<lambda>s. sc_id s = i) (fst (daemon_run env evs (new_daemon f)))) \<le> 1"
proof -
  have "once_only i (new_daemon f)" using assms(2) by (simp add: once_only_def)
  from once_run [OF new_daemon_ok assms(1) this assms(3)] assms(1) show ?thesis by simp
qed

theorem once_started_once_witness:
  "map sc_id (fst (daemon_run sample_sched_env [StartD 5, TickD 20, TickD 30, SettleD 40 0 (Inl ''boom''), TickD 50, EnableD 60 ''b'' True, TickD 70]
      (new_daemon (Parsed (Some [sample_sched Once ''b'' ''soon'']) None)))) = [''b'']
    \<and> length (filter (\<lambda>s. sc_id s = ''b'') (fst (daemon_run sample_sched_env
        [StartD 5, TickD 20, TickD 30, SettleD 40 0 (Inl ''boom''), TickD 50, EnableD 60 ''b'' True, TickD 70]
        (new_daemon (Parsed (Some [sample_sched Once ''b'' ''soon'']) None))))) \<le> 1"
proof
  let ?f = "Parsed (Some [sample_sched Once ''b'' ''soon'']) None"
  let ?evs = "[StartD 5, TickD 20, TickD 30, SettleD 40 0 (Inl ''boom''), TickD 50, EnableD 60 ''b'' True, TickD 70]"
  show "map sc_id (fst (daemon_run sample_sched_env ?evs (new_daemon ?f))) = [''b'']" by code_simp
  have "distinct (map sc_id (schedules (new_daemon ?f)) @ added ?evs)"
    "\<forall>s\<in>set (schedules (new_daemon ?f)). sc_id s = ''b'' \<longrightarrow> sc_kind s = Once" "list_all (only_once ''b'') ?evs" by code_simp+
  then show "length (filter (\<lambda>s. sc_id s = ''b'') (fst (daemon_run sample_sched_env ?evs (new_daemon ?f)))) \<le> 1"
    by (rule once_started_once)
qed

section \<open>Restarting\<close>

definition synced :: "sched_store \<Rightarrow> bool" where
  "synced st \<longleftrightarrow> load_store (ss_file st) = ss_data st"

lemma synced_save [simp]: "synced (save_store st)"
  by (simp add: synced_def save_store_def load_store_def Let_def)

lemma synced_open [simp]: "synced (open_store f)"
  by (simp add: synced_def open_store_def)

text \<open>Whether an event's call threw.\<close>

definition threw :: "daemon_event \<Rightarrow> daemon \<Rightarrow> bool" where
  "threw ev d =
     (case ev of
        SettleD now k outcome \<Rightarrow> k < length (dm_flight d) \<and> fst (settle_run now k outcome d) \<noteq> None
      | EnableD now i b \<Rightarrow> fst (set_enabled now i b (dm_store d)) \<noteq> None
      | _ \<Rightarrow> False)"

fun calm :: "sched_env \<Rightarrow> daemon_event list \<Rightarrow> daemon \<Rightarrow> bool" where
  "calm env [] d = True"
| "calm env (ev # evs) d = (\<not> threw ev d \<and> calm env evs (daemon_do env ev d))"

lemma synced_ops:
  assumes "synced st"
  shows "synced (snd (add_schedule env now i s st))" "synced (snd (remove_schedule i st))"
    "fst (set_enabled now i b st) = None \<Longrightarrow> synced (snd (snd (set_enabled now i b st)))"
    "fst (mark_fired now i (record_run r st)) = None \<Longrightarrow> synced (snd (mark_fired now i (record_run r st)))"
  using assms
  by (auto simp: add_schedule_def remove_schedule_def set_enabled_def mark_fired_def record_run_def Let_def
      split: sum.splits option.splits schedule_kind.splits if_splits)

lemma daemon_do_synced:
  assumes "synced (dm_store d)" "\<not> threw ev d"
  shows "synced (dm_store (daemon_do env ev d))"
proof (cases ev)
  case (SettleD now k outcome)
  show ?thesis
  proof (cases "k < length (dm_flight d)")
    case True
    with assms(2) SettleD obtain d' where s: "settle_run now k outcome d = (None, d')" by (auto simp: threw_def prod_eq_iff)
    from synced_ops(4) [OF assms(1)] settle_flight(4) [OF True s] have "synced (dm_store d')" by (metis fst_conv snd_conv)
    then show ?thesis using SettleD True s by (simp add: daemon_do_def)
  qed (use assms SettleD in \<open>simp add: daemon_do_def\<close>)
qed (use assms synced_ops [OF assms(1)] in \<open>auto simp: daemon_do_def threw_def start_daemon_def stop_daemon_def tick_def fire_trigger_def fold_begin\<close>)

lemma calm_synced:
  "calm env evs d \<Longrightarrow> synced (dm_store d) \<Longrightarrow> synced (dm_store (snd (daemon_run env evs d)))"
  by (induction evs arbitrary: d) (auto simp: daemon_do_synced)

text \<open>
  A restart loses nothing. Whatever a daemon has been through, as long as no call threw, opening
  its file again gives exactly the schedules and the history it had in memory.
\<close>

theorem restart_recovers:
  assumes "calm env evs (new_daemon f)" and "daemon_run env evs (new_daemon f) = (started, d)"
  shows "ss_data (dm_store (new_daemon (ss_file (dm_store d)))) = ss_data (dm_store d)"
proof -
  have "synced (dm_store (new_daemon f))" by (simp add: new_daemon_def)
  from calm_synced [OF assms(1) this] assms(2) show ?thesis by (simp add: synced_def new_daemon_def open_store_def)
qed

theorem restart_recovers_witness:
  "\<exists>started d. daemon_run sample_sched_env [AddD 3 ''b'' (sample_sched Once ''x'' ''soon''), StartD 20, SettleD 40 0 (Inr ''ok'')] (new_daemon NoFile) = (started, d)
     \<and> map sc_id (schedules (new_daemon (ss_file (dm_store d)))) = [''b'']
     \<and> ss_data (dm_store (new_daemon (ss_file (dm_store d)))) = ss_data (dm_store d)"
proof -
  let ?evs = "[AddD 3 ''b'' (sample_sched Once ''x'' ''soon''), StartD 20, SettleD 40 0 (Inr ''ok'')]"
  let ?r = "daemon_run sample_sched_env ?evs (new_daemon NoFile)"
  have "calm sample_sched_env ?evs (new_daemon NoFile)" by code_simp
  from restart_recovers [OF this prod.collapse [symmetric]]
  have "ss_data (dm_store (new_daemon (ss_file (dm_store (snd ?r))))) = ss_data (dm_store (snd ?r))" .
  moreover have "map sc_id (schedules (new_daemon (ss_file (dm_store (snd ?r))))) = [''b'']" by code_simp
  ultimately show ?thesis by (intro exI conjI) (rule prod.collapse [symmetric])
qed

end
