(* ===== verification/TeamLock.thy ===== *)
theory TeamLock
  imports Jean_Prelude
begin

text \<open>
  The lock file of \<open>packages/teams/src/index.ts\<close> and the transaction run under it, as several
  processes interleave them.

  A process takes one step at a time: the exclusive creation of the lock file, the look at its age, its
  removal, the read of the data file, the write of the temporary file, the rename, the release. The
  schedule is a list of actions; time only passes when an action says so, and a process may die at any
  point. What a transaction does to the data is the parameter \<open>f\<close>: the task list and the mailbox
  instantiate it.
\<close>

section \<open>Processes\<close>

datatype ('a, 'op, 'r) phase =
    Resting
  | Trying 'op nat
  | Busy 'op nat
  | Removing 'op nat
  | Holding 'op
  | Loaded 'op "'a list"
  | Saved 'op "'a list" 'r
  | Leaving "'r option"
  | Returned 'r
  | Threw
  | Dead

record ('a, 'op, 'r) team_fs =
  tf_file :: "'a list option"
  tf_temp :: "'a list option"
  tf_lock :: "nat option"
  tf_now :: nat
  tf_proc :: "nat \<Rightarrow> ('a, 'op, 'r) phase"

text \<open>A missing file and one that does not parse both read as an empty list.\<close>

definition read_file :: "'a list option \<Rightarrow> 'a list" where
  "read_file f = (case f of None \<Rightarrow> [] | Some xs \<Rightarrow> xs)"

definition stale_ms :: nat where "stale_ms = 30000"

definition acquire_timeout :: nat where "acquire_timeout = 5000"

text \<open>The \<open>.at\<close> file \<open>isStale\<close> asks for first is written nowhere, so the age is that of the lock file.\<close>

definition is_stale :: "('a, 'op, 'r) team_fs \<Rightarrow> bool" where
  "is_stale w = (case tf_lock w of None \<Rightarrow> False | Some t \<Rightarrow> tf_now w - t > stale_ms)"

definition set_phase :: "nat \<Rightarrow> ('a, 'op, 'r) phase \<Rightarrow> ('a, 'op, 'r) team_fs \<Rightarrow> ('a, 'op, 'r) team_fs" where
  "set_phase p ph w = w\<lparr>tf_proc := (tf_proc w)(p := ph)\<rparr>"

datatype ('op, 'r) label = Silent | Removed | Committed nat 'op 'r

definition go :: "('op \<Rightarrow> 'a list \<Rightarrow> 'a list \<times> 'r) \<Rightarrow> nat \<Rightarrow> ('a, 'op, 'r) team_fs \<Rightarrow> ('a, 'op, 'r) team_fs \<times> ('op, 'r) label" where
  "go f p w =
     (case tf_proc w p of
        Trying op dl \<Rightarrow>
          (if tf_now w < dl
           then (case tf_lock w of
                   None \<Rightarrow> (set_phase p (Holding op) (w\<lparr>tf_lock := Some (tf_now w)\<rparr>), Silent)
                 | Some t \<Rightarrow> (set_phase p (Busy op dl) w, Silent))
           else (set_phase p Threw w, Silent))
      | Busy op dl \<Rightarrow> (set_phase p (if is_stale w then Removing op dl else Trying op dl) w, Silent)
      | Removing op dl \<Rightarrow> (set_phase p (Trying op dl) (w\<lparr>tf_lock := None\<rparr>), Removed)
      | Holding op \<Rightarrow> (set_phase p (Loaded op (read_file (tf_file w))) w, Silent)
      | Loaded op xs \<Rightarrow> (set_phase p (Saved op (fst (f op xs)) (snd (f op xs))) (w\<lparr>tf_temp := Some (fst (f op xs))\<rparr>), Silent)
      | Saved op xs r \<Rightarrow>
          (case tf_temp w of
             None \<Rightarrow> (set_phase p (Leaving None) w, Silent)
           | Some ys \<Rightarrow> (set_phase p (Leaving (Some r)) (w\<lparr>tf_file := Some ys, tf_temp := None\<rparr>), Committed p op r))
      | Leaving r \<Rightarrow> (set_phase p (case r of None \<Rightarrow> Threw | Some x \<Rightarrow> Returned x) (w\<lparr>tf_lock := None\<rparr>), Silent)
      | _ \<Rightarrow> (w, Silent))"

text \<open>A process starts a call only between calls, and does not come back from the dead.\<close>

fun at_rest :: "('a, 'op, 'r) phase \<Rightarrow> bool" where
  "at_rest Resting = True"
| "at_rest (Returned r) = True"
| "at_rest Threw = True"
| "at_rest _ = False"

datatype 'op action = Call nat 'op | Go nat | Die nat | Wait nat

definition lock_do :: "('op \<Rightarrow> 'a list \<Rightarrow> 'a list \<times> 'r) \<Rightarrow> 'op action \<Rightarrow> ('a, 'op, 'r) team_fs \<Rightarrow> ('a, 'op, 'r) team_fs \<times> ('op, 'r) label" where
  "lock_do f a w =
     (case a of
        Call p op \<Rightarrow> ((if at_rest (tf_proc w p) then set_phase p (Trying op (tf_now w + acquire_timeout)) w else w), Silent)
      | Go p \<Rightarrow> go f p w
      | Die p \<Rightarrow> (set_phase p Dead w, Silent)
      | Wait n \<Rightarrow> (w\<lparr>tf_now := tf_now w + n\<rparr>, Silent))"

fun lock_run :: "('op \<Rightarrow> 'a list \<Rightarrow> 'a list \<times> 'r) \<Rightarrow> 'op action list \<Rightarrow> ('a, 'op, 'r) team_fs \<Rightarrow> ('a, 'op, 'r) team_fs \<times> ('op, 'r) label list" where
  "lock_run f [] w = (w, [])"
| "lock_run f (a # as) w =
     (case lock_do f a w of (w', l) \<Rightarrow> (case lock_run f as w' of (w'', ls) \<Rightarrow> (w'', l # ls)))"

definition new_team :: "'a list option \<Rightarrow> ('a, 'op, 'r) team_fs" where
  "new_team file = \<lparr>tf_file = file, tf_temp = None, tf_lock = None, tf_now = 0, tf_proc = (\<lambda>_. Resting)\<rparr>"

section \<open>What a run committed\<close>

fun commits :: "('op, 'r) label list \<Rightarrow> ('op \<times> 'r) list" where
  "commits [] = []"
| "commits (Committed p op r # ls) = (op, r) # commits ls"
| "commits (l # ls) = commits ls"

text \<open>The transactions one after another.\<close>

fun serial :: "('op \<Rightarrow> 'a list \<Rightarrow> 'a list \<times> 'r) \<Rightarrow> 'op list \<Rightarrow> 'a list \<Rightarrow> 'a list \<times> 'r list" where
  "serial f [] xs = (xs, [])"
| "serial f (op # ops) xs =
     (case f op xs of (ys, r) \<Rightarrow> (case serial f ops ys of (zs, rs) \<Rightarrow> (zs, r # rs)))"

lemma serial_Cons [simp]:
  "fst (serial f (op # ops) xs) = fst (serial f ops (fst (f op xs)))"
  "snd (serial f (op # ops) xs) = snd (f op xs) # snd (serial f ops (fst (f op xs)))"
  by (simp_all split: prod.splits)

lemma lock_run_Cons [simp]:
  "fst (lock_run f (a # as) w) = fst (lock_run f as (fst (lock_do f a w)))"
  "snd (lock_run f (a # as) w) = snd (lock_do f a w) # snd (lock_run f as (fst (lock_do f a w)))"
  by (simp_all split: prod.splits)

declare serial.simps(2) [simp del] lock_run.simps(2) [simp del]

section \<open>Mutual exclusion\<close>

fun inside :: "('a, 'op, 'r) phase \<Rightarrow> bool" where
  "inside (Holding op) = True"
| "inside (Loaded op xs) = True"
| "inside (Saved op xs r) = True"
| "inside (Leaving r) = True"
| "inside _ = False"

text \<open>What a process inside the lock knows about the two files.\<close>

fun knows :: "('op \<Rightarrow> 'a list \<Rightarrow> 'a list \<times> 'r) \<Rightarrow> ('a, 'op, 'r) team_fs \<Rightarrow> ('a, 'op, 'r) phase \<Rightarrow> bool" where
  "knows f w (Loaded op xs) = (xs = read_file (tf_file w))"
| "knows f w (Saved op xs r) = (tf_temp w = Some xs \<and> f op (read_file (tf_file w)) = (xs, r))"
| "knows f w _ = True"

definition lock_inv :: "('op \<Rightarrow> 'a list \<Rightarrow> 'a list \<times> 'r) \<Rightarrow> ('a, 'op, 'r) team_fs \<Rightarrow> bool" where
  "lock_inv f w \<longleftrightarrow>
     (\<forall>p q. inside (tf_proc w p) \<longrightarrow> inside (tf_proc w q) \<longrightarrow> p = q)
     \<and> (\<forall>p. inside (tf_proc w p) \<longrightarrow> tf_lock w \<noteq> None)
     \<and> (\<forall>p. knows f w (tf_proc w p))"

lemma lock_inv_new [simp]: "lock_inv f (new_team file)"
  by (simp add: lock_inv_def new_team_def)

lemma knows_outside: "\<not> inside ph \<Longrightarrow> knows f w ph"
  by (cases ph) simp_all

text \<open>A step of a process that is alone inside keeps the others outside.\<close>

lemma lock_inv_phase:
  assumes "lock_inv f w" and "inside ph \<longrightarrow> tf_lock w' \<noteq> None" and "knows f w' ph"
    and "\<And>q. q \<noteq> p \<Longrightarrow> tf_proc w' q = tf_proc w q" and "tf_proc w' p = ph"
    and "inside ph \<or> tf_lock w' = None \<or> tf_file w' \<noteq> tf_file w \<or> tf_temp w' \<noteq> tf_temp w
      \<Longrightarrow> \<forall>q. q \<noteq> p \<longrightarrow> \<not> inside (tf_proc w q)"
  shows "lock_inv f w'"
proof -
  have others: "knows f w' (tf_proc w q)" if "q \<noteq> p" for q
  proof (cases "inside (tf_proc w q)")
    case True
    with assms(6) that have "tf_file w' = tf_file w" "tf_temp w' = tf_temp w" by blast+
    moreover have "knows f w (tf_proc w q)" using assms(1) by (simp add: lock_inv_def)
    ultimately show ?thesis by (cases "tf_proc w q") simp_all
  qed (simp add: knows_outside)
  have "tf_lock w' \<noteq> None" if "inside (tf_proc w' q)" for q
  proof (cases "q = p")
    case False
    with that assms(4) have "inside (tf_proc w q)" by simp
    show ?thesis
    proof
      assume "tf_lock w' = None"
      with assms(6) False \<open>inside (tf_proc w q)\<close> show False by blast
    qed
  qed (use that assms(2,5) in auto)
  moreover have "q = r" if q: "inside (tf_proc w' q)" and r: "inside (tf_proc w' r)" for q r
  proof -
    have other: "x = p" if "inside (tf_proc w' x)" "inside ph" for x
    proof (rule ccontr)
      assume "x \<noteq> p"
      with assms(4) that(1) assms(6) that(2) show False by metis
    qed
    show ?thesis
    proof (cases "inside ph")
      case True
      then show ?thesis using other [OF q] other [OF r] by simp
    next
      case False
      then have "q \<noteq> p" "r \<noteq> p" using q r assms(5) by auto
      then have "inside (tf_proc w q)" "inside (tf_proc w r)" using q r assms(4) by simp_all
      with assms(1) show ?thesis unfolding lock_inv_def by blast
    qed
  qed
  moreover have "knows f w' (tf_proc w' q)" for q
    using others assms(3,4,5) by (cases "q = p") auto
  ultimately show ?thesis unfolding lock_inv_def by blast
qed

lemma set_phase_simps [simp]:
  "tf_proc (set_phase p ph w) = (tf_proc w)(p := ph)" "tf_file (set_phase p ph w) = tf_file w"
  "tf_temp (set_phase p ph w) = tf_temp w" "tf_lock (set_phase p ph w) = tf_lock w" "tf_now (set_phase p ph w) = tf_now w"
  by (simp_all add: set_phase_def)

lemma inside_alone:
  "lock_inv f w \<Longrightarrow> inside (tf_proc w p) \<Longrightarrow> \<forall>q. q \<noteq> p \<longrightarrow> \<not> inside (tf_proc w q)"
  "lock_inv f w \<Longrightarrow> inside (tf_proc w p) \<Longrightarrow> tf_lock w \<noteq> None"
  "lock_inv f w \<Longrightarrow> tf_lock w = None \<Longrightarrow> \<not> inside (tf_proc w q)"
  by (auto simp: lock_inv_def)

lemma go_inv:
  assumes inv: "lock_inv f w" and "snd (go f p w) \<noteq> Removed"
  shows "lock_inv f (fst (go f p w))"
proof (cases "tf_proc w p")
  case (Trying op dl)
  show ?thesis
    by (rule lock_inv_phase [OF inv, where p = p and ph = "tf_proc (fst (go f p w)) p"])
       (use Trying inside_alone(3) [OF inv] in \<open>auto simp: go_def split: option.splits if_splits\<close>)
next
  case (Busy op dl)
  with inside_alone(3) [OF inv] show ?thesis
    by (intro lock_inv_phase [OF inv, where p = p and ph = "tf_proc (fst (go f p w)) p"])
       (auto simp: go_def split: if_splits)
next
  case (Removing op dl)
  with assms(2) show ?thesis by (simp add: go_def)
next
  case (Holding op)
  with inside_alone(1,2) [OF inv, of p] show ?thesis
    by (intro lock_inv_phase [OF inv, where p = p and ph = "tf_proc (fst (go f p w)) p"]) (auto simp: go_def)
next
  case (Loaded op xs)
  moreover have "xs = read_file (tf_file w)" using inv Loaded unfolding lock_inv_def by (metis knows.simps(1))
  ultimately show ?thesis
    using inside_alone(1,2) [OF inv, of p]
    by (intro lock_inv_phase [OF inv, where p = p and ph = "tf_proc (fst (go f p w)) p"]) (auto simp: go_def)
next
  case (Saved op xs r)
  with inside_alone(1,2) [OF inv, of p] show ?thesis
    by (intro lock_inv_phase [OF inv, where p = p and ph = "tf_proc (fst (go f p w)) p"]) (auto simp: go_def split: option.splits)
next
  case (Leaving r)
  with inside_alone(1,2) [OF inv, of p] show ?thesis
    by (intro lock_inv_phase [OF inv, where p = p and ph = "tf_proc (fst (go f p w)) p"]) (auto simp: go_def split: option.splits)
qed (use inv in \<open>auto simp: go_def\<close>)

lemma lock_do_inv:
  assumes inv: "lock_inv f w" and "snd (lock_do f a w) \<noteq> Removed"
  shows "lock_inv f (fst (lock_do f a w))"
proof (cases a)
  case (Call p op)
  show ?thesis
  proof (cases "at_rest (tf_proc w p)")
    case True
    with Call show ?thesis
      by (intro lock_inv_phase [OF inv, where p = p and ph = "Trying op (tf_now w + acquire_timeout)"])
         (auto simp: lock_do_def dest: inside_alone(3) [OF inv])
  qed (use Call inv in \<open>simp add: lock_do_def\<close>)
next
  case (Go p)
  with go_inv [OF inv] assms(2) show ?thesis by (simp add: lock_do_def)
next
  case (Die p)
  then show ?thesis
    by (intro lock_inv_phase [OF inv, where p = p and ph = Dead]) (auto simp: lock_do_def dest: inside_alone(3) [OF inv])
next
  case (Wait n)
  have "knows f (w\<lparr>tf_now := m\<rparr>) ph = knows f w ph" for m ph by (cases ph) simp_all
  with Wait inv show ?thesis by (simp add: lock_do_def lock_inv_def)
qed

text \<open>An action changes what the file reads as exactly when it commits, and then as its operation says.\<close>

lemma lock_do_file:
  assumes inv: "lock_inv f w"
  shows "(case snd (lock_do f a w) of
      Committed p op r \<Rightarrow> f op (read_file (tf_file w)) = (read_file (tf_file (fst (lock_do f a w))), r)
    | _ \<Rightarrow> tf_file (fst (lock_do f a w)) = tf_file w)"
proof (cases a)
  case (Go p)
  have "knows f w (tf_proc w p)" using inv by (simp add: lock_inv_def)
  with Go show ?thesis
    by (cases "tf_proc w p") (auto simp: lock_do_def go_def read_file_def split: option.splits)
qed (auto simp: lock_do_def)

lemma lock_run_serial:
  assumes "lock_inv f w" and "Removed \<notin> set (snd (lock_run f as w))"
  shows "serial f (map fst (commits (snd (lock_run f as w)))) (read_file (tf_file w))
    = (read_file (tf_file (fst (lock_run f as w))), map snd (commits (snd (lock_run f as w))))"
  using assms
proof (induction as arbitrary: w)
  case (Cons a as)
  let ?w = "fst (lock_do f a w)"
  have l: "snd (lock_do f a w) \<noteq> Removed" "Removed \<notin> set (snd (lock_run f as ?w))" using Cons.prems(2) by auto
  note IH = Cons.IH [OF lock_do_inv [OF Cons.prems(1) l(1)] l(2)]
  show ?case
  proof (cases "snd (lock_do f a w)")
    case (Committed p op r)
    with lock_do_file [OF Cons.prems(1), of a] IH show ?thesis by (simp add: prod_eq_iff)
  qed (use lock_do_file [OF Cons.prems(1), of a] IH l(1) in \<open>simp_all add: prod_eq_iff\<close>)
qed simp

section \<open>When nothing is removed\<close>

definition young :: "nat \<Rightarrow> ('a, 'op, 'r) team_fs \<Rightarrow> bool" where
  "young t0 w \<longleftrightarrow> t0 \<le> tf_now w \<and> (\<forall>t. tf_lock w = Some t \<longrightarrow> t0 \<le> t) \<and> (\<forall>p op dl. tf_proc w p \<noteq> Removing op dl)"

lemma lock_do_now: "tf_now w \<le> tf_now (fst (lock_do f a w))"
  by (cases a) (auto simp: lock_do_def go_def split: phase.splits option.splits)

lemma lock_run_now: "tf_now w \<le> tf_now (fst (lock_run f as w))"
proof (induction as arbitrary: w)
  case (Cons a as)
  from le_trans [OF lock_do_now Cons.IH] show ?case by simp
qed simp

lemma young_step:
  assumes "young t0 w" and "tf_now w \<le> t0 + stale_ms"
  shows "snd (lock_do f a w) \<noteq> Removed" "young t0 (fst (lock_do f a w))"
proof -
  have fresh: "\<not> is_stale w" using assms by (auto simp: young_def is_stale_def split: option.splits)
  show "snd (lock_do f a w) \<noteq> Removed"
    using assms(1) by (cases a) (auto simp: lock_do_def go_def young_def split: phase.splits option.splits)
  show "young t0 (fst (lock_do f a w))"
  proof (cases a)
    case (Go p)
    with assms(1) fresh show ?thesis
      by (cases "tf_proc w p") (auto simp: lock_do_def go_def young_def split: option.splits)
  qed (use assms(1) in \<open>auto simp: lock_do_def young_def\<close>)
qed

lemma young_run:
  assumes "young t0 w" and "tf_now (fst (lock_run f as w)) \<le> t0 + stale_ms"
  shows "Removed \<notin> set (snd (lock_run f as w))"
  using assms
proof (induction as arbitrary: w)
  case (Cons a as)
  have "tf_now w \<le> t0 + stale_ms"
    using Cons.prems(2) lock_run_now [of "fst (lock_do f a w)" f as] lock_do_now [of w f a] by simp
  note s = young_step [OF Cons.prems(1) this, of f a]
  from Cons.IH [OF s(2)] Cons.prems(2) s(1) show ?case by simp
qed simp

section \<open>Transactions that keep an invariant\<close>

fun all_keep :: "('op \<Rightarrow> 'a list \<Rightarrow> 'a list \<times> 'r) \<Rightarrow> ('op \<Rightarrow> 'a list \<Rightarrow> bool) \<Rightarrow> 'op list \<Rightarrow> 'a list \<Rightarrow> bool" where
  "all_keep f keeps [] xs = True"
| "all_keep f keeps (op # ops) xs = (keeps op xs \<and> all_keep f keeps ops (fst (f op xs)))"

text \<open>The contract of a transaction, and what it gives for every interleaving.\<close>

locale transactional =
  fixes f :: "'op \<Rightarrow> 'a list \<Rightarrow> 'a list \<times> 'r"
    and keeps :: "'op \<Rightarrow> 'a list \<Rightarrow> bool"
    and good :: "'a list \<Rightarrow> bool"
  assumes keep: "good xs \<Longrightarrow> keeps op xs \<Longrightarrow> good (fst (f op xs))"
begin

lemma serial_good: "good xs \<Longrightarrow> all_keep f keeps ops xs \<Longrightarrow> good (fst (serial f ops xs))"
  by (induction ops arbitrary: xs) (auto intro: keep)

lemma run_good:
  assumes "good (read_file file)" and "Removed \<notin> set (snd (lock_run f as (new_team file)))"
    and "all_keep f keeps (map fst (commits (snd (lock_run f as (new_team file))))) (read_file file)"
  shows "good (read_file (tf_file (fst (lock_run f as (new_team file)))))"
proof -
  have reads: "tf_file (new_team file) = file" by (simp add: new_team_def)
  from serial_good [OF assms(1,3)] show ?thesis
    using lock_run_serial [OF lock_inv_new assms(2)] unfolding reads by simp
qed

end

section \<open>Runs\<close>

lemma new_team_file [simp]: "tf_file (new_team file) = file"
  by (simp add: new_team_def)

lemma lock_run_inv:
  "lock_inv f w \<Longrightarrow> Removed \<notin> set (snd (lock_run f as w)) \<Longrightarrow> lock_inv f (fst (lock_run f as w))"
proof (induction as arbitrary: w)
  case (Cons a as)
  then have l: "snd (lock_do f a w) \<noteq> Removed" "Removed \<notin> set (snd (lock_run f as (fst (lock_do f a w))))" by auto
  from Cons.IH [OF lock_do_inv [OF Cons.prems(1) l(1)] l(2)] show ?case by simp
qed simp

lemma young_new: "young 0 (new_team file)"
  by (simp add: young_def new_team_def)

lemma lock_run_append [simp]:
  "fst (lock_run f (as @ bs) w) = fst (lock_run f bs (fst (lock_run f as w)))"
  by (induction as arbitrary: w) simp_all

end
