(* ===== verification/Teams.thy ===== *)
theory Teams
  imports TeamLock
begin

text \<open>
  The task list and the mailbox of a team: \<open>packages/teams/src/index.ts\<close>. Each operation is what its
  transaction does to the list it has read; \<open>TeamLock\<close> interleaves the transactions. Every operation
  carries the time its callback reads.
\<close>

section \<open>The task list\<close>

datatype task_status = TPending | TClaimed | TInProgress | TCompleted | TBlocked

record task =
  tk_id :: string
  tk_title :: string
  tk_description :: "string option"
  tk_status :: task_status
  tk_owner :: "string option"
  tk_depends :: "string list"
  tk_files :: "string list"
  tk_created :: nat
  tk_updated :: nat
  tk_result :: "string option"

text \<open>A \<open>Partial<Task>\<close>: \<open>None\<close> is a key that is absent.\<close>

record task_changes =
  ch_id :: "string option"
  ch_title :: "string option"
  ch_description :: "string option option"
  ch_status :: "task_status option"
  ch_owner :: "string option option"
  ch_depends :: "string list option"
  ch_files :: "string list option"
  ch_created :: "nat option"
  ch_result :: "string option option"

definition given :: "'x option \<Rightarrow> 'x \<Rightarrow> 'x" where
  "given c x = (case c of None \<Rightarrow> x | Some y \<Rightarrow> y)"

definition apply_changes :: "nat \<Rightarrow> task_changes \<Rightarrow> task \<Rightarrow> task" where
  "apply_changes now c t =
     \<lparr>tk_id = given (ch_id c) (tk_id t), tk_title = given (ch_title c) (tk_title t),
      tk_description = given (ch_description c) (tk_description t), tk_status = given (ch_status c) (tk_status t),
      tk_owner = given (ch_owner c) (tk_owner t), tk_depends = given (ch_depends c) (tk_depends t),
      tk_files = given (ch_files c) (tk_files t), tk_created = given (ch_created c) (tk_created t),
      tk_updated = now, tk_result = given (ch_result c) (tk_result t)\<rparr>"

definition no_changes :: task_changes where
  "no_changes = \<lparr>ch_id = None, ch_title = None, ch_description = None, ch_status = None, ch_owner = None,
     ch_depends = None, ch_files = None, ch_created = None, ch_result = None\<rparr>"

text \<open>The first element with a property, as \<open>find\<close> returns it, with its place.\<close>

fun find_at :: "('x \<Rightarrow> bool) \<Rightarrow> 'x list \<Rightarrow> nat option" where
  "find_at P [] = None"
| "find_at P (x # xs) = (if P x then Some 0 else map_option Suc (find_at P xs))"

definition add_task :: "nat \<Rightarrow> string \<Rightarrow> string option \<Rightarrow> string list option \<Rightarrow> string list option \<Rightarrow> task list \<Rightarrow> task list \<times> task option" where
  "add_task now title description depends files ts =
     (let created = \<lparr>tk_id = nat_str (length ts + 1), tk_title = title, tk_description = description, tk_status = TPending,
                     tk_owner = None, tk_depends = (case depends of None \<Rightarrow> [] | Some d \<Rightarrow> d),
                     tk_files = (case files of None \<Rightarrow> [] | Some d \<Rightarrow> d), tk_created = now, tk_updated = now, tk_result = None\<rparr>
      in (ts @ [created], Some created))"

definition is_active :: "task \<Rightarrow> bool" where
  "is_active t = (tk_status t = TClaimed \<or> tk_status t = TInProgress)"

definition done_ids :: "task list \<Rightarrow> string list" where
  "done_ids ts = map tk_id (filter (\<lambda>t. tk_status t = TCompleted) ts)"

definition owned_files :: "task list \<Rightarrow> string list" where
  "owned_files ts = concat (map tk_files (filter is_active ts))"

definition startable :: "task list \<Rightarrow> task \<Rightarrow> bool" where
  "startable ts t =
     (tk_status t = TPending \<and> list_all (\<lambda>i. i \<in> set (done_ids ts)) (tk_depends t)
      \<and> \<not> list_ex (\<lambda>f. f \<in> set (owned_files ts)) (tk_files t))"

definition claim_task :: "nat \<Rightarrow> string \<Rightarrow> task list \<Rightarrow> task list \<times> task option" where
  "claim_task now owner ts =
     (case find_at (startable ts) ts of
        None \<Rightarrow> (ts, None)
      | Some i \<Rightarrow>
          (let t = (ts ! i)\<lparr>tk_status := TClaimed, tk_owner := Some owner, tk_updated := now\<rparr> in (ts[i := t], Some t)))"

definition update_task :: "nat \<Rightarrow> string \<Rightarrow> task_changes \<Rightarrow> task list \<Rightarrow> task list \<times> task option" where
  "update_task now i c ts =
     (case find_at (\<lambda>t. tk_id t = i) ts of
        None \<Rightarrow> (ts, None)
      | Some k \<Rightarrow> (let t = apply_changes now c (ts ! k) in (ts[k := t], Some t)))"

definition complete_task :: "nat \<Rightarrow> string \<Rightarrow> string option \<Rightarrow> task list \<Rightarrow> task list \<times> task option" where
  "complete_task now i result = update_task now i (no_changes\<lparr>ch_status := Some TCompleted, ch_result := Some result\<rparr>)"

datatype task_op =
    AddTask nat string "string option" "string list option" "string list option"
  | ClaimTask nat string
  | UpdateTask nat string task_changes
  | CompleteTask nat string "string option"

fun task_do :: "task_op \<Rightarrow> task list \<Rightarrow> task list \<times> task option" where
  "task_do (AddTask now title description depends files) = add_task now title description depends files"
| "task_do (ClaimTask now owner) = claim_task now owner"
| "task_do (UpdateTask now i c) = update_task now i c"
| "task_do (CompleteTask now i result) = complete_task now i result"

definition team_finished :: "task list option \<Rightarrow> bool" where
  "team_finished file = (read_file file \<noteq> [] \<and> list_all (\<lambda>t. tk_status t = TCompleted) (read_file file))"

definition task_mark :: "task \<Rightarrow> string" where
  "task_mark t =
     (case tk_status t of
        TCompleted \<Rightarrow> ''[x]'' | TInProgress \<Rightarrow> ''[>]'' | TClaimed \<Rightarrow> ''[>]'' | TBlocked \<Rightarrow> ''[!]'' | TPending \<Rightarrow> ''[ ]'')"

definition render_tasks :: "task list option \<Rightarrow> string" where
  "render_tasks file =
     (if read_file file = [] then ''No tasks.''
      else join [u_lf] (map (\<lambda>t. task_mark t @ '' '' @ tk_id t @ ''. '' @ tk_title t
             @ (if truthy (tk_owner t) then '' ('' @ the (tk_owner t) @ '')'' else [])) (read_file file)))"

section \<open>The mailbox\<close>

record mail =
  ml_id :: string
  ml_from :: string
  ml_to :: string
  ml_text :: string
  ml_at :: nat
  ml_read :: bool

datatype mail_op = SendMail nat string string string | ReadMail string

definition send_mail :: "nat \<Rightarrow> string \<Rightarrow> string \<Rightarrow> string \<Rightarrow> mail list \<Rightarrow> mail list" where
  "send_mail now sender recipient body ms =
     ms @ [\<lparr>ml_id = nat_str (length ms + 1), ml_from = sender, ml_to = recipient, ml_text = body, ml_at = now, ml_read = False\<rparr>]"

definition for_reader :: "string \<Rightarrow> mail \<Rightarrow> bool" where
  "for_reader reader m = (\<not> ml_read m \<and> (ml_to m = reader \<or> ml_to m = ''*''))"

definition read_mail :: "string \<Rightarrow> mail list \<Rightarrow> mail list \<times> mail list" where
  "read_mail reader ms =
     (map (\<lambda>m. if for_reader reader m then m\<lparr>ml_read := True\<rparr> else m) ms,
      map (ml_read_update (\<lambda>_. True)) (filter (for_reader reader) ms))"

fun mail_do :: "mail_op \<Rightarrow> mail list \<Rightarrow> mail list \<times> mail list" where
  "mail_do (SendMail now sender recipient body) ms = (send_mail now sender recipient body ms, [])"
| "mail_do (ReadMail reader) ms = read_mail reader ms"

section \<open>Finding the task\<close>

lemma find_at_Some:
  "find_at P xs = Some i \<longleftrightarrow> i < length xs \<and> P (xs ! i) \<and> (\<forall>j<i. \<not> P (xs ! j))"
proof (induction xs arbitrary: i)
  case (Cons x xs)
  show ?case
  proof (cases i)
    case 0
    then show ?thesis by auto
  next
    case (Suc k)
    with Cons show ?thesis by (auto simp: All_less_Suc2)
  qed
qed simp

lemma find_at_None: "find_at P xs = None \<longleftrightarrow> (\<forall>x\<in>set xs. \<not> P x)"
  by (induction xs) auto

lemma set_done_ids: "set (done_ids ts) = {tk_id t | t. t \<in> set ts \<and> tk_status t = TCompleted}"
  by (auto simp: done_ids_def)

lemma set_owned_files: "set (owned_files ts) = (\<Union>t\<in>{t \<in> set ts. is_active t}. set (tk_files t))"
  by (auto simp: owned_files_def)

section \<open>Ownership of files\<close>

text \<open>Ids are the positions, and no file belongs to two tasks that teammates work on.\<close>

definition disjoint_owners :: "task list \<Rightarrow> bool" where
  "disjoint_owners ts \<longleftrightarrow>
     (\<forall>i<length ts. \<forall>j<length ts. i \<noteq> j \<longrightarrow> is_active (ts ! i) \<longrightarrow> is_active (ts ! j)
        \<longrightarrow> set (tk_files (ts ! i)) \<inter> set (tk_files (ts ! j)) = {})"

definition tasks_ok :: "task list \<Rightarrow> bool" where
  "tasks_ok ts \<longleftrightarrow> distinct (map tk_id ts) \<and> (\<forall>i<length ts. tk_id (ts ! i) = nat_str (Suc i)) \<and> disjoint_owners ts"

text \<open>An update that respects a claim: it keeps the id, and puts nobody on new files.\<close>

definition keeps_claims :: "task_op \<Rightarrow> task list \<Rightarrow> bool" where
  "keeps_claims tr ts \<longleftrightarrow>
     (case tr of
        UpdateTask now i c \<Rightarrow>
          ch_id c = None \<and>
          (\<forall>t\<in>set ts. tk_id t = i \<longrightarrow> is_active (apply_changes now c t) \<longrightarrow> is_active t \<and> tk_files (apply_changes now c t) = tk_files t)
      | _ \<Rightarrow> True)"

lemma disjoint_owners_snoc:
  "disjoint_owners ts \<Longrightarrow> \<not> is_active t \<Longrightarrow> disjoint_owners (ts @ [t])"
  by (auto simp: disjoint_owners_def nth_append less_Suc_eq)

lemma disjoint_owners_update:
  assumes "disjoint_owners ts" "k < length ts"
    and "is_active t \<Longrightarrow> \<forall>j<length ts. j \<noteq> k \<longrightarrow> is_active (ts ! j) \<longrightarrow> set (tk_files t) \<inter> set (tk_files (ts ! j)) = {}"
  shows "disjoint_owners (ts[k := t])"
  unfolding disjoint_owners_def
proof (intro allI impI)
  fix i j assume i: "i < length (ts[k := t])" and j: "j < length (ts[k := t])" and ij: "i \<noteq> j"
    and ai: "is_active (ts[k := t] ! i)" and aj: "is_active (ts[k := t] ! j)"
  consider "i = k" | "j = k" | "i \<noteq> k" "j \<noteq> k" by blast
  then show "set (tk_files (ts[k := t] ! i)) \<inter> set (tk_files (ts[k := t] ! j)) = {}"
  proof cases
    case 1
    with assms(2,3) i j ij ai aj show ?thesis by simp
  next
    case 2
    with assms(2,3) i j ij ai aj have "set (tk_files t) \<inter> set (tk_files (ts ! i)) = {}" by simp
    with 2 assms(2) ij show ?thesis by (simp add: Int_commute)
  next
    case 3
    with assms(1) i j ij ai aj show ?thesis unfolding disjoint_owners_def by simp
  qed
qed

lemma tasks_ok_update:
  assumes "tasks_ok ts" "k < length ts" "tk_id t = tk_id (ts ! k)" "disjoint_owners (ts[k := t])"
  shows "tasks_ok (ts[k := t])"
proof -
  have "map tk_id (ts[k := t]) = map tk_id ts" using assms(2,3) by (simp add: map_update list_update_same_conv)
  then show ?thesis using assms unfolding tasks_ok_def by (auto simp: nth_list_update)
qed

lemma add_task_ok: "tasks_ok ts \<Longrightarrow> tasks_ok (fst (add_task now title description depends files ts))"
proof -
  assume ok: "tasks_ok ts"
  have "nat_str (Suc (length ts)) \<notin> tk_id ` set ts"
  proof
    assume "nat_str (Suc (length ts)) \<in> tk_id ` set ts"
    then obtain i where "i < length ts" "tk_id (ts ! i) = nat_str (Suc (length ts))" by (auto simp: in_set_conv_nth)
    with ok show False by (auto simp: tasks_ok_def)
  qed
  with ok show ?thesis
    by (auto simp: add_task_def Let_def tasks_ok_def nth_append less_Suc_eq is_active_def intro!: disjoint_owners_snoc)
qed

lemma claim_task_cases:
  obtains (none) "claim_task now owner ts = (ts, None)" "\<forall>t\<in>set ts. \<not> startable ts t"
  | (some) i t where "i < length ts" "startable ts (ts ! i)" "\<forall>j<i. \<not> startable ts (ts ! j)"
      "t = (ts ! i)\<lparr>tk_status := TClaimed, tk_owner := Some owner, tk_updated := now\<rparr>" "claim_task now owner ts = (ts[i := t], Some t)"
  by (cases "find_at (startable ts) ts")
     (auto simp: claim_task_def Let_def find_at_Some find_at_None)

lemma claim_task_ok:
  assumes "tasks_ok ts"
  shows "tasks_ok (fst (claim_task now owner ts))"
proof (cases rule: claim_task_cases [of now owner ts])
  case none
  with assms show ?thesis by simp
next
  case (some i t)
  have "set (tk_files t) \<inter> set (tk_files (ts ! j)) = {}" if "j < length ts" "is_active (ts ! j)" for j
    using some(2,4) that unfolding startable_def list_ex_iff set_owned_files by fastforce
  then have "disjoint_owners (ts[i := t])"
    using assms some(1) by (intro disjoint_owners_update) (auto simp: tasks_ok_def)
  with tasks_ok_update [OF assms some(1)] some(4,5) show ?thesis by simp
qed

lemma update_task_ok:
  assumes "tasks_ok ts" "ch_id c = None"
    and "\<forall>t\<in>set ts. tk_id t = i \<longrightarrow> is_active (apply_changes now c t) \<longrightarrow> is_active t \<and> tk_files (apply_changes now c t) = tk_files t"
  shows "tasks_ok (fst (update_task now i c ts))"
proof (cases "find_at (\<lambda>t. tk_id t = i) ts")
  case None
  with assms(1) show ?thesis by (simp add: update_task_def)
next
  case (Some k)
  then have k: "k < length ts" "tk_id (ts ! k) = i" by (auto simp: find_at_Some)
  let ?t = "apply_changes now c (ts ! k)"
  have "is_active (ts ! k) \<and> tk_files ?t = tk_files (ts ! k)" if "is_active ?t"
    using assms(3) k that by simp
  then have "disjoint_owners (ts[k := ?t])"
    using assms(1) k(1) by (intro disjoint_owners_update) (auto simp: tasks_ok_def disjoint_owners_def)
  moreover have "tk_id ?t = tk_id (ts ! k)" using assms(2) by (simp add: apply_changes_def given_def)
  ultimately show ?thesis using tasks_ok_update [OF assms(1) k(1)] Some by (simp add: update_task_def Let_def)
qed

lemma complete_task_ok: "tasks_ok ts \<Longrightarrow> tasks_ok (fst (complete_task now i result ts))"
  unfolding complete_task_def
  by (rule update_task_ok) (simp_all add: no_changes_def apply_changes_def given_def is_active_def)

lemma task_do_ok: "tasks_ok ts \<Longrightarrow> keeps_claims op ts \<Longrightarrow> tasks_ok (fst (task_do op ts))"
  by (cases op) (auto simp: keeps_claims_def intro: add_task_ok claim_task_ok update_task_ok complete_task_ok)

interpretation team: transactional task_do keeps_claims tasks_ok
  by unfold_locales (rule task_do_ok)

section \<open>What the lock guarantees\<close>

definition sample_task :: "nat \<Rightarrow> string list \<Rightarrow> string list \<Rightarrow> task" where
  "sample_task n depends files = \<lparr>tk_id = nat_str n, tk_title = ''step'', tk_description = None, tk_status = TPending,
     tk_owner = None, tk_depends = depends, tk_files = files, tk_created = 1, tk_updated = 1, tk_result = None\<rparr>"

text \<open>Two teammates contend for the lock; the first leaves with the first task, the second with the other.\<close>

definition sample_actions :: "task_op action list" where
  "sample_actions = [Call 0 (ClaimTask 5 ''ann''), Call 1 (ClaimTask 6 ''bob''), Go 0, Go 1, Go 0, Wait 25, Go 1, Go 0, Go 0, Go 0,
     Go 1, Go 1, Go 1, Go 1, Go 1]"

definition sample_tasks :: "task list" where
  "sample_tasks = [sample_task 1 [] [''a.ts''], sample_task 2 [] [''a.ts''], sample_task 3 [] [''b.ts'']]"

lemmas run_simps = lock_do_def go_def set_phase_def is_stale_def read_file_def stale_ms_def acquire_timeout_def new_team_def
  sample_actions_def sample_tasks_def sample_task_def claim_task_def startable_def done_ids_def owned_files_def is_active_def Let_def

lemma nat_str_samples [simp]: "nat_str (Suc 0) = ''1''" "nat_str 2 = ''2''" "nat_str 3 = ''3''"
  "nat_str (Suc (Suc 0)) = ''2''" "nat_str (Suc (Suc (Suc 0))) = ''3''"
  by code_simp+

lemma sample_quiet:
  "Removed \<notin> set (snd (lock_run task_do sample_actions (new_team (Some sample_tasks))))"
  "map fst (commits (snd (lock_run task_do sample_actions (new_team (Some sample_tasks))))) = [ClaimTask 5 ''ann'', ClaimTask 6 ''bob'']"
  "map (map_option tk_id \<circ> snd) (commits (snd (lock_run task_do sample_actions (new_team (Some sample_tasks))))) = [Some ''1'', Some ''3'']"
  by (simp_all add: run_simps)

text \<open>
  C29. Transactions are serialised. However the processes of a team interleave, wait, give up and die,
  as long as no lock file is removed as stale, the file holds what the committed transactions
  give one after another in the order they committed, and each of them answered what it answers then.
\<close>

theorem transactions_serial:
  assumes "Removed \<notin> set (snd (lock_run f as (new_team file)))"
  shows "serial f (map fst (commits (snd (lock_run f as (new_team file))))) (read_file file)
    = (read_file (tf_file (fst (lock_run f as (new_team file)))), map snd (commits (snd (lock_run f as (new_team file)))))"
  using lock_run_serial [OF lock_inv_new assms] by simp

theorem transactions_serial_witness:
  "map (map_option tk_id) (snd (serial task_do [ClaimTask 5 ''ann'', ClaimTask 6 ''bob''] sample_tasks)) = [Some ''1'', Some ''3'']"
proof -
  let ?r = "lock_run task_do sample_actions (new_team (Some sample_tasks))"
  have "snd (serial task_do (map fst (commits (snd ?r))) sample_tasks) = map snd (commits (snd ?r))"
    using transactions_serial [OF sample_quiet(1)] by (simp only: read_file_def option.case snd_conv)
  with sample_quiet(3) show ?thesis unfolding sample_quiet(2) by (simp add: comp_def)
qed

text \<open>
  Within thirty seconds of a team's start at most one process is inside the lock and the lock file
  is there while one is: nothing takes it from its holder, dead or alive, whatever the schedule.
\<close>

theorem lock_exclusive:
  assumes "lock_run f as (new_team file) = (w, ls)" and "tf_now w \<le> stale_ms" and "inside (tf_proc w p)"
  shows "tf_lock w \<noteq> None \<and> (\<forall>q. inside (tf_proc w q) \<longrightarrow> q = p) \<and> Removed \<notin> set ls"
proof -
  from young_run [OF young_new, of f as "file"] assms(1,2) have free: "Removed \<notin> set ls" by simp
  with lock_run_inv [OF lock_inv_new, of f as "file"] assms(1) have "lock_inv f w" by simp
  with free assms(3) show ?thesis unfolding lock_inv_def by blast
qed

theorem lock_exclusive_witness:
  "\<exists>w ls. lock_run task_do (take 8 sample_actions) (new_team (Some sample_tasks)) = (w, ls) \<and> inside (tf_proc w 0)
     \<and> tf_lock w = Some 0 \<and> \<not> inside (tf_proc w 1)"
proof -
  let ?r = "lock_run task_do (take 8 sample_actions) (new_team (Some sample_tasks))"
  have "tf_now (fst ?r) \<le> stale_ms" and in0: "inside (tf_proc (fst ?r) 0)" and lock: "tf_lock (fst ?r) = Some 0"
    by (simp_all add: run_simps)
  with lock_exclusive [OF prod.collapse [symmetric], of task_do "take 8 sample_actions" "Some sample_tasks" 0]
  have "\<not> inside (tf_proc (fst ?r) 1)" by fastforce
  with in0 lock show ?thesis by (intro exI conjI) (rule prod.collapse [symmetric])
qed

text \<open>
  C30. A file has one owner, under two conditions: no lock is removed as stale, and no committed update makes a task claimed
  or in progress that was not, or changes the files of one that is. Then, in every interleaving, the ids of the tasks stay
  apart, and no file belongs to two tasks that are claimed or in progress.
\<close>

theorem files_have_one_owner:
  assumes "tasks_ok (read_file file)" and "lock_run task_do as (new_team file) = (w, ls)" and "Removed \<notin> set ls"
    and "all_keep task_do keeps_claims (map fst (commits ls)) (read_file file)"
  shows "distinct (map tk_id (read_file (tf_file w))) \<and> disjoint_owners (read_file (tf_file w))"
proof -
  have "tasks_ok (read_file (tf_file w))" using team.run_good [of "file" as] assms by simp
  then show ?thesis by (simp add: tasks_ok_def)
qed

theorem files_have_one_owner_witness:
  "disjoint_owners (read_file (tf_file (fst (lock_run task_do sample_actions (new_team (Some sample_tasks))))))
    \<and> length (filter is_active (read_file (tf_file (fst (lock_run task_do sample_actions (new_team (Some sample_tasks))))))) = 2"
proof
  let ?r = "lock_run task_do sample_actions (new_team (Some sample_tasks))"
  have sample: "read_file (Some sample_tasks) = sample_tasks" by (simp add: read_file_def)
  have "disjoint_owners sample_tasks" unfolding disjoint_owners_def
    by (auto simp: sample_tasks_def sample_task_def is_active_def nth_Cons split: nat.splits)
  moreover have "distinct (map tk_id sample_tasks)" by code_simp
  moreover have "\<forall>i<length sample_tasks. tk_id (sample_tasks ! i) = nat_str (Suc i)"
    by (simp add: sample_tasks_def sample_task_def less_Suc_eq all_conj_distrib)
  ultimately have ok: "tasks_ok (read_file (Some sample_tasks))" by (simp add: sample tasks_ok_def)
  have keep: "all_keep task_do keeps_claims (map fst (commits (snd ?r))) (read_file (Some sample_tasks))"
    unfolding sample_quiet(2) by (simp add: keeps_claims_def)
  show "disjoint_owners (read_file (tf_file (fst ?r)))"
    using files_have_one_owner [OF ok prod.collapse [symmetric] sample_quiet(1) keep] by (rule conjunct2)
  show "length (filter is_active (read_file (tf_file (fst ?r)))) = 2" by (simp add: run_simps)
qed

text \<open>Without the second condition it fails: an update starts a pending task whose file another task owns.\<close>

theorem update_takes_owned_file:
  "\<not> disjoint_owners (fst (task_do (UpdateTask 6 ''2'' (no_changes\<lparr>ch_status := Some TInProgress\<rparr>))
     (fst (task_do (ClaimTask 5 ''ann'') sample_tasks))))"
proof -
  let ?ts = "fst (task_do (UpdateTask 6 ''2'' (no_changes\<lparr>ch_status := Some TInProgress\<rparr>)) (fst (task_do (ClaimTask 5 ''ann'') sample_tasks)))"
  have "length ?ts = 3" "is_active (?ts ! 0)" "is_active (?ts ! 1)" "tk_files (?ts ! 0) = [''a.ts'']" "tk_files (?ts ! 1) = [''a.ts'']"
    by code_simp+
  then show ?thesis
    unfolding disjoint_owners_def by (intro notI) (drule spec [of _ 0], simp, drule spec [of _ 1], simp)
qed

section \<open>Claims\<close>

text \<open>
  What a claim hands out. It is the first task that can be started: it was pending, every task it
  depends on is completed, none of its files belongs to a task somebody works on, and it alone
  changes. Nothing is handed out exactly when no task can be started.
\<close>

theorem claim_hands_out_startable:
  "case claim_task now owner ts of
     (ts', None) \<Rightarrow> ts' = ts \<and> (\<forall>t\<in>set ts. \<not> startable ts t)
   | (ts', Some t) \<Rightarrow>
       (\<exists>i<length ts. ts' = ts[i := t] \<and> tk_status (ts ! i) = TPending \<and> (\<forall>j<i. \<not> startable ts (ts ! j))
          \<and> t = (ts ! i)\<lparr>tk_status := TClaimed, tk_owner := Some owner, tk_updated := now\<rparr>
          \<and> (\<forall>d\<in>set (tk_depends t). \<exists>u\<in>set ts. tk_id u = d \<and> tk_status u = TCompleted)
          \<and> (\<forall>u\<in>set ts. is_active u \<longrightarrow> set (tk_files u) \<inter> set (tk_files t) = {}))"
proof (cases rule: claim_task_cases [of now owner ts])
  case none
  then show ?thesis by simp
next
  case (some i t)
  have "\<forall>d\<in>set (tk_depends t). \<exists>u\<in>set ts. tk_id u = d \<and> tk_status u = TCompleted"
    using some(2,4) unfolding startable_def list_all_iff set_done_ids by fastforce
  moreover have "\<forall>u\<in>set ts. is_active u \<longrightarrow> set (tk_files u) \<inter> set (tk_files t) = {}"
    using some(2,4) unfolding startable_def list_ex_iff set_owned_files by fastforce
  moreover have "tk_status (ts ! i) = TPending" using some(2) by (simp add: startable_def)
  ultimately show ?thesis unfolding some(5) prod.case option.case using some(1,3,4) by blast
qed

theorem claim_hands_out_startable_witness:
  "\<exists>t. claim_task 5 ''ann'' sample_tasks = (sample_tasks[0 := t], Some t) \<and> tk_id t = ''1'' \<and> tk_status t = TClaimed"
proof -
  have "\<exists>t. claim_task 5 ''ann'' sample_tasks = (sample_tasks[0 := t], Some t) \<and> tk_id t = ''1''" by (simp add: run_simps)
  then obtain t where t: "claim_task 5 ''ann'' sample_tasks = (sample_tasks[0 := t], Some t)" "tk_id t = ''1''" by blast
  have "tk_status t = TClaimed"
    using claim_hands_out_startable [where now = 5 and owner = "''ann''" and ts = sample_tasks] unfolding t(1) prod.case option.case by auto
  with t show ?thesis by blast
qed

text \<open>An operation that makes no task pending again and renames none.\<close>

definition no_reset :: "task_op \<Rightarrow> bool" where
  "no_reset tr = (case tr of UpdateTask now i c \<Rightarrow> ch_id c = None \<and> ch_status c \<noteq> Some TPending | _ \<Rightarrow> True)"

fun claimed_ids :: "(task_op \<times> task option) list \<Rightarrow> string list" where
  "claimed_ids [] = []"
| "claimed_ids ((ClaimTask now owner, Some t) # rs) = tk_id t # claimed_ids rs"
| "claimed_ids (_ # rs) = claimed_ids rs"

definition taken_ids :: "task list \<Rightarrow> string set" where
  "taken_ids ts = {tk_id t | t. t \<in> set ts \<and> tk_status t \<noteq> TPending}"

definition ids_ok :: "task list \<Rightarrow> bool" where
  "ids_ok ts \<longleftrightarrow> (\<forall>i<length ts. tk_id (ts ! i) = nat_str (Suc i))"

lemma ids_ok_inj: "ids_ok ts \<Longrightarrow> i < length ts \<Longrightarrow> j < length ts \<Longrightarrow> tk_id (ts ! i) = tk_id (ts ! j) \<Longrightarrow> i = j"
  by (auto simp: ids_ok_def)

lemma taken_update:
  assumes "k < length ts" "tk_id t = tk_id (ts ! k)" "tk_status (ts ! k) \<noteq> TPending \<longrightarrow> tk_status t \<noteq> TPending"
  shows "taken_ids ts \<subseteq> taken_ids (ts[k := t])"
proof
  fix i assume "i \<in> taken_ids ts"
  then obtain j where j: "j < length ts" "i = tk_id (ts ! j)" "tk_status (ts ! j) \<noteq> TPending"
    by (auto simp: taken_ids_def in_set_conv_nth)
  have "ts[k := t] ! j \<in> set (ts[k := t])" using j(1) by (intro nth_mem) simp
  moreover have "tk_id (ts[k := t] ! j) = i" "tk_status (ts[k := t] ! j) \<noteq> TPending"
    using assms j by (auto simp: nth_list_update)
  ultimately show "i \<in> taken_ids (ts[k := t])" unfolding taken_ids_def by blast
qed

lemma update_task_cases:
  obtains (none) "update_task now i c ts = (ts, None)"
  | (some) k where "k < length ts" "tk_id (ts ! k) = i"
      "update_task now i c ts = (ts[k := apply_changes now c (ts ! k)], Some (apply_changes now c (ts ! k)))"
  by (cases "find_at (\<lambda>t. tk_id t = i) ts") (auto simp: update_task_def Let_def find_at_Some)

lemma update_taken:
  assumes "ids_ok ts" "ch_id c = None" "ch_status c \<noteq> Some TPending"
  shows "ids_ok (fst (update_task now i c ts)) \<and> taken_ids ts \<subseteq> taken_ids (fst (update_task now i c ts))"
proof (cases rule: update_task_cases [of now i c ts])
  case (some k)
  have "tk_id (apply_changes now c (ts ! k)) = tk_id (ts ! k)" using assms(2) by (simp add: apply_changes_def given_def)
  moreover have "tk_status (ts ! k) \<noteq> TPending \<longrightarrow> tk_status (apply_changes now c (ts ! k)) \<noteq> TPending"
    using assms(3) by (auto simp: apply_changes_def given_def split: option.splits)
  ultimately show ?thesis using some assms(1) taken_update by (auto simp: ids_ok_def nth_list_update)
qed (use assms in simp)

lemma task_do_taken:
  assumes "ids_ok ts" "no_reset tr"
  shows "ids_ok (fst (task_do tr ts)) \<and> taken_ids ts \<subseteq> taken_ids (fst (task_do tr ts))"
proof (cases tr)
  case (AddTask now title description depends files)
  with assms(1) show ?thesis
    by (auto simp: add_task_def Let_def ids_ok_def nth_append less_Suc_eq taken_ids_def)
next
  case (ClaimTask now owner)
  show ?thesis
  proof (cases rule: claim_task_cases [of now owner ts])
    case (some i t)
    then have "tk_id t = tk_id (ts ! i)" "tk_status t \<noteq> TPending" by simp_all
    with taken_update [OF some(1)] some assms(1) ClaimTask show ?thesis by (auto simp: ids_ok_def nth_list_update)
  qed (use assms ClaimTask in simp)
next
  case (UpdateTask now i c)
  with update_taken [OF assms(1)] assms(2) show ?thesis by (simp add: no_reset_def)
next
  case (CompleteTask now i result)
  then show ?thesis using update_taken [OF assms(1), of "no_changes\<lparr>ch_status := Some TCompleted, ch_result := Some result\<rparr>"]
    by (simp add: complete_task_def no_changes_def)
qed

lemma claimed_taken:
  assumes "ids_ok ts" "claim_task now owner ts = (ts', Some t)"
  shows "tk_id t \<notin> taken_ids ts" "tk_id t \<in> taken_ids ts'"
proof -
  from assms(2) obtain i where i: "i < length ts" "startable ts (ts ! i)"
    "t = (ts ! i)\<lparr>tk_status := TClaimed, tk_owner := Some owner, tk_updated := now\<rparr>" "ts' = ts[i := t]"
    by (cases rule: claim_task_cases [of now owner ts]) auto
  then have t: "tk_id t = tk_id (ts ! i)" "tk_status t = TClaimed" "tk_status (ts ! i) = TPending"
    by (simp_all add: startable_def)
  show "tk_id t \<notin> taken_ids ts"
    using ids_ok_inj [OF assms(1)] i(1) t by (auto simp: taken_ids_def in_set_conv_nth)
  have "t \<in> set ts'" using i(1,4) by (simp add: set_update_memI)
  with t(2) show "tk_id t \<in> taken_ids ts'" unfolding taken_ids_def by force
qed

lemma claims_distinct:
  assumes "ids_ok ts" "list_all no_reset trs"
  shows "distinct (claimed_ids (zip trs (snd (serial task_do trs ts))))
    \<and> set (claimed_ids (zip trs (snd (serial task_do trs ts)))) \<inter> taken_ids ts = {}"
  using assms
proof (induction trs arbitrary: ts)
  case (Cons tr trs)
  let ?ts = "fst (task_do tr ts)" and ?r = "snd (task_do tr ts)"
  have reset: "no_reset tr" "list_all no_reset trs" using Cons.prems(2) by simp_all
  note taken = task_do_taken [OF Cons.prems(1) reset(1)]
  note IH = Cons.IH [OF conjunct1 [OF taken] reset(2)]
  show ?case
  proof (cases "\<exists>now owner t. tr = ClaimTask now owner \<and> ?r = Some t")
    case False
    then have "claimed_ids ((tr, ?r) # rs) = claimed_ids rs" for rs by (cases tr; cases ?r) auto
    with IH taken show ?thesis by auto
  next
    case True
    then obtain now owner t where t: "tr = ClaimTask now owner" "?r = Some t" by blast
    then have "claim_task now owner ts = (?ts, Some t)" by (metis prod.collapse task_do.simps(2))
    from claimed_taken [OF Cons.prems(1) this] IH taken t show ?thesis by auto
  qed
qed (simp add: taken_ids_def)

text \<open>
  C31. No task is handed out twice, under two conditions: no lock is removed as stale, and no committed update makes a task
  pending again or changes an id. Then, in every interleaving, the tasks that the committed claims answered with are all
  different.
\<close>

theorem no_task_claimed_twice:
  assumes "ids_ok (read_file file)" and "lock_run task_do as (new_team file) = (w, ls)" and "Removed \<notin> set ls"
    and "list_all no_reset (map fst (commits ls))"
  shows "distinct (claimed_ids (commits ls))"
proof -
  have "serial task_do (map fst (commits ls)) (read_file file) = (read_file (tf_file w), map snd (commits ls))"
    using lock_run_serial [OF lock_inv_new [of task_do "file"], of as] assms(2,3) by simp
  with claims_distinct [OF assms(1,4)] show ?thesis by (simp add: zip_map_fst_snd)
qed

theorem no_task_claimed_twice_witness:
  "claimed_ids (commits (snd (lock_run task_do sample_actions (new_team (Some sample_tasks))))) = [''1'', ''3'']
    \<and> distinct (claimed_ids (commits (snd (lock_run task_do sample_actions (new_team (Some sample_tasks))))))"
proof
  let ?r = "lock_run task_do sample_actions (new_team (Some sample_tasks))"
  show "claimed_ids (commits (snd ?r)) = [''1'', ''3'']" by (simp add: run_simps)
  have "ids_ok (read_file (Some sample_tasks))"
    by (simp add: ids_ok_def read_file_def sample_tasks_def sample_task_def less_Suc_eq all_conj_distrib)
  moreover have "list_all no_reset (map fst (commits (snd ?r)))" unfolding sample_quiet(2) by (simp add: no_reset_def)
  ultimately show "distinct (claimed_ids (commits (snd ?r)))"
    by (rule no_task_claimed_twice [OF _ prod.collapse [symmetric] sample_quiet(1)])
qed

text \<open>
  The stale timeout is a race. A teammate has died with the lock and thirty seconds have passed. Two
  others find the lock stale; the first removes it and takes it, the second removes the
  lock of the first, and both are inside: each is answered with the same task, claimed for itself.
\<close>

definition race :: "task_op action list" where
  "race = [Call 2 (ClaimTask 0 ''dead''), Go 2, Die 2, Wait 30001, Call 0 (ClaimTask 5 ''ann''), Call 1 (ClaimTask 6 ''bob''),
     Go 0, Go 1, Go 0, Go 1, Go 0, Go 0, Go 0, Go 1, Go 1, Go 1, Go 0, Go 0, Go 1, Go 1, Go 0, Go 1]"

theorem stale_lock_race:
  "claimed_ids (commits (snd (lock_run task_do race (new_team (Some sample_tasks))))) = [''1'', ''1'']
    \<and> (\<exists>t u. tf_proc (fst (lock_run task_do race (new_team (Some sample_tasks)))) 0 = Returned (Some t) \<and> tk_owner t = Some ''ann''
        \<and> tf_proc (fst (lock_run task_do race (new_team (Some sample_tasks)))) 1 = Returned (Some u) \<and> tk_owner u = Some ''bob''
        \<and> tk_id t = tk_id u)"
  by (simp add: run_simps race_def)

text \<open>
  C32. A crash does not wedge the team. Whatever the other processes are doing, when the lock is free or the
  lock file is older than thirty seconds, a teammate that then runs on its own has its transaction
  done and the lock released after at most eight steps.
\<close>

theorem crash_recovered:
  assumes "at_rest (tf_proc w p)" and "tf_lock w = None \<or> is_stale w"
  shows "\<exists>w'. fst (lock_run f (Call p op # replicate 8 (Go p)) w) = w' \<and> tf_lock w' = None
    \<and> tf_proc w' p = Returned (snd (f op (read_file (tf_file w)))) \<and> tf_file w' = Some (fst (f op (read_file (tf_file w))))"
proof -
  have eight: "replicate 8 (Go p) = [Go p, Go p, Go p, Go p, Go p, Go p, Go p, Go p]" by (simp add: eval_nat_numeral)
  from assms(2) show ?thesis
  proof
    assume "tf_lock w = None"
    with assms(1) show ?thesis unfolding eight by (simp add: lock_do_def go_def set_phase_def acquire_timeout_def)
  next
    assume stale: "is_stale w"
    then obtain t where t: "tf_lock w = Some t" by (auto simp: is_stale_def split: option.splits)
    with stale have "stale_ms < tf_now w - t" by (simp add: is_stale_def)
    with assms(1) t show ?thesis unfolding eight
      by (simp add: lock_do_def go_def set_phase_def acquire_timeout_def is_stale_def)
  qed
qed

theorem crash_recovered_witness:
  "\<exists>t. tf_proc (fst (lock_run task_do (Call 0 (ClaimTask 5 ''ann'') # replicate 8 (Go 0))
         (fst (lock_run task_do [Call 2 (ClaimTask 0 ''dead''), Go 2, Die 2, Wait 30001] (new_team (Some sample_tasks)))))) 0
     = Returned (Some t) \<and> tk_id t = ''1''"
proof -
  let ?w = "fst (lock_run task_do [Call 2 (ClaimTask 0 ''dead''), Go 2, Die 2, Wait 30001] (new_team (Some sample_tasks)))"
  have w: "at_rest (tf_proc ?w 0)" "is_stale ?w" "tf_file ?w = Some sample_tasks" by (simp_all add: run_simps)
  from crash_recovered [OF w(1) disjI2 [OF w(2)], of task_do "ClaimTask 5 ''ann''"]
  have "tf_proc (fst (lock_run task_do (Call 0 (ClaimTask 5 ''ann'') # replicate 8 (Go 0)) ?w)) 0
    = Returned (snd (task_do (ClaimTask 5 ''ann'') sample_tasks))" by (simp only: w(3) read_file_def option.case) blast
  moreover have "\<exists>t. snd (task_do (ClaimTask 5 ''ann'') sample_tasks) = Some t \<and> tk_id t = ''1''" by (simp add: run_simps)
  ultimately show ?thesis by auto
qed

section \<open>Messages\<close>

fun sent_to :: "string \<Rightarrow> mail_op list \<Rightarrow> (nat \<times> string \<times> string) list" where
  "sent_to x [] = []"
| "sent_to x (SendMail now sender recipient body # trs) = (if recipient = x then [(now, sender, body)] else []) @ sent_to x trs"
| "sent_to x (ReadMail reader # trs) = sent_to x trs"

definition mail_key :: "mail \<Rightarrow> nat \<times> string \<times> string" where
  "mail_key m = (ml_at m, ml_from m, ml_text m)"

definition addressed :: "string \<Rightarrow> mail list \<Rightarrow> (nat \<times> string \<times> string) list" where
  "addressed x ms = map mail_key (filter (\<lambda>m. ml_to m = x) ms)"

definition unread :: "string \<Rightarrow> mail list \<Rightarrow> (nat \<times> string \<times> string) list" where
  "unread x ms = addressed x (filter (\<lambda>m. \<not> ml_read m) ms)"

lemma read_mail_splits:
  "addressed x (snd (read_mail reader ms)) @ unread x (fst (read_mail reader ms)) = unread x ms"
proof -
  have "addressed x (snd (read_mail reader ms)) = (if x = reader \<or> x = ''*'' then unread x ms else [])"
  proof (induction ms)
    case (Cons m ms)
    then show ?case
      by (cases "ml_to m = x"; cases "ml_read m") (auto simp: read_mail_def addressed_def unread_def for_reader_def mail_key_def)
  qed (simp add: read_mail_def addressed_def unread_def)
  moreover have "unread x (fst (read_mail reader ms)) = (if x = reader \<or> x = ''*'' then [] else unread x ms)"
  proof (induction ms)
    case (Cons m ms)
    then show ?case
      by (cases "ml_to m = x"; cases "ml_read m") (auto simp: read_mail_def addressed_def unread_def for_reader_def mail_key_def)
  qed (simp add: read_mail_def addressed_def unread_def)
  ultimately show ?thesis by simp
qed

lemma mail_serial:
  "concat (map (addressed x) (snd (serial mail_do trs ms))) @ unread x (fst (serial mail_do trs ms)) = unread x ms @ sent_to x trs"
proof (induction trs arbitrary: ms)
  case (Cons tr trs)
  show ?case
  proof (cases tr)
    case (SendMail now sender recipient body)
    have "unread x (send_mail now sender recipient body ms) = unread x ms @ (if recipient = x then [(now, sender, body)] else [])"
      by (simp add: send_mail_def unread_def addressed_def mail_key_def)
    moreover have "addressed x [] = []" by (simp add: addressed_def)
    ultimately show ?thesis using Cons.IH [of "send_mail now sender recipient body ms"] SendMail by simp
  next
    case (ReadMail reader)
    show ?thesis using Cons.IH [of "fst (read_mail reader ms)"] ReadMail by (simp flip: read_mail_splits [of x reader ms])
  qed
qed simp

text \<open>
  Messages arrive once and in order. In every interleaving without a stale removal, for every address,
  the messages that the committed reads were given followed by those still unread are exactly those
  sent to the address, in the order they were sent.
\<close>

theorem mail_delivered_in_order:
  assumes "lock_run mail_do as (new_team None) = (w, ls)" and "Removed \<notin> set ls"
  shows "concat (map (addressed x) (map snd (commits ls))) @ unread x (read_file (tf_file w)) = sent_to x (map fst (commits ls))"
proof -
  have "serial mail_do (map fst (commits ls)) [] = (read_file (tf_file w), map snd (commits ls))"
    using lock_run_serial [OF lock_inv_new [of mail_do None], of as] assms by (simp add: read_file_def)
  with mail_serial [of x "map fst (commits ls)" "[]"] show ?thesis by (simp add: unread_def addressed_def)
qed

theorem mail_delivered_in_order_witness:
  "\<exists>w ls. lock_run mail_do (concat (map (\<lambda>tr. Call 0 tr # replicate 5 (Go 0))
        [SendMail 1 ''ann'' ''bob'' ''hi'', SendMail 2 ''ann'' ''cat'' ''yo'', ReadMail ''bob'', SendMail 3 ''ann'' ''bob'' ''re''])) (new_team None) = (w, ls)
    \<and> concat (map (addressed ''bob'') (map snd (commits ls))) @ unread ''bob'' (read_file (tf_file w)) = [(1, ''ann'', ''hi''), (3, ''ann'', ''re'')]"
proof -
  let ?as = "concat (map (\<lambda>tr. Call 0 tr # replicate 5 (Go 0))
        [SendMail 1 ''ann'' ''bob'' ''hi'', SendMail 2 ''ann'' ''cat'' ''yo'', ReadMail ''bob'', SendMail 3 ''ann'' ''bob'' ''re''])"
  let ?r = "lock_run mail_do ?as (new_team None)"
  have five: "replicate 5 (Go 0) = [Go 0, Go 0, Go 0, Go 0, Go 0]" by (simp add: eval_nat_numeral)
  have r: "Removed \<notin> set (snd ?r)" "map fst (commits (snd ?r)) = [SendMail 1 ''ann'' ''bob'' ''hi'', SendMail 2 ''ann'' ''cat'' ''yo'', ReadMail ''bob'', SendMail 3 ''ann'' ''bob'' ''re'']"
    unfolding five by (simp_all add: run_simps send_mail_def read_mail_def)
  have "concat (map (addressed ''bob'') (map snd (commits (snd ?r)))) @ unread ''bob'' (read_file (tf_file (fst ?r))) = [(1, ''ann'', ''hi''), (3, ''ann'', ''re'')]"
    unfolding mail_delivered_in_order [OF prod.collapse [symmetric] r(1)] r(2) by simp
  then show ?thesis by (intro exI conjI) (rule prod.collapse [symmetric])
qed

text \<open>
  A broadcast reaches only the teammate who reads first: once anybody has read the mailbox, no inbox
  holds a message sent to everybody before.
\<close>

theorem broadcast_reaches_one:
  "filter (\<lambda>m. ml_to m = ''*'') (snd (read_mail other (fst (read_mail reader ms)))) = []"
  by (auto simp: read_mail_def for_reader_def filter_empty_conv)

end
