(* ===== verification/Hooks.thy ===== *)
theory Hooks
  imports Permissions
begin

text \<open>
  The hook runner and the loading of hooks and permission rules: \<open>packages/hooks/src/runner.ts\<close> and
  \<open>load.ts\<close>.

  Running a hook's process is a parameter (the exit code and the two outputs, given the hook and the
  JSON it reads), as are the engine's regular expressions, \<open>None\<close> for one that does not compile, and
  \<open>JSON.parse\<close>. A settings file is a layer: absent, unreadable with a message, or a parsed value.
\<close>

section \<open>Hooks\<close>

datatype hook_event = PreToolUse | PostToolUse | UserPromptSubmit | Stop | SubagentStop | SessionStart | SessionEnd
  | PreCompact | Notification

definition hook_events :: "(string \<times> hook_event) list" where
  "hook_events = [(''PreToolUse'', PreToolUse), (''PostToolUse'', PostToolUse), (''UserPromptSubmit'', UserPromptSubmit),
     (''Stop'', Stop), (''SubagentStop'', SubagentStop), (''SessionStart'', SessionStart), (''SessionEnd'', SessionEnd),
     (''PreCompact'', PreCompact), (''Notification'', Notification)]"

fun event_name :: "hook_event \<Rightarrow> string" where
  "event_name PreToolUse = ''PreToolUse''"
| "event_name PostToolUse = ''PostToolUse''"
| "event_name UserPromptSubmit = ''UserPromptSubmit''"
| "event_name Stop = ''Stop''"
| "event_name SubagentStop = ''SubagentStop''"
| "event_name SessionStart = ''SessionStart''"
| "event_name SessionEnd = ''SessionEnd''"
| "event_name PreCompact = ''PreCompact''"
| "event_name Notification = ''Notification''"

record sourced_hook =
  sh_command :: string
  sh_timeout :: "json option"
  sh_matcher :: "string option"
  sh_source :: string

type_synonym hooks_table = "hook_event \<Rightarrow> sourced_hook list"

record exec_result =
  ex_code :: int
  ex_stdout :: string
  ex_stderr :: string

record hook_outcome =
  hk_blocked :: bool
  hk_reason :: "string option"
  hk_permission :: "decision option"
  hk_updated :: "(string \<times> json) list option"
  hk_context :: "string list"
  hk_halt :: "string option option"
  hk_messages :: "string list"
  hk_errors :: "string list"

record hook_env =
  he_hooks :: hooks_table
  he_cwd :: string
  he_session :: string
  he_transcript :: "string option"
  he_mode :: "string option"
  he_host :: host
  he_regex :: "string \<Rightarrow> (string \<Rightarrow> bool) option"
  he_parse :: "string \<Rightarrow> json option"
  he_exec :: "sourced_hook \<Rightarrow> json \<Rightarrow> exec_result"

definition no_outcome :: hook_outcome where
  "no_outcome = \<lparr>hk_blocked = False, hk_reason = None, hk_permission = None, hk_updated = None, hk_context = [],
     hk_halt = None, hk_messages = [], hk_errors = []\<rparr>"

definition has_hooks :: "hook_env \<Rightarrow> hook_event \<Rightarrow> bool" where
  "has_hooks env ev = (0 < length (he_hooks env ev))"

definition list_hooks :: "hook_env \<Rightarrow> (hook_event \<times> sourced_hook) list" where
  "list_hooks env = concat (map (\<lambda>(_, ev). map (Pair ev) (he_hooks env ev)) hook_events)"

definition hook_matches :: "(string \<Rightarrow> (string \<Rightarrow> bool) option) \<Rightarrow> string option \<Rightarrow> string option \<Rightarrow> bool" where
  "hook_matches regex matcher subject =
     (if matcher = None \<or> matcher = Some [] \<or> matcher = Some ''*'' then True
      else case subject of
             None \<Rightarrow> True
           | Some s \<Rightarrow>
               (case regex (''^(?:'' @ the matcher @ '')$'') of
                  Some re \<Rightarrow> list_ex re (names_of s)
                | None \<Rightarrow> the matcher \<in> set (names_of s)))"

definition clip_line :: "string \<Rightarrow> string" where
  "clip_line s =
     (let line = hd (lines_of s) in if length line > 120 then slice 0 117 line @ ''...'' else line)"

definition parse_object :: "hook_env \<Rightarrow> string \<Rightarrow> (string \<times> json) list option" where
  "parse_object env s =
     (if \<not> starts_with s ''{'' then None
      else case he_parse env s of Some (JObj kvs) \<Rightarrow> Some kvs | _ \<Rightarrow> None)"

text \<open>The reason of a hook that gave none, and the message of one that failed.\<close>

definition default_reason :: "hook_event \<Rightarrow> sourced_hook \<Rightarrow> string" where
  "default_reason ev h = ''Blocked by a '' @ event_name ev @ '' hook ('' @ sh_source h @ '').''"

definition failure_text :: "hook_event \<Rightarrow> sourced_hook \<Rightarrow> int \<Rightarrow> string \<Rightarrow> string" where
  "failure_text ev h code stderr =
     event_name ev @ '' hook `'' @ clip_line (sh_command h) @ ''` ('' @ sh_source h @ '') exited '' @ int_str code
       @ (if stderr \<noteq> [] then '': '' @ clip_line stderr else [])"

fun opt_str :: "json \<Rightarrow> string option" where
  "opt_str (JStr s) = Some s"
| "opt_str _ = None"

text \<open>\<open>decision\<close>, then \<open>hookSpecificOutput\<close>.\<close>

definition top_decision :: "hook_event \<Rightarrow> sourced_hook \<Rightarrow> json \<Rightarrow> hook_outcome \<Rightarrow> hook_outcome" where
  "top_decision ev h j oc =
     (if jget j ''decision'' = JStr ''block''
      then oc\<lparr>hk_blocked := True,
              hk_reason := Some (case opt_str (jget j ''reason'') of None \<Rightarrow> default_reason ev h | Some r \<Rightarrow> r)\<rparr>
      else if jget j ''decision'' = JStr ''approve'' then oc\<lparr>hk_permission := Some Allow\<rparr>
      else oc)"

definition permission_of :: "json \<Rightarrow> decision option" where
  "permission_of v = (if v = JStr ''allow'' then Some Allow else if v = JStr ''deny'' then Some Deny
     else if v = JStr ''ask'' then Some AskUser else None)"

definition specific_permission :: "sourced_hook \<Rightarrow> json \<Rightarrow> hook_outcome \<Rightarrow> hook_outcome" where
  "specific_permission h s oc =
     (case permission_of (jget s ''permissionDecision'') of
        None \<Rightarrow> oc
      | Some d \<Rightarrow>
          (let why = opt_str (jget s ''permissionDecisionReason'');
               o1 = oc\<lparr>hk_permission := Some d, hk_reason := (if why \<noteq> None then why else hk_reason oc)\<rparr>
           in if d = Deny
              then o1\<lparr>hk_blocked := True,
                      hk_reason := (if hk_reason o1 = None then Some (''Denied by a PreToolUse hook ('' @ sh_source h @ '').'')
                                    else hk_reason o1)\<rparr>
              else o1))"

definition specific_rest :: "json \<Rightarrow> hook_outcome \<Rightarrow> hook_outcome" where
  "specific_rest s oc =
     (let o1 = (case jget s ''updatedInput'' of JObj kvs \<Rightarrow> oc\<lparr>hk_updated := Some kvs\<rparr> | _ \<Rightarrow> oc)
      in case opt_str (jget s ''additionalContext'') of
           Some c \<Rightarrow> if trim c \<noteq> [] then o1\<lparr>hk_context := hk_context o1 @ [trim c]\<rparr> else o1
         | None \<Rightarrow> o1)"

definition interpret_json :: "hook_event \<Rightarrow> sourced_hook \<Rightarrow> json \<Rightarrow> hook_outcome" where
  "interpret_json ev h j =
     (let o1 = (if jget j ''continue'' = JBool False
                then no_outcome\<lparr>hk_halt := Some (opt_str (jget j ''stopReason''))\<rparr> else no_outcome);
          o2 = (case opt_str (jget j ''systemMessage'') of Some m \<Rightarrow> o1\<lparr>hk_messages := [m]\<rparr> | None \<Rightarrow> o1);
          o3 = top_decision ev h j o2
      in if is_record (jget j ''hookSpecificOutput'')
         then specific_rest (jget j ''hookSpecificOutput'') (specific_permission h (jget j ''hookSpecificOutput'') o3)
         else o3)"

definition interpret_hook :: "hook_env \<Rightarrow> hook_event \<Rightarrow> exec_result \<Rightarrow> sourced_hook \<Rightarrow> hook_outcome" where
  "interpret_hook env ev r h =
     (let stdout = trim (ex_stdout r); stderr = trim (ex_stderr r)
      in if ex_code r = 2
         then no_outcome\<lparr>hk_blocked := True, hk_reason := Some (if stderr \<noteq> [] then stderr else default_reason ev h)\<rparr>
         else if ex_code r \<noteq> 0 then no_outcome\<lparr>hk_errors := [failure_text ev h (ex_code r) stderr]\<rparr>
         else case parse_object env stdout of
                None \<Rightarrow>
                  (if stdout \<noteq> [] \<and> (ev = UserPromptSubmit \<or> ev = SessionStart) then no_outcome\<lparr>hk_context := [stdout]\<rparr>
                   else no_outcome)
              | Some kvs \<Rightarrow> interpret_json ev h (JObj kvs))"

fun permission_rank :: "decision \<Rightarrow> nat" where
  "permission_rank Deny = 3"
| "permission_rank AskUser = 2"
| "permission_rank Allow = 1"

definition spread :: "(string \<times> json) list \<Rightarrow> (string \<times> json) list \<Rightarrow> (string \<times> json) list" where
  "spread base kvs = fold (\<lambda>(k, v). set_field k v) kvs base"

text \<open>The three updates of \<open>merge\<close>, in its order.\<close>

definition merge_block :: "hook_outcome \<Rightarrow> hook_outcome \<Rightarrow> hook_outcome" where
  "merge_block into new =
     (if hk_blocked new \<and> \<not> hk_blocked into then into\<lparr>hk_blocked := True, hk_reason := hk_reason new\<rparr>
      else if hk_blocked new \<and> truthy (hk_reason new)
      then into\<lparr>hk_reason := Some (trim ((case hk_reason into of None \<Rightarrow> [] | Some r \<Rightarrow> r) @ [u_lf] @ the (hk_reason new)))\<rparr>
      else into)"

definition merge_permission :: "hook_outcome \<Rightarrow> hook_outcome \<Rightarrow> hook_outcome" where
  "merge_permission into new =
     (case hk_permission new of
        None \<Rightarrow> into
      | Some d \<Rightarrow>
          (if (case hk_permission into of None \<Rightarrow> True | Some d0 \<Rightarrow> permission_rank d > permission_rank d0)
           then into\<lparr>hk_permission := Some d,
                     hk_reason := (if \<not> hk_blocked into \<and> truthy (hk_reason new) then hk_reason new else hk_reason into)\<rparr>
           else into))"

definition merge_outcome :: "hook_outcome \<Rightarrow> hook_outcome \<Rightarrow> hook_outcome" where
  "merge_outcome into new =
     (let m = merge_permission (merge_block into new) new
      in m\<lparr>hk_updated := (case hk_updated new of
              None \<Rightarrow> hk_updated m
            | Some kvs \<Rightarrow> Some (spread (case hk_updated m of None \<Rightarrow> [] | Some k0 \<Rightarrow> k0) kvs)),
            hk_halt := (if hk_halt new \<noteq> None then hk_halt new else hk_halt m),
            hk_context := hk_context m @ hk_context new,
            hk_messages := hk_messages m @ hk_messages new,
            hk_errors := hk_errors m @ hk_errors new\<rparr>)"

text \<open>\<open>[...new Map(candidates.map((h) => [h.command, h])).values()]\<close>\<close>

definition unique_hooks :: "sourced_hook list \<Rightarrow> sourced_hook list" where
  "unique_hooks hs = map snd (fold (\<lambda>h. AList.update (sh_command h) h) hs [])"

definition hook_candidates :: "hook_env \<Rightarrow> hook_event \<Rightarrow> string option \<Rightarrow> sourced_hook list" where
  "hook_candidates env ev subject =
     unique_hooks (filter (\<lambda>h. hook_matches (he_regex env) (sh_matcher h) subject) (he_hooks env ev))"

definition hook_input :: "hook_env \<Rightarrow> hook_event \<Rightarrow> (string \<times> json) list \<Rightarrow> json" where
  "hook_input env ev payload =
     JObj (spread [(''session_id'', JStr (he_session env)),
            (''transcript_path'', JStr (case he_transcript env of None \<Rightarrow> [] | Some p \<Rightarrow> p)),
            (''cwd'', JStr (he_cwd env)), (''hook_event_name'', JStr (event_name ev)),
            (''permission_mode'', JStr (case he_mode env of None \<Rightarrow> ''auto'' | Some m \<Rightarrow> m))] payload)"

definition hook_results :: "hook_env \<Rightarrow> hook_event \<Rightarrow> (string \<times> json) list \<Rightarrow> string option \<Rightarrow> hook_outcome list" where
  "hook_results env ev payload subject =
     map (\<lambda>h. interpret_hook env ev (he_exec env h (hook_input env ev payload)) h) (hook_candidates env ev subject)"

definition run_hooks :: "hook_env \<Rightarrow> hook_event \<Rightarrow> (string \<times> json) list \<Rightarrow> string option \<Rightarrow> hook_outcome" where
  "run_hooks env ev payload subject = foldl merge_outcome no_outcome (hook_results env ev payload subject)"

definition pre_tool_use :: "hook_env \<Rightarrow> string \<Rightarrow> json \<Rightarrow> hook_outcome" where
  "pre_tool_use env tool input =
     run_hooks env PreToolUse
       [(''tool_name'', JStr (claude_name tool)), (''jean_tool_name'', JStr tool),
        (''tool_input'', JObj (claude_input (he_host env) tool input (he_cwd env)))] (Some tool)"

definition post_tool_use :: "hook_env \<Rightarrow> string \<Rightarrow> json \<Rightarrow> string \<Rightarrow> bool \<Rightarrow> hook_outcome" where
  "post_tool_use env tool input output is_error =
     run_hooks env PostToolUse
       [(''tool_name'', JStr (claude_name tool)), (''jean_tool_name'', JStr tool),
        (''tool_input'', JObj (claude_input (he_host env) tool input (he_cwd env))),
        (''tool_response'', JObj [(''output'', JStr output), (''is_error'', JBool is_error), (''success'', JBool (\<not> is_error))])]
       (Some tool)"

section \<open>Settings files\<close>

text \<open>What reading a settings file gives: absent, the message of the parse error, or the value.\<close>

record layer =
  ly_path :: string
  ly_project :: bool
  ly_content :: "(string + json) option"

record loaded =
  lp_rules :: "rule list"
  lp_hooks :: hooks_table
  lp_sources :: "string list"
  lp_ignored :: "string list"
  lp_warnings :: "string list"

text \<open>The layers, lowest first; \<open>home\<close>, \<open>jean\<close> and \<open>cwd\<close> are absolute.\<close>

definition policy_layers :: "bool \<Rightarrow> string \<Rightarrow> string \<Rightarrow> string \<Rightarrow> (string \<Rightarrow> (string + json) option) \<Rightarrow> layer list" where
  "policy_layers import_claude home jean cwd files =
     (let mk = (\<lambda>(p, project). \<lparr>ly_path = p, ly_project = project, ly_content = files p\<rparr>)
      in map mk
       ((if import_claude then [(abs_path (home @ ''/.claude/settings.json''), False)] else [])
        @ [(abs_path (jean @ ''/config.json''), False)]
        @ (if import_claude
           then [(abs_path (cwd @ ''/.claude/settings.json''), True), (abs_path (cwd @ ''/.claude/settings.local.json''), True)]
           else [])
        @ [(abs_path (cwd @ ''/.jean.json''), True)]))"

fun decision_key :: "decision \<Rightarrow> string" where
  "decision_key Deny = ''deny''"
| "decision_key AskUser = ''ask''"
| "decision_key Allow = ''allow''"

text \<open>The state of the loop over one layer: what is loaded, and whether the layer contributed.\<close>

definition load_rule :: "bool \<Rightarrow> layer \<Rightarrow> decision \<Rightarrow> json \<Rightarrow> loaded \<times> bool \<Rightarrow> loaded \<times> bool" where
  "load_rule trusted l d raw st =
     (case raw of
        JStr s \<Rightarrow>
          (if ly_project l \<and> d = Allow \<and> \<not> trusted
           then ((fst st)\<lparr>lp_ignored := lp_ignored (fst st) @ [''allow rule `'' @ s @ ''` from '' @ ly_path l]\<rparr>, snd st)
           else case parse_rule s d (ly_path l) of
                  Some r \<Rightarrow> ((fst st)\<lparr>lp_rules := lp_rules (fst st) @ [r]\<rparr>, True)
                | None \<Rightarrow> ((fst st)\<lparr>lp_warnings := lp_warnings (fst st) @ [ly_path l @ '': `'' @ s @ ''` is not a permission rule'']\<rparr>, snd st))
      | _ \<Rightarrow> st)"

definition json_elems :: "json \<Rightarrow> json list" where
  "json_elems v = (case v of JArr vs \<Rightarrow> vs | _ \<Rightarrow> [])"

definition load_rules :: "bool \<Rightarrow> layer \<Rightarrow> json \<Rightarrow> loaded \<times> bool \<Rightarrow> loaded \<times> bool" where
  "load_rules trusted l permissions st =
     (if is_object permissions
      then fold (\<lambda>d. fold (load_rule trusted l d) (json_elems (jget permissions (decision_key d)))) [Deny, AskUser, Allow] st
      else st)"

fun positive_number :: "json \<Rightarrow> bool" where
  "positive_number (JNum n) = (n > 0)"
| "positive_number (JDec m k) = (m > 0)"
| "positive_number _ = False"

definition read_hook :: "string \<Rightarrow> json \<Rightarrow> json \<Rightarrow> sourced_hook list" where
  "read_hook source matcher h =
     (if \<not> is_record h then []
      else if jget h ''type'' \<noteq> JUndef \<and> jget h ''type'' \<noteq> JStr ''command'' then []
      else case jget h ''command'' of
             JStr c \<Rightarrow>
               (if trim c = [] then []
                else [\<lparr>sh_command = c, sh_timeout = (if positive_number (jget h ''timeout'') then Some (jget h ''timeout'') else None),
                       sh_matcher = opt_str matcher, sh_source = source\<rparr>])
           | _ \<Rightarrow> [])"

definition read_hooks :: "json \<Rightarrow> string \<Rightarrow> sourced_hook list" where
  "read_hooks entries source =
     concat (map (\<lambda>e. if is_record e
                      then concat (map (read_hook source (jget e ''matcher'')) (json_elems (jget e ''hooks''))) else [])
       (json_elems entries))"

definition load_hook :: "bool \<Rightarrow> layer \<Rightarrow> string \<Rightarrow> hook_event \<Rightarrow> sourced_hook \<Rightarrow> loaded \<times> bool \<Rightarrow> loaded \<times> bool" where
  "load_hook trusted l name ev h st =
     (if ly_project l \<and> \<not> trusted
      then ((fst st)\<lparr>lp_ignored := lp_ignored (fst st) @ [name @ '' hook `'' @ sh_command h @ ''` from '' @ ly_path l]\<rparr>, snd st)
      else ((fst st)\<lparr>lp_hooks := (lp_hooks (fst st))(ev := lp_hooks (fst st) ev @ [h])\<rparr>, True))"

definition load_event :: "bool \<Rightarrow> layer \<Rightarrow> string \<times> json \<Rightarrow> loaded \<times> bool \<Rightarrow> loaded \<times> bool" where
  "load_event trusted l entry st =
     (case map_of hook_events (fst entry) of
        None \<Rightarrow> ((fst st)\<lparr>lp_warnings := lp_warnings (fst st) @ [ly_path l @ '': unknown hook event `'' @ fst entry @ ''`'']\<rparr>, snd st)
      | Some ev \<Rightarrow> fold (load_hook trusted l (fst entry) ev) (read_hooks (snd entry) (ly_path l)) st)"

definition load_hooks :: "bool \<Rightarrow> layer \<Rightarrow> json \<Rightarrow> loaded \<times> bool \<Rightarrow> loaded \<times> bool" where
  "load_hooks trusted l config st = (case config of JObj kvs \<Rightarrow> fold (load_event trusted l) kvs st | _ \<Rightarrow> st)"

definition load_layer :: "bool \<Rightarrow> layer \<Rightarrow> loaded \<Rightarrow> loaded" where
  "load_layer trusted l ld =
     (case ly_content l of
        None \<Rightarrow> ld
      | Some (Inl e) \<Rightarrow> ld\<lparr>lp_warnings := lp_warnings ld @ [ly_path l @ '': '' @ e]\<rparr>
      | Some (Inr v) \<Rightarrow>
          (if \<not> is_object v then ld
           else case load_hooks trusted l (jget v ''hooks'') (load_rules trusted l (jget v ''permissions'') (ld, False)) of
                  (ld', used) \<Rightarrow> if used then ld'\<lparr>lp_sources := lp_sources ld' @ [ly_path l]\<rparr> else ld'))"

definition nothing_loaded :: loaded where
  "nothing_loaded = \<lparr>lp_rules = [], lp_hooks = (\<lambda>_. []), lp_sources = [], lp_ignored = [], lp_warnings = []\<rparr>"

definition load_policy :: "bool \<Rightarrow> layer list \<Rightarrow> loaded" where
  "load_policy trusted layers = fold (load_layer trusted) layers nothing_loaded"

section \<open>The trust store\<close>

text \<open>The file holds a list of paths, \<open>None\<close> when it is missing or does not parse.\<close>

definition read_trusted :: "json option \<Rightarrow> string list" where
  "read_trusted file =
     (case file of None \<Rightarrow> []
      | Some v \<Rightarrow> concat (map (\<lambda>x. case x of JStr s \<Rightarrow> [s] | _ \<Rightarrow> []) (json_elems (jget v ''projects''))))"

definition write_trusted :: "string list \<Rightarrow> json option" where
  "write_trusted projects = Some (JObj [(''projects'', JArr (map JStr projects))])"

definition trust_key :: "string \<Rightarrow> string \<Rightarrow> string" where
  "trust_key here p =
     rev (dropWhile (\<lambda>c. c = CHR ''/'' \<or> c = CHR 0x5C) (rev (resolve here [] p)))"

definition is_trusted :: "string \<Rightarrow> bool \<Rightarrow> string \<Rightarrow> json option \<Rightarrow> bool" where
  "is_trusted here forced cwd file =
     (forced \<or> (let target = trust_key here cwd
        in list_ex (\<lambda>root. let k = trust_key here root
             in target = k \<or> starts_with target (k @ ''/'') \<or> starts_with target (k @ [CHR 0x5C])) (read_trusted file)))"

definition trust_project :: "string \<Rightarrow> string \<Rightarrow> json option \<Rightarrow> json option" where
  "trust_project here cwd file =
     (if list_ex (\<lambda>p. trust_key here p = trust_key here cwd) (read_trusted file) then file
      else write_trusted (read_trusted file @ [resolve here [] cwd]))"

definition untrust_project :: "string \<Rightarrow> string \<Rightarrow> json option \<Rightarrow> bool \<times> json option" where
  "untrust_project here cwd file =
     (let kept = filter (\<lambda>p. trust_key here p \<noteq> trust_key here cwd) (read_trusted file)
      in if length kept = length (read_trusted file) then (False, file) else (True, write_trusted kept))"

text \<open>\<open>loadPolicy\<close> as it is called: trust is given or looked up for the resolved directory.\<close>

definition load_project :: "string \<Rightarrow> bool \<Rightarrow> json option \<Rightarrow> string \<Rightarrow> string \<Rightarrow> (string \<Rightarrow> (string + json) option) \<Rightarrow>
    bool option \<Rightarrow> bool \<Rightarrow> string \<Rightarrow> loaded" where
  "load_project here forced store home jean files given import_claude dir =
     (let cwd = resolve here [] dir;
          trusted = (case given of Some t \<Rightarrow> t | None \<Rightarrow> is_trusted here forced cwd store)
      in load_policy trusted (policy_layers import_claude home jean cwd files))"

section \<open>Merging outcomes\<close>

text \<open>Deny over ask over allow over nothing.\<close>

definition strictest :: "decision option list \<Rightarrow> decision option" where
  "strictest ds = (if Some Deny \<in> set ds then Some Deny else if Some AskUser \<in> set ds then Some AskUser
     else if Some Allow \<in> set ds then Some Allow else None)"

lemma strictest_single [simp]: "strictest [d] = d"
proof (cases d)
  case (Some x)
  then show ?thesis by (cases x) (simp_all add: strictest_def)
qed (simp add: strictest_def)

lemma strictest_pair:
  "strictest [None, d] = d" "strictest [d, None] = d"
  "strictest [Some x, Some y] = Some (if permission_rank x < permission_rank y then y else x)"
proof -
  have "strictest [None, d] = strictest [d]" "strictest [d, None] = strictest [d]" by (simp_all add: strictest_def)
  then show "strictest [None, d] = d" "strictest [d, None] = d" by simp_all
  show "strictest [Some x, Some y] = Some (if permission_rank x < permission_rank y then y else x)"
    by (cases x; cases y) (simp_all add: strictest_def)
qed

lemma merge_fields [simp]:
  "hk_blocked (merge_outcome a b) = (hk_blocked a \<or> hk_blocked b)"
  "hk_permission (merge_outcome a b) = strictest [hk_permission a, hk_permission b]"
  "hk_context (merge_outcome a b) = hk_context a @ hk_context b"
  "hk_messages (merge_outcome a b) = hk_messages a @ hk_messages b"
  "hk_errors (merge_outcome a b) = hk_errors a @ hk_errors b"
proof -
  have perm: "hk_permission (merge_permission x b) = strictest [hk_permission x, hk_permission b]" for x
    by (cases "hk_permission x"; cases "hk_permission b") (simp_all add: merge_permission_def strictest_pair)
  have block: "hk_permission (merge_block a b) = hk_permission a" "hk_context (merge_block a b) = hk_context a"
    "hk_messages (merge_block a b) = hk_messages a" "hk_errors (merge_block a b) = hk_errors a"
    "hk_blocked (merge_block a b) = (hk_blocked a \<or> hk_blocked b)"
    by (auto simp: merge_block_def)
  have keep: "hk_context (merge_permission x b) = hk_context x" "hk_messages (merge_permission x b) = hk_messages x"
    "hk_errors (merge_permission x b) = hk_errors x" "hk_blocked (merge_permission x b) = hk_blocked x" for x
    by (auto simp: merge_permission_def split: option.splits)
  show "hk_blocked (merge_outcome a b) = (hk_blocked a \<or> hk_blocked b)"
    "hk_permission (merge_outcome a b) = strictest [hk_permission a, hk_permission b]"
    "hk_context (merge_outcome a b) = hk_context a @ hk_context b"
    "hk_messages (merge_outcome a b) = hk_messages a @ hk_messages b"
    "hk_errors (merge_outcome a b) = hk_errors a @ hk_errors b"
    by (simp_all add: merge_outcome_def Let_def perm block keep)
qed

lemma strictest_Cons: "strictest (strictest [a, b] # ds) = strictest (a # b # ds)"
  by (auto simp: strictest_def)

lemma foldl_merge:
  "hk_blocked (foldl merge_outcome a rs) = (hk_blocked a \<or> list_ex hk_blocked rs)"
  "hk_permission (foldl merge_outcome a rs) = strictest (hk_permission a # map hk_permission rs)"
  "hk_context (foldl merge_outcome a rs) = hk_context a @ concat (map hk_context rs)"
  "hk_messages (foldl merge_outcome a rs) = hk_messages a @ concat (map hk_messages rs)"
  "hk_errors (foldl merge_outcome a rs) = hk_errors a @ concat (map hk_errors rs)"
  by (induction rs arbitrary: a) (simp_all add: strictest_Cons)

section \<open>Each command once\<close>

definition keyed :: "(string \<times> sourced_hook) list \<Rightarrow> bool" where
  "keyed al \<longleftrightarrow> (\<forall>(k, h)\<in>set al. k = sh_command h)"

lemma keyed_update: "keyed al \<Longrightarrow> keyed (AList.update (sh_command h) h al)"
proof (induction al)
  case (Cons p al)
  then show ?case by (cases p) (auto simp: keyed_def)
qed (simp add: keyed_def)

lemma keyed_fold: "keyed al \<Longrightarrow> keyed (fold (\<lambda>h. AList.update (sh_command h) h) hs al)"
  by (induction hs arbitrary: al) (auto simp: keyed_update)

lemma keyed_commands: "keyed al \<Longrightarrow> map sh_command (map snd al) = map fst al"
  by (induction al) (auto simp: keyed_def)

lemma keys_update: "map fst (AList.update k v al) = (if k \<in> set (map fst al) then map fst al else map fst al @ [k])"
  by (induction al) auto

lemma keys_fold:
  "map fst (fold (\<lambda>h. AList.update (sh_command h) h) hs al) = map fst al @ dedupe_acc (map fst al) (map sh_command hs)"
  by (induction hs arbitrary: al) (auto simp: keys_update)

lemma unique_commands: "map sh_command (unique_hooks hs) = dedupe (map sh_command hs)"
proof -
  have "keyed (fold (\<lambda>h. AList.update (sh_command h) h) hs [])" by (rule keyed_fold) (simp add: keyed_def)
  from keyed_commands [OF this] keys_fold [of hs "[]"] show ?thesis by (simp add: unique_hooks_def dedupe_def)
qed

lemma in_unique_hooks: "h \<in> set hs \<Longrightarrow> \<exists>h'\<in>set (unique_hooks hs). sh_command h' = sh_command h"
proof -
  assume "h \<in> set hs"
  then have "sh_command h \<in> set (map sh_command (unique_hooks hs))"
    unfolding unique_commands dedupe_def dedupe_acc_set by auto
  then show ?thesis by auto
qed

section \<open>What running hooks guarantees\<close>

definition sample_hook_env :: hook_env where
  "sample_hook_env = \<lparr>he_hooks = (\<lambda>ev. if ev = PreToolUse
       then [\<lparr>sh_command = ''fmt'', sh_timeout = None, sh_matcher = None, sh_source = ''a''\<rparr>,
             \<lparr>sh_command = ''guard'', sh_timeout = None, sh_matcher = Some ''Bash'', sh_source = ''b''\<rparr>] else []),
     he_cwd = ''/w'', he_session = ''s'', he_transcript = None, he_mode = None, he_host = sample_host,
     he_regex = (\<lambda>r. Some (\<lambda>s. r = ''^(?:'' @ s @ '')$'')), he_parse = (\<lambda>_. None),
     he_exec = (\<lambda>h _. if sh_command h = ''guard'' then \<lparr>ex_code = 2, ex_stdout = [], ex_stderr = ''no''\<rparr>
                      else \<lparr>ex_code = 1, ex_stdout = [], ex_stderr = ''boom''\<rparr>)\<rparr>"

text \<open>
  How the hooks of an event combine. The event is blocked exactly when one of them blocks, the strictest
  verdict wins, deny over ask over allow, and context, messages and errors of all of them come in the order of
  the hooks.
\<close>

theorem hooks_combine:
  "hk_blocked (run_hooks env ev payload subject) = list_ex hk_blocked (hook_results env ev payload subject)
    \<and> hk_permission (run_hooks env ev payload subject) = strictest (map hk_permission (hook_results env ev payload subject))
    \<and> hk_context (run_hooks env ev payload subject) = concat (map hk_context (hook_results env ev payload subject))
    \<and> hk_messages (run_hooks env ev payload subject) = concat (map hk_messages (hook_results env ev payload subject))
    \<and> hk_errors (run_hooks env ev payload subject) = concat (map hk_errors (hook_results env ev payload subject))"
proof -
  have "strictest (None # ds) = strictest ds" for ds by (simp add: strictest_def)
  then show ?thesis by (simp add: run_hooks_def foldl_merge no_outcome_def)
qed

text \<open>
  C33. A hook that exits with 2 stops the tool. When a hook registered before tool use matches the tool and every
  hook with its command exits with 2, the call is blocked, whatever the other hooks answer.
\<close>

theorem exit_2_blocks:
  assumes "h \<in> set (he_hooks env PreToolUse)" and "hook_matches (he_regex env) (sh_matcher h) (Some tool)"
    and "\<And>h' i. sh_command h' = sh_command h \<Longrightarrow> ex_code (he_exec env h' i) = 2"
  shows "hk_blocked (pre_tool_use env tool input)"
proof -
  have "h \<in> set (filter (\<lambda>h. hook_matches (he_regex env) (sh_matcher h) (Some tool)) (he_hooks env PreToolUse))"
    using assms(1,2) by simp
  from in_unique_hooks [OF this] obtain h' where h': "h' \<in> set (hook_candidates env PreToolUse (Some tool))"
    "sh_command h' = sh_command h" unfolding hook_candidates_def by blast
  have "hk_blocked (interpret_hook env PreToolUse (he_exec env h' i) h')" for i
    using assms(3) [OF h'(2)] by (simp add: interpret_hook_def Let_def)
  with h'(1) show ?thesis
    by (auto simp: pre_tool_use_def run_hooks_def foldl_merge hook_results_def list_ex_iff)
qed

theorem exit_2_blocks_witness:
  "hk_blocked (pre_tool_use sample_hook_env ''bash'' (JObj [(''command'', JStr ''ls'')]))
    \<and> hk_errors (pre_tool_use sample_hook_env ''bash'' (JObj [(''command'', JStr ''ls'')])) = [''PreToolUse hook `fmt` (a) exited 1: boom'']"
proof
  show "hk_blocked (pre_tool_use sample_hook_env ''bash'' (JObj [(''command'', JStr ''ls'')]))"
  proof (rule exit_2_blocks)
    show "\<lparr>sh_command = ''guard'', sh_timeout = None, sh_matcher = Some ''Bash'', sh_source = ''b''\<rparr> \<in> set (he_hooks sample_hook_env PreToolUse)"
      by (simp add: sample_hook_env_def)
    have "''Bash'' \<in> set (names_of ''bash'')" by code_simp
    then show "hook_matches (he_regex sample_hook_env)
        (sh_matcher \<lparr>sh_command = ''guard'', sh_timeout = None, sh_matcher = Some ''Bash'', sh_source = ''b''\<rparr>) (Some ''bash'')"
      by (simp add: hook_matches_def sample_hook_env_def list_ex_iff)
  qed (simp add: sample_hook_env_def)
  show "hk_errors (pre_tool_use sample_hook_env ''bash'' (JObj [(''command'', JStr ''ls'')])) = [''PreToolUse hook `fmt` (a) exited 1: boom'']"
    by code_simp
qed

text \<open>
  A command runs once per event, however often it is registered: the commands run are those of the matching
  hooks without repetition, in the order they are first registered.
\<close>

theorem commands_run_once:
  "map sh_command (hook_candidates env ev subject)
    = dedupe (map sh_command (filter (\<lambda>h. hook_matches (he_regex env) (sh_matcher h) subject) (he_hooks env ev)))"
  by (simp add: hook_candidates_def unique_commands)

lemma merge_no_outcome_errors:
  assumes "hk_blocked b = False" "hk_permission b = None" "hk_updated b = None" "hk_context b = []" "hk_halt b = None" "hk_messages b = []"
  shows "(merge_outcome a b)\<lparr>hk_errors := []\<rparr> = a\<lparr>hk_errors := []\<rparr>"
  using assms by (simp add: merge_outcome_def merge_block_def merge_permission_def Let_def)

lemma merge_ignores_errors:
  "(merge_outcome (a\<lparr>hk_errors := es\<rparr>) b)\<lparr>hk_errors := []\<rparr> = (merge_outcome a b)\<lparr>hk_errors := []\<rparr>"
  by (cases a) (simp add: merge_outcome_def merge_block_def merge_permission_def Let_def split: option.splits)

lemma foldl_merge_errors:
  "(foldl merge_outcome (a\<lparr>hk_errors := es\<rparr>) rs)\<lparr>hk_errors := []\<rparr> = (foldl merge_outcome a rs)\<lparr>hk_errors := []\<rparr>"
proof (induction rs arbitrary: a es)
  case (Cons r rs)
  have "(foldl merge_outcome (merge_outcome (a\<lparr>hk_errors := es\<rparr>) r) rs)\<lparr>hk_errors := []\<rparr>
      = (foldl merge_outcome ((merge_outcome (a\<lparr>hk_errors := es\<rparr>) r)\<lparr>hk_errors := []\<rparr>) rs)\<lparr>hk_errors := []\<rparr>"
    by (rule Cons.IH [symmetric])
  also have "\<dots> = (foldl merge_outcome ((merge_outcome a r)\<lparr>hk_errors := []\<rparr>) rs)\<lparr>hk_errors := []\<rparr>"
    by (simp only: merge_ignores_errors)
  also have "\<dots> = (foldl merge_outcome (merge_outcome a r) rs)\<lparr>hk_errors := []\<rparr>" by (rule Cons.IH)
  finally show ?case by simp
qed simp

text \<open>
  A broken hook stops nothing. A hook whose process ends with any code other than 0 and 2 leaves its
  error message and nothing else: apart from the errors the outcome is that of the hooks that did not fail.
\<close>

theorem broken_hooks_harmless:
  "(run_hooks env ev payload subject)\<lparr>hk_errors := []\<rparr>
    = (foldl merge_outcome no_outcome
        (map (\<lambda>h. interpret_hook env ev (he_exec env h (hook_input env ev payload)) h)
          (filter (\<lambda>h. ex_code (he_exec env h (hook_input env ev payload)) \<in> {0, 2}) (hook_candidates env ev subject))))\<lparr>hk_errors := []\<rparr>"
proof -
  let ?i = "hook_input env ev payload"
  let ?f = "\<lambda>h. interpret_hook env ev (he_exec env h ?i) h"
  have "(foldl merge_outcome a (map ?f hs))\<lparr>hk_errors := []\<rparr>
      = (foldl merge_outcome a (map ?f (filter (\<lambda>h. ex_code (he_exec env h ?i) \<in> {0, 2}) hs)))\<lparr>hk_errors := []\<rparr>" for a hs
  proof (induction hs arbitrary: a)
    case (Cons h hs)
    show ?case
    proof (cases "ex_code (he_exec env h ?i) \<in> {0, 2}")
      case False
      then have "(merge_outcome a (?f h))\<lparr>hk_errors := []\<rparr> = a\<lparr>hk_errors := []\<rparr>"
        by (intro merge_no_outcome_errors) (simp_all add: interpret_hook_def no_outcome_def Let_def)
      then have "(foldl merge_outcome (merge_outcome a (?f h)) (map ?f hs))\<lparr>hk_errors := []\<rparr>
          = (foldl merge_outcome a (map ?f hs))\<lparr>hk_errors := []\<rparr>"
        using foldl_merge_errors [of "[]" "merge_outcome a (?f h)" "map ?f hs"] foldl_merge_errors [of "[]" a "map ?f hs"]
        by (simp only:)
      with False Cons.IH [of a] show ?thesis by simp
    qed (simp add: Cons.IH)
  qed simp
  then show ?thesis by (simp only: run_hooks_def hook_results_def)
qed

section \<open>Untrusted projects\<close>

text \<open>What one layer contributes: the rules of its strings, and its hooks.\<close>

definition rules_of_strings :: "layer \<Rightarrow> decision \<Rightarrow> json list \<Rightarrow> rule list" where
  "rules_of_strings l d vs = concat (map (\<lambda>v. case v of JStr s \<Rightarrow> (case parse_rule s d (ly_path l) of Some r \<Rightarrow> [r] | None \<Rightarrow> []) | _ \<Rightarrow> []) vs)"

definition layer_rules :: "layer \<Rightarrow> decision \<Rightarrow> rule list" where
  "layer_rules l d =
     (case ly_content l of
        Some (Inr v) \<Rightarrow>
          (if is_object v \<and> is_object (jget v ''permissions'')
           then rules_of_strings l d (json_elems (jget (jget v ''permissions'') (decision_key d))) else [])
      | _ \<Rightarrow> [])"

definition layer_hooks :: "layer \<Rightarrow> hook_event \<Rightarrow> sourced_hook list" where
  "layer_hooks l ev =
     (case ly_content l of
        Some (Inr v) \<Rightarrow>
          (case jget v ''hooks'' of
             JObj kvs \<Rightarrow> if is_object v then concat (map (\<lambda>(name, entries).
                 if map_of hook_events name = Some ev then read_hooks entries (ly_path l) else []) kvs) else []
           | _ \<Rightarrow> [])
      | _ \<Rightarrow> [])"

lemma load_rule_step:
  "lp_rules (fst (load_rule trusted l d v st))
    = lp_rules (fst st) @ (if ly_project l \<and> d = Allow \<and> \<not> trusted then [] else rules_of_strings l d [v])"
  "lp_hooks (fst (load_rule trusted l d v st)) = lp_hooks (fst st)"
  by (cases v; simp add: load_rule_def rules_of_strings_def split: option.split)+

lemma load_rule_fold:
  "lp_rules (fst (fold (load_rule trusted l d) vs st))
    = lp_rules (fst st) @ (if ly_project l \<and> d = Allow \<and> \<not> trusted then [] else rules_of_strings l d vs)"
  "lp_hooks (fst (fold (load_rule trusted l d) vs st)) = lp_hooks (fst st)"
  by (induction vs arbitrary: st) (simp_all add: load_rule_step rules_of_strings_def)

lemma load_rules_fold:
  "lp_rules (fst (load_rules trusted l p st)) = lp_rules (fst st) @ (if is_object p
     then rules_of_strings l Deny (json_elems (jget p ''deny'')) @ rules_of_strings l AskUser (json_elems (jget p ''ask''))
       @ (if ly_project l \<and> \<not> trusted then [] else rules_of_strings l Allow (json_elems (jget p ''allow''))) else [])"
  "lp_hooks (fst (load_rules trusted l p st)) = lp_hooks (fst st)"
  by (simp_all add: load_rules_def load_rule_fold)

lemma load_hook_fold:
  "lp_hooks (fst (fold (load_hook trusted l name ev) hs st)) ev'
    = lp_hooks (fst st) ev' @ (if ev' = ev \<and> \<not> (ly_project l \<and> \<not> trusted) then hs else [])"
  "lp_rules (fst (fold (load_hook trusted l name ev) hs st)) = lp_rules (fst st)"
  by (induction hs arbitrary: st) (auto simp: load_hook_def)

lemma load_event_step:
  "lp_hooks (fst (load_event trusted l e st)) ev
    = lp_hooks (fst st) ev @ (if ly_project l \<and> \<not> trusted \<or> map_of hook_events (fst e) \<noteq> Some ev then []
        else read_hooks (snd e) (ly_path l))"
  "lp_rules (fst (load_event trusted l e st)) = lp_rules (fst st)"
  by (simp_all add: load_event_def load_hook_fold split: option.split)

lemma load_event_hooks:
  "lp_hooks (fst (fold (load_event trusted l) kvs st)) ev
    = lp_hooks (fst st) ev @ (if ly_project l \<and> \<not> trusted then [] else concat (map (\<lambda>(name, entries).
        if map_of hook_events name = Some ev then read_hooks entries (ly_path l) else []) kvs))"
  "lp_rules (fst (fold (load_event trusted l) kvs st)) = lp_rules (fst st)"
  by (induction kvs arbitrary: st) (simp_all add: load_event_step split_def)

lemma load_layer_fields:
  "lp_rules (load_layer trusted l ld) = lp_rules ld @ layer_rules l Deny @ layer_rules l AskUser
     @ (if ly_project l \<and> \<not> trusted then [] else layer_rules l Allow)"
  "lp_hooks (load_layer trusted l ld) ev = lp_hooks ld ev @ (if ly_project l \<and> \<not> trusted then [] else layer_hooks l ev)"
proof -
  have fields: "lp_rules (if u then ld'\<lparr>lp_sources := ss\<rparr> else ld') = lp_rules ld'"
    "lp_hooks (if u then ld'\<lparr>lp_sources := ss\<rparr> else ld') = lp_hooks ld'" for u ld' ss by simp_all
  show "lp_rules (load_layer trusted l ld) = lp_rules ld @ layer_rules l Deny @ layer_rules l AskUser
     @ (if ly_project l \<and> \<not> trusted then [] else layer_rules l Allow)"
    by (simp add: load_layer_def layer_rules_def load_hooks_def load_event_hooks(2) load_rules_fold split_def fields
        split: option.split sum.split json.split)
  show "lp_hooks (load_layer trusted l ld) ev = lp_hooks ld ev @ (if ly_project l \<and> \<not> trusted then [] else layer_hooks l ev)"
    by (simp add: load_layer_def layer_hooks_def load_hooks_def load_event_hooks(1) load_rules_fold split_def fields
        split: option.split sum.split json.split)
qed

lemma fold_layers:
  "lp_rules (fold (load_layer trusted) ls ld) = lp_rules ld @ concat (map (\<lambda>l. layer_rules l Deny @ layer_rules l AskUser
     @ (if ly_project l \<and> \<not> trusted then [] else layer_rules l Allow)) ls)"
  "lp_hooks (fold (load_layer trusted) ls ld) ev
    = lp_hooks ld ev @ concat (map (\<lambda>l. if ly_project l \<and> \<not> trusted then [] else layer_hooks l ev) ls)"
  by (induction ls arbitrary: ld) (simp_all add: load_layer_fields)

text \<open>
  What trust decides. Rules accumulate over the layers, lowest first, a layer's deny rules before its ask rules
  before its allow rules. Without trust exactly the allow rules and the hooks of the project's own files are
  left out; its deny and ask rules always apply.
\<close>

theorem trust_decides:
  "lp_rules (load_policy trusted layers) = concat (map (\<lambda>l. layer_rules l Deny @ layer_rules l AskUser
      @ (if ly_project l \<and> \<not> trusted then [] else layer_rules l Allow)) layers)
    \<and> lp_hooks (load_policy trusted layers) ev
      = concat (map (\<lambda>l. if ly_project l \<and> \<not> trusted then [] else layer_hooks l ev) layers)"
  by (simp add: load_policy_def fold_layers nothing_loaded_def)

lemma filter_length_same: "length (filter P xs) = length xs \<longleftrightarrow> filter P xs = xs"
proof (induction xs)
  case (Cons x xs)
  have "length (filter P xs) \<noteq> Suc (length xs)" using length_filter_le [of P xs] by linarith
  with Cons show ?case by (metis filter.simps(2) length_Cons list.inject nat.inject)
qed simp

text \<open>The paths a trusted directory covers.\<close>

definition covers :: "string \<Rightarrow> string \<Rightarrow> string \<Rightarrow> bool" where
  "covers here dir p =
     (trust_key here p = trust_key here dir \<or> starts_with (trust_key here p) (trust_key here dir @ ''/'')
       \<or> starts_with (trust_key here p) (trust_key here dir @ [CHR 0x5C]))"

lemma is_trusted_covers: "is_trusted here forced p file = (forced \<or> list_ex (\<lambda>dir. covers here dir p) (read_trusted file))"
  by (simp add: is_trusted_def covers_def Let_def)

lemma covers_cong: "trust_key here r = trust_key here c \<Longrightarrow> covers here r p = covers here c p"
  by (simp add: covers_def)

lemma read_write_trusted [simp]: "read_trusted (write_trusted ps) = ps"
proof -
  have "concat (map (case_json x y z w d (\<lambda>s. [s]) v u) (map JStr ps)) = ps" for x y z w d v u by (induction ps) simp_all
  then show ?thesis by (simp add: read_trusted_def write_trusted_def json_elems_def)
qed

text \<open>
  Trusting and taking it back. After \<open>trustProject\<close> the trusted directories are those that were and those under
  the project; after \<open>untrustProject\<close> those that some other project's entry covers, and the store
  is written exactly when the project had an entry.
\<close>

theorem trust_store_roundtrip:
  "is_trusted here False p (trust_project here cwd file) = (is_trusted here False p file \<or> covers here cwd p)
    \<and> (case untrust_project here cwd file of
         (changed, file') \<Rightarrow>
           is_trusted here False p file' = list_ex (\<lambda>r. covers here r p \<and> trust_key here r \<noteq> trust_key here cwd) (read_trusted file)
           \<and> changed = list_ex (\<lambda>r. trust_key here r = trust_key here cwd) (read_trusted file))"
proof
  have key: "trust_key here (resolve here [] cwd) = trust_key here cwd" by (simp add: trust_key_def)
  show "is_trusted here False p (trust_project here cwd file) = (is_trusted here False p file \<or> covers here cwd p)"
  proof (cases "list_ex (\<lambda>q. trust_key here q = trust_key here cwd) (read_trusted file)")
    case True
    then obtain q where q: "q \<in> set (read_trusted file)" "trust_key here q = trust_key here cwd"
      unfolding list_ex_iff by blast
    have "covers here cwd p \<Longrightarrow> is_trusted here False p file"
      unfolding is_trusted_covers list_ex_iff using q(1) covers_cong [OF q(2)] by blast
    with True show ?thesis by (auto simp: trust_project_def)
  next
    case False
    then show ?thesis unfolding trust_project_def is_trusted_covers by (simp add: covers_cong [OF key])
  qed
  let ?ps = "read_trusted file"
  let ?kept = "filter (\<lambda>q. trust_key here q \<noteq> trust_key here cwd) ?ps"
  have same: "length ?kept = length ?ps \<longleftrightarrow> ?kept = ?ps" by (rule filter_length_same)
  then have changed: "length ?kept \<noteq> length ?ps \<longleftrightarrow> list_ex (\<lambda>r. trust_key here r = trust_key here cwd) ?ps"
    unfolding filter_id_conv list_ex_iff by blast
  have "read_trusted (snd (untrust_project here cwd file)) = ?kept"
    using same by (simp add: untrust_project_def Let_def)
  moreover have "fst (untrust_project here cwd file) = list_ex (\<lambda>r. trust_key here r = trust_key here cwd) ?ps"
    using changed by (auto simp: untrust_project_def Let_def)
  ultimately show "case untrust_project here cwd file of (changed, file') \<Rightarrow>
      is_trusted here False p file' = list_ex (\<lambda>r. covers here r p \<and> trust_key here r \<noteq> trust_key here cwd) ?ps
      \<and> changed = list_ex (\<lambda>r. trust_key here r = trust_key here cwd) ?ps"
    by (simp add: is_trusted_covers list_ex_iff split_def) blast
qed

text \<open>
  C34. Opening a repository cannot widen what runs. In a project the store does not cover, whatever its
  settings files hold, every allow rule and every hook that is loaded is one of the user's own two files.
\<close>

theorem untrusted_project_inert:
  assumes "\<not> is_trusted here False dir store"
  shows "(\<forall>r\<in>set (lp_rules (load_project here False store home jean files None import_claude dir)).
      ru_decision r = Allow \<longrightarrow> r \<in> set (lp_rules (load_policy True (filter (\<lambda>l. \<not> ly_project l)
        (policy_layers import_claude home jean (resolve here [] dir) files)))))
    \<and> lp_hooks (load_project here False store home jean files None import_claude dir) ev
      = lp_hooks (load_policy True (filter (\<lambda>l. \<not> ly_project l) (policy_layers import_claude home jean (resolve here [] dir) files))) ev"
proof -
  let ?ls = "policy_layers import_claude home jean (resolve here [] dir) files"
  have load: "load_project here False store home jean files None import_claude dir = load_policy False ?ls"
    using assms by (simp add: load_project_def Let_def is_trusted_def trust_key_def)
  have dec: "ru_decision r = d" if "r \<in> set (layer_rules l d)" for r l d
    using that by (auto simp: layer_rules_def rules_of_strings_def parse_rule_def Let_def
        split: option.splits sum.splits json.splits if_splits)
  have "r \<in> set (lp_rules (load_policy True (filter (\<lambda>l. \<not> ly_project l) ls)))"
    if "r \<in> set (lp_rules (load_policy False ls))" "ru_decision r = Allow" for r ls
    using that by (auto simp: load_policy_def fold_layers nothing_loaded_def dest: dec split: if_splits)
  moreover have "concat (map (\<lambda>l. if ly_project l then [] else layer_hooks l ev) ls)
      = concat (map (\<lambda>l. layer_hooks l ev) (filter (\<lambda>l. \<not> ly_project l) ls))" for ls by (induction ls) simp_all
  ultimately show ?thesis unfolding load by (simp add: load_policy_def fold_layers nothing_loaded_def)
qed

theorem untrusted_project_inert_witness:
  "lp_hooks (load_project ''/'' False None ''/h'' ''/h/.jean''
      (\<lambda>p. if p = ''/w/.jean.json'' then Some (Inr (JObj [(''hooks'', JObj [(''Stop'', JArr [JObj [(''hooks'', JArr [JObj [(''command'', JStr ''evil'')]])]])])])) else None)
      None True ''/w'') Stop = []"
proof -
  let ?f = "\<lambda>p. if p = ''/w/.jean.json'' then Some (Inr (JObj [(''hooks'', JObj [(''Stop'', JArr [JObj [(''hooks'', JArr [JObj [(''command'', JStr ''evil'')]])]])])])) else None"
  have "\<not> is_trusted ''/'' False ''/w'' None" by code_simp
  from conjunct2 [OF untrusted_project_inert [OF this, where home = "''/h''" and jean = "''/h/.jean''" and files = ?f and import_claude = True and ev = Stop]]
  show ?thesis by (simp add: load_policy_def load_layer_def nothing_loaded_def policy_layers_def layer_hooks_def abs_path_def norm_comps_def norm_step_def)
qed

text \<open>
  A trusted directory also covers siblings: the check accepts a backslash after the root, which on
  a POSIX system is an ordinary character of a name, so a directory next to the trusted one is trusted too.
\<close>

theorem backslash_sibling_trusted:
  "is_trusted ''/'' False [CHR ''/'', CHR ''w'', CHR ''/'', CHR ''b'', CHR 0x5C, CHR ''x''] (trust_project ''/'' ''/w/b'' None)"
  by code_simp

end
