(* ===== verification/Jsonc.thy ===== *)
theory Jsonc
  imports Jean_Prelude
begin

text \<open>
  Configuration files are JSON with comments: \<open>stripJsonComments\<close> and \<open>parseJsonc\<close> of
  \<open>packages/config/src/parser.ts\<close>. \<open>JSON.parse\<close> is a parameter that gives a value or a message.
\<close>

section \<open>Comments\<close>

text \<open>The flags of the loop; \<open>escaped\<close> only matters inside a string.\<close>

datatype strip_mode = Plain | InString bool | InLine | InBlock

fun strip_from :: "strip_mode \<Rightarrow> string \<Rightarrow> string" where
  "strip_from m [] = []"
| "strip_from InLine (c # s) = (if c = u_lf then c # strip_from Plain s else strip_from InLine s)"
| "strip_from InBlock [c] = []"
| "strip_from InBlock (c # n # s) =
     (if c = CHR ''*'' \<and> n = CHR ''/'' then strip_from Plain s else strip_from InBlock (n # s))"
| "strip_from (InString escaped) (c # s) =
     c # strip_from (if escaped then InString False else if c = CHR 0x5C then InString True
                     else if c = CHR 0x22 then Plain else InString False) s"
| "strip_from Plain [c] = [c]"
| "strip_from Plain (c # n # s) =
     (if c = CHR 0x22 then c # strip_from (InString False) (n # s)
      else if c = CHR ''/'' \<and> n = CHR ''/'' then strip_from InLine s
      else if c = CHR ''/'' \<and> n = CHR ''*'' then strip_from InBlock s
      else c # strip_from Plain (n # s))"

text \<open>\<open>out.replace(/,(\\s*[}\\]])/g, '$1')\<close>: no match holds a second comma, so the commas go one by one.\<close>

definition comma_closes :: "string \<Rightarrow> bool" where
  "comma_closes s = (case dropWhile is_ws s of [] \<Rightarrow> False | b # _ \<Rightarrow> b = CHR ''}'' \<or> b = CHR '']'')"

fun drop_commas :: "string \<Rightarrow> string" where
  "drop_commas [] = []"
| "drop_commas (c # s) = (if c = CHR '','' \<and> comma_closes s then drop_commas s else c # drop_commas s)"

definition strip_json_comments :: "string \<Rightarrow> string" where
  "strip_json_comments s = drop_commas (strip_from Plain s)"

definition parse_jsonc :: "(string \<Rightarrow> string + json) \<Rightarrow> string \<Rightarrow> string \<Rightarrow> string + json" where
  "parse_jsonc parse s path =
     (case parse (strip_json_comments s) of
        Inl e \<Rightarrow> Inl (path @ '': invalid JSON '' @ [u_emdash] @ '' '' @ e)
      | Inr v \<Rightarrow> Inr v)"

section \<open>What is stripped\<close>

text \<open>
  A commented text in pieces: JSON between strings and comments, the inside of a string as it is written,
  a line comment with its line break, a block comment.
\<close>

datatype piece = Code string | Text string | LineNote string | BlockNote string

fun escapes_closed :: "bool \<Rightarrow> string \<Rightarrow> bool" where
  "escapes_closed escaped [] = (\<not> escaped)"
| "escapes_closed escaped (c # s) =
     (if escaped then escapes_closed False s
      else if c = CHR 0x5C then escapes_closed True s
      else c \<noteq> CHR 0x22 \<and> escapes_closed False s)"

fun no_close :: "string \<Rightarrow> bool" where
  "no_close (c # n # s) = (\<not> (c = CHR ''*'' \<and> n = CHR ''/'') \<and> no_close (n # s))"
| "no_close _ = True"

fun piece_ok :: "piece \<Rightarrow> bool" where
  "piece_ok (Code s) = (CHR 0x22 \<notin> set s \<and> CHR ''/'' \<notin> set s)"
| "piece_ok (Text s) = escapes_closed False s"
| "piece_ok (LineNote s) = (u_lf \<notin> set s)"
| "piece_ok (BlockNote s) = (no_close s \<and> (s = [] \<or> last s \<noteq> CHR ''*''))"

fun written :: "piece \<Rightarrow> string" where
  "written (Code s) = s"
| "written (Text s) = CHR 0x22 # s @ [CHR 0x22]"
| "written (LineNote s) = ''//'' @ s @ [u_lf]"
| "written (BlockNote s) = ''/*'' @ s @ ''*/''"

fun kept :: "piece \<Rightarrow> string" where
  "kept (LineNote s) = [u_lf]"
| "kept (BlockNote s) = []"
| "kept p = written p"

lemma plain_step: "c \<noteq> CHR 0x22 \<Longrightarrow> c \<noteq> CHR ''/'' \<Longrightarrow> strip_from Plain (c # s) = c # strip_from Plain s"
  by (cases s) simp_all

lemma plain_quote: "strip_from Plain (CHR 0x22 # s) = CHR 0x22 # strip_from (InString False) s"
  by (cases s) simp_all

lemma strip_code: "CHR 0x22 \<notin> set s \<Longrightarrow> CHR ''/'' \<notin> set s \<Longrightarrow> strip_from Plain (s @ t) = s @ strip_from Plain t"
  by (induction s) (auto simp: plain_step [OF not_sym not_sym])

lemma strip_string:
  "escapes_closed escaped s \<Longrightarrow> strip_from (InString escaped) (s @ CHR 0x22 # t) = s @ CHR 0x22 # strip_from Plain t"
  by (induction escaped s rule: escapes_closed.induct) (auto split: if_splits)

lemma strip_line: "u_lf \<notin> set s \<Longrightarrow> strip_from InLine (s @ u_lf # t) = u_lf # strip_from Plain t"
  by (induction s) auto

lemma strip_block:
  "no_close s \<Longrightarrow> s = [] \<or> last s \<noteq> CHR ''*'' \<Longrightarrow> strip_from InBlock (s @ CHR ''*'' # CHR ''/'' # t) = strip_from Plain t"
  by (induction s rule: no_close.induct) auto

lemma strip_piece: "piece_ok p \<Longrightarrow> strip_from Plain (written p @ t) = kept p @ strip_from Plain t"
  by (cases p) (simp_all add: strip_code plain_quote strip_string strip_line strip_block)

lemma strip_pieces:
  "list_all piece_ok ps \<Longrightarrow> strip_from Plain (concat (map written ps)) = concat (map kept ps)"
  by (induction ps) (simp_all add: strip_piece)

text \<open>Dropping commas changes nothing but commas, and nothing at all where none closes.\<close>

lemma drop_commas_id: "\<forall>i<length s. s ! i = CHR '','' \<longrightarrow> \<not> comma_closes (drop (Suc i) s) \<Longrightarrow> drop_commas s = s"
proof (induction s)
  case (Cons c s)
  have "\<forall>i<length s. s ! i = CHR '','' \<longrightarrow> \<not> comma_closes (drop (Suc i) s)" using Cons.prems by force
  moreover have "\<not> (c = CHR '','' \<and> comma_closes s)" using Cons.prems by force
  ultimately show ?case using Cons.IH by simp
qed simp

lemma drop_commas_filter: "filter (\<lambda>c. c \<noteq> CHR '','') (drop_commas s) = filter (\<lambda>c. c \<noteq> CHR '','') s"
  by (induction s) auto

text \<open>
  Comments go and nothing else does. Of a text made of JSON, strings and comments, the stripped text is the
  JSON and the strings with the commas before a closing bracket dropped: no other character is lost,
  and where no comma stands before a closing bracket nothing of it is.
\<close>

theorem comments_stripped:
  assumes "list_all piece_ok ps"
  shows "strip_json_comments (concat (map written ps)) = drop_commas (concat (map kept ps))
    \<and> filter (\<lambda>c. c \<noteq> CHR '','') (strip_json_comments (concat (map written ps))) = filter (\<lambda>c. c \<noteq> CHR '','') (concat (map kept ps))
    \<and> ((\<forall>i<length (concat (map kept ps)). concat (map kept ps) ! i = CHR '','' \<longrightarrow> \<not> comma_closes (drop (Suc i) (concat (map kept ps))))
        \<longrightarrow> strip_json_comments (concat (map written ps)) = concat (map kept ps))"
  using assms by (simp add: strip_json_comments_def strip_pieces drop_commas_filter drop_commas_id)

theorem comments_stripped_witness:
  "strip_json_comments (concat (map written [Code ''{'', Text ''a//b'', Code '':1, '', LineNote '' one'', BlockNote ''two'', Code ''}'']))
    = [CHR ''{'', CHR 0x22, CHR ''a'', CHR ''/'', CHR ''/'', CHR ''b'', CHR 0x22, CHR '':'', CHR ''1'', CHR '' '', u_lf, CHR ''}'']"
proof -
  let ?ps = "[Code ''{'', Text ''a//b'', Code '':1, '', LineNote '' one'', BlockNote ''two'', Code ''}'']"
  have "list_all piece_ok ?ps" by (simp add: u_lf_def)
  from conjunct1 [OF comments_stripped [OF this]] show ?thesis by (simp add: comma_closes_def is_ws_def u_lf_def)
qed

text \<open>
  Strings are not left alone. The comma of a string that stands before a bracket inside the same string is
  dropped, so a value is not read as it is written.
\<close>

theorem comma_in_string_dropped:
  "strip_json_comments (written (Text ''echo [1,]'')) = written (Text ''echo [1]'')"
  by (simp add: strip_json_comments_def comma_closes_def is_ws_def)

end
