(* ===== verification/Config.thy ===== *)
theory Config
  imports Jsonc Context Permissions
begin

text \<open>
  The configuration of the agent: \<open>packages/config/src/parser.ts\<close> (validation, deep merge, variable
  expansion, roles), \<open>env.ts\<close> and \<open>defaults.ts\<close>. A configuration is the JSON object it is in the program;
  an environment maps names to values.
\<close>

section \<open>Validation\<close>

text \<open>The loop state of \<open>validate\<close>: the fields kept so far and the warnings.\<close>

type_synonym checked = "(string \<times> json) list \<times> string list"

definition keep_field :: "string \<Rightarrow> json \<Rightarrow> checked \<Rightarrow> checked" where
  "keep_field k v st = (set_field k v (fst st), snd st)"

definition warn :: "string \<Rightarrow> string \<Rightarrow> checked \<Rightarrow> checked" where
  "warn path msg st = (fst st, snd st @ [path @ '': '' @ msg])"

definition ticked :: "string \<Rightarrow> string" where
  "ticked s = ''`'' @ s @ ''`''"

definition ignoring :: string where
  "ignoring = '' '' @ [u_emdash] @ '' ignoring''"

definition quote_list :: "string list \<Rightarrow> string" where
  "quote_list xs = join '', '' (map (\<lambda>x. [CHR 0x22] @ x @ [CHR 0x22]) xs)"

definition enum_field :: "string \<Rightarrow> json \<Rightarrow> string \<Rightarrow> string list \<Rightarrow> checked \<Rightarrow> checked" where
  "enum_field path obj key allowed st =
     (let v = jget obj key
      in if v = JUndef then st
         else if v \<in> set (map JStr allowed) then keep_field key v st
         else warn path (ticked key @ '' must be one of '' @ quote_list allowed @ ignoring @ '' '' @ json_str v) st)"

definition typed_field :: "string \<Rightarrow> json \<Rightarrow> string \<Rightarrow> string \<Rightarrow> checked \<Rightarrow> checked" where
  "typed_field path obj key type st =
     (let v = jget obj key
      in if v = JUndef then st
         else if js_typeof v = type then keep_field key v st
         else warn path (ticked key @ '' must be a '' @ type @ ignoring @ '' '' @ json_str v) st)"

definition object_field :: "string \<Rightarrow> json \<Rightarrow> string \<Rightarrow> checked \<Rightarrow> checked" where
  "object_field path obj key st =
     (let v = jget obj key
      in if v = JUndef then st
         else if is_object v then keep_field key v st
         else warn path (ticked key @ '' must be an object'' @ ignoring) st)"

fun is_string :: "json \<Rightarrow> bool" where
  "is_string (JStr s) = True"
| "is_string _ = False"

fun string_array :: "json \<Rightarrow> bool" where
  "string_array (JArr vs) = list_all is_string vs"
| "string_array _ = False"

definition string_array_field :: "string \<Rightarrow> json \<Rightarrow> string \<Rightarrow> checked \<Rightarrow> checked" where
  "string_array_field path obj key st =
     (let v = jget obj key
      in if v = JUndef then st
         else if string_array v then keep_field key v st
         else warn path (ticked key @ '' must be an array of strings'' @ ignoring) st)"

text \<open>The entries of \<open>ui\<close> and of \<open>teams\<close> are checked into an object of their own.\<close>

type_synonym nested = "(string \<times> json) list \<times> checked"

definition nested_keep :: "string \<Rightarrow> json \<Rightarrow> nested \<Rightarrow> nested" where
  "nested_keep k v ns = (set_field k v (fst ns), snd ns)"

definition nested_warn :: "string \<Rightarrow> string \<Rightarrow> nested \<Rightarrow> nested" where
  "nested_warn path msg ns = (fst ns, warn path msg (snd ns))"

definition put_nested :: "string \<Rightarrow> nested \<Rightarrow> checked" where
  "put_nested key ns = (if fst ns \<noteq> [] then keep_field key (JObj (fst ns)) (snd ns) else snd ns)"

definition ui_entry :: "string \<Rightarrow> json \<Rightarrow> string \<Rightarrow> string \<Rightarrow> nested \<Rightarrow> nested" where
  "ui_entry path v key type ns =
     (if js_typeof (jget v key) = type then nested_keep key (jget v key) ns
      else if jget v key \<noteq> JUndef then nested_warn path (ticked (''ui.'' @ key) @ '' must be a '' @ type @ ignoring) ns
      else ns)"

definition ui_field :: "string \<Rightarrow> json \<Rightarrow> checked \<Rightarrow> checked" where
  "ui_field path obj st =
     (let v = jget obj ''ui''
      in if v = JUndef then st
         else if is_object v
         then put_nested ''ui'' (ui_entry path v ''banner'' ''boolean'' (ui_entry path v ''theme'' ''string'' ([], st)))
         else warn path (ticked ''ui'' @ '' must be an object'' @ ignoring) st)"

text \<open>A number in \<open>(0, 1]\<close>, and a positive integer.\<close>

fun unit_fraction :: "json \<Rightarrow> bool" where
  "unit_fraction (JNum n) = (n = 1)"
| "unit_fraction (JDec m k) = (0 < m \<and> m \<le> 10 ^ k)"
| "unit_fraction _ = False"

fun positive_integer :: "json \<Rightarrow> bool" where
  "positive_integer (JNum n) = (0 < n)"
| "positive_integer _ = False"

definition checked_field :: "string \<Rightarrow> json \<Rightarrow> string \<Rightarrow> (json \<Rightarrow> bool) \<Rightarrow> string \<Rightarrow> checked \<Rightarrow> checked" where
  "checked_field path obj key ok what st =
     (let v = jget obj key
      in if v = JUndef then st else if ok v then keep_field key v st
         else warn path (ticked key @ '' must be '' @ what @ ignoring) st)"

definition model_field :: "string \<Rightarrow> json \<Rightarrow> checked \<Rightarrow> checked" where
  "model_field path obj st =
     (case jget obj ''model'' of
        JStr s \<Rightarrow>
          (if trim s \<noteq> []
           then (case split_model_ref (trim s) of
                   (provider, model_id) \<Rightarrow>
                     keep_field ''model'' (JObj ((if truthy provider then [(''provider'', JStr (the provider))] else [])
                       @ [(''modelId'', JStr model_id)])) st)
           else object_field path obj ''model'' st)
      | _ \<Rightarrow> object_field path obj ''model'' st)"

definition model_roles :: "string list" where
  "model_roles = [''default'', ''smol'', ''slow'', ''plan'', ''commit'', ''vision'', ''designer'', ''task'', ''advisor'', ''tiny'']"

definition agent_role :: "string \<Rightarrow> string \<times> json \<Rightarrow> (string \<times> json) list \<times> checked \<Rightarrow> (string \<times> json) list \<times> checked" where
  "agent_role path entry st =
     (case entry of (role, cfg) \<Rightarrow>
        if role \<notin> set model_roles
        then (fst st, warn path (''unknown model role '' @ ticked (''agents.'' @ role) @ '' '' @ [u_emdash] @ '' valid roles are ''
               @ join '', '' model_roles) (snd st))
        else if is_object cfg then (set_field role cfg (fst st), snd st)
        else (fst st, warn path (ticked (''agents.'' @ role) @ '' must be an object'' @ ignoring) (snd st)))"

definition agents_field :: "string \<Rightarrow> json \<Rightarrow> checked \<Rightarrow> checked" where
  "agents_field path obj st =
     (case jget obj ''agents'' of
        JUndef \<Rightarrow> st
      | JObj kvs \<Rightarrow> (case fold (agent_role path) kvs ([], st) of (agents, st') \<Rightarrow> keep_field ''agents'' (JObj agents) st')
      | _ \<Rightarrow> warn path (ticked ''agents'' @ '' must be an object'' @ ignoring) st)"

definition teammate_modes :: "string list" where
  "teammate_modes = [''auto'', ''in-process'', ''tmux'', ''iterm2'']"

fun obj_fields :: "json \<Rightarrow> (string \<times> json) list" where
  "obj_fields (JObj kvs) = kvs"
| "obj_fields _ = []"

definition teammate_mode :: "string \<Rightarrow> json \<Rightarrow> nested \<Rightarrow> nested" where
  "teammate_mode path v ns =
     (if \<not> is_string v then ns
      else if v \<in> set (map JStr teammate_modes) then nested_keep ''teammateMode'' v ns
      else nested_warn path (ticked ''teammateMode'' @ '' must be one of '' @ quote_list teammate_modes @ ignoring) ns)"

definition teammate_model :: "json \<Rightarrow> nested \<Rightarrow> nested" where
  "teammate_model v ns = (if is_string v then nested_keep ''defaultTeammateModel'' v ns else ns)"

definition teams_field :: "string \<Rightarrow> json \<Rightarrow> checked \<Rightarrow> checked" where
  "teams_field path obj st =
     put_nested ''teams'' (teammate_model (jget obj ''defaultTeammateModel'')
       (teammate_mode path (jget obj ''teammateMode'') (obj_fields (jget (JObj (fst st)) ''teams''), st)))"

definition object_keys :: "string list" where
  "object_keys = [''providers'', ''shell'', ''lsp'', ''debuggers'', ''languageTools'', ''plugins'', ''gateway'', ''mcpServers'',
     ''memory'', ''execution'', ''advisor'', ''teams'', ''hooks'', ''permissions'']"

definition string_array_keys :: "string list" where
  "string_array_keys = [''instructionFiles'', ''confirmPatterns'', ''denyPatterns'']"

definition known_keys :: "string list" where
  "known_keys = [''mode'', ''ui'', ''model'', ''agents'', ''providers'', ''permissionMode'', ''autoCompact'', ''keepAwake'',
     ''compactThreshold'', ''maxTurns'', ''effort'', ''shell'', ''lsp'', ''debuggers'', ''languageTools'', ''plugins'', ''gateway'',
     ''mcpServers'', ''memory'', ''execution'', ''advisor'', ''teams'', ''instructionFiles'', ''confirmPatterns'', ''denyPatterns'',
     ''debug'', ''hooks'', ''permissions'', ''teammateMode'', ''defaultTeammateModel'', ''$schema'', ''telemetry'']"

definition mode_names :: "string list" where "mode_names = [''autonomous'', ''swarm'']"
definition permission_modes :: "string list" where "permission_modes = [''auto'', ''ask'', ''plan'', ''full'']"
definition efforts :: "string list" where "efforts = [''fast'', ''normal'', ''high'', ''xhigh'']"

definition unknown_keys :: "string \<Rightarrow> json \<Rightarrow> checked \<Rightarrow> checked" where
  "unknown_keys path obj st =
     (let s1 = fold (\<lambda>(k, v) s. if k \<in> set known_keys then s else warn path (''unknown setting '' @ ticked k @ ignoring) s) (obj_fields obj) st
      in if jget obj ''telemetry'' \<noteq> JUndef \<and> jget obj ''telemetry'' \<noteq> JBool False
         then warn path (''telemetry is always off in Jean Code; '' @ ticked ''telemetry'' @ '' is ignored'') s1 else s1)"

text \<open>The checks in their order.\<close>

definition field_checks :: "string \<Rightarrow> json \<Rightarrow> (checked \<Rightarrow> checked) list" where
  "field_checks path obj =
     [enum_field path obj ''mode'' mode_names, enum_field path obj ''permissionMode'' permission_modes,
      enum_field path obj ''effort'' efforts, ui_field path obj,
      typed_field path obj ''autoCompact'' ''boolean'', typed_field path obj ''keepAwake'' ''boolean'',
      typed_field path obj ''debug'' ''boolean'',
      checked_field path obj ''compactThreshold'' unit_fraction ''a number in (0, 1]'',
      checked_field path obj ''maxTurns'' positive_integer ''a positive integer'', model_field path obj]
     @ map (object_field path obj) object_keys @ map (string_array_field path obj) string_array_keys
     @ [agents_field path obj, teams_field path obj, unknown_keys path obj]"

definition validate :: "json \<Rightarrow> string \<Rightarrow> json \<times> string list" where
  "validate raw path =
     (if \<not> is_object raw then (JObj [], [path @ '': expected a JSON object''])
      else (case fold (\<lambda>f st. f st) (field_checks path raw) ([], []) of (out, ws) \<Rightarrow> (JObj out, ws)))"

section \<open>Merging\<close>

text \<open>\<open>merge\<close>: objects key by key, everything else replaced; \<open>merge_keys\<close> is the loop over the patch.\<close>

fun merge :: "json \<Rightarrow> json \<Rightarrow> json" and merge_keys :: "(string \<times> json) list \<Rightarrow> (string \<times> json) list \<Rightarrow> (string \<times> json) list" where
  "merge base (JObj kvs) = (case base of JObj out \<Rightarrow> JObj (merge_keys out kvs) | _ \<Rightarrow> JObj kvs)"
| "merge base JUndef = base"
| "merge base JNull = base"
| "merge base patch = patch"
| "merge_keys out [] = out"
| "merge_keys out ((k, v) # kvs) =
     merge_keys (if v = JUndef then out
                 else set_field k (if is_object v \<and> is_object (jget (JObj out) k) then merge (jget (JObj out) k) v else v) out) kvs"

section \<open>Variables\<close>

definition name_start :: "char \<Rightarrow> bool" where
  "name_start c = (CHR ''A'' \<le> c \<and> c \<le> CHR ''Z'' \<or> CHR ''a'' \<le> c \<and> c \<le> CHR ''z'' \<or> c = CHR ''_'')"

definition name_rest :: "char \<Rightarrow> bool" where
  "name_rest c = (name_start c \<or> is_digit c)"

text \<open>A reference at the start of a text, after its dollar sign: the name and what follows the brace.\<close>

definition var_ref :: "string \<Rightarrow> (string \<times> string) option" where
  "var_ref s =
     (case s of
        b # rest \<Rightarrow>
          (let name = takeWhile name_rest rest; after = dropWhile name_rest rest
           in if b = CHR ''{'' \<and> name \<noteq> [] \<and> name_start (hd name) \<and> after \<noteq> [] \<and> hd after = CHR ''}''
              then Some (name, tl after) else None)
      | [] \<Rightarrow> None)"

lemma var_ref_shorter: "var_ref s = Some (name, rest) \<Longrightarrow> length rest < length s"
proof -
  have "length (dropWhile name_rest t) \<le> length t" for t by (rule length_dropWhile_le)
  then show "var_ref s = Some (name, rest) \<Longrightarrow> length rest < length s"
    by (auto simp: var_ref_def Let_def less_Suc_eq_le intro: le_trans [of _ "length (dropWhile name_rest (tl s))"]
        split: list.splits if_splits)
qed

function expand_str :: "(string \<Rightarrow> string option) \<Rightarrow> string \<Rightarrow> string \<times> string list" where
  "expand_str env [] = ([], [])"
| "expand_str env (c # s) =
     (if c = CHR ''$''
      then (case var_ref s of
              Some (name, rest) \<Rightarrow>
                (case expand_str env rest of (t, ms) \<Rightarrow>
                   (case env name of Some v \<Rightarrow> (v @ t, ms) | None \<Rightarrow> (t, name # ms)))
            | None \<Rightarrow> (case expand_str env s of (t, ms) \<Rightarrow> (c # t, ms)))
      else (case expand_str env s of (t, ms) \<Rightarrow> (c # t, ms)))"
  by pat_completeness auto
termination
  by (relation "measure (\<lambda>(env, s). length s)") (auto dest: var_ref_shorter)

fun expand_env :: "(string \<Rightarrow> string option) \<Rightarrow> json \<Rightarrow> json" where
  "expand_env env (JStr s) = JStr (fst (expand_str env s))"
| "expand_env env (JArr vs) = JArr (map (expand_env env) vs)"
| "expand_env env (JObj kvs) = JObj (map (\<lambda>(k, v). (k, expand_env env v)) kvs)"
| "expand_env env v = v"

fun missing_vars :: "(string \<Rightarrow> string option) \<Rightarrow> json \<Rightarrow> string list" where
  "missing_vars env (JStr s) = snd (expand_str env s)"
| "missing_vars env (JArr vs) = concat (map (missing_vars env) vs)"
| "missing_vars env (JObj kvs) = concat (map (\<lambda>(k, v). missing_vars env v) kvs)"
| "missing_vars env v = []"

section \<open>Roles\<close>

text \<open>Every role gets a model: its own, or the default role's, or the session's.\<close>

definition resolve_roles :: "json \<Rightarrow> json" where
  "resolve_roles config =
     (let agents = jget config ''agents'';
          fallback = nullish (jget (jget agents ''default'') ''model'') (jget (jget config ''model'') ''modelId'');
          resolve_role = (\<lambda>role out. let existing = obj_fields (jget (JObj out) role)
             in set_field role (JObj (set_field ''model'' (nullish (jget (JObj existing) ''model'') fallback) existing)) out)
      in JObj (set_field ''agents'' (JObj (fold resolve_role model_roles (obj_fields agents))) (obj_fields config)))"

section \<open>Validated configurations are typed\<close>

lemma map_of_set_field [simp]: "map_of (set_field k v kvs) = (map_of kvs)(k \<mapsto> v)"
  by (simp add: set_field_def update_conv')

lemma set_field_in: "x \<in> set (set_field k v kvs) \<Longrightarrow> x = (k, v) \<or> x \<in> set kvs"
  by (induction kvs) (auto simp: set_field_def split: if_splits)

lemma set_field_keys: "map fst (set_field k v kvs) = (if k \<in> set (map fst kvs) then map fst kvs else map fst kvs @ [k])"
  unfolding set_field_def by (rule jm.keys_put)

lemma set_field_nonempty [simp]: "set_field k v kvs \<noteq> []"
  by (induction kvs) (auto simp: set_field_def)

text \<open>What \<open>PartialConfig\<close> of \<open>types.ts\<close> says of each key, as far as \<open>validate\<close> looks.\<close>

definition boolean_keys :: "string list" where
  "boolean_keys = [''autoCompact'', ''keepAwake'', ''debug'']"

fun ui_part :: "string \<times> json \<Rightarrow> bool" where
  "ui_part (k, v) = (if k = ''theme'' then js_typeof v = ''string'' else k = ''banner'' \<and> js_typeof v = ''boolean'')"

definition setting_ok :: "string \<times> json \<Rightarrow> bool" where
  "setting_ok kv =
     (case kv of (k, v) \<Rightarrow>
        if k = ''mode'' then v \<in> set (map JStr mode_names)
        else if k = ''permissionMode'' then v \<in> set (map JStr permission_modes)
        else if k = ''effort'' then v \<in> set (map JStr efforts)
        else if k = ''compactThreshold'' then unit_fraction v
        else if k = ''maxTurns'' then positive_integer v
        else if k \<in> set boolean_keys then js_typeof v = ''boolean''
        else if k \<in> set string_array_keys then string_array v
        else if k = ''ui'' then is_object v \<and> list_all ui_part (obj_fields v)
        else if k = ''agents'' then is_object v \<and> list_all (\<lambda>(role, cfg). role \<in> set model_roles \<and> is_object cfg) (obj_fields v)
        else k \<in> set (''model'' # object_keys) \<and> is_object v)"

definition typed_config :: "json \<Rightarrow> bool" where
  "typed_config v = (is_object v \<and> list_all setting_ok (obj_fields v) \<and> distinct (map fst (obj_fields v)))"

definition checked_ok :: "checked \<Rightarrow> bool" where
  "checked_ok st = (list_all setting_ok (fst st) \<and> distinct (map fst (fst st)))"

lemmas key_lists = object_keys_def string_array_keys_def boolean_keys_def

lemma keep_ok: "checked_ok st \<Longrightarrow> setting_ok (k, v) \<Longrightarrow> checked_ok (keep_field k v st)"
  by (auto simp: checked_ok_def keep_field_def set_field_keys list_all_iff dest!: set_field_in)

lemma warn_ok [simp]: "checked_ok (warn path msg st) = checked_ok st"
  by (simp add: checked_ok_def warn_def)

lemma enum_ok:
  "checked_ok st \<Longrightarrow> (\<And>v. v \<in> set (map JStr allowed) \<Longrightarrow> setting_ok (key, v)) \<Longrightarrow> checked_ok (enum_field path obj key allowed st)"
  by (simp add: enum_field_def Let_def keep_ok)

lemma typed_ok:
  "checked_ok st \<Longrightarrow> (\<And>v. js_typeof v = type \<Longrightarrow> setting_ok (key, v)) \<Longrightarrow> checked_ok (typed_field path obj key type st)"
  by (simp add: typed_field_def Let_def keep_ok)

lemma checked_field_ok:
  "checked_ok st \<Longrightarrow> (\<And>v. ok v \<Longrightarrow> setting_ok (key, v)) \<Longrightarrow> checked_ok (checked_field path obj key ok what st)"
  by (simp add: checked_field_def Let_def keep_ok)

lemma object_ok:
  "checked_ok st \<Longrightarrow> (\<And>v. is_object v \<Longrightarrow> setting_ok (key, v)) \<Longrightarrow> checked_ok (object_field path obj key st)"
  by (simp add: object_field_def Let_def keep_ok)

lemma array_ok:
  "checked_ok st \<Longrightarrow> (\<And>v. string_array v \<Longrightarrow> setting_ok (key, v)) \<Longrightarrow> checked_ok (string_array_field path obj key st)"
  by (simp add: string_array_field_def Let_def keep_ok)

lemma object_key_ok: "k \<in> set (''model'' # object_keys) \<Longrightarrow> is_object v \<Longrightarrow> setting_ok (k, v)"
proof -
  have "list_all (\<lambda>k. setting_ok (k, JObj kvs)) (''model'' # object_keys)" for kvs
    by (simp add: setting_ok_def key_lists)
  then show "k \<in> set (''model'' # object_keys) \<Longrightarrow> is_object v \<Longrightarrow> setting_ok (k, v)"
    by (cases v) (simp_all only: list_all_iff is_object.simps)
qed

lemma nested_ok [simp]:
  "checked_ok (snd (nested_keep k v ns)) = checked_ok (snd ns)"
  "checked_ok (snd (nested_warn path msg ns)) = checked_ok (snd ns)"
  by (simp_all add: nested_keep_def nested_warn_def)

lemma put_nested_ok:
  "checked_ok (snd ns) \<Longrightarrow> setting_ok (key, JObj (fst ns)) \<Longrightarrow> checked_ok (put_nested key ns)"
  by (simp add: put_nested_def keep_ok)

lemma ui_entry_ok [simp]: "checked_ok (snd (ui_entry path v key type ns)) = checked_ok (snd ns)"
  by (simp add: ui_entry_def)

lemma ui_entry_parts:
  "list_all ui_part (fst ns) \<Longrightarrow> (\<And>x. js_typeof x = type \<Longrightarrow> ui_part (key, x)) \<Longrightarrow> list_all ui_part (fst (ui_entry path v key type ns))"
  by (auto simp: ui_entry_def nested_keep_def nested_warn_def list_all_iff simp del: ui_part.simps dest!: set_field_in)

lemma ui_ok: "checked_ok st \<Longrightarrow> checked_ok (ui_field path obj st)"
proof -
  have "list_all ui_part (fst (ui_entry path v ''banner'' ''boolean'' (ui_entry path v ''theme'' ''string'' ([], st))))" for v
    by (intro ui_entry_parts) simp_all
  then have "setting_ok (''ui'', JObj (fst (ui_entry path v ''banner'' ''boolean'' (ui_entry path v ''theme'' ''string'' ([], st)))))" for v
    by (simp add: setting_ok_def key_lists)
  then show "checked_ok st \<Longrightarrow> checked_ok (ui_field path obj st)"
    by (simp add: ui_field_def Let_def put_nested_ok)
qed

lemma model_ok: "checked_ok st \<Longrightarrow> checked_ok (model_field path obj st)"
  by (auto simp: model_field_def split: json.splits prod.splits intro!: keep_ok object_ok object_key_ok)

lemma agent_role_ok:
  assumes "list_all (\<lambda>(role, cfg). role \<in> set model_roles \<and> is_object cfg) (fst st) \<and> checked_ok (snd st)"
  shows "list_all (\<lambda>(role, cfg). role \<in> set model_roles \<and> is_object cfg) (fst (agent_role path e st)) \<and> checked_ok (snd (agent_role path e st))"
  using assms by (cases e) (auto simp: agent_role_def list_all_iff dest!: set_field_in)

lemma agents_fold_ok:
  assumes "list_all (\<lambda>(role, cfg). role \<in> set model_roles \<and> is_object cfg) (fst st) \<and> checked_ok (snd st)"
  shows "list_all (\<lambda>(role, cfg). role \<in> set model_roles \<and> is_object cfg) (fst (fold (agent_role path) kvs st))
    \<and> checked_ok (snd (fold (agent_role path) kvs st))"
  using assms
proof (induction kvs arbitrary: st)
  case (Cons e kvs)
  then show ?case using agent_role_ok [of st path e] by (simp del: split_paired_All)
qed simp

lemma agents_ok: "checked_ok st \<Longrightarrow> checked_ok (agents_field path obj st)"
proof (cases "jget obj ''agents''")
  case (JObj kvs)
  assume "checked_ok st"
  then have "list_all (\<lambda>(role, cfg). role \<in> set model_roles \<and> is_object cfg) (fst (fold (agent_role path) kvs ([], st)))
    \<and> checked_ok (snd (fold (agent_role path) kvs ([], st)))"
    by (intro agents_fold_ok) simp
  then show ?thesis
    by (auto simp: agents_field_def JObj split_def setting_ok_def key_lists intro!: keep_ok)
qed (simp_all add: agents_field_def)

lemma teams_ok: "checked_ok st \<Longrightarrow> checked_ok (teams_field path obj st)"
  unfolding teams_field_def
  by (rule put_nested_ok) (simp_all add: teammate_model_def teammate_mode_def object_key_ok key_lists)

lemma fold_keeps: "(\<And>x s. x \<in> set xs \<Longrightarrow> P s \<Longrightarrow> P (f x s)) \<Longrightarrow> P s \<Longrightarrow> P (fold f xs s)"
  by (induction xs arbitrary: s) auto

lemma unknown_ok: "checked_ok st \<Longrightarrow> checked_ok (unknown_keys path obj st)"
  by (auto simp: unknown_keys_def Let_def intro!: fold_keeps [where P = checked_ok])

definition safe_check :: "(checked \<Rightarrow> checked) \<Rightarrow> bool" where
  "safe_check f = (\<forall>st. checked_ok st \<longrightarrow> checked_ok (f st))"

lemma safe_enums:
  "safe_check (enum_field path obj ''mode'' mode_names)"
  "safe_check (enum_field path obj ''permissionMode'' permission_modes)"
  "safe_check (enum_field path obj ''effort'' efforts)"
  unfolding safe_check_def by (intro allI impI enum_ok, assumption, simp add: setting_ok_def)+

lemma safe_typed: "k \<in> set boolean_keys \<Longrightarrow> safe_check (typed_field path obj k ''boolean'')"
  by (auto simp: safe_check_def setting_ok_def boolean_keys_def intro!: typed_ok)

lemma safe_numbers:
  "safe_check (checked_field path obj ''compactThreshold'' unit_fraction what)"
  "safe_check (checked_field path obj ''maxTurns'' positive_integer what)"
  unfolding safe_check_def by (intro allI impI checked_field_ok, assumption, simp add: setting_ok_def)+

lemma safe_object: "k \<in> set object_keys \<Longrightarrow> safe_check (object_field path obj k)"
  by (simp add: safe_check_def object_ok object_key_ok)

lemma safe_array: "k \<in> set string_array_keys \<Longrightarrow> safe_check (string_array_field path obj k)"
  by (auto simp: safe_check_def setting_ok_def key_lists intro!: array_ok)

lemma safe_others:
  "safe_check (ui_field path obj)" "safe_check (model_field path obj)" "safe_check (agents_field path obj)"
  "safe_check (teams_field path obj)" "safe_check (unknown_keys path obj)"
  by (simp_all add: safe_check_def ui_ok model_ok agents_ok teams_ok unknown_ok)

lemma every_check_safe: "f \<in> set (field_checks path obj) \<Longrightarrow> safe_check f"
proof -
  have "list_all safe_check (field_checks path obj)"
    by (simp add: field_checks_def safe_enums safe_numbers safe_others safe_typed boolean_keys_def)
       (simp add: list_all_iff safe_object safe_array)
  then show "f \<in> set (field_checks path obj) \<Longrightarrow> safe_check f"
    by (simp add: list_all_iff)
qed

lemma validated:  "typed_config (fst (validate raw path))"
proof (cases raw)
  case (JObj kvs)
  have "checked_ok (fold (\<lambda>f st. f st) (field_checks path raw) ([], []))"
  proof (rule fold_keeps)
    show "checked_ok (f st)" if "f \<in> set (field_checks path raw)" "checked_ok st" for f st
      using every_check_safe [OF that(1)] that(2) unfolding safe_check_def by blast
  qed (simp add: checked_ok_def)
  then show ?thesis
    by (simp add: validate_def JObj typed_config_def checked_ok_def split_def)
qed (simp_all add: validate_def typed_config_def)

text \<open>
  C36. Whatever JSON a configuration file holds, the value \<open>validate\<close> lets through is a typed configuration: its
  keys are distinct, every key is one the program knows, and every value passes the check of its key: a mode is one of
  the modes, a threshold lies in \<open>(0, 1]\<close>, a deny list is a list of strings, a role is a known role. The model and the
  other groups of settings are objects; what is inside them is not checked.
\<close>

theorem validate_typed: "typed_config (fst (validate raw path))"
  by (rule validated)

section \<open>No valid setting is lost\<close>

definition exact_keys :: "string list" where
  "exact_keys = [''mode'', ''permissionMode'', ''effort'', ''compactThreshold'', ''maxTurns''] @ boolean_keys @ string_array_keys"

lemma exact_ok:
  "setting_ok (''mode'', v) = (v \<in> set (map JStr mode_names))"
  "setting_ok (''permissionMode'', v) = (v \<in> set (map JStr permission_modes))"
  "setting_ok (''effort'', v) = (v \<in> set (map JStr efforts))"
  "setting_ok (''compactThreshold'', v) = unit_fraction v"
  "setting_ok (''maxTurns'', v) = positive_integer v"
  "k \<in> set boolean_keys \<Longrightarrow> setting_ok (k, v) = (js_typeof v = ''boolean'')"
  "k \<in> set string_array_keys \<Longrightarrow> setting_ok (k, v) = string_array v"
  by (auto simp: setting_ok_def boolean_keys_def string_array_keys_def)

lemma map_of_keep: "map_of (fst (keep_field k v st)) = (map_of (fst st))(k \<mapsto> v)"
  by (simp add: keep_field_def)

lemma fst_warn [simp]: "fst (warn path msg st) = fst st"
  by (simp add: warn_def)

lemma map_of_checks:
  "map_of (fst (enum_field path obj key allowed st)) k =
     (if k = key \<and> jget obj key \<in> set (map JStr allowed) then Some (jget obj key) else map_of (fst st) k)"
  "map_of (fst (typed_field path obj key type st)) k =
     (if k = key \<and> jget obj key \<noteq> JUndef \<and> js_typeof (jget obj key) = type then Some (jget obj key) else map_of (fst st) k)"
  "map_of (fst (checked_field path obj key ok what st)) k =
     (if k = key \<and> jget obj key \<noteq> JUndef \<and> ok (jget obj key) then Some (jget obj key) else map_of (fst st) k)"
  "map_of (fst (object_field path obj key st)) k =
     (if k = key \<and> jget obj key \<noteq> JUndef \<and> is_object (jget obj key) then Some (jget obj key) else map_of (fst st) k)"
  "map_of (fst (string_array_field path obj key st)) k =
     (if k = key \<and> jget obj key \<noteq> JUndef \<and> string_array (jget obj key) then Some (jget obj key) else map_of (fst st) k)"
  by (auto simp: enum_field_def typed_field_def checked_field_def object_field_def string_array_field_def Let_def map_of_keep)

lemma fst_agents_fold: "fst (snd (fold (agent_role path) kvs st)) = fst (snd st)"
  by (induction kvs arbitrary: st) (auto simp: agent_role_def split: prod.splits)

lemma fst_unknown [simp]: "fst (unknown_keys path obj st) = fst st"
proof -
  have "fst (fold (\<lambda>(k, v) s. if k \<in> set known_keys then s else warn path (''unknown setting '' @ ticked k @ ignoring) s) kvs st) = fst st" for kvs :: "(string \<times> json) list"
    by (induction kvs arbitrary: st) auto
  then show ?thesis by (simp add: unknown_keys_def Let_def)
qed

lemma fst_nested [simp]:
  "fst (snd (nested_keep k v ns)) = fst (snd ns)"
  "fst (snd (nested_warn path msg ns)) = fst (snd ns)"
  by (simp_all add: nested_keep_def nested_warn_def)

lemma map_of_put_nested: "k \<noteq> key \<Longrightarrow> map_of (fst (put_nested key ns)) k = map_of (fst (snd ns)) k"
  by (simp add: put_nested_def map_of_keep)

lemma map_of_ui: "k \<noteq> ''ui'' \<Longrightarrow> map_of (fst (ui_field path obj st)) k = map_of (fst st) k"
  by (simp add: ui_field_def Let_def map_of_put_nested ui_entry_def)

lemma map_of_model: "k \<noteq> ''model'' \<Longrightarrow> map_of (fst (model_field path obj st)) k = map_of (fst st) k"
  by (cases "jget obj ''model''") (simp_all add: model_field_def split_def map_of_keep map_of_checks)

lemma map_of_agents: "k \<noteq> ''agents'' \<Longrightarrow> map_of (fst (agents_field path obj st)) k = map_of (fst st) k"
  by (cases "jget obj ''agents''") (simp_all add: agents_field_def split_def map_of_keep fst_agents_fold)

lemma map_of_teams: "k \<noteq> ''teams'' \<Longrightarrow> map_of (fst (teams_field path obj st)) k = map_of (fst st) k"
  by (simp add: teams_field_def map_of_put_nested teammate_model_def teammate_mode_def)

lemmas map_of_others = map_of_ui map_of_model map_of_agents map_of_teams

text \<open>
  A setting with a value of its type is read exactly as it is written, and one with any other value is dropped
  and nothing else is: for the modes, the numbers, the switches and the lists of strings, the value after validation
  is the value in the file when it is valid and is absent otherwise, whatever the rest of the file holds.
\<close>

theorem validate_exact:
  assumes "k \<in> set exact_keys" and "is_object raw"
  shows "jget (fst (validate raw path)) k = (if setting_ok (k, jget raw k) then jget raw k else JUndef)"
proof -
  obtain kvs where raw: "raw = JObj kvs" using assms(2) by (cases raw) auto
  have *: "jget (fst (validate raw path)) k' =
      (case map_of (fst (fold (\<lambda>f st. f st) (field_checks path raw) ([], []))) k' of None \<Rightarrow> JUndef | Some v \<Rightarrow> v)" for k'
    by (simp add: validate_def raw split_def)
  show ?thesis
    using assms(1)
    unfolding exact_keys_def boolean_keys_def string_array_keys_def
    apply (simp only: set_append set_simps append.simps Un_insert_left Un_empty_left insert_iff empty_iff simp_thms)
    apply (elim disjE)
    apply (simp_all add: * field_checks_def object_keys_def string_array_keys_def map_of_others map_of_checks exact_ok boolean_keys_def del: jget.simps)
    done
qed

theorem validate_exact_witness:
  "jget (fst (validate (JObj [(''maxTurns'', JNum 0), (''effort'', JStr ''high'')]) ''f'')) ''effort'' = JStr ''high''
   \<and> jget (fst (validate (JObj [(''maxTurns'', JNum 0), (''effort'', JStr ''high'')]) ''f'')) ''maxTurns'' = JUndef"
  using validate_exact [of "''effort''" "JObj [(''maxTurns'', JNum 0), (''effort'', JStr ''high'')]" "''f''"]
    validate_exact [of "''maxTurns''" "JObj [(''maxTurns'', JNum 0), (''effort'', JStr ''high'')]" "''f''"]
  by (simp add: exact_keys_def exact_ok efforts_def)

section \<open>Merging\<close>

text \<open>Reading down a path of keys; where a patch is silent, and where it has a value that is not merged further.\<close>

fun walk :: "json \<Rightarrow> string list \<Rightarrow> json" where
  "walk v [] = v"
| "walk v (k # ks) = walk (jget v k) ks"

fun silent :: "json \<Rightarrow> string list \<Rightarrow> bool" where
  "silent v [] = (v = JUndef)"
| "silent v (k # ks) = (v = JUndef \<or> is_object v \<and> silent (jget v k) ks)"

definition leaf_at :: "json \<Rightarrow> string list \<Rightarrow> bool" where
  "leaf_at v ks = (walk v ks \<noteq> JUndef \<and> \<not> is_object (walk v ks))"

fun unique_keys :: "json \<Rightarrow> bool" where
  "unique_keys (JArr vs) = list_all unique_keys vs"
| "unique_keys (JObj kvs) = (distinct (map fst kvs) \<and> list_all (\<lambda>(k, u). u) (map (\<lambda>(k, v). (k, unique_keys v)) kvs))"
| "unique_keys v = True"

lemma jget_map: "jget (JObj (map (\<lambda>(k, v). (k, f v)) kvs)) k = (case map_of kvs k of None \<Rightarrow> JUndef | Some v \<Rightarrow> f v)"
  by (induction kvs) auto

lemma unique_keys_jget: "unique_keys v \<Longrightarrow> unique_keys (jget v k)"
  by (cases v) (auto simp: list_all_iff split: option.splits dest!: map_of_SomeD)

lemma walk_undef [simp]: "walk JUndef ks = JUndef"
  by (induction ks) auto

lemma silent_undef [simp]: "silent JUndef ks"
  by (cases ks) auto

lemma silent_walk: "silent v ks \<Longrightarrow> walk v ks = JUndef"
  by (induction v ks rule: silent.induct) auto

definition merge_entry :: "json \<Rightarrow> json \<Rightarrow> json" where
  "merge_entry prev v = (if v = JUndef then prev else if is_object v \<and> is_object prev then merge prev v else v)"

lemma jget_set_field: "jget (JObj (set_field k v kvs)) k' = (if k' = k then v else jget (JObj kvs) k')"
  by simp

lemma jget_Cons: "jget (JObj ((k', v) # kvs)) k = (if k = k' then v else jget (JObj kvs) k)"
  by simp

lemma jget_absent: "k \<notin> set (map fst kvs) \<Longrightarrow> jget (JObj kvs) k = JUndef"
  by (simp add: map_of_eq_None_iff [THEN iffD2])

lemma merge_entry_undef [simp]: "merge_entry prev JUndef = prev"
  by (simp add: merge_entry_def)

lemma jget_merge_keys:
  "distinct (map fst kvs) \<Longrightarrow>
   jget (JObj (merge_keys out kvs)) k = merge_entry (jget (JObj out) k) (jget (JObj kvs) k)"
proof (induction kvs arbitrary: out)
  case (Cons e kvs)
  obtain k' v where e: "e = (k', v)" by force
  let ?out = "if v = JUndef then out
    else set_field k' (if is_object v \<and> is_object (jget (JObj out) k') then merge (jget (JObj out) k') v else v) out"
  have rest: "jget (JObj (merge_keys ?out kvs)) k = merge_entry (jget (JObj ?out) k) (jget (JObj kvs) k)"
    by (rule Cons.IH) (use Cons.prems in simp)
  have out: "jget (JObj ?out) k = (if k = k' then merge_entry (jget (JObj out) k) v else jget (JObj out) k)"
    by (simp add: merge_entry_def jget_set_field del: jget.simps)
  have absent: "jget (JObj kvs) k' = JUndef"
    by (rule jget_absent) (use Cons.prems e in simp)
  show ?case
    unfolding e merge_keys.simps rest out jget_Cons by (simp add: absent del: jget.simps)
qed simp

lemma jget_merge:
  assumes "is_object base" "is_object patch" "unique_keys patch"
  shows "jget (merge base patch) k = merge_entry (jget base k) (jget patch k)"
  using assms by (cases base; cases patch) (simp_all add: jget_merge_keys del: jget.simps)

lemma is_object_merge: "is_object patch \<Longrightarrow> is_object (merge base patch)"
  by (cases patch; cases base) auto

lemma merge_entry_object: "is_object v \<Longrightarrow> merge_entry prev v = merge prev v"
  by (cases v; cases prev) (auto simp: merge_entry_def)

lemma walk_not_object: "\<not> is_object v \<Longrightarrow> walk v (k # ks) = JUndef"
  by (cases v) auto

lemma merge_not_object: "\<not> is_object base \<Longrightarrow> is_object patch \<Longrightarrow> merge base patch = patch"
  by (cases patch; cases base) auto

lemma walk_merge_leaf:
  "unique_keys patch \<Longrightarrow> is_object patch \<Longrightarrow> leaf_at patch ks \<Longrightarrow> walk (merge base patch) ks = walk patch ks"
proof (induction ks arbitrary: base patch)
  case (Cons k ks)
  show ?case
  proof (cases "is_object base")
    case True
    show ?thesis
    proof (cases "is_object (jget patch k)")
      case obj: True
      have "walk (merge (jget base k) (jget patch k)) ks = walk (jget patch k) ks"
        using Cons obj by (intro Cons.IH) (simp_all add: leaf_at_def unique_keys_jget)
      then show ?thesis
        using Cons.prems True obj by (simp add: jget_merge merge_entry_object)
    next
      case False
      then have "jget patch k \<noteq> JUndef"
        using Cons.prems by (auto simp: leaf_at_def)
      with False show ?thesis
        using Cons.prems True by (simp add: jget_merge merge_entry_def)
    qed
  qed (use Cons.prems in \<open>simp add: merge_not_object\<close>)
qed (simp add: leaf_at_def)

lemma walk_merge_silent:
  "unique_keys patch \<Longrightarrow> is_object patch \<Longrightarrow> silent patch ks \<Longrightarrow> walk (merge base patch) ks = walk base ks"
proof (induction ks arbitrary: base patch)
  case (Cons k ks)
  show ?case
  proof (cases "is_object base")
    case True
    show ?thesis
    proof (cases "is_object (jget patch k)")
      case obj: True
      have "walk (merge (jget base k) (jget patch k)) ks = walk (jget base k) ks"
        using Cons obj by (intro Cons.IH) (auto simp: unique_keys_jget)
      then show ?thesis
        using Cons.prems True obj by (simp add: jget_merge merge_entry_object)
    next
      case False
      then have "jget patch k = JUndef"
        using Cons.prems by (cases ks) auto
      then show ?thesis
        using Cons.prems True by (simp add: jget_merge merge_entry_def)
    qed
  next
    case False
    then show ?thesis
      using Cons.prems silent_walk [of patch "k # ks"]
      by (metis merge_not_object walk_not_object)
  qed
qed auto

end
