(* ===== verification/Settings.thy ===== *)
theory Settings
  imports Config
begin

text \<open>
  Where the configuration comes from and how it is changed and shown: \<open>packages/config/src/settings.ts\<close>,
  \<open>env.ts\<close>, \<open>defaults.ts\<close> and \<open>import/index.ts\<close>.

  A file system is a map from absolute paths to files and directories (the names in them); reading a file
  that cannot be read gives a message. \<open>JSON.parse\<close> is a parameter. Directories that are joined are absolute.
  The environment is what reading a variable as a property gives, so for the names that every object inherits it
  has the text of what is inherited. Objects have no key \<open>__proto__\<close>.
\<close>

section \<open>Files\<close>

datatype node = FileNode "string + string" | DirNode "string list"

record cfg_world =
  cw_fs :: "string \<Rightarrow> node option"
  cw_parse :: "string \<Rightarrow> string + json"
  cw_env :: "string \<Rightarrow> string option"
  cw_home :: string
  cw_here :: string

definition join_path :: "string \<Rightarrow> string \<Rightarrow> string" where
  "join_path dir p = abs_path (dir @ ''/'' @ p)"

definition exists_path :: "cfg_world \<Rightarrow> string \<Rightarrow> bool" where
  "exists_path w p = (cw_fs w p \<noteq> None)"

definition read_path :: "cfg_world \<Rightarrow> string \<Rightarrow> string + string" where
  "read_path w p =
     (case cw_fs w p of Some (FileNode c) \<Rightarrow> c | Some (DirNode _) \<Rightarrow> Inl ''EISDIR: illegal operation on a directory, read''
      | None \<Rightarrow> Inl (''ENOENT: no such file or directory, open '' @ p))"

definition read_jsonc :: "cfg_world \<Rightarrow> string \<Rightarrow> string + json" where
  "read_jsonc w p = or_throw (read_path w p) (\<lambda>s. parse_jsonc (cw_parse w) s p)"

section \<open>The environment\<close>

definition provider_key_env :: "(string \<times> string list) list" where
  "provider_key_env = [(''openrouter'', [''OPENROUTER_API_KEY'']), (''anthropic'', [''ANTHROPIC_API_KEY'']),
     (''openai'', [''OPENAI_API_KEY'']), (''google'', [''GOOGLE_API_KEY'', ''GEMINI_API_KEY'']), (''xai'', [''XAI_API_KEY'']),
     (''deepseek'', [''DEEPSEEK_API_KEY'']), (''mistral'', [''MISTRAL_API_KEY'']), (''groq'', [''GROQ_API_KEY'']),
     (''cerebras'', [''CEREBRAS_API_KEY'']), (''fireworks'', [''FIREWORKS_API_KEY'']), (''together'', [''TOGETHER_API_KEY'']),
     (''ollama'', []), (''vllm'', []), (''llamacpp'', [])]"

text \<open>
  What a plain object has beside its own keys. Looked up as providers, these names give functions or the prototype,
  and going through them throws.
\<close>

definition inherited_names :: "string list" where
  "inherited_names = [''constructor'', ''toString'', ''toLocaleString'', ''valueOf'', ''hasOwnProperty'', ''isPrototypeOf'',
     ''propertyIsEnumerable'', ''__proto__'', ''__defineGetter__'', ''__defineSetter__'', ''__lookupGetter__'', ''__lookupSetter__'']"

definition provider_names :: "string \<Rightarrow> string + string list" where
  "provider_names provider =
     (case map_of provider_key_env provider of
        Some names \<Rightarrow> Inr names
      | None \<Rightarrow> if provider \<in> set inherited_names then Inl ''TypeError'' else Inr [])"

fun first_key :: "(string \<Rightarrow> string option) \<Rightarrow> string list \<Rightarrow> string option" where
  "first_key env [] = None"
| "first_key env (n # ns) =
     (case env n of Some v \<Rightarrow> if trim v \<noteq> [] then Some (trim v) else first_key env ns | None \<Rightarrow> first_key env ns)"

definition provider_key_from_env :: "string \<Rightarrow> (string \<Rightarrow> string option) \<Rightarrow> string + string option" where
  "provider_key_from_env provider env = or_throw (provider_names provider) (\<lambda>names. Inr (first_key env names))"

definition configured_providers :: "(string \<Rightarrow> string option) \<Rightarrow> string list" where
  "configured_providers env =
     map fst (filter (\<lambda>(p, names). if names = [] then truthy (env ''LOCAL_ENDPOINT'') else provider_key_from_env p env \<noteq> Inr None)
       provider_key_env)"

definition backends :: "string list" where
  "backends = [''local'', ''docker'', ''ssh'', ''daytona'', ''modal'', ''singularity'']"

text \<open>A variable whose value must be one of a list.\<close>

definition env_choice :: "(string \<Rightarrow> string option) \<Rightarrow> string \<Rightarrow> string list \<Rightarrow> (json \<Rightarrow> checked \<Rightarrow> checked) \<Rightarrow> string \<Rightarrow> checked \<Rightarrow> checked" where
  "env_choice env name allowed put what st =
     (if \<not> truthy (env name) then st
      else if the (env name) \<in> set allowed then put (JStr (the (env name))) st
      else (fst st, snd st @ [name @ ''='' @ [CHR 0x22] @ the (env name) @ [CHR 0x22] @ '' is not a known '' @ what @ ignoring]))"

definition config_from_env :: "(string \<Rightarrow> string option) \<Rightarrow> json \<times> string list" where
  "config_from_env env =
     (let s0 = (if truthy (env ''JEAN_MODEL'')
                then keep_field ''model'' (JObj [(''modelId'', JStr (the (env ''JEAN_MODEL'')))]) ([], []) else ([], []));
          s1 = env_choice env ''JEAN_EXECUTION'' backends (\<lambda>v. keep_field ''execution'' (JObj [(''backend'', v)])) ''backend'' s0;
          s2 = env_choice env ''JEAN_PERMISSION_MODE'' permission_modes (keep_field ''permissionMode'') ''mode'' s1;
          s3 = env_choice env ''JEAN_EFFORT'' efforts (keep_field ''effort'') ''effort level'' s2;
          s4 = (if truthy (env ''JEAN_DEBUG'') \<and> env ''JEAN_DEBUG'' \<noteq> Some ''0'' \<and> env ''JEAN_DEBUG'' \<noteq> Some ''false''
                then keep_field ''debug'' (JBool True) s3 else s3);
          s5 = (if truthy (env ''SHELL'') then keep_field ''shell'' (JObj [(''path'', JStr (the (env ''SHELL'')))]) s4 else s4);
          s6 = (if env ''JEAN_SHELL'' = Some ''native'' \<or> env ''JEAN_SHELL'' = Some ''system''
                then keep_field ''shell'' (JObj (set_field ''backend'' (JStr (the (env ''JEAN_SHELL'')))
                  (obj_fields (jget (JObj (fst s5)) ''shell'')))) s5 else s5);
          s7 = (if truthy (env ''LOCAL_ENDPOINT'')
                then keep_field ''providers'' (JObj (set_field ''ollama'' (JObj [(''baseUrl'', JStr (the (env ''LOCAL_ENDPOINT'')))])
                  (obj_fields (jget (JObj (fst s6)) ''providers'')))) s6 else s6)
      in (JObj (fst s7), snd s7))"

definition dotenv_value :: "string \<Rightarrow> string" where
  "dotenv_value v =
     (if length v > 1 \<and> (hd v = CHR 0x22 \<and> last v = CHR 0x22 \<or> hd v = CHR 0x27 \<and> last v = CHR 0x27)
      then butlast (tl v)
      else case index_of '' #'' v of None \<Rightarrow> v | Some h \<Rightarrow> trim (slice 0 h v))"

definition dotenv_line :: "string \<Rightarrow> (string \<times> string) option" where
  "dotenv_line raw =
     (let line = trim raw;
          body = (if starts_with line ''export '' then trim (drop 7 line) else line)
      in if line = [] \<or> starts_with line ''#'' then None
         else case index_of ''='' body of
                None \<Rightarrow> None
              | Some eq \<Rightarrow>
                  (let key = trim (slice 0 eq body)
                   in if eq = 0 \<or> key = [] then None else Some (key, dotenv_value (trim (drop (eq + 1) body)))))"

definition parse_dotenv :: "string \<Rightarrow> (string \<times> string) list" where
  "parse_dotenv s =
     fold (\<lambda>raw out. case dotenv_line raw of None \<Rightarrow> out | Some (k, v) \<Rightarrow> AList.update k v out) (split_on u_lf s) []"

definition overlay_env :: "(string \<times> string) list \<Rightarrow> (string \<Rightarrow> string option) \<Rightarrow> string \<Rightarrow> string option" where
  "overlay_env dotenv env k = (case env k of Some v \<Rightarrow> Some v | None \<Rightarrow> map_of dotenv k)"

section \<open>Defaults\<close>

definition jean_home :: "cfg_world \<Rightarrow> (string \<Rightarrow> string option) \<Rightarrow> string" where
  "jean_home w env = (case env ''JEAN_HOME'' of Some h \<Rightarrow> h | None \<Rightarrow> join_path (cw_home w) ''.jean'')"

definition global_config_path :: "cfg_world \<Rightarrow> (string \<Rightarrow> string option) \<Rightarrow> string" where
  "global_config_path w env = join_path (jean_home w env) ''config.json''"

definition agent_defaults :: "(string \<times> json) list" where
  "agent_defaults =
     (let m = (\<lambda>model n. JObj ((if model = [] then [] else [(''model'', JStr model)]) @ [(''maxTokens'', JNum n)]))
      in [(''default'', JObj [(''maxTokens'', JNum 32000), (''temperature'', JNum 0)]),
          (''smol'', m ''anthropic/claude-haiku-4.5'' 8192), (''slow'', m ''anthropic/claude-opus-5.5'' 32000), (''plan'', m [] 16384),
          (''commit'', m ''anthropic/claude-haiku-4.5'' 1024), (''vision'', m ''anthropic/claude-sonnet-5'' 8192),
          (''designer'', m [] 32000), (''task'', m ''anthropic/claude-haiku-4.5'' 8192), (''advisor'', m ''anthropic/claude-opus-5.5'' 4096),
          (''tiny'', m ''anthropic/claude-haiku-4.5'' 1024)])"

definition default_confirm :: "string list" where
  "default_confirm = [''rm -rf'', ''rm -fr'', ''git reset --hard'', ''git clean -fd'', ''git push --force'', ''git push -f'', ''DROP TABLE'',
     ''DROP DATABASE'', ''TRUNCATE'', ''mkfs'', ''dd if='', ''chmod -R 777'', ''shutdown'', ''reboot'']"

definition default_deny :: "string list" where
  "default_deny = [''rm -rf /'', ''rm -rf ~'', ''rm -rf /*'', '':(){ :|:& };:'', ''mkfs.'', ''> /dev/sda'', ''chmod -R 000 /'']"

definition default_config :: "cfg_world \<Rightarrow> json" where
  "default_config w =
     JObj [(''mode'', JStr ''autonomous''), (''ui'', JObj [(''theme'', JStr ''acid''), (''banner'', JBool True)]),
       (''model'', JObj [(''provider'', JStr ''openrouter''), (''modelId'', JStr ''anthropic/claude-sonnet-5'')]),
       (''agents'', JObj agent_defaults), (''providers'', JObj []), (''permissionMode'', JStr ''auto''), (''autoCompact'', JBool True),
       (''compactThreshold'', JDec 95 2), (''maxTurns'', JNum 200), (''effort'', JStr ''normal''),
       (''shell'', JObj [(''timeoutMs'', JNum 120000)]), (''lsp'', JObj []), (''mcpServers'', JObj []),
       (''memory'', JObj [(''backend'', JStr ''native''), (''path'', JStr (join_path (jean_home w (cw_env w)) ''memory.db'')), (''recallLimit'', JNum 12)]),
       (''execution'', JObj [(''backend'', JStr ''local''), (''docker'', JObj [(''image'', JStr ''node:20-slim''),
          (''security'', JObj [(''readOnlyRoot'', JBool True), (''dropCapabilities'', JBool True), (''pidLimit'', JNum 100), (''network'', JBool True)])])]),
       (''advisor'', JObj [(''enabled'', JBool False), (''escalateAt'', JStr ''blocker'')]),
       (''teams'', JObj [(''teammateMode'', JStr ''auto''), (''maxTeammates'', JNum 5)]),
       (''instructionFiles'', JArr (map JStr [''JEAN.md'', ''AGENTS.md'', ''CLAUDE.md''])),
       (''confirmPatterns'', JArr (map JStr default_confirm)), (''denyPatterns'', JArr (map JStr default_deny)),
       (''telemetry'', JBool False), (''debug'', JBool False)]"

section \<open>Other agents' files\<close>

record format =
  fm_name :: string
  fm_probe :: string
  fm_rules :: "string list"
  fm_mcp :: "string list"
  fm_key :: string

definition formats :: "format list" where
  "formats =
    [\<lparr>fm_name = ''Claude Code'', fm_probe = ''.claude'', fm_rules = [''CLAUDE.md'', ''.claude/CLAUDE.md''],
      fm_mcp = [''.mcp.json'', ''.claude/settings.json'', ''.claude/settings.local.json''], fm_key = ''mcpServers''\<rparr>,
     \<lparr>fm_name = ''Cursor'', fm_probe = ''.cursor'', fm_rules = [''.cursorrules'', ''.cursor/rules''], fm_mcp = [''.cursor/mcp.json''], fm_key = ''mcpServers''\<rparr>,
     \<lparr>fm_name = ''Windsurf'', fm_probe = ''.windsurf'', fm_rules = [''.windsurfrules'', ''.windsurf/rules''], fm_mcp = [''.windsurf/mcp_config.json''], fm_key = ''mcpServers''\<rparr>,
     \<lparr>fm_name = ''Gemini CLI'', fm_probe = ''.gemini'', fm_rules = [''GEMINI.md'', ''.gemini/GEMINI.md''], fm_mcp = [''.gemini/settings.json''], fm_key = ''mcpServers''\<rparr>,
     \<lparr>fm_name = ''Codex CLI'', fm_probe = ''.codex'', fm_rules = [''AGENTS.md'', ''.codex/AGENTS.md''], fm_mcp = [''.codex/config.json''], fm_key = ''mcp_servers''\<rparr>,
     \<lparr>fm_name = ''Cline'', fm_probe = ''.clinerules'', fm_rules = [''.clinerules''], fm_mcp = [''.cline/mcp.json''], fm_key = ''mcpServers''\<rparr>,
     \<lparr>fm_name = ''GitHub Copilot'', fm_probe = ''.github/copilot-instructions.md'', fm_rules = [''.github/copilot-instructions.md''], fm_mcp = [], fm_key = ''mcpServers''\<rparr>,
     \<lparr>fm_name = ''VS Code'', fm_probe = ''.vscode'', fm_rules = [], fm_mcp = [''.vscode/mcp.json'', ''.vscode/settings.json''], fm_key = ''mcp''\<rparr>]"

text \<open>One server entry, field by field; \<open>None\<close> for one that cannot be started.\<close>

definition mcp_server :: "json \<Rightarrow> (string \<times> json) list option" where
  "mcp_server v =
     (let s1 = (case jget v ''command'' of JStr c \<Rightarrow> [(''type'', JStr ''stdio''), (''command'', JStr c)] | _ \<Rightarrow> []);
          s2 = (if string_array (jget v ''args'') then set_field ''args'' (jget v ''args'') s1 else s1);
          s3 = (case jget v ''url'' of
                  JStr u \<Rightarrow>
                    (let s = set_field ''url'' (JStr u) s2; ty = jget v ''type''
                     in if ty = JStr ''http'' \<or> ty = JStr ''streamable-http'' then set_field ''type'' (JStr ''http'') s
                        else if ty = JStr ''sse'' then set_field ''type'' (JStr ''sse'') s
                        else AList.delete ''type'' s)
                | _ \<Rightarrow> s2);
          s4 = (if is_object (jget v ''env'') then set_field ''env'' (jget v ''env'') s3 else s3);
          s5 = (if is_object (jget v ''headers'') then set_field ''headers'' (jget v ''headers'') s4 else s4)
      in if js_truthy (jget (JObj s5) ''command'') \<or> js_truthy (jget (JObj s5) ''url'') then Some s5 else None)"

definition read_mcp_servers :: "cfg_world \<Rightarrow> string \<Rightarrow> string \<Rightarrow> (string \<times> json) list" where
  "read_mcp_servers w path key =
     (case read_jsonc w path of
        Inl e \<Rightarrow> []
      | Inr v \<Rightarrow>
          (if \<not> is_record v then []
           else (let raw = nullish (nullish (jget v key) (jget v ''mcpServers'')) (jget v ''servers'');
                     raw' = (if is_object raw \<and> ''servers'' \<in> set (map fst (obj_fields raw)) then jget raw ''servers'' else raw)
                 in concat (map (\<lambda>(name, x). if is_object x then (case mcp_server x of Some s \<Rightarrow> [(name, JObj s)] | None \<Rightarrow> []) else [])
                      (obj_fields raw')))))"

definition rule_ending :: "string \<Rightarrow> bool" where
  "rule_ending entry = list_ex (\<lambda>e. ends_with (to_lower entry) e) [''.md'', ''.mdc'', ''.txt'']"

definition format_rules :: "cfg_world \<Rightarrow> string \<Rightarrow> format \<Rightarrow> string list" where
  "format_rules w wd fm =
     concat (map (\<lambda>r. case cw_fs w (join_path wd r) of
                        None \<Rightarrow> []
                      | Some (DirNode es) \<Rightarrow> map (join_path (join_path wd r)) (filter rule_ending es)
                      | Some (FileNode _) \<Rightarrow> [join_path wd r]) (fm_rules fm))"

definition format_servers :: "cfg_world \<Rightarrow> string \<Rightarrow> format \<Rightarrow> (string \<times> json) list" where
  "format_servers w wd fm =
     concat (map (\<lambda>f. if exists_path w (join_path wd f) then read_mcp_servers w (join_path wd f) (fm_key fm) else []) (fm_mcp fm))"

record imported =
  im_servers :: "(string \<times> json) list"
  im_rules :: "string list"
  im_sources :: "string list"

definition add_server :: "string \<times> json \<Rightarrow> (string \<times> json) list \<times> bool \<Rightarrow> (string \<times> json) list \<times> bool" where
  "add_server s st = (if fst s \<in> set (map fst (fst st)) \<union> set inherited_names then st else (fst st @ [s], True))"

definition import_format :: "cfg_world \<Rightarrow> string \<Rightarrow> format \<Rightarrow> imported \<Rightarrow> imported" where
  "import_format w wd fm im =
     (if \<not> exists_path w (join_path wd (fm_probe fm)) then im
      else (let rules = format_rules w wd fm;
                (servers, used) = fold add_server (format_servers w wd fm) (im_servers im, rules \<noteq> [])
            in im\<lparr>im_servers := servers, im_rules := im_rules im @ rules,
                  im_sources := im_sources im @ (if used then [fm_name fm] else [])\<rparr>))"

definition import_foreign :: "cfg_world \<Rightarrow> string \<Rightarrow> imported" where
  "import_foreign w wd =
     (let im = fold (import_format w wd) formats \<lparr>im_servers = [], im_rules = [], im_sources = []\<rparr>
      in im\<lparr>im_rules := dedupe (im_rules im)\<rparr>)"

definition imported_config :: "imported \<Rightarrow> json" where
  "imported_config im = JObj (if im_servers im = [] then [] else [(''mcpServers'', JObj (im_servers im))])"

definition supported_formats :: "string list" where
  "supported_formats = ''Jean Code'' # map fm_name formats"

section \<open>Loading\<close>

record load_options =
  lo_cwd :: string
  lo_config :: "string option"
  lo_flags :: json
  lo_skip_import :: bool
  lo_env :: "(string \<Rightarrow> string option) option"

text \<open>The configuration as the layers build it; a source is its kind and its path.\<close>

record loading =
  ld_config :: json
  ld_sources :: "(string \<times> string) list"
  ld_warnings :: "string list"

record loaded = loading +
  ld_model_chosen :: bool

definition load_env :: "cfg_world \<Rightarrow> load_options \<Rightarrow> (string \<Rightarrow> string option) \<times> string list" where
  "load_env w opts =
     (let env = (case lo_env opts of None \<Rightarrow> cw_env w | Some e \<Rightarrow> e); p = join_path (lo_cwd opts) ''.env''
      in if \<not> exists_path w p then (env, [])
         else (case read_path w p of
                 Inl e \<Rightarrow> (env, [''could not read '' @ p @ '': '' @ e])
               | Inr s \<Rightarrow> (overlay_env (parse_dotenv s) env, [])))"

definition layer_over :: "string \<Rightarrow> string \<Rightarrow> json \<Rightarrow> string list \<Rightarrow> loading \<Rightarrow> loading" where
  "layer_over kind path value ws ld =
     ld\<lparr>ld_config := merge (ld_config ld) value, ld_sources := ld_sources ld @ [(kind, path)],
        ld_warnings := ld_warnings ld @ ws\<rparr>"

definition add_warnings :: "string list \<Rightarrow> loading \<Rightarrow> loading" where
  "add_warnings ws ld = ld\<lparr>ld_warnings := ld_warnings ld @ ws\<rparr>"

definition read_config_file :: "cfg_world \<Rightarrow> string \<Rightarrow> (json \<times> string list) option" where
  "read_config_file w path =
     (if \<not> exists_path w path then None
      else (case read_jsonc w path of
              Inl e \<Rightarrow> Some (JObj [], [''could not read '' @ path @ '': '' @ e])
            | Inr v \<Rightarrow> Some (validate v path)))"

definition import_layer :: "cfg_world \<Rightarrow> load_options \<Rightarrow> loading \<Rightarrow> loading" where
  "import_layer w opts ld =
     (let im = import_foreign w (lo_cwd opts)
      in if lo_skip_import opts \<or> im_sources im = [] then ld
         else layer_over ''imported'' (join '', '' (im_sources im)) (imported_config im) [] ld)"

definition extra_instructions :: "cfg_world \<Rightarrow> load_options \<Rightarrow> string list" where
  "extra_instructions w opts =
     (let im = import_foreign w (lo_cwd opts)
      in if lo_skip_import opts \<or> im_sources im = [] then [] else im_rules im)"

definition global_layer :: "cfg_world \<Rightarrow> load_options \<Rightarrow> (string \<Rightarrow> string option) \<Rightarrow> loading \<Rightarrow> loading" where
  "global_layer w opts env ld =
     (let path = (case lo_config opts of
                    Some p \<Rightarrow> if is_abs p then abs_path p else join_path (lo_cwd opts) p
                  | None \<Rightarrow> global_config_path w env)
      in case read_config_file w path of
           Some (v, ws) \<Rightarrow> layer_over ''global'' path v ws ld
         | None \<Rightarrow> (case lo_config opts of
                      Some p \<Rightarrow> add_warnings [''--config '' @ p @ '' does not exist''] ld
                    | None \<Rightarrow> ld))"

definition project_layer :: "cfg_world \<Rightarrow> load_options \<Rightarrow> loading \<Rightarrow> loading" where
  "project_layer w opts ld =
     (if lo_config opts \<noteq> None then ld
      else (let path = join_path (lo_cwd opts) ''.jean.json''
            in case read_config_file w path of
                 Some (v, ws) \<Rightarrow> layer_over ''project'' path v ws ld
               | None \<Rightarrow> ld))"

definition content_var :: string where "content_var = ''JEAN_CONFIG_CONTENT''"

definition content_layer :: "cfg_world \<Rightarrow> (string \<Rightarrow> string option) \<Rightarrow> loading \<Rightarrow> loading" where
  "content_layer w env ld =
     (case env content_var of
        None \<Rightarrow> ld
      | Some s \<Rightarrow>
          if trim s = [] then ld
          else (case parse_jsonc (cw_parse w) s content_var of
                  Inl e \<Rightarrow> add_warnings [''could not read '' @ content_var @ '': '' @ e] ld
                | Inr v \<Rightarrow> (case validate v content_var of
                     (c, ws) \<Rightarrow> layer_over ''env'' ''<JEAN_CONFIG_CONTENT>'' c ws ld)))"

definition env_layer :: "(string \<Rightarrow> string option) \<Rightarrow> loading \<Rightarrow> loading" where
  "env_layer env ld =
     (case config_from_env env of
        (c, ws) \<Rightarrow> if obj_fields c \<noteq> [] then layer_over ''env'' ''<environment>'' c ws ld else add_warnings ws ld)"

definition flags_layer :: "load_options \<Rightarrow> loading \<Rightarrow> loading" where
  "flags_layer opts ld =
     (if obj_fields (lo_flags opts) \<noteq> [] then layer_over ''flags'' ''<flags>'' (lo_flags opts) [] ld else ld)"

definition layers :: "cfg_world \<Rightarrow> load_options \<Rightarrow> loading" where
  "layers w opts =
     (case load_env w opts of
        (env, ws) \<Rightarrow>
          flags_layer opts (env_layer env (content_layer w env (project_layer w opts (global_layer w opts env (import_layer w opts
            \<lparr>ld_config = default_config w, ld_sources = [(''defaults'', ''<defaults>'')], ld_warnings = ws\<rparr>))))))"

text \<open>
  What is done to the merged configuration: variables, the provider of a model reference, its key. A
  \<open>modelId\<close> is a string or, since any object is let through as \<open>model\<close>, an array, which also has
  \<open>indexOf\<close> and \<open>slice\<close>; anything else throws.
\<close>

definition put_key :: "string \<Rightarrow> json \<Rightarrow> json \<Rightarrow> json" where
  "put_key k v obj = JObj (set_field k v (obj_fields obj))"

definition split_model :: "json \<Rightarrow> string + json" where
  "split_model config =
     (case jget (jget config ''model'') ''modelId'' of
        JStr s \<Rightarrow>
          (case split_model_ref s of
             (provider, model_id) \<Rightarrow>
               Inr (if truthy provider
                    then put_key ''model'' (put_key ''modelId'' (JStr model_id)
                           (put_key ''provider'' (JStr (the provider)) (jget config ''model''))) config
                    else config))
      | JArr vs \<Rightarrow>
          Inr (case find_index (\<lambda>v. v = JStr '':'') vs of
                 None \<Rightarrow> config
               | Some colon \<Rightarrow>
                   if colon > 0 \<and> (case find_index (\<lambda>v. v = JStr ''/'') vs of None \<Rightarrow> True | Some slash \<Rightarrow> colon < slash)
                   then put_key ''model'' (put_key ''modelId'' (JArr (drop (colon + 1) vs))
                          (put_key ''provider'' (JArr (slice 0 colon vs)) (jget config ''model''))) config
                   else config)
      | _ \<Rightarrow> Inl ''TypeError'')"

definition with_api_key :: "(string \<Rightarrow> string option) \<Rightarrow> json \<Rightarrow> string + json" where
  "with_api_key env config =
     (if js_truthy (jget (jget config ''model'') ''apiKey'') then Inr config
      else if \<not> nameable (jget (jget config ''model'') ''provider'') then Inl ''TypeError''
      else or_throw (provider_key_from_env (js_string (jget (jget config ''model'') ''provider'')) env) (\<lambda>key.
        Inr (case key of
               Some k \<Rightarrow> put_key ''model'' (put_key ''apiKey'' (JStr k) (jget config ''model'')) config
             | None \<Rightarrow> config)))"

text \<open>\<open>[...v]\<close>: of an array or a string; anything else throws.\<close>

fun spread :: "json \<Rightarrow> string + json list" where
  "spread (JArr vs) = Inr vs"
| "spread (JStr s) = Inr (map (\<lambda>c. JStr [c]) s)"
| "spread v = Inl ''TypeError''"

text \<open>\<open>agents.default\<close> is read without a test, here and in \<open>resolveRoles\<close>.\<close>

definition default_role :: "json \<Rightarrow> string + json" where
  "default_role config =
     (let role = jget (jget config ''agents'') ''default'' in if role = JUndef \<or> role = JNull then Inl ''TypeError'' else Inr role)"

definition model_chosen :: "cfg_world \<Rightarrow> json \<Rightarrow> string + bool" where
  "model_chosen w config =
     (if jget (jget config ''model'') ''modelId'' \<noteq> jget (jget (default_config w) ''model'') ''modelId''
         \<or> jget (jget config ''model'') ''provider'' \<noteq> jget (jget (default_config w) ''model'') ''provider''
      then Inr True
      else or_throw (default_role config) (\<lambda>role. Inr (jget role ''model'' \<noteq> JUndef)))"

definition finish_config :: "json list \<Rightarrow> json \<Rightarrow> string + json" where
  "finish_config files config =
     or_throw (default_role config) (\<lambda>_.
       Inr (resolve_roles (put_key ''telemetry'' (JBool False) (put_key ''instructionFiles'' (JArr files) config))))"

definition load_config :: "cfg_world \<Rightarrow> load_options \<Rightarrow> string + loaded" where
  "load_config w opts =
     (let env = fst (load_env w opts); ld = layers w opts;
          missing = dedupe (missing_vars env (ld_config ld));
          config = expand_env env (ld_config ld)
      in or_throw (split_model config) (\<lambda>c.
         or_throw (with_api_key env c) (\<lambda>c.
         or_throw (model_chosen w c) (\<lambda>chosen.
         or_throw (spread (jget c ''instructionFiles'')) (\<lambda>files.
         or_throw (finish_config (files @ map JStr (extra_instructions w opts)) c) (\<lambda>final.
           Inr \<lparr>ld_config = final, ld_sources = ld_sources ld,
                ld_warnings = ld_warnings ld
                  @ map (\<lambda>n. ''config references ${'' @ n @ ''} but it is not set '' @ [u_emdash] @ '' expanded to empty'') missing,
                ld_model_chosen = chosen\<rparr>))))))"

section \<open>Changing and showing settings\<close>

text \<open>
  The cursor of \<open>setSetting\<close> goes down the dotted path; what is not an object on the way becomes one. No part of the
  path is \<open>__proto__\<close>, which would lead into the prototype of all objects.
\<close>

fun set_path :: "string list \<Rightarrow> json \<Rightarrow> json \<Rightarrow> json" where
  "set_path [] value obj = value"
| "set_path [k] value obj = put_key k value obj"
| "set_path (k # k' # ks) value obj = put_key k (set_path (k' # ks) value (jget obj k)) obj"

text \<open>\<open>value[part]\<close> of an object or an array.\<close>

definition js_member :: "json \<Rightarrow> string \<Rightarrow> json" where
  "js_member v part =
     (case v of
        JArr vs \<Rightarrow> (if part = ''length'' then JNum (int (length vs))
                   else case find (\<lambda>i. nat_str i = part) [0..<length vs] of Some i \<Rightarrow> vs ! i | None \<Rightarrow> JUndef)
      | _ \<Rightarrow> jget v part)"

fun get_path :: "json \<Rightarrow> string list \<Rightarrow> json" where
  "get_path v [] = v"
| "get_path v (part # parts) = (if \<not> is_record v then JUndef else get_path (js_member v part) parts)"

definition get_setting :: "json \<Rightarrow> string \<Rightarrow> json" where
  "get_setting config key = get_path config (split_on CHR ''.'' key)"

text \<open>The file the command writes and its text; the write itself succeeds, and directories are made as needed.\<close>

definition setting_path :: "cfg_world \<Rightarrow> bool \<Rightarrow> string \<Rightarrow> string" where
  "setting_path w in_project cwd = (if in_project then join_path cwd ''.jean.json'' else global_config_path w (cw_env w))"

definition set_setting :: "cfg_world \<Rightarrow> string \<Rightarrow> json \<Rightarrow> bool \<Rightarrow> string \<Rightarrow> string + (string \<times> cfg_world)" where
  "set_setting w key value in_project cwd =
     (let path = setting_path w in_project cwd
      in or_throw (if exists_path w path then read_jsonc w path else Inr (JObj [])) (\<lambda>parsed.
           let current = (if is_object parsed then parsed else JObj []);
               content = json_pretty 0 (set_path (split_on CHR ''.'' key) value current) @ [u_lf]
           in Inr (path, w\<lparr>cw_fs := (cw_fs w)(path \<mapsto> FileNode (Inr content))\<rparr>)))"

definition secret_keys :: "string list" where
  "secret_keys = [''apikey'', ''api_key'', ''token'', ''secret'', ''password'', ''authorization'']"

definition secret_key :: "string \<Rightarrow> bool" where
  "secret_key k = (to_lower k \<in> set secret_keys)"

definition mask_secret :: "string \<Rightarrow> string" where
  "mask_secret s = (if length s \<le> 12 then ''***'' else slice 0 8 s @ ''...'' @ slice_last 4 s)"

fun string_value :: "json \<Rightarrow> string" where
  "string_value (JStr s) = s"
| "string_value _ = []"

definition secret_entry :: "string \<Rightarrow> json \<Rightarrow> bool" where
  "secret_entry k v = (secret_key k \<and> is_string v \<and> string_value v \<noteq> [])"

fun redact :: "json \<Rightarrow> json" where
  "redact (JArr vs) = JArr (map redact vs)"
| "redact (JObj kvs) =
     JObj (map (\<lambda>(k, v, r). (k, if secret_entry k v then JStr (mask_secret (string_value v)) else r))
       (map (\<lambda>(k, v). (k, v, redact v)) kvs))"
| "redact v = v"

text \<open>\<open>jean config get\<close>: the lines it prints and its exit code.\<close>

definition config_get :: "json \<Rightarrow> string option \<Rightarrow> string + string" where
  "config_get config key =
     (if \<not> truthy key then Inr (json_pretty 0 (redact config))
      else (case redact (get_setting config (the key)) of
              JUndef \<Rightarrow> Inl (''No setting '' @ [CHR 0x22] @ the key @ [CHR 0x22] @ ''.'')
            | JStr s \<Rightarrow> Inr s
            | v \<Rightarrow> Inr (json_pretty 0 v)))"

end
