(* ===== verification/Settings_Laws.thy ===== *)
theory Settings_Laws
  imports Settings
begin

text \<open>
  What holds of the configuration: which layer decides a setting, what no layer can change, that changing a
  setting changes that setting and no other, and that what is printed holds no secret.
\<close>

section \<open>Layers\<close>

text \<open>The layers over the defaults, lowest first, as the values that are merged.\<close>

definition layer_values :: "cfg_world \<Rightarrow> load_options \<Rightarrow> json list" where
  "layer_values w opts =
     (let env = fst (load_env w opts); im = import_foreign w (lo_cwd opts);
          of_file = (\<lambda>p. case read_config_file w p of Some (v, _) \<Rightarrow> [v] | None \<Rightarrow> [])
      in (if lo_skip_import opts \<or> im_sources im = [] then [] else [imported_config im])
         @ (case lo_config opts of
              Some p \<Rightarrow> of_file (if is_abs p then abs_path p else join_path (lo_cwd opts) p)
            | None \<Rightarrow> of_file (global_config_path w env) @ of_file (join_path (lo_cwd opts) ''.jean.json''))
         @ (case env content_var of
              None \<Rightarrow> []
            | Some s \<Rightarrow> if trim s = [] then [] else (case parse_jsonc (cw_parse w) s content_var of
                Inl _ \<Rightarrow> [] | Inr v \<Rightarrow> [fst (validate v content_var)]))
         @ filter (\<lambda>v. obj_fields v \<noteq> []) [fst (config_from_env env), lo_flags opts])"

definition stacked :: "json list \<Rightarrow> json \<Rightarrow> json" where
  "stacked vs base = fold (\<lambda>v b. merge b v) vs base"

lemma stacked_simps [simp]:
  "stacked [] b = b"
  "stacked (v # vs) b = stacked vs (merge b v)"
  "stacked (us @ vs) b = stacked vs (stacked us b)"
  by (simp_all add: stacked_def)

lemma layer_over_config [simp]: "ld_config (layer_over kind p v ws ld) = merge (ld_config ld) v"
  by (simp add: layer_over_def)

lemma add_warnings_config [simp]: "ld_config (add_warnings ws ld) = ld_config ld"
  by (simp add: add_warnings_def)

lemma layers_config: "ld_config (layers w opts) = stacked (layer_values w opts) (default_config w)"
proof -
  obtain env ws where env: "load_env w opts = (env, ws)" by force
  have im: "ld_config (import_layer w opts ld) =
      stacked (if lo_skip_import opts \<or> im_sources (import_foreign w (lo_cwd opts)) = [] then []
        else [imported_config (import_foreign w (lo_cwd opts))]) (ld_config ld)" for ld
    by (simp add: import_layer_def Let_def)
  have "ld_config (project_layer w opts (global_layer w opts env ld)) =
      stacked (case lo_config opts of
              Some p \<Rightarrow> (case read_config_file w (if is_abs p then abs_path p else join_path (lo_cwd opts) p) of Some (v, _) \<Rightarrow> [v] | None \<Rightarrow> [])
            | None \<Rightarrow> (case read_config_file w (global_config_path w env) of Some (v, _) \<Rightarrow> [v] | None \<Rightarrow> [])
                @ (case read_config_file w (join_path (lo_cwd opts) ''.jean.json'') of Some (v, _) \<Rightarrow> [v] | None \<Rightarrow> [])) (ld_config ld)" for ld
    by (cases "lo_config opts") (simp_all add: project_layer_def global_layer_def Let_def split: option.splits prod.splits)
  moreover have "ld_config (content_layer w env ld) = stacked (case env content_var of
              None \<Rightarrow> []
            | Some s \<Rightarrow> if trim s = [] then [] else (case parse_jsonc (cw_parse w) s content_var of
                Inl _ \<Rightarrow> [] | Inr v \<Rightarrow> [fst (validate v content_var)])) (ld_config ld)" for ld
    by (simp add: content_layer_def split: option.splits sum.splits prod.splits)
  moreover have "ld_config (flags_layer opts (env_layer env ld)) =
      stacked (filter (\<lambda>v. obj_fields v \<noteq> []) [fst (config_from_env env), lo_flags opts]) (ld_config ld)" for ld
    by (simp add: flags_layer_def env_layer_def split: prod.splits)
  ultimately show ?thesis
    by (simp add: layers_def env im layer_values_def Let_def)
qed

lemma walk_stacked_silent:
  "list_all (\<lambda>v. unique_keys v \<and> is_object v \<and> silent v ks) vs \<Longrightarrow> walk (stacked vs base) ks = walk base ks"
  by (induction vs arbitrary: base) (auto simp: walk_merge_silent)

lemma walk_stacked_leaf:
  assumes "unique_keys v" "is_object v" "leaf_at v ks"
    and "list_all (\<lambda>u. unique_keys u \<and> is_object u \<and> silent u ks) higher"
  shows "walk (stacked (lower @ v # higher) base) ks = walk v ks"
  using assms by (simp add: walk_stacked_silent walk_merge_leaf)

section \<open>From the merged layers to the configuration\<close>

lemma jget_expand: "jget (expand_env env v) k = expand_env env (jget v k)"
  by (cases v) (auto simp: jget_map simp del: jget.simps split: option.splits, auto split: option.splits)

lemma walk_expand: "walk (expand_env env v) ks = expand_env env (walk v ks)"
  by (induction ks arbitrary: v) (auto simp: jget_expand)

lemma jget_put_key: "jget (put_key k v obj) k' = (if k' = k then v else jget obj k')"
  by (cases obj) (simp_all add: put_key_def)

lemma obj_fields_jget: "jget (JObj (obj_fields v)) k = jget v k"
  by (cases v) simp_all

lemma split_model_other: "split_model c = Inr c' \<Longrightarrow> k \<noteq> ''model'' \<Longrightarrow> jget c' k = jget c k"
  by (auto simp: split_model_def jget_put_key split: json.splits prod.splits if_splits option.splits)

lemma api_key_other: "with_api_key env c = Inr c' \<Longrightarrow> k \<noteq> ''model'' \<Longrightarrow> jget c' k = jget c k"
  by (auto simp: with_api_key_def jget_put_key or_throw_def split: option.splits if_splits sum.splits)

lemma resolve_roles_other: "k \<noteq> ''agents'' \<Longrightarrow> jget (resolve_roles c) k = jget c k"
  by (simp add: resolve_roles_def Let_def jget_set_field obj_fields_jget del: jget.simps)

definition finished_keys :: "string list" where
  "finished_keys = [''model'', ''agents'', ''instructionFiles'', ''telemetry'']"

lemma load_parts:
  assumes "load_config w opts = Inr r"
  obtains c c' files where "split_model (expand_env (fst (load_env w opts)) (ld_config (layers w opts))) = Inr c"
    "with_api_key (fst (load_env w opts)) c = Inr c'"
    "ld_config r = resolve_roles (put_key ''telemetry'' (JBool False) (put_key ''instructionFiles'' (JArr files) c'))"
  using assms by (auto simp: load_config_def Let_def finish_config_def or_throw_def split: sum.splits)

lemma load_other:
  assumes "load_config w opts = Inr r" and "k \<notin> set finished_keys"
  shows "jget (ld_config r) k = jget (expand_env (fst (load_env w opts)) (ld_config (layers w opts))) k"
proof -
  obtain c c' files where *: "split_model (expand_env (fst (load_env w opts)) (ld_config (layers w opts))) = Inr c"
    "with_api_key (fst (load_env w opts)) c = Inr c'"
    "ld_config r = resolve_roles (put_key ''telemetry'' (JBool False) (put_key ''instructionFiles'' (JArr files) c'))"
    using load_parts [OF assms(1)] .
  then show ?thesis
    using assms(2) api_key_other [OF *(2), of k] split_model_other [OF *(1), of k]
    by (simp add: finished_keys_def resolve_roles_other jget_put_key)
qed

text \<open>
  C35. The documented precedence, for every setting but \<open>model\<close>, \<open>agents\<close>, \<open>instructionFiles\<close> and \<open>telemetry\<close>, which
  \<open>loadConfig\<close> works on afterwards, at any depth. If some layer has a value for it and every layer above that one is silent about it, then the loaded
  configuration has that value, with its variables expanded, whatever the layers below say; layers come in the
  order defaults, imported files, global file, project file, \<open>JEAN_CONFIG_CONTENT\<close>, \<open>JEAN_*\<close>, flags.
\<close>

theorem highest_layer_wins:
  assumes "load_config w opts = Inr r"
    and "layer_values w opts = lower @ v # higher"
    and "unique_keys v" "is_object v" "leaf_at v (k # ks)"
    and "list_all (\<lambda>u. unique_keys u \<and> is_object u \<and> silent u (k # ks)) higher"
    and "k \<notin> set finished_keys"
  shows "walk (ld_config r) (k # ks) = expand_env (fst (load_env w opts)) (walk v (k # ks))"
proof -
  have "walk (ld_config r) (k # ks) = walk (expand_env (fst (load_env w opts)) (ld_config (layers w opts))) (k # ks)"
    using load_other [OF assms(1,7)] by simp
  also have "\<dots> = expand_env (fst (load_env w opts)) (walk (ld_config (layers w opts)) (k # ks))"
    by (rule walk_expand)
  also have "walk (ld_config (layers w opts)) (k # ks) = walk v (k # ks)"
    unfolding layers_config assms(2) by (rule walk_stacked_leaf [OF assms(3-6)])
  finally show ?thesis .
qed

section \<open>What every loaded configuration has\<close>

lemma expand_nullish: "expand_env env v = JUndef \<longleftrightarrow> v = JUndef" "expand_env env v = JNull \<longleftrightarrow> v = JNull"
  by (cases v; simp)+

lemma split_model_id:
  "split_model c = Inr c' \<Longrightarrow> jget (jget c' ''model'') ''modelId'' \<notin> {JUndef, JNull}"
  by (auto simp: split_model_def jget_put_key split: json.splits prod.splits if_splits option.splits)

lemma api_key_id: "with_api_key env c = Inr c' \<Longrightarrow> jget (jget c' ''model'') ''modelId'' = jget (jget c ''model'') ''modelId''"
  by (auto simp: with_api_key_def jget_put_key or_throw_def split: option.splits if_splits sum.splits)

lemma nullish_some: "d \<notin> {JUndef, JNull} \<Longrightarrow> nullish v d \<notin> {JUndef, JNull}"
  by (simp add: nullish_def)

definition give_model :: "json \<Rightarrow> string \<Rightarrow> (string \<times> json) list \<Rightarrow> (string \<times> json) list" where
  "give_model fallback role out =
     (let existing = obj_fields (jget (JObj out) role)
      in set_field role (JObj (set_field ''model'' (nullish (jget (JObj existing) ''model'') fallback) existing)) out)"

lemma give_model_other: "role' \<noteq> role \<Longrightarrow> jget (JObj (give_model fb role out)) role' = jget (JObj out) role'"
  by (simp add: give_model_def Let_def jget_set_field del: jget.simps)

lemma give_model_model:
  "jget (jget (JObj (give_model fb role out)) role) ''model'' = nullish (jget (jget (JObj out) role) ''model'') fb"
  by (simp add: give_model_def Let_def jget_set_field obj_fields_jget del: jget.simps)

lemma give_models:
  assumes "fb \<notin> {JUndef, JNull}" and "role \<in> set roles"
  shows "jget (jget (JObj (fold (give_model fb) roles out)) role) ''model'' \<notin> {JUndef, JNull}"
  using assms(2)
proof (induction roles arbitrary: out rule: rev_induct)
  case (snoc r roles)
  show ?case
  proof (cases "role = r")
    case True
    then show ?thesis
      using nullish_some [OF assms(1)] by (simp add: give_model_model del: jget.simps)
  next
    case False
    then show ?thesis
      using snoc by (simp add: give_model_other del: jget.simps)
  qed
qed simp

lemma resolve_roles_models:
  assumes "jget (jget c ''model'') ''modelId'' \<notin> {JUndef, JNull}" and "role \<in> set model_roles"
  shows "jget (jget (jget (resolve_roles c) ''agents'') role) ''model'' \<notin> {JUndef, JNull}"
proof -
  let ?fb = "nullish (jget (jget (jget c ''agents'') ''default'') ''model'') (jget (jget c ''model'') ''modelId'')"
  have "jget (resolve_roles c) ''agents'' = JObj (fold (give_model ?fb) model_roles (obj_fields (jget c ''agents'')))"
    by (simp add: resolve_roles_def Let_def give_model_def [abs_def] jget_set_field del: jget.simps)
  then show ?thesis
    using give_models [OF nullish_some [OF assms(1)] assms(2)] by simp
qed

text \<open>
  Whatever the layers say, the configuration that is loaded has telemetry off, and it names a model for every
  role, so that no role is left without something to run.
\<close>

theorem loaded_complete:
  assumes "load_config w opts = Inr r"
  shows "jget (ld_config r) ''telemetry'' = JBool False
    \<and> list_all (\<lambda>role. jget (jget (jget (ld_config r) ''agents'') role) ''model'' \<notin> {JUndef, JNull}) model_roles"
proof -
  obtain c c' files where *: "split_model (expand_env (fst (load_env w opts)) (ld_config (layers w opts))) = Inr c"
    "with_api_key (fst (load_env w opts)) c = Inr c'"
    and r: "ld_config r = resolve_roles (put_key ''telemetry'' (JBool False) (put_key ''instructionFiles'' (JArr files) c'))"
    using load_parts [OF assms] .
  have "jget (jget c' ''model'') ''modelId'' \<notin> {JUndef, JNull}"
    using split_model_id [OF *(1)] by (simp add: api_key_id [OF *(2)])
  then show ?thesis
    unfolding r list_all_iff
    by (simp add: resolve_roles_other resolve_roles_models jget_put_key del: insert_iff)
qed

section \<open>When loading fails\<close>

text \<open>The shape of what a layer says of \<open>instructionFiles\<close> and \<open>agents\<close>, and of what the merged layers have there.\<close>

fun shaped_entry :: "string \<times> json \<Rightarrow> bool" where
  "shaped_entry (k, v) =
     ((k = ''instructionFiles'' \<longrightarrow> (\<exists>vs. v = JArr vs)) \<and> (k = ''agents'' \<longrightarrow> is_object v \<and> list_all (\<lambda>(_, cfg). is_object cfg) (obj_fields v)))"

definition shaped :: "json \<Rightarrow> bool" where
  "shaped v = (is_object v \<and> list_all shaped_entry (obj_fields v))"

definition rooted :: "json \<Rightarrow> bool" where
  "rooted c = (is_object c \<and> (\<exists>vs. jget c ''instructionFiles'' = JArr vs) \<and> is_object (jget c ''agents'')
     \<and> is_object (jget (jget c ''agents'') ''default''))"

lemma is_object_cases: "is_object v \<Longrightarrow> \<exists>kvs. v = JObj kvs"
  by (cases v) simp_all

lemma object_stays:
  "is_object (jget (JObj out) k) \<Longrightarrow> list_all (\<lambda>(k', v). k' = k \<longrightarrow> is_object v) kvs \<Longrightarrow> is_object (jget (JObj (merge_keys out kvs)) k)"
proof (induction kvs arbitrary: out)
  case (Cons e kvs)
  obtain k' v where e: "e = (k', v)" by force
  show ?case
    unfolding e merge_keys.simps
    by (rule Cons.IH) (use Cons.prems e in \<open>auto simp: jget_set_field is_object_merge simp del: jget.simps\<close>)
qed simp

lemma array_stays:
  "\<exists>vs. jget (JObj out) k = JArr vs \<Longrightarrow> list_all (\<lambda>(k', v). k' = k \<longrightarrow> (\<exists>vs. v = JArr vs)) kvs \<Longrightarrow>
   \<exists>vs. jget (JObj (merge_keys out kvs)) k = JArr vs"
proof (induction kvs arbitrary: out)
  case (Cons e kvs)
  obtain k' v where e: "e = (k', v)" by force
  show ?case
    unfolding e merge_keys.simps
    by (rule Cons.IH) (use Cons.prems e in \<open>auto simp: jget_set_field simp del: jget.simps\<close>)
qed simp

text \<open>Down one level: the default role of the agents.\<close>

definition has_default :: "json \<Rightarrow> bool" where
  "has_default v = (is_object v \<and> is_object (jget v ''default''))"

lemma default_stays:
  assumes "has_default a" "is_object v" "list_all (\<lambda>(_, cfg). is_object cfg) (obj_fields v)"
  shows "has_default (merge a v)"
proof -
  obtain out kvs where *: "a = JObj out" "v = JObj kvs"
    using assms(1,2) is_object_cases unfolding has_default_def by blast
  have "is_object (jget (JObj (merge_keys out kvs)) ''default'')"
    using assms by (intro object_stays) (auto simp: * has_default_def list_all_iff)
  then show ?thesis by (simp add: * has_default_def del: jget.simps)
qed

lemma agents_stay:
  "has_default (jget (JObj out) ''agents'') \<Longrightarrow> list_all shaped_entry kvs \<Longrightarrow> has_default (jget (JObj (merge_keys out kvs)) ''agents'')"
proof (induction kvs arbitrary: out)
  case (Cons e kvs)
  obtain k v where e: "e = (k, v)" by force
  have shape: "is_object v \<and> list_all (\<lambda>(_, cfg). is_object cfg) (obj_fields v)" if "k = ''agents''"
    using Cons.prems(2) that by (simp add: e)
  have "v \<noteq> JUndef" if "k = ''agents''"
    using shape [OF that] by auto
  moreover have "is_object (jget (JObj out) ''agents'')"
    using Cons.prems(1) by (simp add: has_default_def del: jget.simps)
  ultimately show ?case
    unfolding e merge_keys.simps
    by (intro Cons.IH) (use Cons.prems shape default_stays e in \<open>auto simp: jget_set_field simp del: jget.simps\<close>)
qed simp

lemma rooted_merge: "rooted c \<Longrightarrow> shaped v \<Longrightarrow> rooted (merge c v)"
proof -
  assume c: "rooted c" and v: "shaped v"
  obtain out kvs where *: "c = JObj out" "v = JObj kvs"
    using c v is_object_cases unfolding rooted_def shaped_def by blast
  have "\<exists>vs. jget (JObj (merge_keys out kvs)) ''instructionFiles'' = JArr vs"
    using c v by (intro array_stays) (auto simp: * rooted_def shaped_def list_all_iff simp del: jget.simps)
  moreover have "has_default (jget (JObj (merge_keys out kvs)) ''agents'')"
    using c v by (intro agents_stay) (simp_all add: * rooted_def shaped_def has_default_def del: jget.simps)
  ultimately show ?thesis
    by (simp add: * rooted_def has_default_def del: jget.simps)
qed

lemma rooted_stacked: "rooted c \<Longrightarrow> list_all shaped vs \<Longrightarrow> rooted (stacked vs c)"
  by (induction vs arbitrary: c) (simp_all add: rooted_merge)

lemma rooted_default: "rooted (default_config w)"
  by (simp add: rooted_def default_config_def agent_defaults_def Let_def)

lemma typed_shaped: "typed_config v \<Longrightarrow> shaped v"
proof -
  have "shaped_entry e" if "setting_ok e" for e
  proof (cases e)
    case (Pair k x)
    then show ?thesis
      using that by (cases x) (auto simp: setting_ok_def string_array_keys_def boolean_keys_def list_all_iff split: if_splits)
  qed
  then show "typed_config v \<Longrightarrow> shaped v"
    by (auto simp: shaped_def typed_config_def list_all_iff)
qed

lemma set_field_shaped: "list_all shaped_entry kvs \<Longrightarrow> shaped_entry (k, v) \<Longrightarrow> list_all shaped_entry (set_field k v kvs)"
  by (induction kvs) (auto simp: set_field_def simp del: shaped_entry.simps)

lemma keep_shaped:
  "list_all shaped_entry (fst st) \<Longrightarrow> k \<noteq> ''instructionFiles'' \<Longrightarrow> k \<noteq> ''agents'' \<Longrightarrow> list_all shaped_entry (fst (keep_field k v st))"
  by (simp add: keep_field_def set_field_shaped split_def)

lemma choice_shaped:
  "list_all shaped_entry (fst st) \<Longrightarrow> (\<And>v. list_all shaped_entry (fst (put v st))) \<Longrightarrow>
   list_all shaped_entry (fst (env_choice env n allowed put what st))"
  by (simp add: env_choice_def)

lemma env_config_shaped: "shaped (fst (config_from_env env))"
  unfolding config_from_env_def Let_def shaped_def
  by (simp split del: if_split) (simp add: keep_shaped choice_shaped)

lemma validated_shaped: "shaped (fst (validate v p))"
  by (rule typed_shaped [OF validated])

lemma file_shaped: "read_config_file w p = Some (v, ws) \<Longrightarrow> shaped v"
  by (auto simp: read_config_file_def split: if_splits sum.splits)
    (simp add: shaped_def, metis validated_shaped fst_conv)

lemma layer_shaped:
  assumes "shaped (lo_flags opts)"
  shows "list_all shaped (layer_values w opts)"
proof -
  have read: "list_all shaped (case read_config_file w p of Some (v, _) \<Rightarrow> [v] | None \<Rightarrow> [])" for p
    using file_shaped [of w p] by (auto split: option.split)
  have imported: "shaped (imported_config im)" for im
    by (simp add: imported_config_def shaped_def)
  show ?thesis
    unfolding layer_values_def Let_def
    using assms read imported env_config_shaped validated_shaped
    by (auto simp: list_all_iff split: option.splits sum.splits if_splits)
qed

lemma rooted_expand: "rooted c \<Longrightarrow> rooted (expand_env env c)"
proof -
  have obj: "is_object (expand_env env v) = is_object v" for v by (cases v) simp_all
  show "rooted c \<Longrightarrow> rooted (expand_env env c)"
    by (auto simp: rooted_def jget_expand obj)
qed

lemma rooted_same:
  "rooted c \<Longrightarrow> is_object c' \<Longrightarrow> (\<And>k. k \<noteq> ''model'' \<Longrightarrow> jget c' k = jget c k) \<Longrightarrow> rooted c'"
  by (simp add: rooted_def)

text \<open>Whether the provider's key is looked up, and the provider is no name that can be looked up.\<close>

definition provider_throws :: "json \<Rightarrow> bool" where
  "provider_throws c =
     (let m = jget c ''model''; p = jget m ''provider''
      in \<not> js_truthy (jget m ''apiKey'') \<and> (\<not> nameable p \<or> js_string p \<in> set inherited_names))"

lemma with_api_key_isl: "isl (with_api_key env c) = provider_throws c"
proof -
  have "list_all (\<lambda>p. map_of provider_key_env p = None) inherited_names" by code_simp
  then have names: "isl (provider_key_from_env p env) = (p \<in> set inherited_names)" for p
    by (cases "map_of provider_key_env p") (auto simp: provider_key_from_env_def provider_names_def list_all_iff)
  have "isl (or_throw x (\<lambda>k. Inr (f k))) = isl x" for x :: "string + string option" and f :: "string option \<Rightarrow> json"
    by (cases x) simp_all
  then show ?thesis
    by (simp add: with_api_key_def provider_throws_def Let_def names)
qed

lemma split_model_object: "split_model c = Inr c' \<Longrightarrow> is_object c \<Longrightarrow> is_object c'"
  by (auto simp: split_model_def put_key_def split: json.splits prod.splits if_splits option.splits)

lemma api_key_object: "with_api_key env c = Inr c' \<Longrightarrow> is_object c \<Longrightarrow> is_object c'"
  by (auto simp: with_api_key_def put_key_def or_throw_def split: option.splits if_splits sum.splits)

lemma load_isl:
  assumes "shaped (lo_flags opts)"
  shows "isl (load_config w opts) \<longleftrightarrow>
     (case split_model (expand_env (fst (load_env w opts)) (ld_config (layers w opts))) of Inl _ \<Rightarrow> True | Inr c \<Rightarrow> provider_throws c)"
proof (cases "split_model (expand_env (fst (load_env w opts)) (ld_config (layers w opts)))")
  case (Inr c)
  let ?env = "fst (load_env w opts)"
  have "rooted (ld_config (layers w opts))"
    unfolding layers_config by (rule rooted_stacked [OF rooted_default layer_shaped [OF assms]])
  then have "rooted (expand_env ?env (ld_config (layers w opts)))" by (rule rooted_expand)
  moreover from this have "is_object c"
    by (auto simp: rooted_def intro: split_model_object [OF Inr])
  ultimately have c: "rooted c"
    using split_model_other [OF Inr] by (auto intro: rooted_same)
  show ?thesis
  proof (cases "with_api_key ?env c")
    case (Inl e)
    then show ?thesis using Inr with_api_key_isl [of ?env c] by (simp add: load_config_def Let_def)
  next
    case key: (Inr c')
    have "is_object c'"
      using c by (auto simp: rooted_def intro: api_key_object [OF key])
    then have c': "rooted c'"
      using c api_key_other [OF key] by (auto intro: rooted_same)
    then obtain vs where vs: "jget c' ''instructionFiles'' = JArr vs" by (auto simp: rooted_def)
    have "\<exists>role. default_role c' = Inr role"
      using c' by (cases "jget (jget c' ''agents'') ''default''") (simp_all add: rooted_def default_role_def Let_def)
    then obtain role where role: "default_role c' = Inr role" by blast
    then obtain chosen where "model_chosen w c' = Inr chosen"
      by (cases "model_chosen w c'") (auto simp: model_chosen_def split: if_splits)
    then have "\<not> isl (load_config w opts)"
      using Inr key vs role by (simp add: load_config_def Let_def finish_config_def)
    then show ?thesis
      using Inr key with_api_key_isl [of ?env c] by simp
  qed
qed (simp add: load_config_def Let_def)

text \<open>
  C37. Loading fails in two cases only, when the flags have the shape of their type: the merged \<open>model.modelId\<close> is neither
  a string nor an array, or no key is configured and the provider, after the variables and the model reference, is a name
  that every object inherits (\<open>constructor\<close>, \<open>toString\<close>) or cannot be turned into a name. An unreadable or malformed file,
  a setting of the wrong type, an unknown key or an unset variable never stops the agent.
\<close>

theorem load_fails_only_on_model_id:
  assumes "shaped (lo_flags opts)"
  shows "isl (load_config w opts) \<longleftrightarrow>
     (case jget (jget (ld_config (layers w opts)) ''model'') ''modelId'' of JStr _ \<Rightarrow> False | JArr _ \<Rightarrow> False | _ \<Rightarrow> True)
     \<or> (\<exists>c. split_model (expand_env (fst (load_env w opts)) (ld_config (layers w opts))) = Inr c \<and> provider_throws c)"
proof -
  have "isl (split_model (expand_env (fst (load_env w opts)) (ld_config (layers w opts)))) =
      (case jget (jget (ld_config (layers w opts)) ''model'') ''modelId'' of JStr _ \<Rightarrow> False | JArr _ \<Rightarrow> False | _ \<Rightarrow> True)"
    by (cases "jget (jget (ld_config (layers w opts)) ''model'') ''modelId''")
       (simp_all add: split_model_def jget_expand split_def)
  then show ?thesis
    unfolding load_isl [OF assms] by (auto split: sum.splits)
qed

lemma loads_with_default_model:
  assumes "shaped (lo_flags opts)"
    and "list_all (\<lambda>v. unique_keys v \<and> is_object v \<and> silent v [''model'']) (layer_values w opts)"
  shows "\<not> isl (load_config w opts)"
proof -
  have "jget (ld_config (layers w opts)) ''model'' = jget (default_config w) ''model''"
    using walk_stacked_silent [OF assms(2), of "default_config w"] by (simp add: layers_config)
  then have m: "jget (expand_env (fst (load_env w opts)) (ld_config (layers w opts))) ''model'' =
      JObj [(''provider'', JStr ''openrouter''), (''modelId'', JStr ''anthropic/claude-sonnet-5'')]"
    unfolding jget_expand by (simp add: default_config_def)
  have "split_model_ref ''anthropic/claude-sonnet-5'' = (None, ''anthropic/claude-sonnet-5'')" by code_simp
  then have "split_model (expand_env (fst (load_env w opts)) (ld_config (layers w opts))) =
      Inr (expand_env (fst (load_env w opts)) (ld_config (layers w opts)))"
    unfolding split_model_def m by (simp add: truthy_def)
  moreover have "\<not> provider_throws (expand_env (fst (load_env w opts)) (ld_config (layers w opts)))"
    unfolding provider_throws_def m by (simp add: inherited_names_def)
  ultimately show ?thesis
    by (simp add: load_isl [OF assms(1)])
qed

subsection \<open>A project that sets its turns, and a flag\<close>

definition demo_files :: "string \<Rightarrow> node option" where
  "demo_files p = (if p = ''/w/.jean.json'' then Some (FileNode (Inr ''PROJECT'')) else None)"

definition demo_parse :: "string \<Rightarrow> string + json" where
  "demo_parse s = (if s = ''PROJECT'' then Inr (JObj [(''maxTurns'', JNum 3), (''shell'', JObj [(''timeoutMs'', JNum 9)])]) else Inl ''bad'')"

definition demo_world :: cfg_world where
  "demo_world = \<lparr>cw_fs = demo_files, cw_parse = demo_parse, cw_env = (\<lambda>_. None), cw_home = ''/h'', cw_here = ''/w''\<rparr>"

definition demo_options :: load_options where
  "demo_options = \<lparr>lo_cwd = ''/w'', lo_config = None, lo_flags = JObj [(''debug'', JBool True)], lo_skip_import = False, lo_env = None\<rparr>"

lemma demo_layers:
  "layer_values demo_world demo_options =
     [JObj [(''maxTurns'', JNum 3), (''shell'', JObj [(''timeoutMs'', JNum 9)])], JObj [(''debug'', JBool True)]]"
  by code_simp

lemma demo_flags: "shaped (lo_flags demo_options)"
  by (simp add: shaped_def demo_options_def)

lemma demo_loads: "\<exists>r. load_config demo_world demo_options = Inr r"
proof -
  have "\<not> isl (load_config demo_world demo_options)"
    by (rule loads_with_default_model [OF demo_flags]) (simp add: demo_layers)
  then show ?thesis by (cases "load_config demo_world demo_options") simp_all
qed

theorem highest_layer_wins_witness:
  "\<exists>r. load_config demo_world demo_options = Inr r \<and> walk (ld_config r) [''shell'', ''timeoutMs''] = JNum 9"
proof -
  obtain r where r: "load_config demo_world demo_options = Inr r" using demo_loads by blast
  have "walk (ld_config r) [''shell'', ''timeoutMs''] = expand_env (fst (load_env demo_world demo_options))
      (walk (JObj [(''maxTurns'', JNum 3), (''shell'', JObj [(''timeoutMs'', JNum 9)])]) [''shell'', ''timeoutMs''])"
    by (rule highest_layer_wins [OF r, of "[]" _ "[JObj [(''debug'', JBool True)]]"])
       (simp_all add: demo_layers leaf_at_def finished_keys_def)
  then show ?thesis using r by simp
qed

theorem loaded_complete_witness:
  "\<exists>r. load_config demo_world demo_options = Inr r \<and> jget (ld_config r) ''telemetry'' = JBool False"
  using demo_loads loaded_complete by blast

theorem load_fails_only_on_model_id_witness:
  "\<not> provider_throws (JObj [(''model'', JObj [(''provider'', JStr ''openrouter'')])])
     \<and> (isl (load_config demo_world demo_options) \<longleftrightarrow>
     (case jget (jget (ld_config (layers demo_world demo_options)) ''model'') ''modelId'' of JStr _ \<Rightarrow> False | JArr _ \<Rightarrow> False | _ \<Rightarrow> True)
     \<or> (\<exists>c. split_model (expand_env (fst (load_env demo_world demo_options)) (ld_config (layers demo_world demo_options))) = Inr c
          \<and> provider_throws c))"
  using load_fails_only_on_model_id [OF demo_flags, of demo_world] by (simp add: provider_throws_def inherited_names_def)

text \<open>A provider called like something every object has stops the agent before it starts.\<close>

theorem inherited_provider_throws:
  "with_api_key env (JObj [(''model'', JObj [(''provider'', JStr ''constructor''), (''modelId'', JStr ''m'')])]) = Inl ''TypeError''"
  by (simp add: with_api_key_def provider_key_from_env_def provider_names_def provider_key_env_def inherited_names_def)

text \<open>
  The four settings that are worked on afterwards do not follow the layers: a provider in front of the model of a lower
  layer replaces the provider that a flag names.
\<close>

theorem flag_provider_lost:
  "map_sum id (\<lambda>c. jget (jget c ''model'') ''provider'') (split_model (stacked
     [JObj [(''model'', JObj [(''modelId'', JStr ''anthropic:x'')])], JObj [(''model'', JObj [(''provider'', JStr ''openai'')])]]
     (default_config w))) = Inr (JStr ''anthropic'')"
proof -
  have "split_model_ref ''anthropic:x'' = (Some ''anthropic'', ''x'')" by code_simp
  then show ?thesis
    by (simp add: default_config_def set_field_def split_model_def truthy_def put_key_def)
qed

section \<open>Changing a setting\<close>

lemma is_object_put_key [simp]: "is_object (put_key k v obj)"
  by (simp add: put_key_def)

lemma is_object_record: "is_object v \<Longrightarrow> is_record v"
  by (cases v) (simp_all add: is_record_def)

lemma js_member_put_key: "js_member (put_key k v obj) k' = (if k' = k then v else jget obj k')"
  by (simp add: js_member_def put_key_def jget_set_field obj_fields_jget del: jget.simps)

lemma get_set_path: "ks \<noteq> [] \<Longrightarrow> get_path (set_path ks x obj) ks = x"
  by (induction ks x obj rule: set_path.induct) (simp_all add: js_member_put_key is_object_record)

text \<open>No array lies on the way, so nothing but an object is gone through, or a scalar replaced.\<close>

fun no_array :: "json \<Rightarrow> string list \<Rightarrow> bool" where
  "no_array v [] = True"
| "no_array v (k # ks) = ((case v of JArr _ \<Rightarrow> False | _ \<Rightarrow> True) \<and> no_array (jget v k) ks)"

definition diverge :: "string list \<Rightarrow> string list \<Rightarrow> bool" where
  "diverge ks ks' = (\<not> prefix ks ks' \<and> \<not> prefix ks' ks)"

lemma get_path_not_record: "\<not> is_record v \<Longrightarrow> ks \<noteq> [] \<Longrightarrow> get_path v ks = JUndef"
  by (cases ks) auto

lemma js_member_no_array: "no_array v (k # ks) \<Longrightarrow> js_member v k' = jget v k'"
  by (cases v) (simp_all add: js_member_def)

lemma get_path_undef [simp]: "get_path JUndef ks = JUndef"
  by (cases ks) (simp_all add: is_record_def)

lemma jget_not_record: "\<not> is_record v \<Longrightarrow> jget v k = JUndef"
  by (cases v) (simp_all add: is_record_def)

lemma get_set_path_other:
  "no_array obj ks \<Longrightarrow> diverge ks ks' \<Longrightarrow> get_path (set_path ks x obj) ks' = get_path obj ks'"
proof (induction ks x obj arbitrary: ks' rule: set_path.induct)
  case (2 k x obj)
  then obtain k' t where "ks' = k' # t" "k' \<noteq> k"
    by (cases ks') (auto simp: diverge_def)
  then show ?case
    using js_member_no_array [OF 2(1)] jget_not_record
    by (auto simp: js_member_put_key is_object_record)
next
  case (3 k k2 ks x obj)
  then obtain k' t where ks': "ks' = k' # t"
    by (cases ks') (auto simp: diverge_def)
  show ?case
  proof (cases "k' = k")
    case True
    have "get_path (set_path (k2 # ks) x (jget obj k)) t = get_path (jget obj k) t"
      using 3 ks' True by (intro 3) (auto simp: diverge_def)
    then show ?thesis
      using js_member_no_array [OF 3(2)] jget_not_record [of obj k] ks' True
      by (simp add: js_member_put_key is_object_record)
  next
    case False
    then show ?thesis
      using js_member_no_array [OF 3(2)] jget_not_record [of obj k'] ks'
      by (simp add: js_member_put_key is_object_record)
  qed
qed (auto simp: diverge_def)

section \<open>The printed file is read as it is written\<close>

definition verbatim :: "string \<Rightarrow> bool" where
  "verbatim a = (\<forall>rest. strip_from Plain (a @ rest) = a @ strip_from Plain rest \<and> drop_commas (a @ rest) = a @ drop_commas rest)"

definition plain_char :: "char \<Rightarrow> bool" where
  "plain_char c = (c \<noteq> CHR 0x22 \<and> c \<noteq> CHR ''/'' \<and> c \<noteq> CHR '','')"

definition begins :: "string \<Rightarrow> bool" where
  "begins a = (a \<noteq> [] \<and> \<not> is_ws (hd a) \<and> hd a \<noteq> CHR ''}'' \<and> hd a \<noteq> CHR '']'')"

lemma verbatim_append: "verbatim a \<Longrightarrow> verbatim b \<Longrightarrow> verbatim (a @ b)"
  by (simp add: verbatim_def)

lemma verbatim_plain: "list_all plain_char s \<Longrightarrow> verbatim s"
  unfolding verbatim_def
proof (intro allI conjI)
  fix rest
  assume s: "list_all plain_char s"
  show "strip_from Plain (s @ rest) = s @ strip_from Plain rest"
    using s by (intro strip_code) (auto simp: list_all_iff plain_char_def)
  show "drop_commas (s @ rest) = s @ drop_commas rest"
    using s by (induction s) (auto simp: plain_char_def)
qed

lemma verbatim_comma:
  assumes "list_all is_ws ws" "begins b" "verbatim (ws @ b)"
  shows "verbatim (CHR '','' # ws @ b)"
  unfolding verbatim_def
proof (intro allI conjI)
  fix rest
  show "strip_from Plain ((CHR '','' # ws @ b) @ rest) = (CHR '','' # ws @ b) @ strip_from Plain rest"
    using assms(3) by (simp add: plain_step verbatim_def)
  have "dropWhile is_ws (ws @ b @ rest) = dropWhile is_ws (b @ rest)"
    using assms(1) by (simp add: dropWhile_append2 list_all_iff)
  then have "\<not> comma_closes (ws @ b @ rest)"
    using assms(2) by (cases b) (simp_all add: comma_closes_def begins_def)
  then show "drop_commas ((CHR '','' # ws @ b) @ rest) = (CHR '','' # ws @ b) @ drop_commas rest"
    using assms(3) by (simp add: verbatim_def)
qed

lemma length_drop_commas: "length (drop_commas s) \<le> length s"
  by (induction s) auto

lemma comma_closes_quote: "comma_closes (t @ CHR 0x22 # rest) = comma_closes (t @ [CHR 0x22])"
  by (induction t) (simp_all add: comma_closes_def is_ws_def)

lemma drop_commas_quote:
  "drop_commas (t @ [CHR 0x22]) = t @ [CHR 0x22] \<Longrightarrow> drop_commas (t @ CHR 0x22 # rest) = t @ CHR 0x22 # drop_commas rest"
proof (induction t)
  case (Cons c t)
  have kept: "\<not> (c = CHR '','' \<and> comma_closes (t @ [CHR 0x22]))"
  proof
    assume "c = CHR '','' \<and> comma_closes (t @ [CHR 0x22])"
    then have "drop_commas (t @ [CHR 0x22]) = c # t @ [CHR 0x22]"
      using Cons.prems by simp
    then show False
      using length_drop_commas [of "t @ [CHR 0x22]"] by simp
  qed
  then have "drop_commas (t @ [CHR 0x22]) = t @ [CHR 0x22]"
    using Cons.prems by auto
  then show ?case
    using kept Cons.IH comma_closes_quote [of t rest] by auto
qed simp

lemma escapes_closed_append:
  "escapes_closed False s \<Longrightarrow> escapes_closed False t \<Longrightarrow> escapes_closed False (s @ t)"
proof -
  have "escapes_closed e s \<Longrightarrow> escapes_closed False t \<Longrightarrow> escapes_closed e (s @ t)" for e
    by (induction e s rule: escapes_closed.induct) (auto split: if_splits)
  then show "escapes_closed False s \<Longrightarrow> escapes_closed False t \<Longrightarrow> escapes_closed False (s @ t)" .
qed

lemma hex_digit_plain: "n < 16 \<Longrightarrow> hex_digit n \<noteq> CHR 0x22 \<and> hex_digit n \<noteq> CHR 0x5C"
proof -
  assume "n < 16"
  then have "n \<in> set [0..<16]" by simp
  moreover have "list_all (\<lambda>n. hex_digit n \<noteq> CHR 0x22 \<and> hex_digit n \<noteq> CHR 0x5C) [0..<16]"
    by code_simp
  ultimately show ?thesis
    unfolding list_all_iff by blast
qed

lemma escape_closed: "escapes_closed False (json_escape c)"
proof (cases "(of_char c :: nat) < 32")
  case True
  then have "(of_char c :: nat) div 16 < 16" "(of_char c :: nat) mod 16 < 16" by simp_all
  from hex_digit_plain [OF this(1)] hex_digit_plain [OF this(2)] show ?thesis
    by (simp add: json_escape_def)
qed (simp add: json_escape_def)

definition comma_safe :: "string \<Rightarrow> bool" where
  "comma_safe s = (drop_commas (json_quote s) = json_quote s)"

lemma verbatim_quote: "comma_safe s \<Longrightarrow> verbatim (json_quote s)"
  unfolding verbatim_def
proof (intro allI conjI)
  fix rest
  assume safe: "comma_safe s"
  have "escapes_closed False (concat (map json_escape s))"
    by (induction s) (simp_all add: escapes_closed_append escape_closed)
  then show "strip_from Plain (json_quote s @ rest) = json_quote s @ strip_from Plain rest"
    by (simp add: json_quote_def plain_quote strip_string)
  show "drop_commas (json_quote s @ rest) = json_quote s @ drop_commas rest"
    using drop_commas_quote [of "CHR 0x22 # concat (map json_escape s)" rest] safe
    by (simp add: comma_safe_def json_quote_def)
qed

lemma digit_plain: "n < 10 \<Longrightarrow> plain_char (digit_char n) \<and> begins [digit_char n]"
proof -
  assume "n < 10"
  then have "n \<in> set [0..<10]" by simp
  moreover have "list_all (\<lambda>n. plain_char (digit_char n) \<and> begins [digit_char n]) [0..<10]"
    by code_simp
  ultimately show ?thesis
    unfolding list_all_iff by blast
qed

lemma begins_append: "begins a \<Longrightarrow> begins (a @ b)"
  by (cases a) (simp_all add: begins_def)

lemma nat_str_plain: "list_all plain_char (nat_str n) \<and> begins (nat_str n)"
proof (induction n rule: nat_str.induct)
  case (1 n)
  show ?case
  proof (cases "n < 10")
    case True
    then show ?thesis using digit_plain by (subst (1 2) nat_str.simps) simp
  next
    case False
    then show ?thesis using 1 digit_plain [of "n mod 10"] by (subst (1 2) nat_str.simps) (simp add: begins_append)
  qed
qed

lemma plain_samples:
  "list_all plain_char ''null''" "list_all plain_char ''true''" "list_all plain_char ''false''"
  "begins ''null''" "begins ''true''" "begins ''false''" "plain_char CHR ''-''" "plain_char CHR ''.''" "plain_char CHR ''0''"
  by (simp_all add: plain_char_def begins_def is_ws_def)

lemma int_str_plain: "list_all plain_char (int_str i) \<and> begins (int_str i)"
  using nat_str_plain [of "nat i"] nat_str_plain [of "nat (- i)"]
  by (simp add: int_str_def plain_samples) (simp add: begins_def is_ws_def)

lemma dec_str_plain: "list_all plain_char (dec_str m k) \<and> begins (dec_str m k)"
  using nat_str_plain
  by (auto simp: dec_str_def Let_def plain_samples begins_append list_all_iff) (simp add: begins_def is_ws_def)

lemma quote_begins: "begins (json_quote s)"
  by (simp add: begins_def json_quote_def is_ws_def)

text \<open>Every string of a value, its keys included.\<close>

fun strings_of :: "json \<Rightarrow> string list" where
  "strings_of (JStr s) = [s]"
| "strings_of (JArr vs) = concat (map strings_of vs)"
| "strings_of (JObj kvs) = concat (map (\<lambda>(k, v). k # strings_of v) kvs)"
| "strings_of v = []"

definition printed :: "string \<Rightarrow> bool" where
  "printed s = (verbatim s \<and> begins s)"

lemma printed_append: "printed a \<Longrightarrow> verbatim b \<Longrightarrow> printed (a @ b)"
  by (simp add: printed_def verbatim_append begins_append)

lemma plain_spaces: "list_all plain_char (replicate n CHR '' '')" "list_all plain_char [u_lf]"
  by (simp_all add: list_all_iff plain_char_def u_lf_def)

lemma verbatim_items:
  assumes "items \<noteq> []" "list_all printed items"
  shows "verbatim (join ('','' @ [u_lf]) (map (\<lambda>i. replicate n CHR '' '' @ i) items))"
  using assms
proof (induction items)
  case (Cons i items)
  have i: "verbatim (replicate n CHR '' '' @ i)"
    using Cons.prems by (simp add: verbatim_append verbatim_plain [OF plain_spaces(1)] printed_def)
  show ?case
  proof (cases items)
    case Nil
    then show ?thesis using i by simp
  next
    case rest: (Cons j js)
    let ?rest = "join ('','' @ [u_lf]) (map (\<lambda>i. replicate n CHR '' '' @ i) items)"
    obtain t where t: "?rest = replicate n CHR '' '' @ j @ t"
      using rest by (cases js) auto
    have "verbatim ([u_lf] @ replicate n CHR '' '' @ j @ t)"
      unfolding t [symmetric] using Cons rest by (intro verbatim_append [OF verbatim_plain [OF plain_spaces(2)]]) simp
    moreover have "begins (j @ t)" using Cons.prems rest by (simp add: printed_def begins_append)
    moreover have "list_all is_ws (u_lf # replicate n CHR '' '')" by (simp add: list_all_iff)
    ultimately have "verbatim (CHR '','' # (u_lf # replicate n CHR '' '') @ j @ t)"
      by (intro verbatim_comma) (simp_all only: append_Cons append_Nil append_assoc)
    then have "verbatim ((replicate n CHR '' '' @ i) @ CHR '','' # [u_lf] @ ?rest)"
      unfolding t by (intro verbatim_append [OF i]) (simp only: append_Cons append_Nil append_assoc)
    then show ?thesis
      using rest by simp
  qed
qed simp

lemma printed_block:
  assumes "list_all plain_char a" "begins a" "list_all plain_char b" "list_all printed items"
  shows "printed (json_block a b n items)"
proof (cases "items = []")
  case False
  have "verbatim (a @ [u_lf] @ join ('','' @ [u_lf]) (map (\<lambda>i. replicate (n + 2) CHR '' '' @ i) items)
      @ [u_lf] @ replicate n CHR '' '' @ b)"
    by (intro verbatim_append verbatim_plain plain_spaces assms(1,3) verbatim_items False assms(4))
  then show ?thesis
    using False assms(2) by (simp only: json_block_def printed_def begins_append if_False)
qed (use assms in \<open>simp add: json_block_def printed_def begins_append verbatim_append verbatim_plain\<close>)

lemma printed_plain: "list_all plain_char s \<and> begins s \<Longrightarrow> printed s"
  by (simp add: printed_def verbatim_plain)

lemma printed_samples: "printed ''null''" "printed ''true''" "printed ''false''"
  by (intro printed_plain conjI plain_samples)+

lemma bracket_plain:
  "list_all plain_char ''[''" "begins ''[''" "list_all plain_char '']''"
  "list_all plain_char ''{''" "begins ''{''" "list_all plain_char ''}''" "list_all plain_char '': ''"
  by (simp_all add: plain_char_def begins_def is_ws_def)

lemma printed_quote: "comma_safe s \<Longrightarrow> printed (json_quote s)"
  by (simp add: printed_def verbatim_quote quote_begins)

lemma printed_pretty: "list_all comma_safe (strings_of v) \<Longrightarrow> printed (json_pretty n v)"
proof (induction n v rule: json_pretty.induct)
  case (1 n vs)
  then show ?case
    by (auto simp: list_all_iff intro!: printed_block [unfolded list_all_iff] bracket_plain [unfolded list_all_iff])
next
  case (2 n kvs)
  have "printed (json_quote k @ '': '' @ json_pretty (n + 2) v)" if "(k, v) \<in> set kvs" "v \<noteq> JUndef" for k v
  proof -
    have safe: "comma_safe k" "list_all comma_safe (strings_of v)"
      using 2(2) that by (auto simp: list_all_iff)
    have "printed (json_pretty (n + 2) v)"
      by (rule 2(1)) (use that safe in auto)
    then show ?thesis
      by (intro printed_append printed_quote safe verbatim_append verbatim_plain [of "'': ''"] bracket_plain)
         (simp add: printed_def)
  qed
  then have "list_all printed (map (\<lambda>(k, v). json_quote k @ '': '' @ v)
       (map (\<lambda>(k, v). (k, json_pretty (n + 2) v)) (filter (\<lambda>(k, v). v \<noteq> JUndef) kvs)))"
    by (auto simp: list_all_iff)
  then show ?case
    by (simp only: json_pretty.simps) (intro printed_block bracket_plain)
qed (auto simp: printed_quote plain_samples printed_samples int_str_plain dec_str_plain intro: printed_plain)

lemma strip_printed:
  assumes "list_all comma_safe (strings_of v)"
  shows "strip_json_comments (json_pretty 0 v @ [u_lf]) = json_pretty 0 v @ [u_lf]"
proof -
  have "verbatim (json_pretty 0 v @ [u_lf])"
    using printed_pretty [OF assms, of 0] unfolding printed_def
    by (blast intro: verbatim_append verbatim_plain plain_spaces)
  from this [unfolded verbatim_def, rule_format, of "[]"] show ?thesis
    by (simp add: strip_json_comments_def)
qed

text \<open>
  C38. Changing a setting. What \<open>setSetting\<close> writes is read back: the file then holds the new value at the key, and
  every other setting as it was, the comments gone. The conditions: no part of the key is \<open>__proto__\<close>;
  \<open>JSON.parse\<close> reads what \<open>JSON.stringify\<close> prints of this value; and no string in the file has a comma before a bracket, since the
  reader drops such commas inside strings. Other settings are kept where the key does not lead through an array, which
  is replaced by an object.
\<close>

theorem setting_survives_write:
  assumes "set_setting w key x in_project cwd = Inr (path, w')" and "''__proto__'' \<notin> set (split_on CHR ''.'' key)"
    and "(if exists_path w path then read_jsonc w path else Inr (JObj [])) = Inr old"
    and "updated = set_path (split_on CHR ''.'' key) x (if is_object old then old else JObj [])"
    and "list_all comma_safe (strings_of updated)"
    and "cw_parse w (json_pretty 0 updated @ [u_lf]) = Inr updated"
  shows "read_jsonc w' path = Inr updated \<and> get_setting updated key = x
    \<and> (\<forall>ks. is_object old \<and> no_array old (split_on CHR ''.'' key) \<and> diverge (split_on CHR ''.'' key) ks
        \<longrightarrow> get_path updated ks = get_path old ks)"
proof (intro conjI allI impI)
  have "path = setting_path w in_project cwd"
    and w': "w' = w\<lparr>cw_fs := (cw_fs w)(path \<mapsto> FileNode (Inr (json_pretty 0 updated @ [u_lf])))\<rparr>"
    using assms(1,3,4) by (auto simp: set_setting_def Let_def)
  then show "read_jsonc w' path = Inr updated"
    using strip_printed [OF assms(5)] assms(6)
    by (simp add: read_jsonc_def read_path_def parse_jsonc_def)
  show "get_setting updated key = x"
    by (simp add: get_setting_def assms(4) get_set_path)
  fix ks
  assume "is_object old \<and> no_array old (split_on CHR ''.'' key) \<and> diverge (split_on CHR ''.'' key) ks"
  then show "get_path updated ks = get_path old ks"
    by (simp add: assms(4) get_set_path_other)
qed

text \<open>A key is added to a file that holds another.\<close>

definition edit_world :: cfg_world where
  "edit_world = demo_world\<lparr>cw_parse := (\<lambda>s. if s = ''PROJECT'' then Inr (JObj [(''effort'', JStr ''high'')])
     else if s = json_pretty 0 (JObj [(''effort'', JStr ''high''), (''agents'', JObj [(''smol'', JNum 1)])]) @ [u_lf]
     then Inr (JObj [(''effort'', JStr ''high''), (''agents'', JObj [(''smol'', JNum 1)])]) else Inl ''bad'')\<rparr>"

lemma edit_reads: "read_jsonc edit_world ''/w/.jean.json'' = Inr (JObj [(''effort'', JStr ''high'')])"
  by code_simp

lemma edit_path: "setting_path edit_world True ''/w'' = ''/w/.jean.json''"
  by code_simp

lemma edit_exists: "exists_path edit_world ''/w/.jean.json''"
  by code_simp

lemma edit_updates:
  "set_path (split_on CHR ''.'' ''agents.smol'') (JNum 1) (JObj [(''effort'', JStr ''high'')]) =
     JObj [(''effort'', JStr ''high''), (''agents'', JObj [(''smol'', JNum 1)])]"
  by (simp add: put_key_def set_field_def)

lemma edit_parse:
  "cw_parse edit_world (json_pretty 0 (JObj [(''effort'', JStr ''high''), (''agents'', JObj [(''smol'', JNum 1)])]) @ [u_lf])
     = Inr (JObj [(''effort'', JStr ''high''), (''agents'', JObj [(''smol'', JNum 1)])])"
  by code_simp

lemma edit_safe: "list_all comma_safe (strings_of (JObj [(''effort'', JStr ''high''), (''agents'', JObj [(''smol'', JNum 1)])]))"
  by code_simp

lemma edit_key: "''__proto__'' \<notin> set (split_on CHR ''.'' ''agents.smol'')"
  by simp

theorem setting_survives_write_witness:
  "\<exists>w'. set_setting edit_world ''agents.smol'' (JNum 1) True ''/w'' = Inr (''/w/.jean.json'', w')
     \<and> read_jsonc w' ''/w/.jean.json'' = Inr (JObj [(''effort'', JStr ''high''), (''agents'', JObj [(''smol'', JNum 1)])])"
proof -
  obtain w' where w': "set_setting edit_world ''agents.smol'' (JNum 1) True ''/w'' = Inr (''/w/.jean.json'', w')"
    by (simp add: set_setting_def edit_path edit_exists edit_reads Let_def)
  have "read_jsonc w' ''/w/.jean.json'' = Inr (JObj [(''effort'', JStr ''high''), (''agents'', JObj [(''smol'', JNum 1)])])"
    by (rule conjunct1 [OF setting_survives_write [OF w' edit_key, where old = "JObj [(''effort'', JStr ''high'')]"]])
       (simp_all only: edit_exists edit_reads edit_updates edit_parse edit_safe is_object.simps if_True)
  then show ?thesis using w' by blast
qed

section \<open>No secret is printed\<close>

text \<open>
  What a credential is: a text, not empty, whose key is one of six words, in capitals or not. The strings that are
  credentials, in order, and a value with them blanked.
\<close>

definition credential_words :: "string list" where
  "credential_words = [''apikey'', ''api_key'', ''token'', ''secret'', ''password'', ''authorization'']"

definition same_letter :: "char \<Rightarrow> char \<Rightarrow> bool" where
  "same_letter a b = (a = b \<or> (CHR ''A'' \<le> a \<and> a \<le> CHR ''Z'' \<and> of_char b = (of_char a :: nat) + 32))"

fun credential :: "string \<Rightarrow> json \<Rightarrow> bool" where
  "credential k (JStr s) = (s \<noteq> [] \<and> list_ex (list_all2 same_letter k) credential_words)"
| "credential k v = False"

fun secret_strings :: "json \<Rightarrow> string list" where
  "secret_strings (JArr vs) = concat (map secret_strings vs)"
| "secret_strings (JObj kvs) =
     concat (map (\<lambda>(k, v, ss). if credential k v then [string_value v] else ss)
       (map (\<lambda>(k, v). (k, v, secret_strings v)) kvs))"
| "secret_strings v = []"

fun blanked :: "json \<Rightarrow> json" where
  "blanked (JArr vs) = JArr (map blanked vs)"
| "blanked (JObj kvs) =
     JObj (map (\<lambda>(k, v, r). (k, if credential k v then JNull else r))
       (map (\<lambda>(k, v). (k, v, blanked v)) kvs))"
| "blanked v = v"

lemma to_lower_letter:
  assumes "\<not> (CHR ''A'' \<le> b \<and> b \<le> CHR ''Z'')"
  shows "(if CHR ''A'' \<le> a \<and> a \<le> CHR ''Z'' then char_of (of_char a + (32::nat)) else a) = b \<longleftrightarrow> same_letter a b"
proof (cases "CHR ''A'' \<le> a \<and> a \<le> CHR ''Z''")
  case True
  then have "(of_char a :: nat) \<le> of_char CHR ''Z''" by (simp add: less_eq_char_def)
  then have small: "(of_char a :: nat) + 32 < 256" by simp
  have "char_of (of_char a + (32::nat)) = b \<longleftrightarrow> of_char b = (of_char a :: nat) + 32"
    using small by (metis char_of_char of_char_of mod_less)
  moreover have "a \<noteq> b" using True assms by auto
  ultimately show ?thesis using True by (simp add: same_letter_def)
qed (auto simp: same_letter_def)

lemma to_lower_word:
  "list_all (\<lambda>b. \<not> (CHR ''A'' \<le> b \<and> b \<le> CHR ''Z'')) word \<Longrightarrow> to_lower k = word \<longleftrightarrow> list_all2 same_letter k word"
proof (induction k arbitrary: word)
  case (Cons a k)
  then show ?case
    using to_lower_letter [of "hd word" a] by (cases word) (auto simp: to_lower_def)
qed (auto simp: to_lower_def)

lemma secret_key_words: "secret_key k = list_ex (list_all2 same_letter k) credential_words"
proof -
  have "list_all (list_all (\<lambda>b. \<not> (CHR ''A'' \<le> b \<and> b \<le> CHR ''Z''))) credential_words" by code_simp
  moreover have "secret_keys = credential_words" by (simp add: secret_keys_def credential_words_def)
  ultimately have "\<forall>w\<in>set credential_words. to_lower k = w \<longleftrightarrow> list_all2 same_letter k w" "secret_keys = credential_words"
    unfolding list_all_iff [of _ credential_words] using to_lower_word by blast+
  then show ?thesis
    by (auto simp: secret_key_def list_ex_iff)
qed

lemma credential_entry: "credential k v = secret_entry k v"
  by (cases v) (auto simp: secret_entry_def secret_key_words)

lemma mask_not_Nil [simp]: "mask_secret s \<noteq> []"
  by (simp add: mask_secret_def)

lemma secret_entry_redact [simp]: "secret_entry k (redact v) = secret_entry k v"
  by (cases v) (simp_all add: secret_entry_def)

lemma secret_entry_mask: "secret_entry k v \<Longrightarrow> secret_entry k (JStr (mask_secret s))"
  by (simp add: secret_entry_def)

lemma string_value_redact [simp]: "string_value (redact v) = string_value v"
  by (cases v) simp_all

lemma secrets_masked_obj:
  "(\<And>k v. (k, v) \<in> set kvs \<Longrightarrow> secret_strings (redact v) = map mask_secret (secret_strings v)) \<Longrightarrow>
   secret_strings (redact (JObj kvs)) = map mask_secret (secret_strings (JObj kvs))"
proof (induction kvs)
  case (Cons e kvs)
  obtain k v where e: "e = (k, v)" by force
  have "secret_strings (redact (JObj kvs)) = map mask_secret (secret_strings (JObj kvs))"
    by (rule Cons.IH) (blast intro: Cons.prems list.set_intros)
  moreover have "secret_strings (redact v) = map mask_secret (secret_strings v)"
    by (rule Cons.prems [of k]) (simp add: e)
  ultimately show ?case
    by (simp add: e secret_entry_mask credential_entry del: credential.simps)
qed simp

lemma secrets_masked: "secret_strings (redact v) = map mask_secret (secret_strings v)"
proof (induction v)
  case (JArr vs)
  then show ?case by (simp add: map_concat comp_def cong: map_cong)
next
  case (JObj kvs)
  show ?case by (rule secrets_masked_obj, rule JObj) (auto simp: prod_set_simps)
qed simp_all

lemma rest_kept_obj:
  "(\<And>k v. (k, v) \<in> set kvs \<Longrightarrow> blanked (redact v) = blanked v) \<Longrightarrow> blanked (redact (JObj kvs)) = blanked (JObj kvs)"
proof (induction kvs)
  case (Cons e kvs)
  obtain k v where e: "e = (k, v)" by force
  have "blanked (redact (JObj kvs)) = blanked (JObj kvs)"
    by (rule Cons.IH) (blast intro: Cons.prems list.set_intros)
  moreover have "blanked (redact v) = blanked v"
    by (rule Cons.prems [of k]) (simp add: e)
  ultimately show ?case
    by (simp add: e secret_entry_mask credential_entry del: credential.simps)
qed simp

lemma rest_kept: "blanked (redact v) = blanked v"
proof (induction v)
  case (JObj kvs)
  show ?case by (rule rest_kept_obj, rule JObj) (auto simp: prod_set_simps)
qed simp_all

lemma mask_hides:
  "mask_secret s = (if length s \<le> 12 then ''***'' else take 8 s @ ''...'' @ drop (length s - 4) s)"
  by (simp add: mask_secret_def slice_def slice_last_def)

text \<open>
  C39. What \<open>redactSecrets\<close> returns is the value it is given with every credential, at any depth, replaced by its mask and
  everything else untouched: a credential is a text, not empty, directly under a key that is one of \<open>apikey\<close>, \<open>api_key\<close>,
  \<open>token\<close>, \<open>secret\<close>, \<open>password\<close> and \<open>authorization\<close>, in capitals or not. A mask keeps nothing of one of at most twelve
  characters, and the first eight and last four of a longer one.
\<close>

theorem redacted:
  "secret_strings (redact v) = map mask_secret (secret_strings v) \<and> blanked (redact v) = blanked v
   \<and> mask_secret s = (if length s \<le> 12 then ''***'' else take 8 s @ ''...'' @ drop (length s - 4) s)"
  by (intro conjI secrets_masked rest_kept mask_hides)

text \<open>
  Not masked: what lies deeper under a secret key, and a key that only contains one of the words, such as the
  variables and headers of a server.
\<close>

theorem nested_secrets_shown:
  "redact (JObj [(''token'', JObj [(''value'', JStr s)]), (''env'', JObj [(''GITHUB_TOKEN'', JStr s)])])
     = JObj [(''token'', JObj [(''value'', JStr s)]), (''env'', JObj [(''GITHUB_TOKEN'', JStr s)])]"
proof -
  have "\<not> secret_key ''value''" "\<not> secret_key ''GITHUB_TOKEN''" "\<not> secret_key ''env''" by code_simp+
  then show ?thesis by (simp add: secret_entry_def)
qed

text \<open>
  \<open>jean config get\<close> on the key itself prints the secret: what is redacted then is the bare string.
\<close>

theorem config_get_leaks:
  assumes "get_setting config key = JStr secret" and "key \<noteq> []"
  shows "config_get config (Some key) = Inr secret"
  using assms by (simp add: config_get_def truthy_def)

theorem config_get_leaks_witness:
  "config_get (JObj [(''model'', JObj [(''apiKey'', JStr ''sk-ant-0123456789'')])]) (Some ''model.apiKey'') = Inr ''sk-ant-0123456789''"
  by (rule config_get_leaks) (simp_all add: get_setting_def js_member_def is_record_def)

end
