(* ===== verification/Hashline.thy ===== *)
theory Hashline
  imports Tools
begin

text \<open>
  Hash-anchored edits: \<open>packages/tools/src/hashline.ts\<close>. A patch names the lines it changes by a hash of their
  text; the hash function is a parameter, and only \<open>apply\<close>'s index ever calls it.
\<close>

section \<open>Hunks\<close>

datatype hl_op = KeepL string | DelL string | AddL string

record hunk =
  hk_anchor :: string
  hk_text :: "string option"
  hk_ops :: "hl_op list"

datatype resolution = ByAnchor | Disambiguated | RecoveredByText | RecoveredByContext

datatype hl_code = AnchorNotFound | ContextMismatch | AmbiguousAnchor | ParseError

datatype hl_error = HashlineError string hl_code

fun is_add :: "hl_op \<Rightarrow> bool" where
  "is_add (AddL _) = True"
| "is_add _ = False"

fun op_line :: "hl_op \<Rightarrow> string" where
  "op_line (KeepL t) = t"
| "op_line (DelL t) = t"
| "op_line (AddL t) = t"

section \<open>Anchors\<close>

definition hl_normalize :: "string \<Rightarrow> string" where
  "hl_normalize line = collapse_ws (trim line)"

definition anchor_of :: "(string \<Rightarrow> string) \<Rightarrow> string \<Rightarrow> string" where
  "anchor_of sha line = slice 0 8 (sha (hl_normalize line))"

text \<open>The index of a file: its lines, whether it ends in a line break, and the lines of every anchor.\<close>

record hl_index =
  ix_lines :: "string list"
  ix_by_anchor :: "(string \<times> nat list) list"
  ix_trailing :: bool

definition strip_cr :: "string \<Rightarrow> string" where
  "strip_cr l = (if ends_with l [u_cr] then butlast l else l)"

definition add_anchor :: "(string \<Rightarrow> string) \<Rightarrow> string list \<Rightarrow> nat \<Rightarrow> (string \<times> nat list) list \<Rightarrow> (string \<times> nat list) list" where
  "add_anchor sha ls i m =
     (let a = anchor_of sha (ls ! i)
      in AList.update a (case map_of m a of None \<Rightarrow> [i] | Some bucket \<Rightarrow> bucket @ [i]) m)"

definition file_lines :: "string \<Rightarrow> string list" where
  "file_lines content =
     (let trailing = ends_with content [u_lf]; body = (if trailing then butlast content else content)
      in if body = [] \<and> \<not> trailing then [] else map strip_cr (lines_of body))"

definition index_file :: "(string \<Rightarrow> string) \<Rightarrow> string \<Rightarrow> hl_index" where
  "index_file sha content =
     (let ls = file_lines content
      in \<lparr>ix_lines = ls, ix_by_anchor = fold (add_anchor sha ls) [0..<length ls] [], ix_trailing = ends_with content [u_lf]\<rparr>)"

definition anchor_matches :: "hl_index \<Rightarrow> string \<Rightarrow> nat list" where
  "anchor_matches ix a = (case map_of (ix_by_anchor ix) a of None \<Rightarrow> [] | Some bucket \<Rightarrow> bucket)"

definition annotate :: "(string \<Rightarrow> string) \<Rightarrow> nat \<Rightarrow> hl_index \<Rightarrow> string" where
  "annotate sha start ix =
     unlines (map (\<lambda>l. ''h:'' @ anchor_of sha l @ '' '' @ [u_bar] @ '' '' @ l) (drop (start - 1) (ix_lines ix)))"

definition hl_render :: "hl_index \<Rightarrow> string list \<Rightarrow> string" where
  "hl_render ix ls = (if ix_trailing ix then unlines ls @ [u_lf] else unlines ls)"

section \<open>Where a hunk lands\<close>

definition hl_clamp :: "int \<Rightarrow> nat \<Rightarrow> nat" where
  "hl_clamp i most = nat (min (max i 0) (int most))"

text \<open>Context and deletions agree with the buffer from a line on.\<close>

fun verify_ops :: "string list \<Rightarrow> nat \<Rightarrow> hl_op list \<Rightarrow> bool" where
  "verify_ops current cursor [] = True"
| "verify_ops current cursor (p # ps) =
     (if is_add p then verify_ops current cursor ps
      else cursor < length current \<and> hl_normalize (current ! cursor) = hl_normalize (op_line p)
        \<and> verify_ops current (Suc cursor) ps)"

abbreviation hl_verify :: "string list \<Rightarrow> nat \<Rightarrow> hunk \<Rightarrow> bool" where
  "hl_verify current start h \<equiv> verify_ops current start (hk_ops h)"

definition required_lines :: "hunk \<Rightarrow> string list" where
  "required_lines h = map (hl_normalize \<circ> op_line) (filter (\<lambda>p. \<not> is_add p) (hk_ops h))"

definition context_hits :: "string list \<Rightarrow> string list \<Rightarrow> nat list" where
  "context_hits current required =
     filter (\<lambda>s. s + length required \<le> length current
         \<and> list_all (\<lambda>k. hl_normalize (current ! (s + k)) = required ! k) [0..<length required])
       [0..<Suc (length current)]"

definition not_found_error :: "hunk \<Rightarrow> hl_error" where
  "not_found_error h =
     HashlineError (''anchor h:'' @ hk_anchor h @ '' not found''
       @ (if truthy (hk_text h) then '' (last seen as '' @ json_quote (the (hk_text h)) @ '')'' else [])) AnchorNotFound"

definition ambiguous_error :: "hunk \<Rightarrow> nat list \<Rightarrow> hl_error" where
  "ambiguous_error h viable =
     HashlineError (''anchor h:'' @ hk_anchor h @ '' matches '' @ nat_str (length viable) @ '' lines (''
       @ join '', '' (map (\<lambda>v. nat_str (v + 1)) viable) @ ''); add anchor text or more context to disambiguate'') AmbiguousAnchor"

text \<open>The two recoveries, and the error when neither lands.\<close>

definition by_context :: "string list \<Rightarrow> hunk \<Rightarrow> hl_error + (nat \<times> resolution)" where
  "by_context current h =
     (case (if required_lines h = [] then [] else context_hits current (required_lines h)) of
        [s] \<Rightarrow> Inr (s, RecoveredByContext)
      | _ \<Rightarrow> Inl (not_found_error h))"

definition by_text :: "string list \<Rightarrow> hunk \<Rightarrow> hl_error + (nat \<times> resolution)" where
  "by_text current h =
     (case hk_text h of
        None \<Rightarrow> by_context current h
      | Some t \<Rightarrow>
          (case find (\<lambda>i. hl_normalize (current ! i) = hl_normalize t \<and> hl_verify current i h) [0..<length current] of
             Some i \<Rightarrow> Inr (i, RecoveredByText)
           | None \<Rightarrow> by_context current h))"

definition locate :: "(string \<Rightarrow> string) \<Rightarrow> hl_index \<Rightarrow> string list \<Rightarrow> hunk \<Rightarrow> int \<Rightarrow> hl_error + (nat \<times> resolution)" where
  "locate sha ix current h offset =
     (case anchor_matches ix (hk_anchor h) of
        [] \<Rightarrow> by_text current h
      | [c] \<Rightarrow>
          (let shifted = hl_clamp (int c + offset) (length current)
           in if hl_verify current shifted h then Inr (shifted, ByAnchor)
              else (case find (\<lambda>i. anchor_of sha (current ! i) = hk_anchor h \<and> hl_verify current i h) [0..<length current] of
                      Some live \<Rightarrow> Inr (live, ByAnchor)
                    | None \<Rightarrow> by_text current h))
      | candidates \<Rightarrow>
          (case filter (\<lambda>c. hl_verify current c h) (map (\<lambda>c. hl_clamp (int c + offset) (length current)) candidates) of
             [] \<Rightarrow> by_text current h
           | [v] \<Rightarrow> Inr (v, Disambiguated)
           | viable \<Rightarrow> Inl (ambiguous_error h viable)))"

section \<open>Applying\<close>

definition leading_ws :: "string \<Rightarrow> string" where
  "leading_ws line = takeWhile is_ws line"

datatype hl_reindent = NoIndent | PrefixWith string | StripOf nat

definition line_or_empty :: "string list \<Rightarrow> nat \<Rightarrow> string" where
  "line_or_empty ls i = (if i < length ls then ls ! i else [])"

definition indent_delta :: "string list \<Rightarrow> nat \<Rightarrow> hunk \<Rightarrow> hl_reindent" where
  "indent_delta ls start h =
     (let patch = (case find (\<lambda>p. \<not> is_add p) (hk_ops h) of Some p \<Rightarrow> leading_ws (op_line p) | None \<Rightarrow> []);
          here = leading_ws (line_or_empty ls start)
      in if patch = here then NoIndent
         else if starts_with here patch then PrefixWith (drop (length patch) here)
         else if starts_with patch here then StripOf (length patch - length here)
         else NoIndent)"

definition apply_indent :: "string \<Rightarrow> hl_reindent \<Rightarrow> string" where
  "apply_indent s r =
     (if trim s = [] then s
      else (case r of NoIndent \<Rightarrow> s | PrefixWith p \<Rightarrow> p @ s | StripOf n \<Rightarrow> drop (min (length (leading_ws s)) n) s))"

definition mismatch_error :: "hunk \<Rightarrow> nat \<Rightarrow> string \<Rightarrow> string list \<Rightarrow> hl_error" where
  "mismatch_error h cursor expected ls =
     HashlineError (''hunk h:'' @ hk_anchor h @ '' landed at line '' @ nat_str (cursor + 1) @ '' but expected '' @ json_quote expected
       @ '', found '' @ json_quote (if cursor < length ls then ls ! cursor else ''<end of file>'')) ContextMismatch"

text \<open>The loop over the operations: the lines that replace the hunk's, and how far it went.\<close>

fun splice_ops :: "hunk \<Rightarrow> hl_reindent \<Rightarrow> string list \<Rightarrow> nat \<Rightarrow> hl_op list \<Rightarrow> hl_error + (string list \<times> nat)" where
  "splice_ops h r ls cursor [] = Inr ([], cursor)"
| "splice_ops h r ls cursor (p # ps) =
     (if is_add p
      then or_throw (splice_ops h r ls cursor ps) (\<lambda>(out, e). Inr (apply_indent (op_line p) r # out, e))
      else if \<not> cursor < length ls \<or> hl_normalize (ls ! cursor) \<noteq> hl_normalize (op_line p)
      then Inl (mismatch_error h cursor (op_line p) ls)
      else or_throw (splice_ops h r ls (Suc cursor) ps)
        (\<lambda>(out, e). Inr (case p of KeepL _ \<Rightarrow> ls ! cursor # out | _ \<Rightarrow> out, e)))"

definition splice_hunk :: "string list \<Rightarrow> nat \<Rightarrow> hunk \<Rightarrow> hl_error + string list" where
  "splice_hunk ls start h =
     or_throw (splice_ops h (indent_delta ls start h) ls start (hk_ops h))
       (\<lambda>(out, cursor). Inr (take start ls @ out @ drop cursor ls))"

record applied =
  ap_content :: string
  ap_resolutions :: "resolution list"
  ap_delta :: int

fun apply_from :: "(string \<Rightarrow> string) \<Rightarrow> hl_index \<Rightarrow> hunk list \<Rightarrow> string list \<Rightarrow> int \<Rightarrow> hl_error + (string list \<times> resolution list)" where
  "apply_from sha ix [] ls offset = Inr (ls, [])"
| "apply_from sha ix (h # hs) ls offset =
     or_throw (locate sha ix ls h offset) (\<lambda>(start, res).
       or_throw (splice_hunk ls start h) (\<lambda>ls'.
         or_throw (apply_from sha ix hs ls' (offset + (int (length ls') - int (length ls)))) (\<lambda>(out, rs). Inr (out, res # rs))))"

definition apply_hunks :: "(string \<Rightarrow> string) \<Rightarrow> string \<Rightarrow> hunk list \<Rightarrow> hl_error + applied" where
  "apply_hunks sha content hs =
     (let ix = index_file sha content
      in or_throw (apply_from sha ix hs (ix_lines ix) 0) (\<lambda>(ls, rs).
           Inr \<lparr>ap_content = hl_render ix ls, ap_resolutions = rs, ap_delta = int (length ls) - int (length (ix_lines ix))\<rparr>))"

section \<open>Reading a patch\<close>

definition strip_marker :: "string \<Rightarrow> string" where
  "strip_marker line =
     (let rest = (case line of c # cs \<Rightarrow> if c = CHR ''-'' \<or> c = CHR ''+'' then cs else line | [] \<Rightarrow> [])
      in if starts_with rest '' '' then tl rest else rest)"

text \<open>\<open>replace(/^"|"$/g, '')\<close>\<close>

definition strip_quotes :: "string \<Rightarrow> string" where
  "strip_quotes s =
     (let a = (if starts_with s [CHR 0x22] then tl s else s) in if ends_with a [CHR 0x22] then butlast a else a)"

definition hex_char :: "char \<Rightarrow> bool" where
  "hex_char c = (is_digit c \<or> CHR ''a'' \<le> c \<and> c \<le> CHR ''f'')"

definition parse_anchor :: "string \<Rightarrow> hl_error + (string \<times> string option)" where
  "parse_anchor rest =
     (let s = trim rest;
          arrow = (if str_includes s ''->'' then Some ''->'' else if str_includes s [u_arrow] then Some [u_arrow] else None);
          parts = (case arrow of
                     None \<Rightarrow> (s, None)
                   | Some a \<Rightarrow> (let i = the (index_of a s) in (slice 0 i s, Some (drop (i + length a) s))));
          name = trim (fst parts);
          anchor = to_lower (trim (if starts_with name ''h:'' then drop 2 name else name));
          seen = map_option (\<lambda>t. strip_quotes (trim t)) (snd parts)
      in if anchor = [] \<or> \<not> list_all hex_char anchor
         then Inl (HashlineError (''anchor '' @ json_quote name @ '' is not a hex hash'') ParseError)
         else Inr (anchor, if truthy seen then seen else None))"

text \<open>The state of the line loop: finished hunks, the open one, whether its body has begun, the body's indentation.\<close>

record hl_parse =
  hp_hunks :: "hunk list"
  hp_current :: "hunk option"
  hp_body :: bool
  hp_indent :: "nat option"

definition close_hunk :: "hl_parse \<Rightarrow> hunk list" where
  "close_hunk st = hp_hunks st @ (case hp_current st of None \<Rightarrow> [] | Some h \<Rightarrow> [h])"

definition read_op :: "string \<Rightarrow> hl_op" where
  "read_op stripped =
     (if starts_with stripped ''-'' then DelL (strip_marker stripped)
      else if starts_with stripped ''+'' then AddL (strip_marker stripped)
      else KeepL stripped)"

definition body_line :: "nat \<Rightarrow> string \<Rightarrow> string" where
  "body_line indent raw = (if length raw \<ge> indent \<and> trim (slice 0 indent raw) = [] then drop indent raw else trim_start raw)"

definition parse_step :: "string \<Rightarrow> hl_parse \<Rightarrow> hl_error + hl_parse" where
  "parse_step raw st =
     (let trimmed = trim_start raw
      in if starts_with trimmed ''anchor:''
         then or_throw (parse_anchor (drop 7 trimmed)) (\<lambda>(a, t).
                Inr \<lparr>hp_hunks = close_hunk st, hp_current = Some \<lparr>hk_anchor = a, hk_text = t, hk_ops = []\<rparr>, hp_body = False, hp_indent = None\<rparr>)
         else if starts_with trimmed ''patch:''
         then (if hp_current st = None
               then Inl (HashlineError (''`patch:` appeared before any `anchor:`'') ParseError)
               else Inr (st\<lparr>hp_body := True, hp_indent := None\<rparr>))
         else (case hp_current st of
                 None \<Rightarrow> Inr st
               | Some h \<Rightarrow>
                   if \<not> hp_body st \<or> trim raw = [] \<and> hk_ops h = [] then Inr st
                   else (let indent = (case hp_indent st of Some n \<Rightarrow> n | None \<Rightarrow> length raw - length trimmed)
                         in Inr (st\<lparr>hp_indent := Some indent,
                              hp_current := Some (h\<lparr>hk_ops := hk_ops h @ [read_op (body_line indent raw)]\<rparr>)\<rparr>))))"

fun parse_lines :: "string list \<Rightarrow> hl_parse \<Rightarrow> hl_error + hl_parse" where
  "parse_lines [] st = Inr st"
| "parse_lines (l # ls) st = or_throw (parse_step l st) (parse_lines ls)"

text \<open>\<open>input.split(/\\r?\\n/)\<close>: a carriage return goes with the line feed it precedes.\<close>

definition crlf_lines :: "string \<Rightarrow> string list" where
  "crlf_lines s = (let ls = lines_of s in map strip_cr (butlast ls) @ [last ls])"

definition parse_patch :: "string \<Rightarrow> hl_error + hunk list" where
  "parse_patch input =
     or_throw (parse_lines (crlf_lines input) \<lparr>hp_hunks = [], hp_current = None, hp_body = False, hp_indent = None\<rparr>) (\<lambda>st.
       let hs = close_hunk st
       in if hs = [] then Inl (HashlineError (''no `anchor:` block found'') ParseError)
          else (case find (\<lambda>h. hk_ops h = []) hs of
                  Some h \<Rightarrow> Inl (HashlineError (''hunk h:'' @ hk_anchor h @ '' has an empty patch body'') ParseError)
                | None \<Rightarrow> Inr hs))"

definition patch_file :: "(string \<Rightarrow> string) \<Rightarrow> string \<Rightarrow> string \<Rightarrow> hl_error + applied" where
  "patch_file sha content patch = or_throw (parse_patch patch) (apply_hunks sha content)"

section \<open>The index\<close>

lemma map_of_update [simp]: "map_of (AList.update k v m) = (map_of m)(k \<mapsto> v)"
  by (simp add: update_conv')

lemma by_anchor_fold:
  "(case map_of (fold (add_anchor sha ls) is m) a of None \<Rightarrow> [] | Some b \<Rightarrow> b)
     = (case map_of m a of None \<Rightarrow> [] | Some b \<Rightarrow> b) @ filter (\<lambda>i. anchor_of sha (ls ! i) = a) is"
  by (induction "is" arbitrary: m) (auto simp: add_anchor_def Let_def split: option.splits)

lemma anchor_matches_filter:
  "anchor_matches (index_file sha content) a =
     filter (\<lambda>i. anchor_of sha (file_lines content ! i) = a) [0..<length (file_lines content)]"
  by (simp add: anchor_matches_def index_file_def Let_def by_anchor_fold)

lemma index_lines [simp]: "ix_lines (index_file sha content) = file_lines content"
  "ix_trailing (index_file sha content) = ends_with content [u_lf]"
  by (simp_all add: index_file_def Let_def)

section \<open>A hunk is only applied where it fits\<close>

lemma find_SomeD: "find P xs = Some x \<Longrightarrow> P x \<and> x \<in> set xs"
  by (induction xs) (auto split: if_splits)

lemma verify_ops_iff:
  "verify_ops cur s ps \<longleftrightarrow>
     (\<forall>k<length (filter (\<lambda>p. \<not> is_add p) ps).
        s + k < length cur \<and> hl_normalize (cur ! (s + k)) = map (hl_normalize \<circ> op_line) (filter (\<lambda>p. \<not> is_add p) ps) ! k)"
proof (induction cur s ps rule: verify_ops.induct)
  case (2 cur s p ps)
  show ?case
  proof (cases "is_add p")
    case False
    have split: "(\<forall>k<Suc n. Q k) \<longleftrightarrow> Q 0 \<and> (\<forall>k<n. Q (Suc k))" for Q n
      by (simp add: All_less_Suc2)
    show ?thesis
      using 2(2) [OF False] False by (simp add: split)
  qed (use 2 in simp)
qed simp

lemma context_hit_verified: "s \<in> set (context_hits cur (required_lines h)) \<Longrightarrow> hl_verify cur s h"
  by (auto simp: context_hits_def verify_ops_iff required_lines_def list_all_iff simp del: upt_Suc)

lemma by_context_verified: "by_context cur h = Inr (s, r) \<Longrightarrow> hl_verify cur s h \<and> s \<le> length cur"
proof -
  assume *: "by_context cur h = Inr (s, r)"
  then have "(if required_lines h = [] then [] else context_hits cur (required_lines h)) = [s]"
    by (auto simp: by_context_def split: list.splits)
  then have "s \<in> set (context_hits cur (required_lines h))" by (auto split: if_splits)
  then show ?thesis using context_hit_verified by (auto simp: context_hits_def simp del: upt_Suc)
qed

lemma by_text_verified: "by_text cur h = Inr (s, r) \<Longrightarrow> hl_verify cur s h \<and> s \<le> length cur"
  by (auto simp: by_text_def dest: by_context_verified find_SomeD split: option.splits)

lemma clamp_le: "hl_clamp i n \<le> n"
  by (simp add: hl_clamp_def)

lemma locate_cases:
  obtains (recover) "locate sha ix cur h offset = by_text cur h"
  | (landed) s r where "locate sha ix cur h offset = Inr (s, r)" "hl_verify cur s h" "s \<le> length cur"
  | (ambiguous) viable where "locate sha ix cur h offset = Inl (ambiguous_error h viable)"
proof -
  consider (none) "anchor_matches ix (hk_anchor h) = []" | (one) c where "anchor_matches ix (hk_anchor h) = [c]"
    | (many) c d cs where "anchor_matches ix (hk_anchor h) = c # d # cs"
    by (metis neq_Nil_conv)
  then show thesis
  proof cases
    case none
    then show thesis by (intro that(1)) (simp add: locate_def)
  next
    case one
    let ?s = "hl_clamp (int c + offset) (length cur)"
    let ?live = "find (\<lambda>i. anchor_of sha (cur ! i) = hk_anchor h \<and> hl_verify cur i h) [0..<length cur]"
    show thesis
    proof (cases "hl_verify cur ?s h")
      case True
      then show thesis using one by (intro that(2) [of ?s ByAnchor]) (simp_all add: locate_def Let_def clamp_le)
    next
      case False
      show thesis
      proof (cases ?live)
        case None
        then show thesis using one False by (intro that(1)) (simp add: locate_def Let_def)
      next
        case (Some i)
        then show thesis
          using one False find_SomeD [OF Some] by (intro that(2) [of i ByAnchor]) (simp_all add: locate_def Let_def)
      qed
    qed
  next
    case many
    define viable where "viable = filter (\<lambda>c. hl_verify cur c h)
      (map (\<lambda>c. hl_clamp (int c + offset) (length cur)) (anchor_matches ix (hk_anchor h)))"
    have loc: "locate sha ix cur h offset =
        (case viable of [] \<Rightarrow> by_text cur h | [v] \<Rightarrow> Inr (v, Disambiguated) | _ \<Rightarrow> Inl (ambiguous_error h viable))"
      by (simp add: locate_def many viable_def split: list.splits)
    have ok: "v \<in> set viable \<Longrightarrow> hl_verify cur v h \<and> v \<le> length cur" for v
      by (auto simp: viable_def clamp_le)
    show thesis
    proof (cases viable)
      case Nil
      then show thesis using loc by (intro that(1)) simp
    next
      case (Cons v vs)
      then show thesis
        using loc ok [of v] that(2) [of v Disambiguated] that(3) [of viable] by (cases vs) auto
    qed
  qed
qed

lemma locate_verified:
  assumes "locate sha ix cur h offset = Inr (s, r)"
  shows "hl_verify cur s h \<and> s \<le> length cur"
proof (cases rule: locate_cases [of sha ix cur h offset])
  case recover
  then show ?thesis using assms by_text_verified by metis
qed (use assms in simp_all)

lemma locate_error:
  assumes "locate sha ix cur h offset = Inl e"
  shows "e = not_found_error h \<or> (\<exists>viable. e = ambiguous_error h viable)"
proof -
  have ctx: "by_context cur h = Inl e \<Longrightarrow> e = not_found_error h"
    by (simp add: by_context_def split: list.splits)
  have rec: "by_text cur h = Inl e \<Longrightarrow> e = not_found_error h"
    using ctx by (simp add: by_text_def split: option.splits)
  show ?thesis
  proof (cases rule: locate_cases [of sha ix cur h offset])
    case recover
    then show ?thesis using assms rec by metis
  next
    case (ambiguous viable)
    then show ?thesis using assms by auto
  qed (use assms in simp_all)
qed

section \<open>What a hunk does\<close>

text \<open>
  The lines a hunk goes over and the lines it leaves there: a kept line is the line of the file, untouched, a
  deleted line agrees with what the patch says of it, an added line is that of the patch, re-indented.
\<close>

fun follows :: "hl_reindent \<Rightarrow> hl_op list \<Rightarrow> string list \<Rightarrow> string list \<Rightarrow> bool" where
  "follows r [] old new = (old = [] \<and> new = [])"
| "follows r (KeepL t # ps) (x # old) (y # new) = (y = x \<and> hl_normalize x = hl_normalize t \<and> follows r ps old new)"
| "follows r (DelL t # ps) (x # old) new = (hl_normalize x = hl_normalize t \<and> follows r ps old new)"
| "follows r (AddL t # ps) old (y # new) = (y = apply_indent t r \<and> follows r ps old new)"
| "follows r ps old new = False"

lemma splice_ops_follows:
  "splice_ops h r ls cursor ps = Inr (out, e) \<Longrightarrow> cursor \<le> length ls \<Longrightarrow>
   e = cursor + length (filter (\<lambda>p. \<not> is_add p) ps) \<and> e \<le> length ls \<and> follows r ps (slice cursor e ls) out"
proof (induction h r ls cursor ps arbitrary: out e rule: splice_ops.induct)
  case (2 h r ls cursor p ps)
  have slice_Cons: "slice cursor e ls = ls ! cursor # slice (Suc cursor) e ls" if "cursor < e" "e \<le> length ls"
    using that by (simp add: slice_def Cons_nth_drop_Suc [symmetric] Suc_diff_Suc [symmetric])
  show ?case
  proof (cases "is_add p")
    case True
    then obtain t where p: "p = AddL t" by (cases p) auto
    obtain out' where o: "splice_ops h r ls cursor ps = Inr (out', e)" "out = apply_indent t r # out'"
      using 2(3) p by auto
    have "e = cursor + length (filter (\<lambda>p. \<not> is_add p) ps) \<and> e \<le> length ls \<and> follows r ps (slice cursor e ls) out'"
      by (rule 2(1) [OF True o(1) 2(4)])
    then show ?thesis using p o(2) by auto
  next
    case False
    then have ok: "cursor < length ls" "hl_normalize (ls ! cursor) = hl_normalize (op_line p)"
      and step: "\<not> (\<not> cursor < length ls \<or> hl_normalize (ls ! cursor) \<noteq> hl_normalize (op_line p))"
      using 2(3) False by (auto split: if_splits)
    obtain out' where o: "splice_ops h r ls (Suc cursor) ps = Inr (out', e)"
      "out = (case p of KeepL _ \<Rightarrow> ls ! cursor # out' | _ \<Rightarrow> out')"
      using 2(3) False ok by auto
    have "Suc cursor \<le> length ls" using ok(1) by simp
    then have "e = Suc cursor + length (filter (\<lambda>p. \<not> is_add p) ps) \<and> e \<le> length ls \<and> follows r ps (slice (Suc cursor) e ls) out'"
      by (rule 2(2) [OF False step o(1)])
    then show ?thesis
      using slice_Cons ok(1) ok(2) o(2) False by (cases p) (simp_all only: follows.simps filter.simps is_add.simps
        list.size simp_thms if_True if_False hl_op.case op_line.simps, auto)
  qed
qed (simp add: slice_def)

lemma splice_ops_verified:
  "verify_ops ls cursor ps \<Longrightarrow> cursor \<le> length ls \<Longrightarrow> \<exists>x. splice_ops h r ls cursor ps = Inr x"
  by (induction ls cursor ps rule: verify_ops.induct) (auto simp: split_def or_throw_def split: sum.splits if_splits)

text \<open>
  Where a hunk may land, in the lines as the hunks before it left them: where its anchor says, moved by as many lines as
  the file has grown; or, only when that fails, at the first line that reads as the anchor's quoted text; or, when that
  fails too, at the one place where its context occurs.
\<close>

definition fits :: "string list \<Rightarrow> nat \<Rightarrow> hunk \<Rightarrow> bool" where
  "fits cur s h =
     (\<forall>k<length (required_lines h). s + k < length cur \<and> hl_normalize (cur ! (s + k)) = required_lines h ! k)"

definition first_where :: "(nat \<Rightarrow> bool) \<Rightarrow> nat \<Rightarrow> nat \<Rightarrow> bool" where
  "first_where P n i = (i < n \<and> P i \<and> (\<forall>j<i. \<not> P j))"

definition named_lines :: "(string \<Rightarrow> string) \<Rightarrow> string list \<Rightarrow> hunk \<Rightarrow> nat list" where
  "named_lines sha ls h = filter (\<lambda>i. anchor_of sha (ls ! i) = hk_anchor h) [0..<length ls]"

definition moved :: "string list \<Rightarrow> string list \<Rightarrow> nat \<Rightarrow> nat" where
  "moved ls cur c = nat (min (max (int c + (int (length cur) - int (length ls))) 0) (int (length cur)))"

definition fits_at_anchor :: "(string \<Rightarrow> string) \<Rightarrow> string list \<Rightarrow> hunk \<Rightarrow> nat \<Rightarrow> bool" where
  "fits_at_anchor sha cur h i = (anchor_of sha (cur ! i) = hk_anchor h \<and> fits cur i h)"

definition fits_at_text :: "string list \<Rightarrow> hunk \<Rightarrow> nat \<Rightarrow> bool" where
  "fits_at_text cur h i = (\<exists>t. hk_text h = Some t \<and> hl_normalize (cur ! i) = hl_normalize t \<and> fits cur i h)"

definition anchor_fails :: "(string \<Rightarrow> string) \<Rightarrow> string list \<Rightarrow> string list \<Rightarrow> hunk \<Rightarrow> bool" where
  "anchor_fails sha ls cur h =
     ((\<forall>c\<in>set (named_lines sha ls h). \<not> fits cur (moved ls cur c) h)
        \<and> (length (named_lines sha ls h) = 1 \<longrightarrow> (\<forall>i<length cur. \<not> fits_at_anchor sha cur h i)))"

fun lands :: "(string \<Rightarrow> string) \<Rightarrow> string list \<Rightarrow> string list \<Rightarrow> hunk \<Rightarrow> nat \<Rightarrow> resolution \<Rightarrow> bool" where
  "lands sha ls cur h s ByAnchor =
     (\<exists>c. named_lines sha ls h = [c]
        \<and> (if fits cur (moved ls cur c) h then s = moved ls cur c else first_where (fits_at_anchor sha cur h) (length cur) s))"
| "lands sha ls cur h s Disambiguated =
     (length (named_lines sha ls h) > 1 \<and> filter (\<lambda>i. fits cur i h) (map (moved ls cur) (named_lines sha ls h)) = [s])"
| "lands sha ls cur h s RecoveredByText =
     (anchor_fails sha ls cur h \<and> first_where (fits_at_text cur h) (length cur) s)"
| "lands sha ls cur h s RecoveredByContext =
     (anchor_fails sha ls cur h \<and> (\<forall>i<length cur. \<not> fits_at_text cur h i) \<and> required_lines h \<noteq> []
        \<and> fits cur s h \<and> (\<forall>i. fits cur i h \<longrightarrow> i = s))"

text \<open>
  What a hunk does there: it replaces the lines its context and deletions go over. Added lines are indented by the
  difference between the patch's first line of context and the line of the file.
\<close>

definition edit_at :: "hunk \<Rightarrow> nat \<Rightarrow> string list \<Rightarrow> string list \<Rightarrow> bool" where
  "edit_at h s cur cur' =
     (\<exists>new. s + length (required_lines h) \<le> length cur
        \<and> cur' = take s cur @ new @ drop (s + length (required_lines h)) cur
        \<and> follows (indent_delta cur s h) (hk_ops h) (slice s (s + length (required_lines h)) cur) new)"

fun edits :: "(string \<Rightarrow> string) \<Rightarrow> string list \<Rightarrow> hunk list \<Rightarrow> resolution list \<Rightarrow> string list \<Rightarrow> string list \<Rightarrow> bool" where
  "edits sha ls [] [] cur out = (out = cur)"
| "edits sha ls (h # hs) (r # rs) cur out =
     (\<exists>s cur'. lands sha ls cur h s r \<and> edit_at h s cur cur' \<and> edits sha ls hs rs cur' out)"
| "edits sha ls hs rs cur out = False"

lemma fits_verify: "hl_verify cur s h = fits cur s h"
  by (simp add: verify_ops_iff fits_def required_lines_def)

lemma find_first: "find P [0..<n] = Some i \<longleftrightarrow> first_where P n i"
  by (auto simp: find_Some_iff first_where_def)

lemma find_none: "find P [0..<n] = None \<longleftrightarrow> (\<forall>i<n. \<not> P i)"
  by (auto simp: find_None_iff)

lemma context_hits_fits:
  assumes "required_lines h \<noteq> []"
  shows "set (context_hits cur (required_lines h)) = {s. fits cur s h}"
proof -
  have "s + length (required_lines h) \<le> length cur" if "fits cur s h" for s
    using that assms unfolding fits_def by (metis Suc_leI add_Suc_right diff_Suc_less length_greater_0_conv Suc_pred)
  then have "s < Suc (length cur)" "s + length (required_lines h) \<le> length cur" if "fits cur s h" for s
    using that by (meson add_leD1 le_imp_less_Suc)+
  then show ?thesis
    unfolding context_hits_def by (auto simp: list_all_iff simp del: upt_Suc) (auto simp: fits_def)
qed

lemma by_context_lands:
  assumes "by_context cur h = Inr (s, r)"
  shows "r = RecoveredByContext \<and> required_lines h \<noteq> [] \<and> fits cur s h \<and> (\<forall>i. fits cur i h \<longrightarrow> i = s)"
proof -
  have r: "r = RecoveredByContext" "required_lines h \<noteq> []" "context_hits cur (required_lines h) = [s]"
    using assms by (auto simp: by_context_def split: list.splits if_splits)
  then have "{i. fits cur i h} = {s}"
    using context_hits_fits [of h cur] by simp
  then show ?thesis using r by auto
qed

lemma by_text_lands:
  assumes "by_text cur h = Inr (s, r)" "anchor_fails sha ls cur h"
  shows "lands sha ls cur h s r"
proof (cases "hk_text h")
  case None
  then show ?thesis
    using assms by_context_lands [of cur h s r] by (auto simp: by_text_def fits_at_text_def)
next
  case (Some t)
  have eq: "(\<lambda>i. hl_normalize (cur ! i) = hl_normalize t \<and> hl_verify cur i h) = fits_at_text cur h"
    using Some by (simp add: fits_at_text_def fits_verify fun_eq_iff)
  show ?thesis
  proof (cases "find (fits_at_text cur h) [0..<length cur]")
    case None
    then show ?thesis
      using assms by_context_lands [of cur h s r] Some find_none [of "fits_at_text cur h" "length cur"] by (auto simp: by_text_def eq)
  next
    case found: (Some i)
    then show ?thesis
      using assms Some find_first [of "fits_at_text cur h" "length cur" i] by (auto simp: by_text_def eq)
  qed
qed

lemma locate_lands:
  assumes "locate sha (index_file sha content) cur h (int (length cur) - int (length (file_lines content))) = Inr (s, r)"
  shows "lands sha (file_lines content) cur h s r"
proof -
  let ?ls = "file_lines content"
  have named: "anchor_matches (index_file sha content) (hk_anchor h) = named_lines sha ?ls h"
    by (simp add: anchor_matches_filter named_lines_def)
  have clamp: "hl_clamp (int c + (int (length cur) - int (length ?ls))) (length cur) = moved ?ls cur c" for c
    by (simp add: hl_clamp_def moved_def)
  have live: "(\<lambda>i. anchor_of sha (cur ! i) = hk_anchor h \<and> fits cur i h) = fits_at_anchor sha cur h"
    by (simp add: fits_at_anchor_def fun_eq_iff)
  note loc = assms [unfolded locate_def named clamp fits_verify live Let_def]
  consider (none) "named_lines sha ?ls h = []" | (one) c where "named_lines sha ?ls h = [c]"
    | (many) c d cs where "named_lines sha ?ls h = c # d # cs"
    by (metis neq_Nil_conv)
  then show ?thesis
  proof cases
    case none
    then show ?thesis
      using loc by (intro by_text_lands) (simp_all add: anchor_fails_def)
  next
    case one
    show ?thesis
    proof (cases "fits cur (moved ?ls cur c) h")
      case True
      then show ?thesis using loc one by simp
    next
      case False
      show ?thesis
      proof (cases "find (fits_at_anchor sha cur h) [0..<length cur]")
        case None
        then have "anchor_fails sha ?ls cur h"
          using one False find_none [of "fits_at_anchor sha cur h" "length cur"] by (simp add: anchor_fails_def)
        then show ?thesis
          using loc one False None by (intro by_text_lands) simp_all
      next
        case (Some i)
        then show ?thesis
          using loc one False find_first [of "fits_at_anchor sha cur h" "length cur" i] by simp
      qed
    qed
  next
    case many
    define viable where "viable = filter (\<lambda>i. fits cur i h) (map (moved ?ls cur) (named_lines sha ?ls h))"
    have loc: "(case viable of [] \<Rightarrow> by_text cur h | [v] \<Rightarrow> Inr (v, Disambiguated) | v # w # vs \<Rightarrow> Inl (ambiguous_error h (v # w # vs))) = Inr (s, r)"
      using loc unfolding viable_def many by (simp only: list.case)
    show ?thesis
    proof (cases viable)
      case Nil
      then have "\<not> fits cur (moved ?ls cur c) h" if "c \<in> set (named_lines sha ?ls h)" for c
        using that unfolding viable_def by (auto simp: filter_empty_conv)
      then have "anchor_fails sha ?ls cur h" using many by (simp add: anchor_fails_def)
      then show ?thesis using loc Nil by (intro by_text_lands) simp_all
    next
      case (Cons v vs)
      then have "vs = [] \<and> s = v \<and> r = Disambiguated" using loc by (cases vs) auto
      then show ?thesis using Cons many unfolding viable_def by simp
    qed
  qed
qed

lemma length_required: "length (filter (\<lambda>p. \<not> is_add p) (hk_ops h)) = length (required_lines h)"
  by (simp add: required_lines_def)

lemma splice_hunk_edit:
  assumes "splice_hunk ls s h = Inr ls'" "s \<le> length ls"
  shows "edit_at h s ls ls'"
proof -
  obtain out e where *: "splice_ops h (indent_delta ls s h) ls s (hk_ops h) = Inr (out, e)" "ls' = take s ls @ out @ drop e ls"
    using assms(1) by (auto simp: splice_hunk_def)
  have "e = s + length (required_lines h) \<and> e \<le> length ls \<and> follows (indent_delta ls s h) (hk_ops h) (slice s e ls) out"
    using splice_ops_follows [OF *(1) assms(2)] unfolding length_required .
  then show ?thesis
    unfolding edit_at_def using *(2) by blast
qed

lemma apply_from_edits:
  "apply_from sha (index_file sha content) hs cur (int (length cur) - int (length (file_lines content))) = Inr (out, rs) \<Longrightarrow>
   edits sha (file_lines content) hs rs cur out \<and> length rs = length hs"
proof (induction hs arbitrary: cur out rs)
  case (Cons h hs)
  let ?drift = "\<lambda>cur. int (length cur) - int (length (file_lines content))"
  obtain s r cur' rs' where loc: "locate sha (index_file sha content) cur h (?drift cur) = Inr (s, r)" and spl: "splice_hunk cur s h = Inr cur'"
    and rest: "apply_from sha (index_file sha content) hs cur' (?drift cur + (int (length cur') - int (length cur))) = Inr (out, rs')"
    and rs: "rs = r # rs'"
    using Cons.prems by auto
  have "?drift cur + (int (length cur') - int (length cur)) = ?drift cur'" by simp
  from Cons.IH [OF rest [unfolded this]] show ?case
    using splice_hunk_edit [OF spl] locate_verified [OF loc] locate_lands [OF loc] rs by auto
qed simp

lemma apply_from_error:
  "apply_from sha ix hs ls offset = Inl e \<Longrightarrow> \<exists>h\<in>set hs. e = not_found_error h \<or> (\<exists>v. e = ambiguous_error h v)"
proof (induction hs arbitrary: ls offset)
  case (Cons h hs)
  show ?case
  proof (cases "locate sha ix ls h offset")
    case (Inl e')
    then show ?thesis using Cons.prems locate_error [OF Inl] by simp
  next
    case (Inr sr)
    obtain s r where sr: "sr = (s, r)" by force
    have "\<exists>ls'. splice_hunk ls s h = Inr ls'"
      using splice_ops_verified [of ls s "hk_ops h" h "indent_delta ls s h"] locate_verified Inr sr
      by (auto simp: splice_hunk_def)
    then show ?thesis
      using Cons.prems Inr sr Cons.IH by (fastforce simp: or_throw_Inl)
  qed
qed simp

text \<open>
  C40. A patch that applies is a sequence of edits of the lines of the file, one for each hunk in their order, each with the
  way it was placed. A hunk lands where its anchor says: at the one line of the file that has it, moved by the lines that
  the hunks before added or took, where its context and deletions agree with the lines but for white space, or else at the
  first line that has the anchor by then; of several such lines at the only one that fits; when that fails at the first
  line that reads as the quoted text, and at last at the only place where the context occurs. It replaces exactly the lines
  its context and deletions go over: what it keeps is the line as it stands, what it adds is the line of the patch,
  re-indented to the place. The lines are those of the file without the carriage returns at their ends, which are not
  written back; the final line break is kept, and the count of lines is right.
\<close>

theorem patch_refines_edits:
  assumes "apply_hunks sha content hs = Inr r"
  shows "\<exists>out. edits sha (file_lines content) hs (ap_resolutions r) (file_lines content) out
    \<and> ap_content r = (if ends_with content [u_lf] then unlines out @ [u_lf] else unlines out)
    \<and> length (ap_resolutions r) = length hs
    \<and> ap_delta r = int (length out) - int (length (file_lines content))"
proof -
  obtain out rs where out: "apply_from sha (index_file sha content) hs (file_lines content) 0 = Inr (out, rs)"
    and r: "r = \<lparr>ap_content = hl_render (index_file sha content) out, ap_resolutions = rs,
      ap_delta = int (length out) - int (length (file_lines content))\<rparr>"
    using assms by (auto simp: apply_hunks_def Let_def)
  then show ?thesis
    using apply_from_edits [of sha content hs "file_lines content" out rs] by (intro exI [of _ out]) (simp add: hl_render_def)
qed

text \<open>
  A patch that does not apply fails for one of two reasons and names the hunk: its anchor was not found, or it
  fits in several places. The third error of the code, a hunk that landed where its context does not match,
  never occurs, because every way of finding a place checks it first.
\<close>

theorem patch_error_names_hunk:
  assumes "apply_hunks sha content hs = Inl e"
  shows "\<exists>h\<in>set hs. e = not_found_error h \<or> (\<exists>viable. e = ambiguous_error h viable)"
proof -
  have "apply_from sha (index_file sha content) hs (ix_lines (index_file sha content)) 0 = Inl e"
    using assms by (auto simp: apply_hunks_def Let_def or_throw_Inl)
  then show ?thesis by (rule apply_from_error)
qed

text \<open>
  One hunk whose anchor is that of exactly one line, and whose context is there, changes the file exactly at
  that line.
\<close>

theorem unique_anchor_lands:
  assumes "filter (\<lambda>i. anchor_of sha (file_lines content ! i) = hk_anchor h) [0..<length (file_lines content)] = [c]"
    and "hl_verify (file_lines content) c h"
  shows "\<exists>r new n. apply_hunks sha content [h] = Inr r
    \<and> follows (indent_delta (file_lines content) c h) (hk_ops h) (slice c (c + n) (file_lines content)) new
    \<and> ap_content r = (let ls = take c (file_lines content) @ new @ drop (c + n) (file_lines content)
         in if ends_with content [u_lf] then unlines ls @ [u_lf] else unlines ls)"
proof -
  let ?ls = "file_lines content" and ?ix = "index_file sha content"
  have "c \<in> set (filter (\<lambda>i. anchor_of sha (?ls ! i) = hk_anchor h) [0..<length ?ls])" by (simp only: assms(1)) simp
  then have c: "c < length ?ls" by simp
  have "locate sha ?ix ?ls h 0 = Inr (c, ByAnchor)"
    using assms c by (simp add: locate_def anchor_matches_filter hl_clamp_def Let_def)
  moreover obtain new e where new: "splice_ops h (indent_delta ?ls c h) ?ls c (hk_ops h) = Inr (new, e)"
    using splice_ops_verified [OF assms(2) less_imp_le [OF c]] by force
  ultimately obtain r where r: "apply_hunks sha content [h] = Inr r"
    "ap_content r = hl_render ?ix (take c ?ls @ new @ drop e ?ls)"
    by (auto simp: apply_hunks_def Let_def splice_hunk_def)
  have "e = c + length (filter (\<lambda>p. \<not> is_add p) (hk_ops h)) \<and> e \<le> length ?ls
      \<and> follows (indent_delta ?ls c h) (hk_ops h) (slice c e ?ls) new"
    by (rule splice_ops_follows [OF new less_imp_le [OF c]])
  then show ?thesis
    using r by (intro exI [of _ r] exI [of _ new] exI [of _ "length (filter (\<lambda>p. \<not> is_add p) (hk_ops h))"])
      (auto simp: hl_render_def Let_def)
qed

section \<open>Patches as they are written\<close>

fun print_op :: "hl_op \<Rightarrow> string" where
  "print_op (KeepL t) = t"
| "print_op (DelL t) = ''- '' @ t"
| "print_op (AddL t) = ''+ '' @ t"

definition print_hunk :: "hunk \<Rightarrow> string list" where
  "print_hunk h =
     (''anchor: h:'' @ hk_anchor h @ (case hk_text h of None \<Rightarrow> [] | Some t \<Rightarrow> '' -> '' @ [CHR 0x22] @ t @ [CHR 0x22]))
     # ''patch: |-|'' # map (\<lambda>p. CHR '' '' # CHR '' '' # print_op p) (hk_ops h)"

definition one_line :: "string \<Rightarrow> bool" where
  "one_line t = (u_lf \<notin> set t \<and> u_cr \<notin> set t)"

fun op_ok :: "hl_op \<Rightarrow> bool" where
  "op_ok (KeepL t) = (one_line t \<and> \<not> starts_with t ''-'' \<and> \<not> starts_with t ''+''
     \<and> \<not> starts_with (trim_start t) ''anchor:'' \<and> \<not> starts_with (trim_start t) ''patch:'')"
| "op_ok (DelL t) = one_line t"
| "op_ok (AddL t) = one_line t"

fun first_ok :: "hl_op \<Rightarrow> bool" where
  "first_ok (KeepL t) = (t \<noteq> [] \<and> \<not> is_ws (hd t))"
| "first_ok _ = True"

definition hunk_ok :: "hunk \<Rightarrow> bool" where
  "hunk_ok h =
     (hk_anchor h \<noteq> [] \<and> list_all hex_char (hk_anchor h) \<and> hk_text h \<noteq> Some []
      \<and> (case hk_text h of None \<Rightarrow> True | Some t \<Rightarrow> one_line t)
      \<and> hk_ops h \<noteq> [] \<and> list_all op_ok (hk_ops h) \<and> first_ok (hd (hk_ops h)))"

definition body_state :: "hunk list \<Rightarrow> hunk \<Rightarrow> nat option \<Rightarrow> hl_parse" where
  "body_state hs h ind = \<lparr>hp_hunks = hs, hp_current = Some h, hp_body = True, hp_indent = ind\<rparr>"

lemma read_print_op: "op_ok p \<Longrightarrow> read_op (print_op p) = p"
  by (cases p) (auto simp: read_op_def strip_marker_def starts_with_def)

lemma print_op_not_header:
  "op_ok p \<Longrightarrow> \<not> starts_with (trim_start (print_op p)) ''anchor:'' \<and> \<not> starts_with (trim_start (print_op p)) ''patch:''"
  by (cases p) (auto simp: trim_start_def starts_with_def is_ws_def)

lemma trim_start_indent: "trim_start (CHR '' '' # CHR '' '' # s) = trim_start s"
  by (simp add: trim_start_def)

lemma body_line_indent: "body_line 2 (CHR '' '' # CHR '' '' # s) = s"
  by (simp add: body_line_def slice_def trim_def trim_start_def trim_end_def)

lemma first_print: "first_ok p \<Longrightarrow> print_op p \<noteq> [] \<and> \<not> is_ws (hd (print_op p))"
  by (cases p) (auto simp: is_ws_def)

lemma parse_step_op:
  assumes "op_ok p" and "ind = Some 2 \<and> hk_ops h \<noteq> [] \<or> ind = None \<and> first_ok p"
  shows "parse_step (CHR '' '' # CHR '' '' # print_op p) (body_state hs h ind)
    = Inr (body_state hs (h\<lparr>hk_ops := hk_ops h @ [p]\<rparr>) (Some 2))"
proof -
  have head: "\<not> starts_with (trim_start (print_op p)) ''anchor:''" "\<not> starts_with (trim_start (print_op p)) ''patch:''"
    using print_op_not_header [OF assms(1)] by auto
  have blank: "\<not> (trim (CHR '' '' # CHR '' '' # print_op p) = [] \<and> hk_ops h = [])"
  proof
    assume blank: "trim (CHR '' '' # CHR '' '' # print_op p) = [] \<and> hk_ops h = []"
    then have "first_ok p" using assms(2) by auto
    then have "trim_start (print_op p) = print_op p" "print_op p \<noteq> []"
      using first_print [of p] by (auto simp: trim_start_fix)
    then have "trim_end (print_op p) = []" using blank by (simp add: trim_def trim_start_indent)
    then show False using first_print [OF \<open>first_ok p\<close>] by (cases "print_op p") (auto simp: dropWhile_rev_ws)
  qed
  have ind: "(case ind of Some n \<Rightarrow> n | None \<Rightarrow> length (CHR '' '' # CHR '' '' # print_op p) - length (trim_start (print_op p))) = 2"
  proof (cases ind)
    case None
    then have "trim_start (print_op p) = print_op p"
      using assms(2) first_print [of p] by (auto simp: trim_start_fix)
    then show ?thesis using None by simp
  qed (use assms(2) in auto)
  show ?thesis
    unfolding parse_step_def trim_start_indent Let_def ind
    using head blank by (auto simp: body_state_def ind body_line_indent read_print_op [OF assms(1)] simp del: list.size)
qed

lemma parse_ops_rest:
  "list_all op_ok ps \<Longrightarrow> hk_ops h \<noteq> [] \<Longrightarrow>
   parse_lines (map (\<lambda>p. CHR '' '' # CHR '' '' # print_op p) ps) (body_state hs h (Some 2))
     = Inr (body_state hs (h\<lparr>hk_ops := hk_ops h @ ps\<rparr>) (Some 2))"
  by (induction ps arbitrary: h) (simp_all add: parse_step_op)

lemma parse_ops:
  assumes "list_all op_ok ps" "ps \<noteq> []" "first_ok (hd ps)"
  shows "parse_lines (map (\<lambda>p. CHR '' '' # CHR '' '' # print_op p) ps) (body_state hs \<lparr>hk_anchor = a, hk_text = t, hk_ops = []\<rparr> None)
     = Inr (body_state hs \<lparr>hk_anchor = a, hk_text = t, hk_ops = ps\<rparr> (Some 2))"
  using assms by (cases ps) (simp_all add: parse_step_op parse_ops_rest)

lemma parse_lines_append: "parse_lines (xs @ ys) st = or_throw (parse_lines xs st) (parse_lines ys)"
  by (induction xs arbitrary: st) (auto simp: or_throw_def split: sum.splits)

lemma trim_pad:
  assumes "list_all is_ws u" "list_all is_ws v" "s \<noteq> []" "\<not> is_ws (hd s)" "\<not> is_ws (last s)"
  shows "trim (u @ s @ v) = s"
proof -
  have "trim_start (u @ s @ v) = s @ v"
    using assms(1,3,4) by (cases s) (simp_all add: trim_start_def dropWhile_append2 list_all_iff)
  moreover have "trim_end (s @ v) = s"
  proof -
    have "dropWhile is_ws (rev v @ rev s) = dropWhile is_ws (rev s)"
      by (rule dropWhile_append2) (use assms(2) in \<open>auto simp: list_all_iff\<close>)
    also have "\<dots> = rev s"
      using assms(3,5) by (cases s rule: rev_cases) simp_all
    finally show ?thesis by (simp add: trim_end_def)
  qed
  ultimately show ?thesis by (simp add: trim_def)
qed

lemma hex_char_facts:
  assumes "hex_char c"
  shows "\<not> is_ws c" "c \<noteq> CHR ''-''" "c \<noteq> CHR ''>''" "c \<noteq> u_arrow" "\<not> (CHR ''A'' \<le> c \<and> c \<le> CHR ''Z'')"
  using assms
  by (auto simp: hex_char_def is_digit_def is_ws_def u_arrow_def less_eq_char_def)

lemma to_lower_hex: "list_all hex_char a \<Longrightarrow> to_lower a = a"
  by (induction a) (auto simp: to_lower_def hex_char_facts(5))

lemma index_of_dash: "CHR ''-'' \<notin> set p \<Longrightarrow> index_of ''->'' (p @ CHR ''-'' # CHR ''>'' # q) = Some (length p)"
  by (induction p) auto

lemma no_arrow: "c \<notin> set s \<Longrightarrow> c \<in> set p \<Longrightarrow> \<not> str_includes s p"
  unfolding str_includes_def
  by (metis UnCI index_of_SomeD not_None_eq set_append)

lemma hex_ends:
  assumes "list_all hex_char a" "a \<noteq> []"
  shows "\<not> is_ws (last a)"
  using assms hex_char_facts(1) [of "last a"] by (simp add: list_all_iff)

lemma parse_anchor_bare:
  assumes "list_all hex_char a" "a \<noteq> []"
  shows "parse_anchor ('' h:'' @ a) = Inr (a, None)"
proof -
  have s: "trim ('' h:'' @ a) = ''h:'' @ a" "trim (''h:'' @ a) = ''h:'' @ a" "trim a = a"
    using trim_pad [of "'' ''" "[]" "''h:'' @ a"] trim_pad [of "[]" "[]" "''h:'' @ a"] trim_pad [of "[]" "[]" a] assms hex_ends
      hex_char_facts(1) [of "hd a"]
    by (simp_all add: is_ws_def list_all_iff)
  have "CHR ''>'' \<notin> set (''h:'' @ a)" "u_arrow \<notin> set (''h:'' @ a)"
    using assms(1) hex_char_facts(3,4) by (auto simp: list_all_iff u_arrow_def)
  then have "\<not> str_includes (''h:'' @ a) ''->''" "\<not> str_includes (''h:'' @ a) [u_arrow]"
    using no_arrow [of "CHR ''>''" "''h:'' @ a" "''->''"] no_arrow [of u_arrow "''h:'' @ a" "[u_arrow]"] by simp_all
  then show ?thesis
    using assms s by (simp add: parse_anchor_def starts_with_def to_lower_hex truthy_def)
qed

lemma parse_anchor_text:
  assumes "list_all hex_char a" "a \<noteq> []" "t \<noteq> []"
  shows "parse_anchor ('' h:'' @ a @ '' -> '' @ [CHR 0x22] @ t @ [CHR 0x22]) = Inr (a, Some t)"
proof -
  let ?q = "CHR 0x22 # t @ [CHR 0x22]"
  let ?s = "(''h:'' @ a @ '' '') @ CHR ''-'' # CHR ''>'' # CHR '' '' # ?q"
  have s: "trim ('' h:'' @ a @ '' -> '' @ [CHR 0x22] @ t @ [CHR 0x22]) = ?s"
    using trim_pad [of "'' ''" "[]" ?s] by (simp add: is_ws_def)
  have name: "trim (''h:'' @ a @ '' '') = ''h:'' @ a" "trim a = a"
    using trim_pad [of "[]" "'' ''" "''h:'' @ a"] trim_pad [of "[]" "[]" a] assms hex_ends hex_char_facts(1) [of "hd a"]
    by (simp_all add: is_ws_def list_all_iff)
  have q: "trim (CHR '' '' # ?q) = ?q"
    using trim_pad [of "'' ''" "[]" ?q] by (simp add: is_ws_def)
  have "CHR ''-'' \<notin> set (''h:'' @ a @ '' '')"
    using assms(1) hex_char_facts(2) by (auto simp: list_all_iff)
  then have i: "index_of ''->'' ?s = Some (length (''h:'' @ a @ '' ''))"
    by (rule index_of_dash)
  then have inc: "str_includes ?s ''->''"
    unfolding str_includes_def by simp
  have parts: "slice 0 (length (''h:'' @ a @ '' '')) ?s = ''h:'' @ a @ '' ''"
    "drop (length (''h:'' @ a @ '' '') + length ''->'') ?s = CHR '' '' # ?q"
    by (simp_all add: slice_def)
  have strip: "strip_quotes ?q = t"
    by (simp add: strip_quotes_def starts_with_def ends_with_def)
  show ?thesis
    unfolding parse_anchor_def s Let_def
    using inc i parts name q strip assms by (simp add: starts_with_def to_lower_hex truthy_def del: append_assoc append_Cons)
qed

lemma parse_hunk:
  assumes "hunk_ok h"
  shows "parse_lines (print_hunk h) st = Inr (body_state (close_hunk st) h (Some 2))"
proof -
  obtain a t ps where h: "h = \<lparr>hk_anchor = a, hk_text = t, hk_ops = ps\<rparr>" by (cases h)
  have ok: "a \<noteq> []" "list_all hex_char a" "t \<noteq> Some []" "ps \<noteq> []" "list_all op_ok ps" "first_ok (hd ps)"
    using assms by (simp_all add: hunk_ok_def h)
  have anchor: "parse_step (''anchor: h:'' @ a @ (case t of None \<Rightarrow> [] | Some t \<Rightarrow> '' -> '' @ [CHR 0x22] @ t @ [CHR 0x22])) st
      = Inr \<lparr>hp_hunks = close_hunk st, hp_current = Some \<lparr>hk_anchor = a, hk_text = t, hk_ops = []\<rparr>, hp_body = False, hp_indent = None\<rparr>"
    using parse_anchor_bare [OF ok(2,1)] parse_anchor_text [OF ok(2,1)] ok(3)
    by (cases t) (simp_all add: parse_step_def trim_start_def starts_with_def is_ws_def)
  have patch: "parse_step ''patch: |-|'' \<lparr>hp_hunks = hs, hp_current = Some g, hp_body = False, hp_indent = None\<rparr> = Inr (body_state hs g None)" for hs g
    by (simp add: parse_step_def trim_start_def starts_with_def is_ws_def body_state_def)
  show ?thesis
    by (simp only: print_hunk_def h hunk.simps parse_lines.simps anchor patch or_throw_simps parse_ops [OF ok(5,4,6)])
qed

lemma close_body [simp]: "close_hunk (body_state hs h ind) = hs @ [h]"
  by (simp add: close_hunk_def body_state_def)

lemma parse_hunks:
  "list_all hunk_ok hs \<Longrightarrow> \<exists>st'. parse_lines (concat (map print_hunk hs)) st = Inr st' \<and> close_hunk st' = close_hunk st @ hs"
proof (induction hs arbitrary: st)
  case (Cons h hs)
  then obtain st' where "parse_lines (concat (map print_hunk hs)) (body_state (close_hunk st) h (Some 2)) = Inr st'"
    "close_hunk st' = (close_hunk st @ [h]) @ hs"
    using Cons.IH [of "body_state (close_hunk st) h (Some 2)"] by auto
  then show ?case
    using Cons.prems by (simp add: parse_lines_append parse_hunk)
qed simp

lemma crlf_lines_unlines:
  assumes "ls \<noteq> []" "list_all one_line ls"
  shows "crlf_lines (unlines ls) = ls"
proof -
  have "lines_of (unlines ls) = ls"
    using assms by (intro split_on_join) (auto simp: list_all_iff one_line_def)
  moreover have "map strip_cr (butlast ls) = butlast ls"
  proof (rule map_idI)
    fix l
    assume "l \<in> set (butlast ls)"
    then have "u_cr \<notin> set l"
      using assms(2) by (auto simp: list_all_iff one_line_def dest: in_set_butlastD)
    then show "strip_cr l = l"
      by (auto simp: strip_cr_def ends_with_def suffix_def)
  qed
  ultimately show ?thesis
    using assms(1) by (simp add: crlf_lines_def Let_def)
qed

lemma hex_one_line: "list_all hex_char a \<Longrightarrow> one_line a"
  unfolding one_line_def list_all_iff by (metis hex_char_facts(1) is_ws_simps(1,2))

lemma print_one_line:
  assumes "hunk_ok h"
  shows "list_all one_line (print_hunk h)"
proof -
  have "one_line (print_op p)" if "op_ok p" for p
    using that by (cases p) (auto simp: one_line_def u_lf_def u_cr_def)
  then show ?thesis
    using assms hex_one_line
    by (auto simp: hunk_ok_def print_hunk_def list_all_iff one_line_def u_lf_def u_cr_def split: option.splits)
qed

text \<open>
  A patch in its textual form is read as the hunks it was written from, in their order, with the quoted text of
  each anchor and every line as it is.
\<close>

theorem patch_text_roundtrip:
  assumes "list_all hunk_ok hs" "hs \<noteq> []"
  shows "parse_patch (unlines (concat (map print_hunk hs))) = Inr hs"
proof -
  have lines: "crlf_lines (unlines (concat (map print_hunk hs))) = concat (map print_hunk hs)"
    using assms print_one_line by (intro crlf_lines_unlines) (auto simp: list_all_iff print_hunk_def neq_Nil_conv)
  obtain st where st: "parse_lines (concat (map print_hunk hs)) \<lparr>hp_hunks = [], hp_current = None, hp_body = False, hp_indent = None\<rparr> = Inr st"
    "close_hunk st = hs"
    using parse_hunks [OF assms(1), of "\<lparr>hp_hunks = [], hp_current = None, hp_body = False, hp_indent = None\<rparr>"]
    by (auto simp: close_hunk_def)
  have "find (\<lambda>h. hk_ops h = []) hs = None"
    using assms(1) by (auto simp: find_None_iff list_all_iff hunk_ok_def)
  then show ?thesis
    using assms(2) by (simp add: parse_patch_def lines st)
qed

theorem patch_text_roundtrip_witness:
  "parse_patch (unlines (concat (map print_hunk
     [\<lparr>hk_anchor = ''3f8a2b1c'', hk_text = Some ''foo {'', hk_ops = [DelL '' a'', AddL '' b'', KeepL ''}'']\<rparr>,
      \<lparr>hk_anchor = ''00ff'', hk_text = None, hk_ops = [AddL ''x'']\<rparr>])))
   = Inr [\<lparr>hk_anchor = ''3f8a2b1c'', hk_text = Some ''foo {'', hk_ops = [DelL '' a'', AddL '' b'', KeepL ''}'']\<rparr>,
      \<lparr>hk_anchor = ''00ff'', hk_text = None, hk_ops = [AddL ''x'']\<rparr>]"
  by (rule patch_text_roundtrip)
     (simp_all add: hunk_ok_def hex_char_def is_digit_def one_line_def u_lf_def u_cr_def starts_with_def trim_start_def is_ws_def)

section \<open>Where patches go wrong\<close>

text \<open>A hash of a few lines that are their own anchors.\<close>

definition demo_text :: string where
  "demo_text = ''a'' @ [u_lf] @ ''b'' @ [u_lf] @ ''c'' @ [u_lf] @ ''d'' @ [u_lf]"

theorem unique_anchor_lands_witness:
  "\<exists>r new n. apply_hunks id demo_text [\<lparr>hk_anchor = ''c'', hk_text = None, hk_ops = [DelL ''c'']\<rparr>] = Inr r
    \<and> follows NoIndent [DelL ''c''] (slice 2 (2 + n) [''a'', ''b'', ''c'', ''d'']) new
    \<and> ap_content r = (let ls = take 2 [''a'', ''b'', ''c'', ''d''] @ new @ drop (2 + n) [''a'', ''b'', ''c'', ''d'']
         in unlines ls @ [u_lf])"
proof -
  let ?h = "\<lparr>hk_anchor = ''c'', hk_text = None, hk_ops = [DelL ''c'']\<rparr>"
  have "file_lines demo_text = [''a'', ''b'', ''c'', ''d'']" "ends_with demo_text [u_lf]"
    "filter (\<lambda>i. anchor_of id (file_lines demo_text ! i) = hk_anchor ?h) [0..<length (file_lines demo_text)] = [2]"
    "hl_verify (file_lines demo_text) 2 ?h" "indent_delta [''a'', ''b'', ''c'', ''d''] 2 ?h = NoIndent"
    by code_simp+
  then show ?thesis
    using unique_anchor_lands [of id demo_text ?h 2] by simp
qed

theorem patch_refines_edits_witness:
  "\<exists>r out. apply_hunks id demo_text [\<lparr>hk_anchor = ''c'', hk_text = None, hk_ops = [DelL ''c'', AddL ''x'']\<rparr>] = Inr r
    \<and> edits id [''a'', ''b'', ''c'', ''d''] [\<lparr>hk_anchor = ''c'', hk_text = None, hk_ops = [DelL ''c'', AddL ''x'']\<rparr>] [ByAnchor]
         [''a'', ''b'', ''c'', ''d''] out
    \<and> ap_delta r = int (length out) - 4"
proof -
  let ?hs = "[\<lparr>hk_anchor = ''c'', hk_text = None, hk_ops = [DelL ''c'', AddL ''x'']\<rparr>]"
  have run: "apply_hunks id demo_text ?hs = Inr \<lparr>ap_content = ''a'' @ [u_lf] @ ''b'' @ [u_lf] @ ''x'' @ [u_lf] @ ''d'' @ [u_lf],
      ap_resolutions = [ByAnchor], ap_delta = 0\<rparr>"
    by code_simp
  have lines: "file_lines demo_text = [''a'', ''b'', ''c'', ''d'']"
    by code_simp
  show ?thesis
    using patch_refines_edits [OF run] run unfolding lines by (simp del: edits.simps) blast
qed

theorem patch_error_names_hunk_witness:
  "\<exists>e. apply_hunks id demo_text [\<lparr>hk_anchor = ''zz'', hk_text = None, hk_ops = [DelL ''x'']\<rparr>] = Inl e
    \<and> (e = not_found_error \<lparr>hk_anchor = ''zz'', hk_text = None, hk_ops = [DelL ''x'']\<rparr>
      \<or> (\<exists>v. e = ambiguous_error \<lparr>hk_anchor = ''zz'', hk_text = None, hk_ops = [DelL ''x'']\<rparr> v))"
proof -
  have "apply_hunks id demo_text [\<lparr>hk_anchor = ''zz'', hk_text = None, hk_ops = [DelL ''x'']\<rparr>]
      = Inl (HashlineError ''anchor h:zz not found'' AnchorNotFound)"
    by code_simp
  then show ?thesis
    using patch_error_names_hunk by fastforce
qed

text \<open>
  An insertion is not held to its anchor. A hunk without context is put where the drift of the hunks before it
  says, so after an insertion further down the file it lands below the line its anchor names: here the second hunk
  names the first line of the file and its text ends up on the third.
\<close>

theorem insertion_misplaced:
  "apply_hunks id demo_text
     [\<lparr>hk_anchor = ''d'', hk_text = None, hk_ops = [AddL ''x'', AddL ''y'']\<rparr>, \<lparr>hk_anchor = ''a'', hk_text = None, hk_ops = [AddL ''z'']\<rparr>]
   = Inr \<lparr>ap_content = ''a'' @ [u_lf] @ ''b'' @ [u_lf] @ ''z'' @ [u_lf] @ ''c'' @ [u_lf] @ ''x'' @ [u_lf] @ ''y'' @ [u_lf] @ ''d'' @ [u_lf],
       ap_resolutions = [ByAnchor, ByAnchor], ap_delta = 3\<rparr>"
  by code_simp

text \<open>
  A patch text that ends in a line break asks for an empty line after its last one, and is refused where there
  is none.
\<close>

theorem final_newline_refused:
  "map_sum id ap_content (patch_file id demo_text (''anchor: h:c'' @ [u_lf] @ ''patch: |-|'' @ [u_lf] @ '' - c''))
     = Inr (''a'' @ [u_lf] @ ''b'' @ [u_lf] @ ''d'' @ [u_lf])
   \<and> map_sum id ap_content (patch_file id demo_text (''anchor: h:c'' @ [u_lf] @ ''patch: |-|'' @ [u_lf] @ '' - c'' @ [u_lf]))
     = Inl (HashlineError ''anchor h:c not found'' AnchorNotFound)"
  by code_simp

text \<open>
  One edit to a file with CRLF line breaks turns every line break of it into LF.\<close>

theorem crlf_lost:
  "map_sum id ap_content (apply_hunks id (''a'' @ [u_cr, u_lf] @ ''b'' @ [u_cr, u_lf]) [\<lparr>hk_anchor = ''b'', hk_text = None, hk_ops = [DelL ''b'']\<rparr>])
     = Inr (''a'' @ [u_lf])"
  by code_simp

end
