(* ===== verification/Workspace.thy ===== *)
theory Workspace
  imports Tools Glob
begin

text \<open>
  Which files the file tools may touch: \<open>resolveInWorkspace\<close>, \<open>realPath\<close>, \<open>displayPath\<close> and \<open>isSecretFile\<close> of
  \<open>packages/tools/src/file.ts\<close>, on a POSIX host with the path functions of \<open>node:path\<close>.

  Where a path leads when the system opens it, links followed, is a parameter \<open>target\<close>; \<open>realpathSync\<close> gives that
  place when something is there and throws when nothing is, so also for a link that points at nothing.
\<close>

section \<open>Paths\<close>

fun common_len :: "string list \<Rightarrow> string list \<Rightarrow> nat" where
  "common_len (x # xs) (y # ys) = (if x = y then Suc (common_len xs ys) else 0)"
| "common_len _ _ = 0"

text \<open>\<open>relative(from, to)\<close> of two absolute paths.\<close>

definition rel_comps :: "string \<Rightarrow> string \<Rightarrow> string list" where
  "rel_comps from to =
     (let a = norm_comps from; b = norm_comps to; n = common_len a b in replicate (length a - n) ''..'' @ drop n b)"

definition relative :: "string \<Rightarrow> string \<Rightarrow> string" where
  "relative from to = join ''/'' (rel_comps from to)"

text \<open>\<open>dirname(p)\<close> of a path that starts with a slash.\<close>

definition dirname :: "string \<Rightarrow> string" where
  "dirname p =
     (let q = rev (dropWhile (\<lambda>c. c \<noteq> CHR ''/'') (dropWhile (\<lambda>c. c = CHR ''/'') (rev (tl p))))
      in if q = [] then ''/'' else if length q = 1 then ''//'' else CHR ''/'' # butlast q)"

lemma cut_length: "length (if q = [] then ''/'' else if length q = 1 then ''//'' else CHR ''/'' # butlast q) \<le> Suc (length q)"
  by simp

lemma dirname_shorter: "is_abs p \<Longrightarrow> dirname p \<noteq> p \<Longrightarrow> length (dirname p) < length p"
proof -
  let ?slash = "\<lambda>c. c = CHR ''/''"
  let ?r = "dropWhile ?slash (rev (tl p))"
  let ?q = "rev (dropWhile (\<lambda>c. \<not> ?slash c) ?r)"
  assume p: "is_abs p" "dirname p \<noteq> p"
  have shrink: "length (dropWhile P xs) < length xs" if "xs \<noteq> []" "P (hd xs)" for P and xs :: string
    using that by (cases xs) (simp_all add: less_Suc_eq_le length_dropWhile_le)
  have q: "length ?q < length (tl p)" if "?q \<noteq> []"
  proof -
    have r: "?r \<noteq> []"
    proof
      assume "?r = []"
      then have "?q = []" by (simp only: dropWhile.simps rev.simps)
      then show False using that by contradiction
    qed
    then have "\<not> ?slash (hd ?r)" by (rule hd_dropWhile)
    then have "length (dropWhile (\<lambda>c. \<not> ?slash c) ?r) < length ?r" by (rule shrink [OF r])
    moreover have "length ?r \<le> length (rev (tl p))" by (rule length_dropWhile_le)
    ultimately show ?thesis by simp
  qed
  obtain t where pt: "p = CHR ''/'' # t" using p(1) by (cases p) (auto simp: is_abs_def)
  have d: "dirname p = (if ?q = [] then ''/'' else if length ?q = 1 then ''//'' else CHR ''/'' # butlast ?q)"
    by (simp add: dirname_def Let_def)
  show "length (dirname p) < length p"
  proof (cases "?q = []")
    case True
    then have "dirname p = ''/''" by (simp only: d if_True refl)
    then show ?thesis using p(2) pt by (cases t) simp_all
  next
    case False
    then have "0 < length ?q" by (rule length_greater_0_conv [THEN iffD2])
    moreover have "length ?q < length t" using q [OF False] unfolding pt list.sel .
    moreover have "length (dirname p) \<le> Suc (length ?q)"
      unfolding d by (rule cut_length)
    ultimately show ?thesis unfolding pt length_Cons by linarith
  qed
qed

text \<open>\<open>path.slice(parent.length).replace(/^[\\\\/]+/, '')\<close>\<close>

definition last_part :: "string \<Rightarrow> string" where
  "last_part p = dropWhile (\<lambda>c. c = CHR ''/'' \<or> c = CHR 0x5C) (drop (length (dirname p)) p)"

text \<open>The host: where paths lead, and whether something is there.\<close>

record fs_host =
  fh_target :: "string \<Rightarrow> string"
  fh_present :: "string \<Rightarrow> bool"

definition realpath :: "fs_host \<Rightarrow> string \<Rightarrow> string option" where
  "realpath h p = (if fh_present h (fh_target h p) then Some (fh_target h p) else None)"

function real_path :: "fs_host \<Rightarrow> string \<Rightarrow> string" where
  "real_path h p =
     (case realpath h p of
        Some r \<Rightarrow> r
      | None \<Rightarrow> if \<not> is_abs p \<or> dirname p = p then p else abs_path (real_path h (dirname p) @ ''/'' @ last_part p))"
  by pat_completeness auto
termination
  by (relation "measure (\<lambda>(h, p). length p)") (auto simp: dirname_shorter)

declare real_path.simps [simp del]

definition outside_root :: "string \<Rightarrow> string \<Rightarrow> bool" where
  "outside_root base to =
     (let rel = relative base to in starts_with rel ''../'' \<or> rel = ''..'' \<or> is_abs rel)"

definition resolve_in_workspace :: "fs_host \<Rightarrow> string \<Rightarrow> string \<Rightarrow> tool_error + string" where
  "resolve_in_workspace h cwd path =
     (let absolute = (if is_abs path then path else abs_path (cwd @ ''/'' @ path))
      in if outside_root cwd absolute
         then Inl (ToolError (path @ '' is outside the project root ('' @ cwd @ '').'')
           (Some ''Work inside the project, or ask the user to start Jean Code from the directory you need.''))
         else if outside_root (real_path h cwd) (real_path h absolute)
         then Inl (ToolError (path @ '' is a link to somewhere outside the project root ('' @ cwd @ '').'')
           (Some ''Work on the files inside the project, not through links that leave it.''))
         else Inr absolute)"

definition display_path :: "string \<Rightarrow> string \<Rightarrow> string" where
  "display_path cwd absolute =
     (let rel = relative cwd absolute in if rel \<noteq> [] \<and> \<not> starts_with rel ''..'' then rel else absolute)"

section \<open>Credentials\<close>

text \<open>The last piece of \<open>path.split(/[\\\\/]/)\<close>.\<close>

definition base_name :: "string \<Rightarrow> string" where
  "base_name p = rev (takeWhile (\<lambda>c. c \<noteq> CHR ''/'' \<and> c \<noteq> CHR 0x5C) (rev p))"

definition secret_exact :: "string list" where
  "secret_exact = [''.env'', ''.netrc'', ''.npmrc'', ''.pypirc'', ''.git-credentials'', ''id_rsa'', ''id_dsa'', ''id_ecdsa'', ''id_ed25519'',
     ''credentials'']"

definition secret_endings :: "string list" where
  "secret_endings = [''.pem'', ''.key'', ''.p12'', ''.pfx'', ''.keystore'', ''.jks'']"

definition secrets_files :: "string list" where
  "secrets_files = concat (map (\<lambda>s. map (\<lambda>e. s @ e) [''.yml'', ''.yaml'', ''.json'', ''.toml'']) [''secret'', ''secrets''])"

definition env_templates :: "string list" where
  "env_templates = [''.env.example'', ''.env.sample'', ''.env.template'']"

definition secret_name :: "string \<Rightarrow> bool" where
  "secret_name p =
     (let name = to_lower (base_name p)
      in name \<notin> set env_templates
         \<and> (name \<in> set secret_exact \<or> starts_with name ''.env.'' \<or> list_ex (ends_with name) secret_endings
            \<or> list_ex (\<lambda>s. name = s \<or> ends_with name (CHR ''-'' # s) \<or> ends_with name (CHR ''_'' # s) \<or> ends_with name (CHR ''.'' # s))
                secrets_files))"

definition is_secret_file :: "fs_host \<Rightarrow> string \<Rightarrow> bool" where
  "is_secret_file h absolute = (secret_name absolute \<or> secret_name (real_path h absolute))"

section \<open>What being inside means\<close>

lemma common_len_prefix: "common_len a b = length a \<longleftrightarrow> prefix a b"
  by (induction a b rule: common_len.induct) auto

lemma common_len_le: "common_len a b \<le> length a"
  by (induction a b rule: common_len.induct) auto

lemma takeWhile_all: "\<forall>x\<in>set c. P x \<Longrightarrow> takeWhile P c = c"
  by (induction c) simp_all

lemma hd_join:
  assumes "cs \<noteq> []" "CHR ''/'' \<notin> set (hd cs)"
  shows "takeWhile (\<lambda>c. c \<noteq> CHR ''/'') (join ''/'' cs) = hd cs"
proof -
  obtain c ds where cs: "cs = c # ds" using assms(1) by (cases cs) auto
  have all: "\<forall>x\<in>set c. x \<noteq> CHR ''/''" using assms(2) cs by auto
  show ?thesis
  proof (cases ds)
    case Nil
    then show ?thesis using takeWhile_all [OF all] cs by simp
  next
    case (Cons d es)
    have "takeWhile (\<lambda>c. c \<noteq> CHR ''/'') (c @ CHR ''/'' # join ''/'' ds) = c"
      using all by (induction c) simp_all
    then show ?thesis using cs Cons by simp
  qed
qed

text \<open>A path is refused exactly when it does not lie under the root, read component by component.\<close>

lemma outside_root_iff: "outside_root base to \<longleftrightarrow> \<not> prefix (norm_comps base) (norm_comps to)"
proof -
  let ?a = "norm_comps base" and ?b = "norm_comps to"
  let ?n = "common_len ?a ?b"
  show ?thesis
  proof (cases "prefix ?a ?b")
    case True
    then have rel: "rel_comps base to = drop (length ?a) ?b"
      by (simp add: rel_comps_def Let_def common_len_prefix [THEN iffD2])
    have clean: "clean_comps (drop (length ?a) ?b)"
      using norm_comps_clean [of to] by (auto simp: clean_comps_def list_all_iff dest: in_set_dropD)
    show ?thesis
    proof (cases "drop (length ?a) ?b = []")
      case True
      then show ?thesis using \<open>prefix ?a ?b\<close>
        by (simp add: outside_root_def relative_def rel starts_with_def is_abs_def)
    next
      case False
      let ?c = "hd (drop (length ?a) ?b)"
      have c: "?c \<noteq> []" "?c \<noteq> ''..''" "CHR ''/'' \<notin> set ?c"
        using clean False hd_in_set [OF False] by (auto simp: clean_comps_def list_all_iff)
      have tw: "takeWhile (\<lambda>c. c \<noteq> CHR ''/'') (relative base to) = ?c"
        unfolding relative_def rel by (rule hd_join [OF False c(3)])
      have "\<not> starts_with (relative base to) ''../''"
      proof
        assume "starts_with (relative base to) ''../''"
        then have "takeWhile (\<lambda>c. c \<noteq> CHR ''/'') (relative base to) = ''..''"
          by (auto simp: starts_with_def prefix_def)
        then show False using tw c(2) by simp
      qed
      moreover have "relative base to \<noteq> ''..''" using tw c(2) by auto
      moreover have "\<not> is_abs (relative base to)"
        using tw c(1) by (cases "relative base to") (auto simp: is_abs_def)
      ultimately show ?thesis using True by (simp add: outside_root_def)
    qed
  next
    case False
    then have "?n < length ?a" using common_len_le [of ?a ?b] common_len_prefix [of ?a ?b] by simp
    then obtain m where "length ?a - ?n = Suc m" by (metis Suc_diff_Suc)
    then have rel: "rel_comps base to = ''..'' # (replicate m ''..'' @ drop ?n ?b)"
      by (simp add: rel_comps_def Let_def)
    then have "relative base to = ''..'' \<or> starts_with (relative base to) ''../''"
      unfolding relative_def rel
      by (cases "replicate m ''..'' @ drop ?n ?b") (simp_all add: starts_with_def)
    then show ?thesis using False by (auto simp: outside_root_def)
  qed
qed

lemma real_path_present: "fh_present h (fh_target h p) \<Longrightarrow> real_path h p = fh_target h p"
  by (simp add: real_path.simps [of h p] realpath_def)

definition inside :: "string \<Rightarrow> string \<Rightarrow> bool" where
  "inside base to = prefix (norm_comps base) (norm_comps to)"

lemma outside_root_inside [simp]: "outside_root base to \<longleftrightarrow> \<not> inside base to"
  by (simp add: outside_root_iff inside_def)

text \<open>
  A path is accepted exactly when it lies under the project root both as it is written and where it really is;
  what exists is then under the real root wherever links lead.
\<close>

theorem workspace_boundary:
  "(\<exists>a. resolve_in_workspace h cwd path = Inr a) \<longleftrightarrow>
     (let a = (if is_abs path then path else abs_path (cwd @ ''/'' @ path))
      in inside cwd a \<and> inside (real_path h cwd) (real_path h a))
   \<and> (\<forall>a. resolve_in_workspace h cwd path = Inr a \<and> fh_present h (fh_target h a) \<longrightarrow> inside (real_path h cwd) (fh_target h a))"
  by (simp add: resolve_in_workspace_def Let_def) (auto dest: real_path_present split: if_splits)

end
