(* ===== verification/Unified_Diff.thy ===== *)
theory Unified_Diff
  imports Tools Hashline
begin

text \<open>
  Unified diffs: \<open>applyUnifiedDiff\<close> of \<open>packages/tools/src/file.ts\<close>. The two nested loops over the lines of the diff
  are one walk with a flag, whether it is inside a hunk.
\<close>

section \<open>Headers\<close>

text \<open>The digits at the start of a text, and the optional \<open>,count\<close> after a number.\<close>

definition digits_of :: "string \<Rightarrow> (string \<times> string) option" where
  "digits_of s = (let ds = takeWhile is_digit s in if ds = [] then None else Some (ds, drop (length ds) s))"

definition skip_count :: "string \<Rightarrow> string" where
  "skip_count s =
     (case s of c # cs \<Rightarrow> if c = CHR '','' then (case digits_of cs of Some (_, rest) \<Rightarrow> rest | None \<Rightarrow> s) else s | [] \<Rightarrow> [])"

definition after :: "string \<Rightarrow> string \<Rightarrow> string option" where
  "after p s = (if starts_with s p then Some (drop (length p) s) else None)"

text \<open>\<open>/^@@ -(\\d+)(?:,(\\d+))? \\+\\d+(?:,\\d+)? @@/\<close>, as its first group.\<close>

definition hunk_header :: "string \<Rightarrow> nat option" where
  "hunk_header line =
     Option.bind (after ''@@ -'' line) (\<lambda>s.
     Option.bind (digits_of s) (\<lambda>(start, s).
     Option.bind (after '' +'' (skip_count s)) (\<lambda>s.
     Option.bind (digits_of s) (\<lambda>(_, s).
     Option.bind (after '' @@'' (skip_count s)) (\<lambda>_. Some (str_nat start))))))"

section \<open>The walk\<close>

record diff_state =
  ds_out :: "string list"
  ds_cursor :: nat
  ds_hunks :: nat
  ds_inside :: bool

definition order_error :: "nat \<Rightarrow> nat \<Rightarrow> tool_error" where
  "order_error hunks start =
     ToolError (''diff hunk '' @ nat_str hunks @ '' starts at line '' @ nat_str start @ '', before the previous hunk ended.'')
       (Some ''Hunks must be in ascending order and must not overlap.'')"

definition past_end_error :: "nat \<Rightarrow> tool_error" where
  "past_end_error hunks = ToolError (''diff hunk '' @ nat_str hunks @ '' runs past the end of the file.'') None"

definition expected_error :: "nat \<Rightarrow> string \<Rightarrow> nat \<Rightarrow> string \<Rightarrow> tool_error" where
  "expected_error hunks expected cursor actual =
     ToolError (''diff hunk '' @ nat_str hunks @ '' expected '' @ json_quote expected @ '' at line '' @ nat_str (cursor + 1)
       @ '' but found '' @ json_quote actual @ ''.'') (Some ''Regenerate the diff against the current file.'')"

text \<open>A header: the file is copied up to its line.\<close>

definition enter_hunk :: "string list \<Rightarrow> nat \<Rightarrow> diff_state \<Rightarrow> tool_error + diff_state" where
  "enter_hunk ls n st =
     (let hunks = ds_hunks st + 1; start = int n - 1
      in if start < int (ds_cursor st) then Inl (order_error hunks n)
         else Inr \<lparr>ds_out = ds_out st @ slice (ds_cursor st) (nat start) ls, ds_cursor = nat start, ds_hunks = hunks, ds_inside = True\<rparr>)"

text \<open>A line of a hunk's body.\<close>

definition hunk_body :: "string list \<Rightarrow> string \<Rightarrow> diff_state \<Rightarrow> tool_error + diff_state" where
  "hunk_body ls body st =
     (if starts_with body ''---'' \<or> starts_with body ''+++'' then Inr st
      else if starts_with body ''+'' then Inr (st\<lparr>ds_out := ds_out st @ [drop 1 body]\<rparr>)
      else if starts_with body ''-'' \<or> starts_with body '' '' \<or> body = [] then
        (if \<not> ds_cursor st < length ls then Inl (past_end_error (ds_hunks st))
         else (let actual = ls ! ds_cursor st
               in if body \<noteq> [] \<and> trim_end actual \<noteq> trim_end (drop 1 body)
                  then Inl (expected_error (ds_hunks st) (drop 1 body) (ds_cursor st) actual)
                  else Inr (st\<lparr>ds_out := (if starts_with body ''-'' then ds_out st else ds_out st @ [actual]),
                           ds_cursor := ds_cursor st + 1\<rparr>)))
      else Inr st)"

definition diff_step :: "string list \<Rightarrow> string \<Rightarrow> diff_state \<Rightarrow> tool_error + diff_state" where
  "diff_step ls line st =
     (if ds_inside st \<and> \<not> starts_with line ''@@'' then hunk_body ls line st
      else case hunk_header line of
             None \<Rightarrow> Inr (st\<lparr>ds_inside := False\<rparr>)
           | Some n \<Rightarrow> enter_hunk ls n st)"

fun diff_lines :: "string list \<Rightarrow> string list \<Rightarrow> diff_state \<Rightarrow> tool_error + diff_state" where
  "diff_lines ls [] st = Inr st"
| "diff_lines ls (d # ds) st = or_throw (diff_step ls d st) (diff_lines ls ds)"

definition apply_unified_diff :: "string \<Rightarrow> string \<Rightarrow> tool_error + (string \<times> nat)" where
  "apply_unified_diff content diff =
     or_throw (diff_lines (lines_of content) (crlf_lines diff) \<lparr>ds_out = [], ds_cursor = 0, ds_hunks = 0, ds_inside = False\<rparr>) (\<lambda>st.
       if ds_hunks st = 0 then Inl (ToolError ''no `@@` hunk headers found in the patch.'' (Some ''Use hashline mode instead.''))
       else Inr (unlines (ds_out st @ drop (ds_cursor st) (lines_of content)), ds_hunks st))"

section \<open>What an applied diff is\<close>

lemma diff_lines_append: "diff_lines ls (xs @ ys) st = or_throw (diff_lines ls xs st) (diff_lines ls ys)"
  by (induction xs arbitrary: st) (auto simp: or_throw_def split: sum.splits)

text \<open>
  One hunk over a window of the file: context and deletions agree with the file up to white space at the end of a
  line, context is kept as the file has it.
\<close>

fun print_line :: "hl_op \<Rightarrow> string" where
  "print_line (KeepL t) = CHR '' '' # t"
| "print_line (DelL t) = CHR ''-'' # t"
| "print_line (AddL t) = CHR ''+'' # t"

fun replays :: "hl_op list \<Rightarrow> string list \<Rightarrow> string list \<Rightarrow> bool" where
  "replays [] old new = (old = [] \<and> new = [])"
| "replays (KeepL t # ps) (x # old) (y # new) = (y = x \<and> trim_end x = trim_end t \<and> replays ps old new)"
| "replays (DelL t # ps) (x # old) new = (trim_end x = trim_end t \<and> replays ps old new)"
| "replays (AddL t # ps) old (y # new) = (y = t \<and> replays ps old new)"
| "replays ps old new = False"

definition plain_line :: "hl_op \<Rightarrow> bool" where
  "plain_line p = (\<not> starts_with (print_line p) ''---'' \<and> \<not> starts_with (print_line p) ''+++'')"

lemma body_step:
  assumes "plain_line p" "replays (p # ps) old new" "ls = pre @ old @ post"
  shows "\<exists>used made old' new'. old = used @ old' \<and> new = made @ new' \<and> replays ps old' new'
    \<and> hunk_body ls (print_line p) \<lparr>ds_out = out, ds_cursor = length pre, ds_hunks = n, ds_inside = True\<rparr>
      = Inr \<lparr>ds_out = out @ made, ds_cursor = length (pre @ used), ds_hunks = n, ds_inside = True\<rparr>"
proof (cases p)
  case (KeepL t)
  then obtain x old' new' where "old = x # old'" "new = x # new'" "trim_end x = trim_end t" "replays ps old' new'"
    using assms(2) by (cases old; cases new) auto
  then show ?thesis
    using assms KeepL by (intro exI [of _ "[x]"] exI [of _ old'] exI [of _ new'])
      (auto simp: hunk_body_def plain_line_def starts_with_def Let_def)
next
  case (DelL t)
  then obtain x old' where "old = x # old'" "trim_end x = trim_end t" "replays ps old' new"
    using assms(2) by (cases old; cases new) auto
  then show ?thesis
    using assms DelL by (intro exI [of _ "[x]"] exI [of _ "[]"] exI [of _ old'] exI [of _ new])
      (auto simp: hunk_body_def plain_line_def starts_with_def Let_def)
next
  case (AddL t)
  then obtain new' where "new = t # new'" "replays ps old new'"
    using assms(2) by (cases new) auto
  then show ?thesis
    using assms AddL by (intro exI [of _ "[]"] exI [of _ "[t]"] exI [of _ old] exI [of _ new'])
      (auto simp: hunk_body_def plain_line_def starts_with_def Let_def)
qed

lemma print_line_not_header: "\<not> starts_with (print_line p) ''@@''"
  by (cases p) (simp_all add: starts_with_def)

lemma body_steps:
  "list_all plain_line ps \<Longrightarrow> replays ps old new \<Longrightarrow> ls = pre @ old @ post \<Longrightarrow>
   diff_lines ls (map print_line ps) \<lparr>ds_out = out, ds_cursor = length pre, ds_hunks = n, ds_inside = True\<rparr>
     = Inr \<lparr>ds_out = out @ new, ds_cursor = length (pre @ old), ds_hunks = n, ds_inside = True\<rparr>"
proof (induction ps arbitrary: old new pre out)
  case (Cons p ps)
  have p: "plain_line p" using Cons.prems(1) by simp
  obtain used made old' new' where *: "old = used @ old'" "new = made @ new'" "replays ps old' new'"
    "hunk_body ls (print_line p) \<lparr>ds_out = out, ds_cursor = length pre, ds_hunks = n, ds_inside = True\<rparr>
      = Inr \<lparr>ds_out = out @ made, ds_cursor = length (pre @ used), ds_hunks = n, ds_inside = True\<rparr>"
    using body_step [OF p Cons.prems(2,3)] by blast
  have "diff_lines ls (map print_line ps) \<lparr>ds_out = out @ made, ds_cursor = length (pre @ used), ds_hunks = n, ds_inside = True\<rparr>
     = Inr \<lparr>ds_out = (out @ made) @ new', ds_cursor = length ((pre @ used) @ old'), ds_hunks = n, ds_inside = True\<rparr>"
    by (rule Cons.IH) (use Cons.prems * in simp_all)
  then show ?case
    using * by (simp add: diff_step_def print_line_not_header)
qed simp

lemma nat_str_digits: "list_all is_digit (nat_str n)"
proof -
  have digit: "is_digit (digit_char k)" if "k < 10" for k
  proof -
    have "list_all (\<lambda>k. is_digit (digit_char k)) [0..<10]" by code_simp
    then show ?thesis using that unfolding list_all_iff by auto
  qed
  show ?thesis
  proof (induction n rule: nat_str.induct)
    case (1 n)
    then show ?case using digit by (cases "n < 10") (subst nat_str.simps, simp)+
  qed
qed

lemma digits_of_nat_str: "\<not> is_digit c \<Longrightarrow> digits_of (nat_str n @ c # s) = Some (nat_str n, c # s)"
proof -
  assume c: "\<not> is_digit c"
  have "takeWhile is_digit (ds @ c # s) = ds" if "list_all is_digit ds" for ds
    using that c by (induction ds) simp_all
  then show ?thesis
    using nat_str_digits [of n] by (simp add: digits_of_def)
qed

text \<open>A range as \<open>diff\<close> prints it after so many lines: its first line and its length, and for an empty one the line before.\<close>

definition range_text :: "nat \<Rightarrow> nat \<Rightarrow> string" where
  "range_text before len = nat_str (if len = 0 then before else Suc before) @ '','' @ nat_str len"

definition header_line :: "nat \<Rightarrow> nat \<Rightarrow> nat \<Rightarrow> nat \<Rightarrow> string" where
  "header_line before len before' len' = ''@@ -'' @ range_text before len @ '' +'' @ range_text before' len' @ '' @@''"

lemma skip_count_text: "\<not> is_digit c \<Longrightarrow> skip_count (CHR '','' # nat_str n @ c # s) = c # s"
  by (simp add: skip_count_def digits_of_nat_str)

lemma after_append: "after p (p @ s) = Some s"
  by (simp add: after_def starts_with_def)

lemma after_blank: "after '' +'' (CHR '' '' # CHR ''+'' # s) = Some s" "after '' @@'' '' @@'' = Some []"
  by (simp_all add: after_def starts_with_def)

lemma hunk_header_line: "0 < len \<Longrightarrow> hunk_header (header_line before len before' len') = Some (Suc before)"
  unfolding hunk_header_def header_line_def range_text_def
  by (simp add: after_append [of "''@@ -''", simplified] digits_of_nat_str skip_count_text after_blank is_digit_def)

fun old_len :: "hl_op list \<Rightarrow> nat" where
  "old_len [] = 0"
| "old_len (p # ps) = (if is_add p then old_len ps else Suc (old_len ps))"

lemma replays_length: "replays ps old new \<Longrightarrow> length old = old_len ps"
  by (induction ps old new rule: replays.induct) auto

fun new_len :: "hl_op list \<Rightarrow> nat" where
  "new_len [] = 0"
| "new_len (DelL t # ps) = new_len ps"
| "new_len (p # ps) = Suc (new_len ps)"

text \<open>
  A unified diff of several hunks, each after a stretch of the file that it leaves alone, as \<open>diff\<close> and \<open>git\<close> write it:
  the headers count the lines of the old and of the new file.
\<close>

fun diff_of :: "nat \<Rightarrow> nat \<Rightarrow> (nat \<times> hl_op list) list \<Rightarrow> string list" where
  "diff_of n m [] = []"
| "diff_of n m ((gap, ps) # hs) =
     header_line (n + gap) (old_len ps) (m + gap) (new_len ps) # map print_line ps
       @ diff_of (n + gap + old_len ps) (m + gap + new_len ps) hs"

fun replays_all :: "(nat \<times> hl_op list) list \<Rightarrow> string list \<Rightarrow> string list \<Rightarrow> bool" where
  "replays_all [] ls out = (out = ls)"
| "replays_all ((gap, ps) # hs) ls out =
     (\<exists>skipped old new rest rest'. ls = skipped @ old @ rest \<and> out = skipped @ new @ rest' \<and> length skipped = gap
        \<and> replays ps old new \<and> replays_all hs rest rest')"

lemma replays_allI:
  "length skipped = gap \<Longrightarrow> replays ps old new \<Longrightarrow> replays_all hs rest rest' \<Longrightarrow>
   replays_all ((gap, ps) # hs) (skipped @ old @ rest) (skipped @ new @ rest')"
  unfolding replays_all.simps by blast

lemma diff_of_steps:
  "list_all (\<lambda>(gap, ps). list_all plain_line ps \<and> 0 < old_len ps) hs \<Longrightarrow> ls = pre @ here \<Longrightarrow> replays_all hs here res \<Longrightarrow>
   \<exists>st'. diff_lines ls (diff_of (length pre) m hs) \<lparr>ds_out = out, ds_cursor = length pre, ds_hunks = n, ds_inside = b\<rparr> = Inr st'
     \<and> ds_hunks st' = n + length hs \<and> ds_out st' @ drop (ds_cursor st') ls = out @ res"
proof (induction hs arbitrary: pre m here res out n b)
  case (Cons h hs)
  obtain gap ps where h: "h = (gap, ps)" by force
  obtain skipped old new rest rest' where *: "here = skipped @ old @ rest" "res = skipped @ new @ rest'" "length skipped = gap"
    "replays ps old new" "replays_all hs rest rest'"
    using Cons.prems(3) h by auto
  have head: "diff_step ls (header_line (length pre + gap) (old_len ps) (m + gap) (new_len ps)) \<lparr>ds_out = out, ds_cursor = length pre, ds_hunks = n, ds_inside = b\<rparr>
      = Inr \<lparr>ds_out = out @ skipped, ds_cursor = length (pre @ skipped), ds_hunks = Suc n, ds_inside = True\<rparr>"
    using * Cons.prems(1,2) h
    by (simp add: diff_step_def hunk_header_line enter_hunk_def Let_def slice_def)
       (simp add: header_line_def starts_with_def)
  have body: "diff_lines ls (map print_line ps) \<lparr>ds_out = out @ skipped, ds_cursor = length (pre @ skipped), ds_hunks = Suc n, ds_inside = True\<rparr>
     = Inr \<lparr>ds_out = (out @ skipped) @ new, ds_cursor = length ((pre @ skipped) @ old), ds_hunks = Suc n, ds_inside = True\<rparr>"
    by (rule body_steps [where post = rest]) (use Cons.prems * h in simp_all)
  obtain st' where st': "diff_lines ls (diff_of (length ((pre @ skipped) @ old)) (m + gap + new_len ps) hs)
      \<lparr>ds_out = (out @ skipped) @ new, ds_cursor = length ((pre @ skipped) @ old), ds_hunks = Suc n, ds_inside = True\<rparr> = Inr st'"
    "ds_hunks st' = Suc n + length hs" "ds_out st' @ drop (ds_cursor st') ls = ((out @ skipped) @ new) @ rest'"
    using Cons.IH [where pre = "(pre @ skipped) @ old" and here = rest and res = rest' and m = "m + gap + new_len ps"
        and out = "(out @ skipped) @ new" and n = "Suc n" and b = True] Cons.prems(1,2) * by auto
  have len: "length pre + gap + old_len ps = length ((pre @ skipped) @ old)"
    using * replays_length by simp
  have "diff_lines ls (diff_of (length pre) m (h # hs)) \<lparr>ds_out = out, ds_cursor = length pre, ds_hunks = n, ds_inside = b\<rparr> = Inr st'"
    by (simp only: h diff_of.simps diff_lines.simps head or_throw_simps diff_lines_append body len st'(1))
  then show ?case
    using st' * by auto
qed simp

fun op_one_line :: "hl_op \<Rightarrow> bool" where
  "op_one_line p = one_line (op_line p)"

lemma one_line_append: "one_line (a @ b) = (one_line a \<and> one_line b)"
  by (auto simp: one_line_def)

lemma one_line_nat: "one_line (nat_str k)"
  using nat_str_digits [of k] by (auto simp: one_line_def list_all_iff is_digit_def u_lf_def u_cr_def)

lemma one_line_range: "one_line (range_text a b)"
proof -
  have "one_line '','' " by (simp add: one_line_def u_lf_def u_cr_def)
  then show ?thesis by (simp add: range_text_def one_line_append one_line_nat del: nat_str.simps append.simps)
qed

lemma one_line_header: "one_line (header_line a b c d)"
proof -
  have "one_line ''@@ -''" "one_line '' +''" "one_line '' @@''" by (simp_all add: one_line_def u_lf_def u_cr_def)
  then show ?thesis by (simp add: header_line_def one_line_append one_line_range del: append.simps)
qed

lemma diff_of_one_line:
  "list_all (\<lambda>(gap, ps). list_all op_one_line ps) hs \<Longrightarrow> list_all one_line (diff_of n m hs)"
proof (induction hs arbitrary: n m)
  case (Cons h hs)
  have "one_line (print_line p)" if "op_one_line p" for p
    using that by (cases p) (simp_all add: one_line_def u_lf_def u_cr_def)
  then show ?case
    using Cons by (cases h) (auto simp: list_all_iff one_line_header)
qed simp

text \<open>What stands before the first header, the names of the files, is passed over.\<close>

lemma names_skipped:
  "list_all (\<lambda>l. hunk_header l = None) names \<Longrightarrow>
   diff_lines ls names \<lparr>ds_out = [], ds_cursor = 0, ds_hunks = 0, ds_inside = False\<rparr>
     = Inr \<lparr>ds_out = [], ds_cursor = 0, ds_hunks = 0, ds_inside = False\<rparr>"
  by (induction names) (simp_all add: diff_step_def)



lemma diff_of_sample:
  "diff_of 0 0 [(1, [DelL ''b'', AddL ''x'']), (1, [KeepL ''d'', AddL ''e''])]
     = [''@@ -2,1 +2,1 @@'', ''-b'', ''+x'', ''@@ -4,1 +4,2 @@'', '' d'', ''+e'']"
  by code_simp

section \<open>Where diffs go wrong\<close>

text \<open>
  A line that begins with two plus signs cannot be added: with its marker it looks like the name line of a file and
  is dropped without an error, and the edit reports success.
\<close>

theorem increment_dropped:
  "apply_unified_diff (unlines [''f() {'', ''}''])
     (unlines [''@@ -1,2 +1,3 @@'', '' f() {'', ''+++n;'', '' }'']) = Inr (unlines [''f() {'', ''}''], 1)"
  by code_simp

text \<open>
  A hunk without context inserts one line early: the header of an insertion after line two names line two, and the
  code puts the text before it.
\<close>

theorem insertion_one_early:
  "apply_unified_diff (unlines [''a'', ''b'', ''c'']) (unlines [''@@ -2,0 +3,1 @@'', ''+x'']) = Inr (unlines [''a'', ''x'', ''b'', ''c''], 1)"
  by code_simp

end
