(* ===== verification/FileTools.thy ===== *)
theory FileTools
  imports "HOL-Library.Word" Workspace Unified_Diff Replace
begin

text \<open>
  The tools \<open>read\<close>, \<open>write\<close> and \<open>edit\<close> of \<open>packages/tools/src/file.ts\<close>.

  The disk is a map from real locations to files (their bytes) and directories, and the session remembers the files
  it has read. Parameters (\<open>file_env\<close>): where paths lead, the UTF-8 coding, the order of names, how a directory's
  entries are listed, the sources registered by other packages, \<open>ssh\<close>, the readers of special formats, the native
  bridge and the hash of the anchors. A system error is its code. The arguments have passed the registry's
  validation. What a tool shows beside its output (\<open>display\<close>) is not modelled.
\<close>

section \<open>Disk and surroundings\<close>

datatype node = RegularFile "8 word list" | Directory

record file_env =
  fe_cwd :: string
  fe_spill :: string
  fe_target :: "string \<Rightarrow> string"
  fe_decode :: "8 word list \<Rightarrow> string"
  fe_encode :: "string \<Rightarrow> 8 word list"
  fe_dir_size :: "string \<Rightarrow> nat"
  fe_entries :: "(string \<Rightarrow> bool option) \<Rightarrow> string \<Rightarrow> (string \<times> bool) list"
  fe_name_le :: "string \<Rightarrow> string \<Rightarrow> bool"
  fe_sources :: "json \<Rightarrow> (exn + tool_result) option"
  fe_remote :: "json \<Rightarrow> (exn + tool_result) option"
  fe_special :: "node \<Rightarrow> string \<Rightarrow> string \<Rightarrow> json \<Rightarrow> (exn + tool_result) option"
  fe_native_anchors :: "string list \<Rightarrow> string list option"
  fe_native_patch :: "string \<Rightarrow> string \<Rightarrow> (hl_error + applied) option"
  fe_sha :: "string \<Rightarrow> string"

record fs_state =
  st_nodes :: "string \<Rightarrow> node option"
  st_read :: "string list"

definition host_of :: "file_env \<Rightarrow> fs_state \<Rightarrow> fs_host" where
  "host_of env w = \<lparr>fh_target = fe_target env, fh_present = (\<lambda>t. st_nodes w t \<noteq> None)\<rparr>"

definition node_at :: "file_env \<Rightarrow> fs_state \<Rightarrow> string \<Rightarrow> node option" where
  "node_at env w absolute = st_nodes w (fe_target env absolute)"

definition is_dir :: "node \<Rightarrow> bool" where
  "is_dir n = (n = Directory)"

definition mark_read :: "string \<Rightarrow> fs_state \<Rightarrow> fs_state" where
  "mark_read absolute w = w\<lparr>st_read := List.insert absolute (st_read w)\<rparr>"

definition throw_tool :: "string \<Rightarrow> string option \<Rightarrow> fs_state \<Rightarrow> (exn + 'a) \<times> fs_state" where
  "throw_tool msg hint w = (Inl (ToolExn (ToolError msg hint)), w)"

definition result_ok :: "string \<Rightarrow> string list \<Rightarrow> tool_result" where
  "result_ok output touched = \<lparr>tr_output = output, tr_error = False, tr_touched = touched\<rparr>"

definition str_arg :: "json \<Rightarrow> string \<Rightarrow> string" where
  "str_arg args key = (case jget args key of JStr s \<Rightarrow> s | _ \<Rightarrow> [])"

text \<open>\<open>Math.max(1, args.key ?? default)\<close> of an integer.\<close>

definition count_arg :: "json \<Rightarrow> string \<Rightarrow> nat \<Rightarrow> nat" where
  "count_arg args key dflt = (case jget args key of JNum n \<Rightarrow> max 1 (nat n) | _ \<Rightarrow> max 1 dflt)"

section \<open>Showing lines\<close>

definition max_line_chars :: nat where "max_line_chars = 2000"
definition default_line_limit :: nat where "default_line_limit = 2000"
definition large_file_bytes :: nat where "large_file_bytes = 256 * 1024"

definition clamp_line :: "string \<Rightarrow> string" where
  "clamp_line line =
     (if length line > max_line_chars
      then take max_line_chars line @ [u_ellipsis] @ '' ['' @ nat_str (length line - max_line_chars) @ '' more chars]''
      else line)"

definition gutter_line :: "(string \<Rightarrow> string) \<Rightarrow> nat \<Rightarrow> string list option \<Rightarrow> nat \<Rightarrow> nat \<Rightarrow> string \<Rightarrow> string" where
  "gutter_line sha width anchors first i line =
     (let anchor = (case anchors of
                      Some as \<Rightarrow> if i < length as then as ! i else anchor_of sha (strip_cr line)
                    | None \<Rightarrow> anchor_of sha (strip_cr line))
      in pad_start width (nat_str (first + i)) @ '' h:'' @ anchor @ '' '' @ [u_bar] @ '' '' @ clamp_line line)"

definition gutter :: "(string \<Rightarrow> string) \<Rightarrow> string list \<Rightarrow> nat \<Rightarrow> string list option \<Rightarrow> string" where
  "gutter sha ls first anchors =
     (let width = length (nat_str (first + length ls - 1))
      in unlines (map (\<lambda>(i, line). gutter_line sha width anchors first i line) (List.enumerate 0 ls)))"

text \<open>\<open>(bytes / unit).toFixed(1)\<close>: the nearest tenth, the larger of two; the units are powers of two, so the quotient is exact.\<close>

definition tenths :: "nat \<Rightarrow> nat \<Rightarrow> string" where
  "tenths bytes unit = (let n = (20 * bytes + unit) div (2 * unit) in nat_str (n div 10) @ ''.'' @ nat_str (n mod 10))"

definition format_bytes :: "nat \<Rightarrow> string" where
  "format_bytes bytes =
     (if bytes < 1024 then nat_str bytes @ '' B''
      else if bytes < 1024 * 1024 then tenths bytes 1024 @ '' KB''
      else tenths bytes (1024 * 1024) @ '' MB'')"

section \<open>read\<close>

definition is_spilled :: "string \<Rightarrow> string \<Rightarrow> bool" where
  "is_spilled dir absolute =
     (let rel = relative dir absolute
      in rel \<noteq> [] \<and> \<not> starts_with rel ''..'' \<and> \<not> str_includes rel ''../'' \<and> \<not> is_abs rel)"

definition is_binary :: "8 word list \<Rightarrow> bool" where
  "is_binary bytes = (0 \<in> set (take 8192 bytes))"

text \<open>One page of a file, and the offset of the next one if lines are left.\<close>

definition page :: "string list \<Rightarrow> nat \<Rightarrow> nat \<Rightarrow> string list" where
  "page ls offset limit = slice (offset - 1) (offset - 1 + limit) ls"

definition next_offset :: "string list \<Rightarrow> nat \<Rightarrow> nat \<Rightarrow> nat option" where
  "next_offset ls offset limit =
     (let n = length (page ls offset limit) in if offset - 1 + n < length ls then Some (offset + n) else None)"

definition page_footer :: "string list \<Rightarrow> nat \<Rightarrow> nat \<Rightarrow> string" where
  "page_footer ls offset limit =
     (case next_offset ls offset limit of
        None \<Rightarrow> []
      | Some n \<Rightarrow> [u_lf, u_lf] @ ''['' @ nat_str (length ls - (n - 1)) @ '' more lines '' @ [u_emdash]
                    @ '' read again with offset: '' @ nat_str n @ '']'')"

definition read_text :: "file_env \<Rightarrow> json \<Rightarrow> string \<Rightarrow> 8 word list \<Rightarrow> string" where
  "read_text env args shown bytes =
     (let ls = lines_of (fe_decode env bytes);
          offset = count_arg args ''offset'' 1;
          limit = count_arg args ''limit'' default_line_limit;
          part = page ls offset limit;
          body = (if js_truthy (jget args ''raw'') then unlines (map clamp_line part)
                  else gutter (fe_sha env) part offset (fe_native_anchors env (map strip_cr part)));
          header = shown @ '' ('' @ nat_str (length ls) @ '' lines, '' @ format_bytes (length bytes) @ '')'';
          warning = (if length bytes > large_file_bytes \<and> next_offset ls offset limit = None
                     then [u_lf] @ ''[large file '' @ [u_emdash] @ '' consider `grep` to find the part you need]'' else [])
      in header @ warning @ [u_lf] @ body @ page_footer ls offset limit)"

fun insert_entry :: "(string \<Rightarrow> string \<Rightarrow> bool) \<Rightarrow> string \<times> bool \<Rightarrow> (string \<times> bool) list \<Rightarrow> (string \<times> bool) list" where
  "insert_entry le e [] = [e]"
| "insert_entry le e (d # ds) =
     (if snd e \<and> \<not> snd d \<or> snd e = snd d \<and> le (fst e) (fst d) then e # d # ds else d # insert_entry le e ds)"

definition read_listing :: "file_env \<Rightarrow> string \<Rightarrow> (string \<times> bool) list \<Rightarrow> string" where
  "read_listing env shown entries =
     (let listed = map (\<lambda>(n, dir). if dir then n @ ''/'' else n)
                     (foldr (insert_entry (fe_name_le env)) (filter (\<lambda>(n, _). \<not> starts_with n ''.'') entries) [])
      in if listed = [] then shown @ ''/ is empty.''
         else shown @ ''/ ('' @ nat_str (length listed) @ '' entries)'' @ [u_lf] @ unlines listed)"

definition read_node :: "file_env \<Rightarrow> json \<Rightarrow> string \<Rightarrow> string \<Rightarrow> node \<Rightarrow> fs_state \<Rightarrow> (exn + tool_result) \<times> fs_state" where
  "read_node env args absolute shown n w =
     (case fe_special env n absolute shown args of
        Some (Inl e) \<Rightarrow> (Inl e, w)
      | Some (Inr r) \<Rightarrow> (Inr r, mark_read absolute w)
      | None \<Rightarrow>
          (case n of
             Directory \<Rightarrow>
               (Inr (result_ok (read_listing env shown (fe_entries env (\<lambda>t. map_option is_dir (st_nodes w t)) absolute)) []), w)
           | RegularFile bytes \<Rightarrow>
               if is_binary bytes
               then (Inr (result_ok (shown @ '' is a binary file ('' @ format_bytes (length bytes) @ ''). Not shown.'') []), w)
               else (Inr (result_ok (read_text env args shown bytes) []), mark_read absolute w)))"

definition read_found :: "file_env \<Rightarrow> json \<Rightarrow> string \<Rightarrow> string \<Rightarrow> fs_state \<Rightarrow> (exn + tool_result) \<times> fs_state" where
  "read_found env args absolute shown w =
     (case node_at env w absolute of
        None \<Rightarrow> throw_tool (shown @ '' does not exist.'')
          (Some ''Use `glob` to find the right path, or `write` to create the file.'') w
      | Some n \<Rightarrow>
          if is_secret_file (host_of env w) absolute
          then throw_tool (shown @ '' holds credentials, so its contents are not readable.'')
            (Some (''Reading it would put live secrets into the transcript and send them to the model provider. '' @
              ''Ask the user for any value you need, or read the matching .env.example if there is one.'')) w
          else read_node env args absolute shown n w)"

definition read_place :: "file_env \<Rightarrow> string \<Rightarrow> fs_state \<Rightarrow> tool_error + string" where
  "read_place env path w =
     (if is_abs path \<and> is_spilled (fe_spill env) path then Inr path
      else resolve_in_workspace (host_of env w) (fe_cwd env) path)"

definition read_local :: "file_env \<Rightarrow> json \<Rightarrow> fs_state \<Rightarrow> (exn + tool_result) \<times> fs_state" where
  "read_local env args w =
     (case read_place env (str_arg args ''path'') w of
        Inl e \<Rightarrow> (Inl (ToolExn e), w)
      | Inr absolute \<Rightarrow> read_found env args absolute (display_path (fe_cwd env) absolute) w)"

definition read_execute :: "file_env \<Rightarrow> json \<Rightarrow> fs_state \<Rightarrow> (exn + tool_result) \<times> fs_state" where
  "read_execute env args w =
     (case fe_sources env args of
        Some r \<Rightarrow> (r, w)
      | None \<Rightarrow> (case fe_remote env args of Some r \<Rightarrow> (r, w) | None \<Rightarrow> read_local env args w))"

section \<open>write\<close>

text \<open>
  \<open>mkdir(p, { recursive: true })\<close>: what is missing is made from the top. A name that is taken by a link that points
  at nothing is not a place for a directory.
\<close>

definition entry_of :: "file_env \<Rightarrow> string \<Rightarrow> string" where
  "entry_of env p = abs_path (fe_target env (dirname p) @ ''/'' @ last_part p)"

function mkdirs :: "file_env \<Rightarrow> string \<Rightarrow> (string \<Rightarrow> node option) \<Rightarrow> string + (string \<Rightarrow> node option)" where
  "mkdirs env p nodes =
     (case nodes (fe_target env p) of
        Some Directory \<Rightarrow> Inr nodes
      | Some (RegularFile _) \<Rightarrow> Inl ''EEXIST''
      | None \<Rightarrow>
          if \<not> is_abs p \<or> dirname p = p then Inl ''ENOENT''
          else or_throw (mkdirs env (dirname p) nodes) (\<lambda>nodes'.
                 if fe_target env p = entry_of env p then Inr (nodes'(fe_target env p \<mapsto> Directory)) else Inl ''EEXIST''))"
  by pat_completeness auto
termination
  by (relation "measure (\<lambda>(env, p, nodes). length p)") (auto simp: dirname_shorter)

declare mkdirs.simps [simp del]

text \<open>\<open>writeFile(p, text, 'utf8')\<close>: the system follows links, and makes the file a last link points at.\<close>

definition write_file :: "file_env \<Rightarrow> string \<Rightarrow> string \<Rightarrow> (string \<Rightarrow> node option) \<Rightarrow> string + (string \<Rightarrow> node option)" where
  "write_file env p text nodes =
     (let t = fe_target env p
      in case nodes t of
           Some Directory \<Rightarrow> Inl ''EISDIR''
         | Some (RegularFile _) \<Rightarrow> Inr (nodes(t \<mapsto> RegularFile (fe_encode env text)))
         | None \<Rightarrow> if nodes (dirname t) = Some Directory then Inr (nodes(t \<mapsto> RegularFile (fe_encode env text))) else Inl ''ENOENT'')"

definition node_size :: "file_env \<Rightarrow> string \<Rightarrow> node \<Rightarrow> nat" where
  "node_size env absolute n = (case n of RegularFile bytes \<Rightarrow> length bytes | Directory \<Rightarrow> fe_dir_size env absolute)"

definition write_through :: "file_env \<Rightarrow> string \<Rightarrow> string \<Rightarrow> fs_state \<Rightarrow> (exn + unit) \<times> fs_state" where
  "write_through env absolute text w =
     (case mkdirs env (dirname absolute) (st_nodes w) of
        Inl e \<Rightarrow> (Inl (OtherExn e), w)
      | Inr nodes \<Rightarrow>
          (case write_file env absolute text nodes of
             Inl e \<Rightarrow> (Inl (OtherExn e), w\<lparr>st_nodes := nodes\<rparr>)
           | Inr nodes' \<Rightarrow> (Inr (), mark_read absolute (w\<lparr>st_nodes := nodes'\<rparr>))))"

definition write_execute :: "file_env \<Rightarrow> json \<Rightarrow> fs_state \<Rightarrow> (exn + tool_result) \<times> fs_state" where
  "write_execute env args w =
     (case resolve_in_workspace (host_of env w) (fe_cwd env) (str_arg args ''path'') of
        Inl e \<Rightarrow> (Inl (ToolExn e), w)
      | Inr absolute \<Rightarrow>
          (let shown = display_path (fe_cwd env) absolute;
               old = node_at env w absolute;
               text = str_arg args ''content''
           in if absolute \<notin> set (st_read w) \<and> (case old of None \<Rightarrow> False | Some n \<Rightarrow> node_size env absolute n > 0)
              then throw_tool (shown @ '' already exists and has not been read in this session.'')
                (Some (''Read it first, then `write` to replace it '' @ [u_emdash] @ '' or use `edit` to change part of it.'')) w
              else (case write_through env absolute text w of
                      (Inl e, w') \<Rightarrow> (Inl e, w')
                    | (Inr _, w') \<Rightarrow>
                        (Inr (result_ok ((if old = None then ''Created '' else ''Replaced '') @ shown @ '' (''
                           @ nat_str (length (lines_of text)) @ '' lines).'') [absolute]), w'))))"


section \<open>edit\<close>

record replacement =
  rp_old :: string
  rp_new :: string
  rp_all :: bool

definition is_str :: "json \<Rightarrow> bool" where
  "is_str v = (case v of JStr _ \<Rightarrow> True | _ \<Rightarrow> False)"

fun edits_of :: "nat \<Rightarrow> json list \<Rightarrow> tool_error + replacement list" where
  "edits_of i [] = Inr []"
| "edits_of i (e # es) =
     (if \<not> is_str (jget e ''old_string'') \<or> \<not> is_str (jget e ''new_string'')
      then Inl (ToolError (''edits['' @ nat_str i @ ''] needs both `old_string` and `new_string` as strings.'') None)
      else or_throw (edits_of (Suc i) es) (\<lambda>rs.
             Inr (\<lparr>rp_old = str_arg e ''old_string'', rp_new = str_arg e ''new_string'', rp_all = (jget e ''replace_all'' = JBool True)\<rparr> # rs)))"

definition replacements_of :: "json \<Rightarrow> tool_error + replacement list option" where
  "replacements_of args =
     (case jget args ''edits'' of
        JArr (e # es) \<Rightarrow> or_throw (edits_of 0 (e # es)) (\<lambda>rs. Inr (Some rs))
      | _ \<Rightarrow>
          (case jget args ''old_string'' of
             JStr old \<Rightarrow>
               if \<not> is_str (jget args ''new_string'')
               then Inl (ToolError ''`old_string` was given without `new_string`.''
                 (Some (''Pass `new_string: '' @ [CHR 0x22, CHR 0x22] @ ''` to delete the text.'')))
               else Inr (Some [\<lparr>rp_old = old, rp_new = str_arg args ''new_string'', rp_all = (jget args ''replace_all'' = JBool True)\<rparr>])
           | _ \<Rightarrow> Inr None))"

definition replace_message :: "replace_error \<Rightarrow> string" where
  "replace_message e =
     (case e of
        EEmpty \<Rightarrow> ''`old_string` is empty, so there is nothing to find.''
      | ENoOp \<Rightarrow> ''`old_string` and `new_string` are identical, so the edit would change nothing.''
      | EAmbiguous ls \<Rightarrow> ''`old_string` matches '' @ nat_str (length ls) @ '' places (lines '' @ join '', '' (map nat_str ls) @ '').''
      | ENotFound _ \<Rightarrow> ''`old_string` was not found in the file.'')"

definition replace_hint :: "replace_error \<Rightarrow> string option" where
  "replace_hint e =
     (case e of
        EEmpty \<Rightarrow> Some (''To create a file use `write`. To insert text, quote the line it goes next to in `old_string` and repeat it in '' @
          ''`new_string` with the addition.'')
      | ENoOp \<Rightarrow> None
      | EAmbiguous _ \<Rightarrow> Some (''Include more surrounding lines so exactly one place matches, or pass `replace_all: true` to change every '' @
          ''occurrence.'')
      | ENotFound hint \<Rightarrow> Some hint)"

definition strategy_note :: "strategy \<Rightarrow> string" where
  "strategy_note s =
     (case s of
        Exact \<Rightarrow> []
      | LineTrimmed \<Rightarrow> ''old_string matched after ignoring indentation; new_string was re-indented to fit.''
      | WhitespaceNormalized \<Rightarrow> ''old_string matched after collapsing whitespace.''
      | EscapeNormalized \<Rightarrow> ''old_string contained literal escape sequences (like '' @ [CHR 0x5C] @ ''n); they were decoded before matching.''
      | TrimmedBoundary \<Rightarrow> ''old_string matched after trimming whitespace at its ends.''
      | BlockAnchor \<Rightarrow> ''old_string matched a block whose first and last lines agree but whose middle differed slightly '' @ [u_emdash]
          @ '' check the result below.'')"

text \<open>The edited regions with three lines around them, merged where they touch.\<close>

fun merge_regions :: "nat \<Rightarrow> (nat \<times> nat) list \<Rightarrow> (nat \<times> nat) list \<Rightarrow> (nat \<times> nat) list" where
  "merge_regions n merged [] = merged"
| "merge_regions n merged ((f, l) # rs) =
     (let first = max 1 (f - 3); last = min n (l + 3)
      in if merged \<noteq> [] \<and> first \<le> snd (List.last merged) + 1
         then merge_regions n (butlast merged @ [(fst (List.last merged), max (snd (List.last merged)) last)]) rs
         else merge_regions n (merged @ [(first, last)]) rs)"

definition snippet :: "(string \<Rightarrow> string) \<Rightarrow> string \<Rightarrow> (nat \<times> nat) list \<Rightarrow> string" where
  "snippet sha content regions =
     (let ls = lines_of content;
          merged = merge_regions (length ls) [] (sort_key fst regions);
          parts = map (\<lambda>(f, l). gutter sha (slice (f - 1) l ls) f None) (take 6 merged);
          more = (if length merged > 6 then [''['' @ nat_str (length merged - 6) @ '' more edited regions not shown]''] else [])
      in join [u_lf, u_ellipsis, u_lf] (parts @ more))"

record edit_acc =
  ea_content :: string
  ea_notes :: "string list"
  ea_regions :: "(nat \<times> nat) list"
  ea_total :: nat

definition edit_label :: "nat \<Rightarrow> nat \<Rightarrow> string" where
  "edit_label n i = (if n > 1 then ''edits['' @ nat_str i @ '']: '' else [])"

fun run_edits :: "nat \<Rightarrow> nat \<Rightarrow> replacement list \<Rightarrow> edit_acc \<Rightarrow> tool_error + edit_acc" where
  "run_edits n i [] acc = Inr acc"
| "run_edits n i (rp # rps) acc =
     (case replace_text (ea_content acc) (rp_old rp) (rp_new rp) (rp_all rp) of
        Inl e \<Rightarrow> Inl (ToolError (edit_label n i @ replace_message e @ (if n > 1 then '' No edits were written.'' else [])) (replace_hint e))
      | Inr r \<Rightarrow>
          run_edits n (Suc i) rps
            \<lparr>ea_content = r_content r,
             ea_notes = (if r_strategy r = Exact then ea_notes acc else ea_notes acc @ [edit_label n i @ strategy_note (r_strategy r)]),
             ea_regions = ea_regions acc @ [(r_first_line r, r_last_line r)],
             ea_total = ea_total acc + r_count r\<rparr>)"

definition delta_text :: "int \<Rightarrow> string" where
  "delta_text delta = (if delta = 0 then [] else '' '' @ (if delta > 0 then ''+'' else []) @ int_str delta @ '' lines.'')"

definition plural :: "nat \<Rightarrow> string \<Rightarrow> string" where
  "plural n noun = nat_str n @ '' '' @ noun @ (if n = 1 then [] else ''s'')"

definition finish_write :: "file_env \<Rightarrow> string \<Rightarrow> string \<Rightarrow> string \<Rightarrow> fs_state \<Rightarrow> (exn + tool_result) \<times> fs_state" where
  "finish_write env absolute text output w =
     (case write_file env absolute text (st_nodes w) of
        Inl e \<Rightarrow> (Inl (OtherExn e), w)
      | Inr nodes \<Rightarrow> (Inr (result_ok output [absolute]), w\<lparr>st_nodes := nodes\<rparr>))"

definition apply_replacements :: "file_env \<Rightarrow> string \<Rightarrow> string \<Rightarrow> string \<Rightarrow> replacement list \<Rightarrow> fs_state \<Rightarrow> (exn + tool_result) \<times> fs_state" where
  "apply_replacements env absolute shown before rps w =
     (case run_edits (length rps) 0 rps \<lparr>ea_content = before, ea_notes = [], ea_regions = [], ea_total = 0\<rparr> of
        Inl e \<Rightarrow> (Inl (ToolExn e), w)
      | Inr acc \<Rightarrow>
          (let text = ea_content acc;
               delta = int (length (lines_of text)) - int (length (lines_of before));
               notes = (if ea_notes acc = [] then [] else [u_lf] @ ''Note: '' @ join '' '' (ea_notes acc))
           in finish_write env absolute text
                (''Edited '' @ shown @ '': '' @ plural (ea_total acc) ''replacement'' @ ''.'' @ delta_text delta @ notes @ [u_lf, u_lf]
                  @ snippet (fe_sha env) text (ea_regions acc)) w))"

definition hint_for :: "hl_code \<Rightarrow> string" where
  "hint_for c =
     (case c of
        AnchorNotFound \<Rightarrow> ''Re-read the file and use an anchor from the fresh output. Include the anchor text (`-> '' @ [CHR 0x22] @ ''the line''
          @ [CHR 0x22] @ ''`) so a stale anchor can still be recovered.''
      | AmbiguousAnchor \<Rightarrow> ''Add more context lines to the hunk, or quote the anchor text, so one landing site is unambiguous.''
      | ContextMismatch \<Rightarrow> ''The context lines do not match the file. Re-read it and rebuild the hunk from what is actually there.''
      | ParseError \<Rightarrow> ''Each hunk needs an `anchor: h:xxxxxxxx` line followed by `patch: |-|` and the changed lines. Or use '' @
          ''`old_string`/`new_string` instead.'')"

definition is_recovered :: "resolution \<Rightarrow> bool" where
  "is_recovered r = (r = RecoveredByText \<or> r = RecoveredByContext)"

definition patch_output :: "string \<Rightarrow> applied \<Rightarrow> string" where
  "patch_output shown a =
     (let k = length (filter is_recovered (ap_resolutions a));
          note = (if k = 0 then []
                  else '' '' @ nat_str k @ '' anchor'' @ (if k = 1 then '' was'' else ''s were'') @ '' stale and recovered from context ''
                    @ [u_emdash] @ '' re-read the file before editing it again.'')
      in ''Applied '' @ plural (length (ap_resolutions a)) ''hunk'' @ '' to '' @ shown @ ''.'' @ delta_text (ap_delta a) @ note)"

definition edit_patch :: "file_env \<Rightarrow> json \<Rightarrow> string \<Rightarrow> string \<Rightarrow> string \<Rightarrow> fs_state \<Rightarrow> (exn + tool_result) \<times> fs_state" where
  "edit_patch env args absolute shown before w =
     (let patch = str_arg args ''patch''
      in if trim patch = []
         then throw_tool ''Nothing to apply: pass `old_string` and `new_string`, an `edits` list, or a hashline `patch`.'' None w
         else if jget args ''mode'' = JStr ''diff''
         then (case apply_unified_diff before patch of
                 Inl e \<Rightarrow> (Inl (ToolExn e), w)
               | Inr (text, hunks) \<Rightarrow> finish_write env absolute text (''Applied '' @ plural hunks ''hunk'' @ '' to '' @ shown @ ''.'') w)
         else (case (case fe_native_patch env before patch of Some r \<Rightarrow> r | None \<Rightarrow> patch_file (fe_sha env) before patch) of
                 Inl (HashlineError msg code) \<Rightarrow> throw_tool msg (Some (hint_for code)) w
               | Inr a \<Rightarrow> finish_write env absolute (ap_content a) (patch_output shown a) w))"

definition edit_file :: "file_env \<Rightarrow> json \<Rightarrow> string \<Rightarrow> string \<Rightarrow> 8 word list \<Rightarrow> fs_state \<Rightarrow> (exn + tool_result) \<times> fs_state" where
  "edit_file env args absolute shown bytes w =
     (let before = fe_decode env bytes
      in case replacements_of args of
           Inl e \<Rightarrow> (Inl (ToolExn e), w)
         | Inr (Some rps) \<Rightarrow> apply_replacements env absolute shown before rps w
         | Inr None \<Rightarrow> edit_patch env args absolute shown before w)"

definition edit_execute :: "file_env \<Rightarrow> json \<Rightarrow> fs_state \<Rightarrow> (exn + tool_result) \<times> fs_state" where
  "edit_execute env args w =
     (case resolve_in_workspace (host_of env w) (fe_cwd env) (str_arg args ''path'') of
        Inl e \<Rightarrow> (Inl (ToolExn e), w)
      | Inr absolute \<Rightarrow>
          (let shown = display_path (fe_cwd env) absolute
           in case node_at env w absolute of
                None \<Rightarrow> throw_tool (shown @ '' does not exist, so there is nothing to edit.'') (Some ''Use `write` to create it.'') w
              | Some n \<Rightarrow>
                  if absolute \<notin> set (st_read w)
                  then throw_tool (shown @ '' has not been read in this session, so its current content is unknown.'')
                    (Some ''Call `read` on it first, then edit from what that shows.'') w
                  else (case n of
                          Directory \<Rightarrow> (Inl (OtherExn ''EISDIR''), w)
                        | RegularFile bytes \<Rightarrow> edit_file env args absolute shown bytes w)))"

end
