(* ===== verification/FileTools_Laws.thy ===== *)
theory FileTools_Laws
  imports FileTools
begin

text \<open>What the file tools keep: secrets stay unread, what lies outside the project stays as it is, and an edit is all or nothing.\<close>

section \<open>Where a resolved path is\<close>

lemma real_path_at: "node_at env w absolute = Some n \<Longrightarrow> real_path (host_of env w) absolute = fe_target env absolute"
  using real_path_present [of "host_of env w" absolute] by (simp add: host_of_def node_at_def)

lemma resolved_inside:
  "resolve_in_workspace (host_of env w) cwd path = Inr absolute \<Longrightarrow> node_at env w absolute = Some n \<Longrightarrow>
   inside (real_path (host_of env w) cwd) (fe_target env absolute)"
  by (auto simp: resolve_in_workspace_def Let_def real_path_at split: if_splits)

lemma host_of_cong: "map_option is_dir \<circ> st_nodes w1 = map_option is_dir \<circ> st_nodes w2 \<Longrightarrow> host_of env w1 = host_of env w2"
proof -
  assume kinds: "map_option is_dir \<circ> st_nodes w1 = map_option is_dir \<circ> st_nodes w2"
  have "(st_nodes w1 t \<noteq> None) = (st_nodes w2 t \<noteq> None)" for t
    using fun_cong [OF kinds, of t] by (cases "st_nodes w1 t"; cases "st_nodes w2 t") simp_all
  then show ?thesis by (simp add: host_of_def)
qed

section \<open>Reading\<close>

text \<open>Two states that differ only in the contents of files \<open>hidden\<close> from reading look the same.\<close>

definition hidden :: "file_env \<Rightarrow> fs_state \<Rightarrow> string \<Rightarrow> bool" where
  "hidden env w t =
     (secret_name t \<or> \<not> inside (real_path (host_of env w) (fe_cwd env)) t \<and> (\<forall>p. is_spilled (fe_spill env) p \<longrightarrow> fe_target env p \<noteq> t))"

definition same_but_hidden :: "file_env \<Rightarrow> fs_state \<Rightarrow> fs_state \<Rightarrow> bool" where
  "same_but_hidden env w1 w2 =
     (st_read w1 = st_read w2 \<and> map_option is_dir \<circ> st_nodes w1 = map_option is_dir \<circ> st_nodes w2
      \<and> (\<forall>t. st_nodes w1 t \<noteq> st_nodes w2 t \<longrightarrow> hidden env w1 t))"

lemma read_node_same:
  assumes "same_but_hidden env w1 w2"
  shows "fst (read_node env args absolute shown n w1) = fst (read_node env args absolute shown n w2)
    \<and> st_read (snd (read_node env args absolute shown n w1)) = st_read (snd (read_node env args absolute shown n w2))"
proof -
  have kinds: "(\<lambda>t. map_option is_dir (st_nodes w1 t)) = (\<lambda>t. map_option is_dir (st_nodes w2 t))" and r: "st_read w1 = st_read w2"
    using assms by (auto simp: same_but_hidden_def comp_def)
  show ?thesis
    unfolding read_node_def kinds by (simp add: mark_read_def r split: option.split sum.split node.split)
qed

lemma read_found_same:
  assumes same: "same_but_hidden env w1 w2"
    and place: "node_at env w1 absolute \<noteq> None \<Longrightarrow>
      inside (real_path (host_of env w1) (fe_cwd env)) (fe_target env absolute) \<or> is_spilled (fe_spill env) absolute"
  shows "fst (read_found env args absolute shown w1) = fst (read_found env args absolute shown w2)
    \<and> st_read (snd (read_found env args absolute shown w1)) = st_read (snd (read_found env args absolute shown w2))"
proof -
  have host: "host_of env w1 = host_of env w2" and r: "st_read w1 = st_read w2"
    using same host_of_cong [of w1 w2 env] by (simp_all add: same_but_hidden_def)
  have dirs: "map_option is_dir (node_at env w1 absolute) = map_option is_dir (node_at env w2 absolute)"
    using same unfolding same_but_hidden_def node_at_def by (metis comp_apply)
  show ?thesis
  proof (cases "node_at env w1 absolute")
    case None
    then show ?thesis using dirs r by (simp add: read_found_def throw_tool_def)
  next
    case (Some n)
    then obtain n2 where n2: "node_at env w2 absolute = Some n2"
      using dirs by (cases "node_at env w2 absolute") auto
    show ?thesis
    proof (cases "is_secret_file (host_of env w1) absolute")
      case True
      then show ?thesis using Some n2 r host by (simp add: read_found_def throw_tool_def)
    next
      case False
      then have "\<not> secret_name (fe_target env absolute)"
        using real_path_at [OF Some] by (simp add: is_secret_file_def)
      then have "\<not> hidden env w1 (fe_target env absolute)"
        using place Some by (auto simp: hidden_def)
      then have "node_at env w2 absolute = Some n"
        using same Some unfolding same_but_hidden_def node_at_def by metis
      then show ?thesis
        using Some False host read_node_same [OF same] by (simp add: read_found_def)
    qed
  qed
qed

text \<open>
  C16. \<open>read\<close> never shows a secret: when two disks differ only in the contents of files whose own name is a credential's,
  or that lie outside the project and are not where a path below the directory of saved outputs leads, every call returns
  the same and leaves the same files marked as read, whichever links inside the project lead to them. A path below the
  directory of saved outputs is read wherever its links lead, credentials excepted.
\<close>

theorem read_keeps_secrets:
  assumes "same_but_hidden env w1 w2"
  shows "fst (read_execute env args w1) = fst (read_execute env args w2)
    \<and> st_read (snd (read_execute env args w1)) = st_read (snd (read_execute env args w2))"
proof -
  have host: "host_of env w1 = host_of env w2" and r: "st_read w1 = st_read w2"
    using assms host_of_cong [of w1 w2 env] by (simp_all add: same_but_hidden_def)
  have place: "read_place env path w1 = read_place env path w2" for path
    using host by (simp add: read_place_def)
  have "fst (read_local env args w1) = fst (read_local env args w2)
    \<and> st_read (snd (read_local env args w1)) = st_read (snd (read_local env args w2))"
  proof (cases "read_place env (str_arg args ''path'') w1")
    case (Inl e)
    then show ?thesis using place r by (simp add: read_local_def)
  next
    case (Inr absolute)
    then have "inside (real_path (host_of env w1) (fe_cwd env)) (fe_target env absolute) \<or> is_spilled (fe_spill env) absolute"
      if "node_at env w1 absolute \<noteq> None"
      using that resolved_inside [of env w1] by (auto simp: read_place_def split: if_splits)
    from read_found_same [OF assms this] show ?thesis
      using Inr place [of "str_arg args ''path''"] by (simp add: read_local_def)
  qed
  then show ?thesis
    using r by (simp add: read_execute_def split: option.split)
qed

text \<open>A project whose \<open>.env\<close> is read through a link.\<close>

definition sample_env :: file_env where
  "sample_env =
     \<lparr>fe_cwd = ''/p'', fe_spill = ''/tmp/jean-output'', fe_target = (\<lambda>p. if p = ''/p/notes.txt'' then ''/p/.env'' else if p = ''/p/out'' then ''/etc/new'' else p),
      fe_decode = map (\<lambda>b. if b < 128 then char_of (unat b) else CHR ''?''), fe_encode = map (\<lambda>c. of_nat (of_char c)), fe_dir_size = (\<lambda>_. 0), fe_entries = (\<lambda>_ _. []),
      fe_name_le = (\<lambda>_ _. True), fe_sources = (\<lambda>_. None), fe_remote = (\<lambda>_. None), fe_special = (\<lambda>_ _ _ _. None),
      fe_native_anchors = (\<lambda>_. None), fe_native_patch = (\<lambda>_ _. None), fe_sha = (\<lambda>s. s)\<rparr>"

definition sample_disk :: "(string \<times> node) list \<Rightarrow> string list \<Rightarrow> fs_state" where
  "sample_disk files seen =
     \<lparr>st_nodes = map_of ([(''/'', Directory), (''/etc'', Directory), (''/p'', Directory)] @ files), st_read = seen\<rparr>"

theorem read_keeps_secrets_witness:
  "fst (read_execute sample_env (JObj [(''path'', JStr ''notes.txt'')]) (sample_disk [(''/p/.env'', RegularFile [1])] []))
     = fst (read_execute sample_env (JObj [(''path'', JStr ''notes.txt'')]) (sample_disk [(''/p/.env'', RegularFile [2, 3])] []))"
proof -
  have "secret_name ''/p/.env''" by code_simp
  then have "same_but_hidden sample_env (sample_disk [(''/p/.env'', RegularFile [1])] []) (sample_disk [(''/p/.env'', RegularFile [2, 3])] [])"
    by (auto simp: same_but_hidden_def sample_disk_def hidden_def is_dir_def fun_eq_iff)
  then show ?thesis by (rule read_keeps_secrets [THEN conjunct1])
qed

text \<open>
  The check for saved outputs looks at the path and not at where it leads: a link below their directory shows a file that
  is neither in the project nor a saved output.
\<close>

definition linked_env :: file_env where
  "linked_env = sample_env\<lparr>fe_target := (\<lambda>p. if p = ''/tmp/jean-output/a'' then ''/etc/motd'' else p)\<rparr>"

theorem spilled_link_escapes:
  "fst (read_execute linked_env (JObj [(''path'', JStr ''/tmp/jean-output/a'')]) (sample_disk [(''/etc/motd'', RegularFile [104, 105])] []))
     = Inr (result_ok (read_text linked_env (JObj [(''path'', JStr ''/tmp/jean-output/a'')]) ''/tmp/jean-output/a'' [104, 105]) [])"
proof -
  let ?w = "sample_disk [(''/etc/motd'', RegularFile [104, 105])] []" and ?p = "''/tmp/jean-output/a''"
  have "read_place linked_env ?p ?w = Inr ?p" by code_simp
  moreover have "\<not> is_secret_file (host_of linked_env ?w) ?p" by code_simp
  moreover have "display_path (fe_cwd linked_env) ?p = ?p" by code_simp
  moreover have "node_at linked_env ?w ?p = Some (RegularFile [104, 105])"
    by (simp add: node_at_def linked_env_def sample_disk_def)
  moreover have "fe_special linked_env = (\<lambda>_ _ _ _. None)" "fe_sources linked_env = (\<lambda>_. None)" "fe_remote linked_env = (\<lambda>_. None)"
    by (simp_all add: linked_env_def sample_env_def)
  moreover have "\<not> is_binary [104, 105]" by code_simp
  moreover have "str_arg (JObj [(''path'', JStr ?p)]) ''path'' = ?p" by code_simp
  ultimately show ?thesis
    by (simp only: read_execute_def read_local_def read_found_def read_node_def option.case sum.case node.case if_False fst_conv)
qed

text \<open>Following the offsets that \<open>read\<close> names.\<close>

fun follow_pages :: "nat \<Rightarrow> string list \<Rightarrow> nat \<Rightarrow> nat \<Rightarrow> string list list" where
  "follow_pages 0 ls offset limit = []"
| "follow_pages (Suc k) ls offset limit =
     page ls offset limit # (case next_offset ls offset limit of None \<Rightarrow> [] | Some n \<Rightarrow> follow_pages k ls n limit)"

lemma follow_pages_rest:
  "length ls \<le> Suc (k + offset) \<Longrightarrow> concat (follow_pages (Suc k) ls (Suc offset) (Suc limit)) = drop offset ls"
proof (induction k arbitrary: offset)
  case 0
  then show ?case
    by (simp add: page_def next_offset_def slice_def Let_def split: option.split)
next
  case (Suc k)
  let ?n = "min (Suc limit) (length ls - offset)"
  have n: "length (page ls (Suc offset) (Suc limit)) = ?n"
    by (simp add: page_def slice_def)
  show ?case
  proof (cases "offset + ?n < length ls")
    case True
    then have "?n = Suc limit" by linarith
    then have next_page: "next_offset ls (Suc offset) (Suc limit) = Some (Suc (offset + Suc limit))"
      using True n by (simp add: next_offset_def)
    have "concat (follow_pages (Suc k) ls (Suc (offset + Suc limit)) (Suc limit)) = drop (offset + Suc limit) ls"
      by (rule Suc.IH) (use Suc.prems in simp)
    then have "concat (follow_pages (Suc (Suc k)) ls (Suc offset) (Suc limit))
      = take (Suc limit) (drop offset ls) @ drop (Suc limit) (drop offset ls)"
      by (simp only: follow_pages.simps(2) [of "Suc k"] next_page option.case concat.simps)
         (simp add: page_def slice_def add.commute)
    then show ?thesis by (simp only: append_take_drop_id)
  next
    case False
    then have "next_offset ls (Suc offset) (Suc limit) = None" using n by (simp add: next_offset_def Let_def)
    then show ?thesis using False by (simp add: page_def slice_def)
  qed
qed

text \<open>
  Paging reads a file whole: starting at the first line and following the offset each page names, whatever the
  limit, the pages are the file's lines, none skipped and none shown twice, and they end.
\<close>

theorem pages_cover: "concat (follow_pages (length (lines_of content)) (lines_of content) 1 (Suc limit)) = lines_of content"
proof -
  obtain k where "length (lines_of content) = Suc k"
    using split_on_not_Nil [of u_lf content] by (cases "lines_of content") auto
  then show ?thesis
    using follow_pages_rest [of "lines_of content" k 0 limit] by (simp del: follow_pages.simps)
qed

section \<open>The anchors that are shown\<close>

lemma file_lines_nth:
  assumes "n < length (file_lines content)"
  shows "n < length (lines_of content) \<and> file_lines content ! n = strip_cr (lines_of content ! n)"
proof -
  have snoc: "lines_of (s @ [u_lf]) = lines_of s @ [[]]" for s
    by (induction s) (auto split: list.splits)
  show ?thesis
  proof (cases "ends_with content [u_lf]")
    case True
    then obtain body where body: "content = body @ [u_lf]"
      by (auto simp: ends_with_def suffix_def)
    then show ?thesis using assms True by (simp add: file_lines_def Let_def snoc nth_append)
  next
    case False
    then show ?thesis using assms by (auto simp: file_lines_def Let_def split: if_splits)
  qed
qed

text \<open>
  The anchor that \<open>read\<close> prints beside a line is an anchor that \<open>edit\<close> finds at that line: both ends strip a
  carriage return and number from the same first line, on every page.
\<close>

theorem shown_anchor_found:
  assumes "i < length (page (lines_of content) offset limit)" "offset - 1 + i < length (file_lines content)"
  shows "\<exists>a. gutter_line sha width None first i (page (lines_of content) offset limit ! i)
      = pad_start width (nat_str (first + i)) @ '' h:'' @ a @ '' '' @ [u_bar] @ '' '' @ clamp_line (lines_of content ! (offset - 1 + i))
    \<and> offset - 1 + i \<in> set (anchor_matches (index_file sha content) a)"
proof -
  have nth: "page (lines_of content) offset limit ! i = lines_of content ! (offset - 1 + i)"
    using assms(1) by (simp add: page_def slice_def min_def split: if_splits)
  have line: "file_lines content ! (offset - 1 + i) = strip_cr (lines_of content ! (offset - 1 + i))"
    using file_lines_nth [OF assms(2)] by simp
  show ?thesis
    unfolding gutter_line_def nth anchor_matches_filter
    using assms(2) by (intro exI [of _ "anchor_of sha (strip_cr (lines_of content ! (offset - 1 + i)))"]) (simp add: line [simplified])
qed

theorem shown_anchor_found_witness:
  "\<exists>a. gutter_line (\<lambda>s. s) 2 None 9 1 (page (lines_of (unlines [''a'', ''b'', ''c''])) 2 5 ! 1)
      = pad_start 2 (nat_str (9 + 1)) @ '' h:'' @ a @ '' '' @ [u_bar] @ '' '' @ clamp_line (lines_of (unlines [''a'', ''b'', ''c'']) ! (2 - 1 + 1))
    \<and> 2 - 1 + 1 \<in> set (anchor_matches (index_file (\<lambda>s. s) (unlines [''a'', ''b'', ''c''])) a)"
  by (rule shown_anchor_found) code_simp+


section \<open>Writing\<close>

lemma mkdirs_keeps: "mkdirs env p nodes = Inr nodes' \<Longrightarrow> nodes t = Some n \<Longrightarrow> nodes' t = Some n"
proof (induction env p nodes arbitrary: nodes' rule: mkdirs.induct)
  case (1 env p nodes)
  from "1.prems" show ?case
  proof (subst (asm) mkdirs.simps, goal_cases)
    case 1
    then show ?case
    proof (cases "nodes (fe_target env p)")
      case None
      then obtain made where made: "mkdirs env (dirname p) nodes = Inr made" "nodes' = made(fe_target env p \<mapsto> Directory)"
        "is_abs p" "dirname p \<noteq> p"
        using 1 by (auto simp: or_throw_def split: if_splits sum.splits)
      have "made t = Some n"
        using "1.IH" [OF None _ made(1)] made(3,4) 1 by simp
      then show ?thesis using None made 1 by auto
    qed (auto split: node.splits)
  qed
qed

lemma write_file_one: "write_file env p text nodes = Inr nodes' \<Longrightarrow> nodes' = nodes(fe_target env p \<mapsto> RegularFile (fe_encode env text))"
  by (auto simp: write_file_def Let_def split: option.splits node.splits if_splits)

lemma write_through_target:
  assumes "write_through env absolute s w = (res, w')" "st_nodes w t = Some n" "st_nodes w' t \<noteq> Some n"
  shows "t = fe_target env absolute"
proof (cases "mkdirs env (dirname absolute) (st_nodes w)")
  case (Inl e)
  then show ?thesis using assms by (simp add: write_through_def)
next
  case (Inr nodes)
  then have kept: "nodes t = Some n" using mkdirs_keeps assms(2) by blast
  show ?thesis
  proof (cases "write_file env absolute s nodes")
    case (Inl e)
    then show ?thesis using assms Inr kept by (auto simp: write_through_def)
  next
    case wrote: (Inr nodes')
    then show ?thesis
      using assms Inr kept write_file_one [OF wrote] by (auto simp: write_through_def mark_read_def split: if_splits)
  qed
qed

lemma write_changes:
  assumes "write_execute env args w = (res, w')" "st_nodes w t = Some n" "st_nodes w' t \<noteq> Some n"
  shows "inside (real_path (host_of env w) (fe_cwd env)) t"
proof -
  obtain absolute s res' where *: "resolve_in_workspace (host_of env w) (fe_cwd env) (str_arg args ''path'') = Inr absolute"
    "write_through env absolute s w = (res', w')"
    using assms by (auto simp: write_execute_def throw_tool_def Let_def split: sum.splits if_splits prod.splits)
  then have "t = fe_target env absolute" using write_through_target assms(2,3) by blast
  then show ?thesis
    using resolved_inside [OF *(1)] assms(2) by (simp add: node_at_def)
qed

lemma finish_write_cases:
  assumes "finish_write env absolute text output w = (res, w')"
  obtains e where "res = Inl e" "w' = w"
  | "res = Inr (result_ok output [absolute])" "w' = w\<lparr>st_nodes := (st_nodes w)(fe_target env absolute \<mapsto> RegularFile (fe_encode env text))\<rparr>"
  using assms by (auto simp: finish_write_def split: sum.splits dest: write_file_one)

text \<open>What an edit makes of the text of a file.\<close>

definition edited_text :: "file_env \<Rightarrow> json \<Rightarrow> string \<Rightarrow> string option" where
  "edited_text env args before =
     (case replacements_of args of
        Inl _ \<Rightarrow> None
      | Inr (Some rps) \<Rightarrow>
          fold (\<lambda>rp text. Option.bind text (\<lambda>s. case replace_text s (rp_old rp) (rp_new rp) (rp_all rp) of Inl _ \<Rightarrow> None | Inr r \<Rightarrow> Some (r_content r)))
            rps (Some before)
      | Inr None \<Rightarrow>
          (let patch = str_arg args ''patch''
           in if trim patch = [] then None
              else if jget args ''mode'' = JStr ''diff'' then (case apply_unified_diff before patch of Inl _ \<Rightarrow> None | Inr (text, _) \<Rightarrow> Some text)
              else (case (case fe_native_patch env before patch of Some r \<Rightarrow> r | None \<Rightarrow> patch_file (fe_sha env) before patch) of
                      Inl _ \<Rightarrow> None | Inr a \<Rightarrow> Some (ap_content a))))"

lemma fold_bind_None: "(\<And>x. f x None = None) \<Longrightarrow> fold f xs None = None"
  by (induction xs) simp_all

lemma run_edits_fold:
  "map_option ea_content (case run_edits n i rps acc of Inl _ \<Rightarrow> None | Inr a \<Rightarrow> Some a)
     = fold (\<lambda>rp text. Option.bind text (\<lambda>s. case replace_text s (rp_old rp) (rp_new rp) (rp_all rp) of Inl _ \<Rightarrow> None | Inr r \<Rightarrow> Some (r_content r)))
         rps (Some (ea_content acc))"
  by (induction n i rps acc rule: run_edits.induct) (auto simp: fold_bind_None split: sum.split)

definition edit_effect :: "file_env \<Rightarrow> string \<Rightarrow> string option \<Rightarrow> fs_state \<Rightarrow> (exn + tool_result) \<Rightarrow> fs_state \<Rightarrow> bool" where
  "edit_effect env absolute made w res w' =
     (case res of
        Inl _ \<Rightarrow> w' = w
      | Inr r \<Rightarrow> (case made of None \<Rightarrow> False
          | Some text \<Rightarrow> tr_touched r = [absolute] \<and> w' = w\<lparr>st_nodes := (st_nodes w)(fe_target env absolute \<mapsto> RegularFile (fe_encode env text))\<rparr>))"

lemma finish_write_effect:
  "finish_write env absolute text output w = (res, w') \<Longrightarrow> edit_effect env absolute (Some text) w res w'"
  by (erule finish_write_cases) (simp_all add: edit_effect_def result_ok_def)

lemma edit_file_effect:
  assumes "edit_file env args absolute shown bytes w = (res, w')"
  shows "edit_effect env absolute (edited_text env args (fe_decode env bytes)) w res w'"
proof (cases "replacements_of args")
  case (Inl e)
  then show ?thesis using assms by (auto simp: edit_file_def edit_effect_def)
next
  case (Inr form)
  show ?thesis
  proof (cases form)
    case None
    then show ?thesis
      using assms Inr
      by (auto simp: edit_file_def edit_patch_def edited_text_def Let_def throw_tool_def edit_effect_def [of _ _ _ _ "Inl _"]
          dest: finish_write_effect split: if_splits sum.splits hl_error.splits)
  next
    case (Some rps)
    then show ?thesis
      using assms Inr run_edits_fold [of "length rps" 0 rps "\<lparr>ea_content = fe_decode env bytes, ea_notes = [], ea_regions = [], ea_total = 0\<rparr>"]
      by (auto simp: edit_file_def apply_replacements_def edited_text_def Let_def edit_effect_def [of _ _ _ _ "Inl _"]
          dest: finish_write_effect split: sum.splits)
  qed
qed


lemma edit_effect_Inl: "edit_effect env absolute made w (Inl e) w' \<longleftrightarrow> w' = w"
  by (simp add: edit_effect_def)

lemma edit_effect_Inr: "edit_effect env absolute made w (Inr r) w' \<longleftrightarrow>
   (\<exists>s. made = Some s \<and> tr_touched r = [absolute]
      \<and> w' = w\<lparr>st_nodes := (st_nodes w)(fe_target env absolute \<mapsto> RegularFile (fe_encode env s))\<rparr>)"
  by (auto simp: edit_effect_def split: option.splits)

lemma edit_execute_Inl: "edit_execute env args w = (Inl e, w') \<Longrightarrow> w' = w"
  using edit_file_effect
  by (fastforce simp: edit_execute_def throw_tool_def Let_def edit_effect_Inl split: sum.splits option.splits if_splits node.splits)

lemma edit_execute_Inr:
  assumes "edit_execute env args w = (Inr r, w')"
  obtains absolute bytes s where "resolve_in_workspace (host_of env w) (fe_cwd env) (str_arg args ''path'') = Inr absolute"
    "absolute \<in> set (st_read w)" "node_at env w absolute = Some (RegularFile bytes)"
    "edited_text env args (fe_decode env bytes) = Some s" "tr_touched r = [absolute]"
    "w' = w\<lparr>st_nodes := (st_nodes w)(fe_target env absolute \<mapsto> RegularFile (fe_encode env s))\<rparr>"
proof -
  obtain absolute bytes where *: "resolve_in_workspace (host_of env w) (fe_cwd env) (str_arg args ''path'') = Inr absolute"
    "absolute \<in> set (st_read w)" "node_at env w absolute = Some (RegularFile bytes)"
    "edit_file env args absolute (display_path (fe_cwd env) absolute) bytes w = (Inr r, w')"
    using assms by (auto simp: edit_execute_def throw_tool_def Let_def split: sum.splits option.splits if_splits node.splits)
  then show thesis
    using that edit_file_effect [OF *(4)] by (auto simp: edit_effect_Inr)
qed

text \<open>
  C18. An edit is all or nothing. When it fails, for whatever reason, disk and session are as they were; when it succeeds,
  the path resolved inside the project, its file had been read in this session, and the one thing that has changed
  is that file, which now holds the text that the replacements in their order, the diff or the patch make of it.
\<close>

theorem edit_all_or_nothing:
  "case edit_execute env args w of
     (Inl _, w') \<Rightarrow> w' = w
   | (Inr r, w') \<Rightarrow> \<exists>absolute bytes s.
       resolve_in_workspace (host_of env w) (fe_cwd env) (str_arg args ''path'') = Inr absolute
       \<and> absolute \<in> set (st_read w) \<and> node_at env w absolute = Some (RegularFile bytes)
       \<and> edited_text env args (fe_decode env bytes) = Some s \<and> tr_touched r = [absolute]
       \<and> w' = w\<lparr>st_nodes := (st_nodes w)(fe_target env absolute \<mapsto> RegularFile (fe_encode env s))\<rparr>"
proof (cases "edit_execute env args w")
  case (Pair res w')
  show ?thesis
  proof (cases res)
    case (Inl e)
    then show ?thesis using Pair edit_execute_Inl by simp
  next
    case (Inr r)
    show ?thesis
      using Pair Inr by (auto elim!: edit_execute_Inr)
  qed
qed

text \<open>
  C17. What exists outside the project is never changed: a location whose contents differ after a \<open>write\<close> or an
  \<open>edit\<close> lies under the real root of the project, wherever links lead.
\<close>

theorem outside_files_kept:
  assumes "st_nodes w t = Some n"
    and "w' = snd (write_execute env args w) \<or> w' = snd (edit_execute env args w)" "st_nodes w' t \<noteq> Some n"
  shows "inside (real_path (host_of env w) (fe_cwd env)) t"
  using assms(2)
proof
  assume "w' = snd (write_execute env args w)"
  then show ?thesis using write_changes [of env args w "fst (write_execute env args w)" w' t n] assms by simp
next
  assume w': "w' = snd (edit_execute env args w)"
  show ?thesis
  proof (cases "edit_execute env args w")
    case (Pair res w'')
    show ?thesis
    proof (cases res)
      case (Inl e)
      then show ?thesis using Pair w' assms edit_execute_Inl [of env args w e w''] by simp
    next
      case (Inr r)
      with Pair have "edit_execute env args w = (Inr r, w'')" by simp
      then show ?thesis
      proof (rule edit_execute_Inr)
        fix absolute bytes s
        assume *: "resolve_in_workspace (host_of env w) (fe_cwd env) (str_arg args ''path'') = Inr absolute"
          "node_at env w absolute = Some (RegularFile bytes)"
          "w'' = w\<lparr>st_nodes := (st_nodes w)(fe_target env absolute \<mapsto> RegularFile (fe_encode env s))\<rparr>"
        then have "t = fe_target env absolute" using Pair w' assms by (auto split: if_splits)
        then show ?thesis using resolved_inside [OF *(1,2)] by simp
      qed
    qed
  qed
qed

definition sample_write :: json where
  "sample_write = JObj [(''path'', JStr ''a''), (''content'', JStr ''new'')]"

theorem outside_files_kept_witness:
  "inside (real_path (host_of sample_env (sample_disk [(''/p/a'', RegularFile [1])] [''/p/a''])) ''/p'') ''/p/a''"
proof -
  let ?w = "sample_disk [(''/p/a'', RegularFile [1])] [''/p/a'']"
  have "st_nodes (snd (write_execute sample_env sample_write ?w)) ''/p/a'' = Some (RegularFile [110, 101, 119])"
    by code_simp
  moreover have "st_nodes ?w ''/p/a'' = Some (RegularFile [1])" by code_simp
  ultimately have "inside (real_path (host_of sample_env ?w) (fe_cwd sample_env)) ''/p/a''"
    by (intro outside_files_kept [where n = "RegularFile [1]" and w' = "snd (write_execute sample_env sample_write ?w)" and args = sample_write]) simp_all
  then show ?thesis by (simp add: sample_env_def)
qed

text \<open>
  A link that points at nothing is the exception: the check resolves it by its name, since the place it points at does not
  exist, and \<open>write\<close> then makes a file outside the project.
\<close>

theorem dangling_link_escapes:
  "(case write_execute sample_env (JObj [(''path'', JStr ''out''), (''content'', JStr ''x'')]) (sample_disk [] []) of
      (res, w') \<Rightarrow> (map_sum (\<lambda>_. ()) tr_output res, st_nodes w' ''/etc/new''))
   = (Inr ''Created out (1 lines).'', Some (RegularFile [120]))"
  by code_simp

text \<open>
  Bytes that are no UTF-8 do not survive an edit of another line: the file is decoded as a whole, and written back
  with what the decoder put in their place.
\<close>

definition sample_edit :: json where
  "sample_edit = JObj [(''path'', JStr ''a''), (''old_string'', JStr ''x''), (''new_string'', JStr ''y'')]"

theorem foreign_bytes_lost:
  "st_nodes (snd (edit_execute sample_env sample_edit (sample_disk [(''/p/a'', RegularFile [0xE9, 10, 120])] [''/p/a'']))) ''/p/a''
     = Some (RegularFile [63, 10, 121])"
  by code_simp

text \<open>
  A file with both kinds of line ends does not keep them: one replacement turns every line end into the
  carriage return form.
\<close>

theorem mixed_line_ends_lost:
  "map_sum (\<lambda>_. ()) r_content (replace_text (''a'' @ [u_cr, u_lf] @ ''b'' @ [u_lf] @ ''x'') ''x'' ''y'' False)
     = Inr (''a'' @ [u_cr, u_lf] @ ''b'' @ [u_cr, u_lf] @ ''y'')"
  by code_simp

text \<open>
  The region of an edit is counted when it is made: a later edit of the same call that adds lines above moves the
  text, and the lines shown as the result are others. Here the new text \<open>y\<close> is on line six, and the region says four.
\<close>

theorem edited_region_stale:
  "map_sum (\<lambda>_. ()) (\<lambda>acc. (lines_of (ea_content acc), ea_regions acc))
     (run_edits 2 0 [\<lparr>rp_old = ''x'', rp_new = ''y'', rp_all = False\<rparr>,
                     \<lparr>rp_old = ''a'', rp_new = ''a'' @ [u_lf] @ ''1'' @ [u_lf] @ ''2'', rp_all = False\<rparr>]
       \<lparr>ea_content = unlines [''a'', ''b'', ''c'', ''x''], ea_notes = [], ea_regions = [], ea_total = 0\<rparr>)
   = Inr ([''a'', ''1'', ''2'', ''b'', ''c'', ''y''], [(4, 4), (1, 3)])"
  by code_simp

end
