(* ===== verification/Todo.thy ===== *)
theory Todo
  imports Tools
begin

text \<open>
  The task list: the tool \<open>todo\<close> of \<open>packages/tools/src/todo.ts\<close>. The list is the session's, passed along; arguments have
  passed the registry's validation, which leaves open what an item is.
\<close>

section \<open>The text of an item\<close>

definition text_keys :: "string list" where
  "text_keys = [''text'', ''content'', ''item'', ''task'', ''title'', ''description'', ''step'', ''label'', ''name'']"

definition trimmed :: "string \<Rightarrow> string option" where
  "trimmed s = (if trim s = [] then None else Some (trim s))"

fun first_some :: "('a \<Rightarrow> 'b option) \<Rightarrow> 'a list \<Rightarrow> 'b option" where
  "first_some f [] = None"
| "first_some f (x # xs) = (case f x of Some y \<Rightarrow> Some y | None \<Rightarrow> first_some f xs)"

text \<open>The number is how many levels may still be opened: \<open>depth > 2\<close> ends the search.\<close>

fun item_text :: "nat \<Rightarrow> json \<Rightarrow> string option" where
  "item_text k (JStr s) = trimmed s"
| "item_text (Suc k) (JArr es) = first_some (item_text k) es"
| "item_text (Suc k) (JObj kvs) =
     first_some (\<lambda>key. case jget (JObj kvs) key of JStr s \<Rightarrow> trimmed s | JArr es \<Rightarrow> item_text k (JArr es) | _ \<Rightarrow> None) text_keys"
| "item_text _ _ = None"

section \<open>The operations\<close>

fun set_items :: "nat \<Rightarrow> json list \<Rightarrow> todo list" where
  "set_items i [] = []"
| "set_items i (item # items) =
     (case item_text 3 item of
        None \<Rightarrow> set_items (Suc i) items
      | Some s \<Rightarrow> \<lparr>td_id = nat_str (Suc i), td_text = s, td_status = Pending\<rparr> # set_items (Suc i) items)"

fun set_status :: "string \<Rightarrow> todo_status \<Rightarrow> todo list \<Rightarrow> todo list" where
  "set_status i st [] = []"
| "set_status i st (t # ts) = (if td_id t = i then t\<lparr>td_status := st\<rparr> # ts else t # set_status i st ts)"

definition todo_box :: "todo_status \<Rightarrow> string" where
  "todo_box s = (case s of Completed \<Rightarrow> ''[x]'' | InProgress \<Rightarrow> ''[>]'' | Pending \<Rightarrow> ''[ ]'')"

definition todo_output :: "todo list \<Rightarrow> string" where
  "todo_output ts =
     (if ts = [] then ''The task list is empty.''
      else unlines (map (\<lambda>t. todo_box (td_status t) @ '' '' @ td_id t @ ''. '' @ td_text t) ts) @ [u_lf, u_lf]
        @ nat_str (length (filter (\<lambda>t. td_status t \<noteq> Completed) ts)) @ '' of '' @ nat_str (length ts) @ '' remaining.'')"

definition todo_set :: "json \<Rightarrow> todo list \<Rightarrow> tool_error option \<times> todo list" where
  "todo_set args ts =
     (case jget args ''items'' of
        JArr (e # es) \<Rightarrow>
          (let made = set_items 0 (e # es)
           in (if made = []
               then Some (ToolError ''`items` contained no readable step text.''
                 (Some (''Pass plain strings: ['' @ [CHR 0x22] @ ''read the config'' @ [CHR 0x22] @ '', '' @ [CHR 0x22] @ ''add the flag''
                   @ [CHR 0x22] @ '', '' @ [CHR 0x22] @ ''run the tests'' @ [CHR 0x22] @ ''].'')))
               else None, made))
      | _ \<Rightarrow> (Some (ToolError ''`set` needs a non-empty `items` array.'' None), ts))"

definition todo_mark :: "string \<Rightarrow> todo_status \<Rightarrow> json \<Rightarrow> todo list \<Rightarrow> tool_error option \<times> todo list" where
  "todo_mark action st args ts =
     (case jget args ''id'' of
        JStr i \<Rightarrow>
          if i = [] then (Some (ToolError (''`'' @ action @ ''` needs an `id`.'') None), ts)
          else if i \<notin> set (map td_id ts)
          then (Some (ToolError (''No task with id '' @ [CHR 0x22] @ i @ [CHR 0x22] @ ''.'')
                 (Some (if ts \<noteq> [] then ''Current ids: '' @ join '', '' (map td_id ts) @ ''.'' else ''The list is empty '' @ [u_emdash] @ '' call `set` first.''))), ts)
          else (None, set_status i st ts)
      | _ \<Rightarrow> (Some (ToolError (''`'' @ action @ ''` needs an `id`.'') None), ts))"

definition todo_act :: "json \<Rightarrow> todo list \<Rightarrow> tool_error option \<times> todo list" where
  "todo_act args ts =
     (let action = jget args ''action''
      in if action = JStr ''set'' then todo_set args ts
         else if action = JStr ''start'' then todo_mark ''start'' InProgress args ts
         else if action = JStr ''complete'' then todo_mark ''complete'' Completed args ts
         else (None, ts))"

definition todo_execute :: "json \<Rightarrow> todo list \<Rightarrow> (exn + tool_result) \<times> todo list" where
  "todo_execute args ts =
     (case todo_act args ts of
        (Some e, ts') \<Rightarrow> (Inl (ToolExn e), ts')
      | (None, ts') \<Rightarrow> (Inr \<lparr>tr_output = todo_output ts', tr_error = False, tr_touched = []\<rparr>, ts'))"

section \<open>A list that can be told apart\<close>

definition todos_ok :: "todo list \<Rightarrow> bool" where
  "todos_ok ts = (distinct (map td_id ts) \<and> (\<forall>t\<in>set ts. td_text t \<noteq> [] \<and> trim (td_text t) = td_text t))"

lemma trimmed_ok: "trimmed s = Some t \<Longrightarrow> t \<noteq> [] \<and> trim t = t"
  by (auto simp: trimmed_def split: if_splits)

lemma first_some_in: "first_some f xs = Some y \<Longrightarrow> \<exists>x\<in>set xs. f x = Some y"
  by (induction xs) (auto split: option.splits)

lemma item_text_ok: "item_text k item = Some t \<Longrightarrow> t \<noteq> [] \<and> trim t = t"
proof (induction k item arbitrary: t rule: item_text.induct)
  case (2 k es)
  then show ?case using first_some_in [of "item_text k" es t] by auto
next
  case (3 k kvs)
  then show ?case
    using "3.IH" first_some_in [OF "3.prems" [unfolded item_text.simps]]
    by (elim bexE) (auto simp: trimmed_ok simp del: jget.simps split: json.splits dest: trimmed_ok)
qed (simp_all add: trimmed_ok)

lemma set_items_ids: "t \<in> set (set_items i items) \<Longrightarrow> \<exists>j\<ge>i. td_id t = nat_str (Suc j)"
  by (induction items arbitrary: i) (auto split: option.splits dest: Suc_leD)

lemma set_items_ok: "todos_ok (set_items i items)"
proof (induction items arbitrary: i)
  case (Cons item items)
  show ?case
  proof (cases "item_text 3 item")
    case None
    then show ?thesis using Cons by simp
  next
    case (Some s)
    have "nat_str (Suc i) \<notin> td_id ` set (set_items (Suc i) items)"
      using set_items_ids by fastforce
    then show ?thesis using Cons [of "Suc i"] Some item_text_ok [OF Some] by (simp add: todos_ok_def)
  qed
qed (simp add: todos_ok_def)

lemma set_status_map:
  "distinct (map td_id ts) \<Longrightarrow> set_status i st ts = map (\<lambda>t. if td_id t = i then t\<lparr>td_status := st\<rparr> else t) ts"
proof (induction ts)
  case (Cons t ts)
  show ?case
  proof (cases "td_id t = i")
    case True
    then have "\<forall>u\<in>set ts. td_id u \<noteq> i"
      using Cons.prems by (auto simp: image_iff)
    then have "map (\<lambda>t. if td_id t = i then t\<lparr>td_status := st\<rparr> else t) ts = ts" by (simp add: map_idI)
    then show ?thesis using True by simp
  qed (use Cons in simp)
qed simp

lemma set_status_ok: "todos_ok ts \<Longrightarrow> todos_ok (set_status i st ts)"
proof -
  assume ok: "todos_ok ts"
  have "map td_id (map (\<lambda>t. if td_id t = i then t\<lparr>td_status := st\<rparr> else t) ts) = map td_id ts"
    by (induction ts) simp_all
  with ok show ?thesis
    by (auto simp: todos_ok_def set_status_map simp del: map_map)
qed

text \<open>
  C20. Every call leaves a task list whose items can be told apart by their ids and have a text, without white space around it,
  whatever shape the items came in; this holds for calls that fail, too.
\<close>

theorem todos_stay_ok:
  assumes "todos_ok ts"
  shows "todos_ok (snd (todo_execute args ts))"
proof -
  have "todos_ok (snd (todo_act args ts))"
    using assms set_items_ok [of 0] set_status_ok
    by (auto simp: todo_act_def todo_set_def todo_mark_def Let_def simp del: set_items.simps split: json.split list.split)
  then show ?thesis by (cases "todo_act args ts") (simp add: todo_execute_def split: option.split)
qed

theorem todos_stay_ok_witness:
  "todos_ok (snd (todo_execute (JObj [(''action'', JStr ''set''), (''items'', JArr [JStr '' a '', JNum 3, JObj [(''task'', JArr [JStr ''b''])]])]) []))"
  by (rule todos_stay_ok) (simp add: todos_ok_def)

text \<open>
  \<open>start\<close> and \<open>complete\<close> set the status of the named item and leave everything else; they fail, without a change, exactly when
  no id is given or no item has it.
\<close>

theorem mark_changes_one:
  assumes "todos_ok ts" "(action, st) \<in> {(''start'', InProgress), (''complete'', Completed)}"
  shows "(if i \<noteq> [] \<and> i \<in> td_id ` set ts
     then (let ts' = map (\<lambda>t. if td_id t = i then t\<lparr>td_status := st\<rparr> else t) ts
           in todo_execute (JObj [(''action'', JStr action), (''id'', JStr i)]) ts
                = (Inr \<lparr>tr_output = todo_output ts', tr_error = False, tr_touched = []\<rparr>, ts'))
     else \<exists>e. todo_execute (JObj [(''action'', JStr action), (''id'', JStr i)]) ts = (Inl e, ts))"
  using assms
  by (auto simp: todo_execute_def todo_act_def todo_mark_def Let_def set_status_map todos_ok_def)

theorem mark_changes_one_witness:
  "snd (todo_execute (JObj [(''action'', JStr ''start''), (''id'', JStr ''1'')]) [\<lparr>td_id = ''1'', td_text = ''a'', td_status = Pending\<rparr>])
     = [\<lparr>td_id = ''1'', td_text = ''a'', td_status = InProgress\<rparr>]"
proof -
  have ok: "todos_ok [\<lparr>td_id = ''1'', td_text = ''a'', td_status = Pending\<rparr>]" by code_simp
  show ?thesis
    using mark_changes_one [OF ok, of "''start''" InProgress "''1''"] by (simp add: Let_def)
qed

text \<open>
  A \<open>set\<close> that is refused because no item has a readable text has already cleared the list.
\<close>

theorem refused_set_clears:
  "(case todo_execute (JObj [(''action'', JStr ''set''), (''items'', JArr [JNum 1])]) [\<lparr>td_id = ''1'', td_text = ''a'', td_status = Pending\<rparr>] of
      (res, ts) \<Rightarrow> (map_sum (\<lambda>_. ()) tr_output res, length ts)) = (Inl (), 0)"
  by code_simp

end
