(* ===== verification/Identities.thy ===== *)
theory Identities
  imports Jean_Prelude
begin

text \<open>
  Who may reach which session: \<open>IdentityStore\<close> of \<open>packages/gateway/src/identity.ts\<close>. The maps are ordered association
  lists; the clock and the random identities and codes are arguments. The file is the list of identities last saved,
  and loading starts from it, or from nothing when it is absent or cannot be read.
\<close>

section \<open>State\<close>

record account =
  ac_platform :: string
  ac_id :: string
  ac_label :: "string option"
  ac_linked :: nat

record identity =
  id_id :: string
  id_accounts :: "account list"
  id_session :: "string option"
  id_cwd :: "string option"
  id_created :: nat
  id_seen :: nat

record pending_link =
  lk_identity :: string
  lk_expires :: nat

record id_store =
  is_ids :: "(string \<times> identity) list"
  is_index :: "(string \<times> string) list"
  is_pending :: "(string \<times> pending_link) list"
  is_failures :: "(string \<times> (nat \<times> nat)) list"
  is_total :: "nat \<times> nat"
  is_file :: "identity list option"

definition link_ttl :: nat where "link_ttl = 10 * 60 * 1000"
definition max_failures_per_account :: nat where "max_failures_per_account = 5"
definition max_failures_total :: nat where "max_failures_total = 20"

definition account_key :: "string \<Rightarrow> string \<Rightarrow> string" where
  "account_key platform acc = platform @ '':'' @ acc"

definition key_of :: "account \<Rightarrow> string" where
  "key_of a = account_key (ac_platform a) (ac_id a)"

definition is_account :: "string \<Rightarrow> string \<Rightarrow> account \<Rightarrow> bool" where
  "is_account platform acc a = (ac_platform a = platform \<and> ac_id a = acc)"

definition empty_store :: id_store where
  "empty_store = \<lparr>is_ids = [], is_index = [], is_pending = [], is_failures = [], is_total = (0, 0), is_file = None\<rparr>"

definition load_identity :: "identity \<Rightarrow> id_store \<Rightarrow> id_store" where
  "load_identity d s =
     s\<lparr>is_ids := AList.update (id_id d) d (is_ids s),
       is_index := fold (\<lambda>a. AList.update (key_of a) (id_id d)) (id_accounts d) (is_index s)\<rparr>"

definition load_store :: "identity list option \<Rightarrow> id_store" where
  "load_store f = (case f of None \<Rightarrow> empty_store | Some ds \<Rightarrow> (fold load_identity ds empty_store)\<lparr>is_file := f\<rparr>)"

definition save_store :: "id_store \<Rightarrow> id_store" where
  "save_store s = s\<lparr>is_file := Some (map snd (is_ids s))\<rparr>"

section \<open>Operations\<close>

definition resolve_account :: "string \<Rightarrow> string \<Rightarrow> id_store \<Rightarrow> identity option" where
  "resolve_account platform acc s =
     (case map_of (is_index s) (account_key platform acc) of
        None \<Rightarrow> None
      | Some i \<Rightarrow> if i = [] then None else map_of (is_ids s) i)"

definition set_identity :: "string \<Rightarrow> (identity \<Rightarrow> identity) \<Rightarrow> id_store \<Rightarrow> id_store" where
  "set_identity i f s =
     (case map_of (is_ids s) i of None \<Rightarrow> s | Some d \<Rightarrow> s\<lparr>is_ids := AList.update i (f d) (is_ids s)\<rparr>)"

definition create_identity :: "nat \<Rightarrow> string \<Rightarrow> string \<Rightarrow> id_store \<Rightarrow> id_store" where
  "create_identity now fresh cwd s =
     save_store (s\<lparr>is_ids := AList.update fresh
       \<lparr>id_id = fresh, id_accounts = [], id_session = None, id_cwd = Some cwd, id_created = now, id_seen = now\<rparr> (is_ids s)\<rparr>)"

definition expire_pending :: "nat \<Rightarrow> id_store \<Rightarrow> id_store" where
  "expire_pending now s = s\<lparr>is_pending := filter (\<lambda>(c, l). \<not> lk_expires l < now) (is_pending s)\<rparr>"

definition issue_code :: "nat \<Rightarrow> string \<Rightarrow> string \<Rightarrow> id_store \<Rightarrow> string + id_store" where
  "issue_code now code i s =
     (if map_of (is_ids s) i = None then Inl (''no identity '' @ i)
      else (let s = expire_pending now s
            in Inr (s\<lparr>is_pending := AList.update code \<lparr>lk_identity = i, lk_expires = now + link_ttl\<rparr> (is_pending s)\<rparr>)))"

definition unlink_account :: "string \<Rightarrow> string \<Rightarrow> id_store \<Rightarrow> bool \<times> id_store" where
  "unlink_account platform acc s =
     (let k = account_key platform acc
      in case map_of (is_index s) k of
           None \<Rightarrow> (False, s)
         | Some i \<Rightarrow>
             if i = [] then (False, s)
             else (let s = set_identity i (\<lambda>d. d\<lparr>id_accounts := filter (\<lambda>a. \<not> is_account platform acc a) (id_accounts d)\<rparr>) s
                   in (True, save_store (s\<lparr>is_index := AList.delete k (is_index s)\<rparr>))))"

definition is_locked :: "nat \<Rightarrow> string \<Rightarrow> id_store \<Rightarrow> bool" where
  "is_locked now k s =
     (case map_of (is_failures s) k of None \<Rightarrow> False | Some (n, reset) \<Rightarrow> reset > now \<and> n \<ge> max_failures_per_account)"

definition record_failure :: "nat \<Rightarrow> string \<Rightarrow> id_store \<Rightarrow> id_store" where
  "record_failure now k s =
     (let one = (case map_of (is_failures s) k of
                   Some (n, reset) \<Rightarrow> if reset > now then (n + 1, reset) else (1, now + link_ttl)
                 | None \<Rightarrow> (1, now + link_ttl));
          tot = (if snd (is_total s) \<le> now then (1, now + link_ttl) else (fst (is_total s) + 1, snd (is_total s)))
      in s\<lparr>is_failures := AList.update k one (is_failures s), is_total := tot,
           is_pending := (if fst tot \<ge> max_failures_total then [] else is_pending s)\<rparr>)"

definition bind_account :: "nat \<Rightarrow> string \<Rightarrow> string \<Rightarrow> string option \<Rightarrow> string \<Rightarrow> id_store \<Rightarrow> id_store" where
  "bind_account now platform acc label i s =
     (let k = account_key platform acc;
          s1 = (case map_of (is_index s) k of
                  None \<Rightarrow> s
                | Some j \<Rightarrow> if j \<noteq> [] \<and> j \<noteq> i then snd (unlink_account platform acc s) else s);
          s2 = set_identity i (\<lambda>d.
                 if list_ex (is_account platform acc) (id_accounts d) then d
                 else d\<lparr>id_accounts := id_accounts d @ [\<lparr>ac_platform = platform, ac_id = acc, ac_label = label, ac_linked = now\<rparr>]\<rparr>) s1;
          s3 = s2\<lparr>is_index := AList.update k i (is_index s2)\<rparr>
      in save_store (set_identity i (\<lambda>d. d\<lparr>id_seen := now\<rparr>) s3))"

definition redeem_code :: "nat \<Rightarrow> string \<Rightarrow> string \<Rightarrow> string \<Rightarrow> string option \<Rightarrow> id_store \<Rightarrow> identity option \<times> id_store" where
  "redeem_code now code platform acc label s0 =
     (let s = expire_pending now s0; k = account_key platform acc
      in if is_locked now k s then (None, s)
         else case map_of (is_pending s) code of
                None \<Rightarrow> (None, record_failure now k s)
              | Some l \<Rightarrow>
                  (let s = s\<lparr>is_pending := AList.delete code (is_pending s), is_failures := AList.delete k (is_failures s)\<rparr>;
                       i = lk_identity l
                   in if map_of (is_ids s) i = None then (None, s)
                      else (let s = bind_account now platform acc label i s in (map_of (is_ids s) i, s))))"

definition attach_session :: "nat \<Rightarrow> string \<Rightarrow> string \<Rightarrow> string \<Rightarrow> id_store \<Rightarrow> id_store" where
  "attach_session now i session cwd s =
     (if map_of (is_ids s) i = None then s
      else save_store (set_identity i (\<lambda>d. d\<lparr>id_session := Some session, id_cwd := Some cwd, id_seen := now\<rparr>) s))"

definition touch_identity :: "nat \<Rightarrow> string \<Rightarrow> id_store \<Rightarrow> id_store" where
  "touch_identity now i s = set_identity i (\<lambda>d. d\<lparr>id_seen := now\<rparr>) s"

definition all_identities :: "id_store \<Rightarrow> identity list" where
  "all_identities s = sort_key (\<lambda>d. - int (id_seen d)) (map snd (is_ids s))"

definition pending_count :: "nat \<Rightarrow> id_store \<Rightarrow> nat \<times> id_store" where
  "pending_count now s = (let s = expire_pending now s in (length (is_pending s), s))"

section \<open>Histories\<close>

text \<open>
  What happens to a store, with the time. Identities are new when they are made (they are eight random bytes), and
  names of platforms are those of the adapters, which have no colon.
\<close>

datatype gw_op = Create string string | Issue string string | Redeem string string string "string option"
  | Unlink string string | Attach string string string | Touch string

fun gw_apply :: "nat \<Rightarrow> gw_op \<Rightarrow> id_store \<Rightarrow> id_store" where
  "gw_apply t (Create i cwd) s = create_identity t i cwd s"
| "gw_apply t (Issue i code) s = (case issue_code t code i s of Inl _ \<Rightarrow> s | Inr s' \<Rightarrow> s')"
| "gw_apply t (Redeem code platform acc label) s = snd (redeem_code t code platform acc label s)"
| "gw_apply t (Unlink platform acc) s = snd (unlink_account platform acc s)"
| "gw_apply t (Attach i session cwd) s = attach_session t i session cwd s"
| "gw_apply t (Touch i) s = touch_identity t i s"

definition gw_run :: "(nat \<times> gw_op) list \<Rightarrow> id_store \<Rightarrow> id_store" where
  "gw_run evs s = fold (\<lambda>(t, op). gw_apply t op) evs s"

definition platform_ok :: "string \<Rightarrow> bool" where
  "platform_ok p = (CHR '':'' \<notin> set p)"

fun allowed :: "gw_op \<Rightarrow> id_store \<Rightarrow> bool" where
  "allowed (Create i cwd) s = (i \<noteq> [] \<and> map_of (is_ids s) i = None)"
| "allowed (Redeem code platform acc label) s = platform_ok platform"
| "allowed (Unlink platform acc) s = platform_ok platform"
| "allowed _ s = True"

inductive history :: "(nat \<times> gw_op) list \<Rightarrow> id_store \<Rightarrow> bool" where
  start: "history [] empty_store"
| step: "history evs s \<Longrightarrow> allowed op s \<Longrightarrow> list_all (\<lambda>(t', _). t' \<le> t) evs \<Longrightarrow> history (evs @ [(t, op)]) (gw_apply t op s)"

lemma account_key_inj:
  "platform_ok p \<Longrightarrow> platform_ok q \<Longrightarrow> account_key p a = account_key q b \<longleftrightarrow> p = q \<and> a = b"
proof -
  have split: "takeWhile (\<lambda>c. c \<noteq> CHR '':'') (account_key p a) = p" if "platform_ok p" for p a
    using that unfolding account_key_def platform_ok_def by (induction p) auto
  assume "platform_ok p" "platform_ok q"
  then show ?thesis
    using split [of p a] split [of q b] by (auto simp: account_key_def)
qed

section \<open>Accounts and their index agree\<close>

text \<open>Every operation changes the two maps together; this is what they do to a lookup.\<close>

definition id_map :: "id_store \<Rightarrow> string \<Rightarrow> identity option" where
  "id_map s = map_of (is_ids s)"

definition index_map :: "id_store \<Rightarrow> string \<Rightarrow> string option" where
  "index_map s = map_of (is_index s)"

lemma save_maps [simp]: "id_map (save_store s) = id_map s" "index_map (save_store s) = index_map s"
  "is_pending (save_store s) = is_pending s" "map fst (is_ids (save_store s)) = map fst (is_ids s)"
  "is_total (save_store s) = is_total s"
  by (simp_all add: save_store_def id_map_def index_map_def)

lemma set_identity_maps [simp]:
  "id_map (set_identity i f s) = (\<lambda>j. if j = i then map_option f (id_map s i) else id_map s j)"
  "index_map (set_identity i f s) = index_map s"
  "is_pending (set_identity i f s) = is_pending s" "is_total (set_identity i f s) = is_total s"
  by (auto simp: set_identity_def id_map_def index_map_def update_conv' split: option.splits)

lemma expire_maps [simp]:
  "id_map (expire_pending t s) = id_map s" "index_map (expire_pending t s) = index_map s"
  "is_ids (expire_pending t s) = is_ids s" "is_index (expire_pending t s) = is_index s"
  "is_total (expire_pending t s) = is_total s" "is_failures (expire_pending t s) = is_failures s"
  by (simp_all add: expire_pending_def id_map_def index_map_def)

lemma record_failure_maps [simp]:
  "id_map (record_failure t k s) = id_map s" "index_map (record_failure t k s) = index_map s"
  "is_ids (record_failure t k s) = is_ids s" "is_index (record_failure t k s) = is_index s"
  by (simp_all add: record_failure_def Let_def id_map_def index_map_def)

definition maps_ok :: "(string \<Rightarrow> identity option) \<Rightarrow> (string \<Rightarrow> string option) \<Rightarrow> bool" where
  "maps_ok ids ix =
     ((\<forall>i d. ids i = Some d \<longrightarrow> i \<noteq> [] \<and> id_id d = i \<and> distinct (map key_of (id_accounts d)) \<and> (\<forall>a\<in>set (id_accounts d). platform_ok (ac_platform a)))
      \<and> (\<forall>k i. ix k = Some i \<longleftrightarrow> (\<exists>d. ids i = Some d \<and> k \<in> key_of ` set (id_accounts d))))"

definition store_ok :: "id_store \<Rightarrow> bool" where
  "store_ok s = (distinct (map fst (is_ids s)) \<and> maps_ok (id_map s) (index_map s))"

lemma distinct_update: "distinct (map fst m) \<Longrightarrow> distinct (map fst (AList.update k v m))"
  by (simp add: jm.keys_put)

lemma set_identity_distinct: "distinct (map fst (is_ids s)) \<Longrightarrow> distinct (map fst (is_ids (set_identity i f s)))"
  by (simp add: set_identity_def distinct_update split: option.split)

text \<open>The four ways the maps change.\<close>

lemma maps_ok_new:
  "maps_ok ids ix \<Longrightarrow> i \<noteq> [] \<Longrightarrow> ids i = None \<Longrightarrow> id_id d = i \<Longrightarrow> id_accounts d = [] \<Longrightarrow> maps_ok (ids(i \<mapsto> d)) ix"
  unfolding maps_ok_def by (auto split: if_splits)

lemma maps_ok_same:
  "maps_ok ids ix \<Longrightarrow> (\<And>d. id_id (f d) = id_id d \<and> id_accounts (f d) = id_accounts d) \<Longrightarrow>
   maps_ok (\<lambda>j. if j = i then map_option f (ids i) else ids j) ix"
  unfolding maps_ok_def by (auto split: if_splits)

lemma maps_ok_remove:
  assumes "maps_ok ids ix" "ix (account_key p a) = Some i" "platform_ok p"
  shows "maps_ok (\<lambda>j. if j = i then map_option (\<lambda>d. d\<lparr>id_accounts := filter (\<lambda>x. \<not> is_account p a x) (id_accounts d)\<rparr>) (ids i) else ids j)
    (ix(account_key p a := None))"
proof -
  let ?k = "account_key p a"
  obtain d where d: "ids i = Some d" "?k \<in> key_of ` set (id_accounts d)"
    using assms(1,2) unfolding maps_ok_def by blast
  have plat: "\<forall>x\<in>set (id_accounts d). platform_ok (ac_platform x)"
    using assms(1) d unfolding maps_ok_def by blast
  have "is_account p a x \<longleftrightarrow> key_of x = ?k" if "x \<in> set (id_accounts d)" for x
    using plat that account_key_inj [OF _ assms(3), of "ac_platform x" "ac_id x" a] by (auto simp: is_account_def key_of_def)
  then have rest: "filter (\<lambda>x. \<not> is_account p a x) (id_accounts d) = filter (\<lambda>x. key_of x \<noteq> ?k) (id_accounts d)"
    by (auto intro: filter_cong)
  have keys: "key_of ` set (filter (\<lambda>x. key_of x \<noteq> ?k) (id_accounts d)) = key_of ` set (id_accounts d) - {?k}"
    by auto
  have one: "j = i" if "ids j = Some e" "?k \<in> key_of ` set (id_accounts e)" for j e
    using assms(1,2) that unfolding maps_ok_def by (metis option.inject)
  show ?thesis
    unfolding maps_ok_def
  proof (intro conjI allI impI)
    fix k j
    show "(ix(?k := None)) k = Some j \<longleftrightarrow> (\<exists>e. (if j = i then map_option (\<lambda>d. d\<lparr>id_accounts := filter (\<lambda>x. \<not> is_account p a x) (id_accounts d)\<rparr>) (ids i)
        else ids j) = Some e \<and> k \<in> key_of ` set (id_accounts e))"
    proof (cases "j = i")
      case True
      then show ?thesis using assms(1) d rest keys unfolding maps_ok_def by (auto simp del: set_filter)
    next
      case False
      then show ?thesis using assms(1) one unfolding maps_ok_def by auto
    qed
  qed (use assms(1) d rest in \<open>auto simp: maps_ok_def distinct_map_filter split: if_splits\<close>)
qed

lemma maps_ok_add:
  assumes "maps_ok ids ix" "ix (account_key p a) \<in> {None, Some i}" "ids i = Some d" "platform_ok p"
  shows "maps_ok (\<lambda>j. if j = i then map_option (\<lambda>d. if list_ex (is_account p a) (id_accounts d) then d
      else d\<lparr>id_accounts := id_accounts d @ [\<lparr>ac_platform = p, ac_id = a, ac_label = l, ac_linked = now\<rparr>]\<rparr>) (ids i) else ids j)
    (ix(account_key p a \<mapsto> i))"
proof -
  let ?k = "account_key p a"
  have plat: "\<forall>x\<in>set (id_accounts d). platform_ok (ac_platform x)"
    using assms(1,3) unfolding maps_ok_def by blast
  have eq: "is_account p a x \<longleftrightarrow> key_of x = ?k" if "x \<in> set (id_accounts d)" for x
    using plat that account_key_inj [OF _ assms(4), of "ac_platform x" "ac_id x" a] by (auto simp: is_account_def key_of_def)
  then have has: "list_ex (is_account p a) (id_accounts d) \<longleftrightarrow> ?k \<in> key_of ` set (id_accounts d)"
    unfolding list_ex_iff image_iff by metis
  have "ix ?k = Some i \<longleftrightarrow> (\<exists>e. ids i = Some e \<and> ?k \<in> key_of ` set (id_accounts e))"
    using assms(1) unfolding maps_ok_def by blast
  then have ix: "ix ?k = Some i \<longleftrightarrow> ?k \<in> key_of ` set (id_accounts d)" "\<And>j. ix ?k = Some j \<Longrightarrow> j = i"
    using assms(2,3) by auto
  have others: "?k \<notin> key_of ` set (id_accounts e)" if "ids j = Some e" "j \<noteq> i" for j e
    using assms(1) ix(2) that unfolding maps_ok_def by metis
  show ?thesis
  proof (cases "?k \<in> key_of ` set (id_accounts d)")
    case True
    then have same: "ix(?k \<mapsto> i) = ix" using ix(1) by (simp add: fun_upd_idem)
    have "list_ex (is_account p a) (id_accounts d)" using True has by blast
    then have "(\<lambda>j. if j = i then map_option (\<lambda>d. if list_ex (is_account p a) (id_accounts d) then d
      else d\<lparr>id_accounts := id_accounts d @ [\<lparr>ac_platform = p, ac_id = a, ac_label = l, ac_linked = now\<rparr>]\<rparr>) (ids i) else ids j) = ids"
      using assms(3) by (auto simp: fun_eq_iff)
    then show ?thesis using assms(1) same by simp
  next
    case False
    then have no: "\<not> list_ex (is_account p a) (id_accounts d)" using has by blast
    show ?thesis
      unfolding maps_ok_def
    proof (intro conjI allI impI)
      fix k j
      show "(ix(?k \<mapsto> i)) k = Some j \<longleftrightarrow> (\<exists>e. (if j = i then map_option (\<lambda>d. if list_ex (is_account p a) (id_accounts d) then d
        else d\<lparr>id_accounts := id_accounts d @ [\<lparr>ac_platform = p, ac_id = a, ac_label = l, ac_linked = now\<rparr>]\<rparr>) (ids i) else ids j) = Some e
        \<and> k \<in> key_of ` set (id_accounts e))"
        using assms(1,3) no others unfolding maps_ok_def by (auto simp: key_of_def)
    qed (use assms False no in \<open>auto simp: maps_ok_def key_of_def split: if_splits\<close>)
  qed
qed

text \<open>The operations on the maps.\<close>

lemma unlink_ok:
  assumes "store_ok s" "platform_ok p"
  shows "store_ok (snd (unlink_account p a s))"
proof (cases "index_map s (account_key p a)")
  case None
  then show ?thesis using assms by (simp add: unlink_account_def index_map_def)
next
  case (Some i)
  then have "i \<noteq> []" using assms(1) unfolding store_ok_def maps_ok_def by blast
  let ?f = "\<lambda>d. d\<lparr>id_accounts := filter (\<lambda>x. \<not> is_account p a x) (id_accounts d)\<rparr>"
  have un: "snd (unlink_account p a s)
      = save_store (set_identity i ?f s\<lparr>is_index := AList.delete (account_key p a) (is_index (set_identity i ?f s))\<rparr>)"
    using Some \<open>i \<noteq> []\<close> by (simp add: unlink_account_def index_map_def Let_def)
  have maps: "id_map (t\<lparr>is_index := AList.delete k m\<rparr>) = id_map t" "index_map (t\<lparr>is_index := AList.delete k m\<rparr>) = (map_of m)(k := None)" for t k m
    by (simp_all add: id_map_def index_map_def delete_conv')
  have ix: "map_of (is_index (set_identity i ?f s)) = index_map s"
    using set_identity_maps(2) [of i ?f s] by (simp add: index_map_def)
  show ?thesis
    unfolding un store_ok_def save_maps maps set_identity_maps ix
    using assms Some maps_ok_remove [of "id_map s" "index_map s" p a i] set_identity_distinct [of s i ?f] by (simp add: store_ok_def)
qed

lemma bind_ok:
  assumes "store_ok s" "platform_ok p" "id_map s i \<noteq> None"
  shows "store_ok (bind_account now p a l i s)"
proof -
  let ?k = "account_key p a"
  define s1 where "s1 = (case map_of (is_index s) ?k of
     None \<Rightarrow> s | Some j \<Rightarrow> if j \<noteq> [] \<and> j \<noteq> i then snd (unlink_account p a s) else s)"
  have ok1: "store_ok s1" using assms(1,2) unlink_ok unfolding s1_def by (simp split: option.split)
  have free: "index_map s1 ?k \<in> {None, Some i}"
  proof (cases "index_map s ?k")
    case (Some j)
    then have "j \<noteq> []" using assms(1) unfolding store_ok_def maps_ok_def by blast
    then show ?thesis
      using Some by (auto simp: s1_def index_map_def unlink_account_def Let_def save_store_def delete_conv')
  qed (simp add: s1_def index_map_def)
  have "id_map (snd (unlink_account p a s)) i \<noteq> None"
    using assms(3) by (auto simp: unlink_account_def Let_def id_map_def save_store_def set_identity_def update_conv' split: option.split)
  then have "id_map s1 i \<noteq> None"
    using assms(3) unfolding s1_def by (simp split: option.split)
  then obtain d where d: "id_map s1 i = Some d" by blast
  let ?f = "\<lambda>d. if list_ex (is_account p a) (id_accounts d) then d
                 else d\<lparr>id_accounts := id_accounts d @ [\<lparr>ac_platform = p, ac_id = a, ac_label = l, ac_linked = now\<rparr>]\<rparr>"
  define s2 where "s2 = set_identity i ?f s1"
  define s3 where "s3 = s2\<lparr>is_index := AList.update ?k i (is_index s2)\<rparr>"
  have b: "bind_account now p a l i s = save_store (set_identity i (\<lambda>d. d\<lparr>id_seen := now\<rparr>) s3)"
    by (simp only: bind_account_def Let_def s1_def s2_def s3_def)
  have "maps_ok (id_map s2) ((index_map s1)(?k \<mapsto> i))"
    unfolding s2_def set_identity_maps
    using maps_ok_add [of "id_map s1" "index_map s1" p a i d l now] free d assms(2) ok1 by (simp add: store_ok_def)
  moreover have "id_map s3 = id_map s2" "index_map s3 = (index_map s1)(?k \<mapsto> i)"
    using set_identity_maps(2) [of i ?f s1] by (simp_all add: s3_def id_map_def index_map_def update_conv' s2_def)
  ultimately have "maps_ok (id_map s3) (index_map s3)" by simp
  then have "maps_ok (\<lambda>j. if j = i then map_option (\<lambda>d. d\<lparr>id_seen := now\<rparr>) (id_map s3 i) else id_map s3 j) (index_map s3)"
    by (rule maps_ok_same) simp
  moreover have "distinct (map fst (is_ids s3))"
    using ok1 set_identity_distinct [of s1 i ?f] by (simp add: s3_def s2_def store_ok_def)
  ultimately show ?thesis
    unfolding b store_ok_def save_maps set_identity_maps using set_identity_distinct by blast
qed

lemma redeem_cases:
  assumes "redeem_code now code p a l s = (res, s')"
  obtains (locked) "is_locked now (account_key p a) s" "res = None" "s' = expire_pending now s"
  | (wrong) "\<not> is_locked now (account_key p a) s" "map_of (is_pending (expire_pending now s)) code = None" "res = None"
      "s' = record_failure now (account_key p a) (expire_pending now s)"
  | (gone) lk where "\<not> is_locked now (account_key p a) s" "map_of (is_pending (expire_pending now s)) code = Some lk"
      "id_map s (lk_identity lk) = None" "res = None"
      "s' = (expire_pending now s)\<lparr>is_pending := AList.delete code (is_pending (expire_pending now s)),
        is_failures := AList.delete (account_key p a) (is_failures s)\<rparr>"
  | (linked) lk t where "\<not> is_locked now (account_key p a) s" "map_of (is_pending (expire_pending now s)) code = Some lk"
      "id_map s (lk_identity lk) \<noteq> None"
      "t = (expire_pending now s)\<lparr>is_pending := AList.delete code (is_pending (expire_pending now s)),
        is_failures := AList.delete (account_key p a) (is_failures s)\<rparr>"
      "s' = bind_account now p a l (lk_identity lk) t" "res = id_map s' (lk_identity lk)"
proof (cases "is_locked now (account_key p a) s")
  case True
  then have "is_locked now (account_key p a) (expire_pending now s)" by (simp add: is_locked_def)
  then show thesis using assms True locked by (simp add: redeem_code_def Let_def)
next
  case False
  then have unlocked: "\<not> is_locked now (account_key p a) (expire_pending now s)" by (simp add: is_locked_def)
  show thesis
  proof (cases "map_of (is_pending (expire_pending now s)) code")
    case None
    then show thesis using assms False unlocked wrong by (simp add: redeem_code_def Let_def)
  next
    case (Some lk)
    show thesis
    proof (cases "id_map s (lk_identity lk)")
      case None
      then show thesis using assms False unlocked Some gone by (simp add: redeem_code_def Let_def id_map_def)
    next
      case (Some d)
      show thesis
        by (rule linked [OF False \<open>map_of _ code = Some lk\<close> _ refl])
          (use assms unlocked Some \<open>map_of _ code = Some lk\<close> in \<open>auto simp: redeem_code_def Let_def id_map_def\<close>)
    qed
  qed
qed

lemma store_ok_cong:
  "is_ids s' = is_ids s \<Longrightarrow> is_index s' = is_index s \<Longrightarrow> store_ok s \<Longrightarrow> store_ok s'"
  by (simp add: store_ok_def id_map_def index_map_def)

lemma set_same_ok: "store_ok s \<Longrightarrow> (\<And>d. id_id (f d) = id_id d \<and> id_accounts (f d) = id_accounts d) \<Longrightarrow> store_ok (set_identity i f s)"
  using maps_ok_same [of "id_map s" "index_map s" f i] set_identity_distinct [of s i f] by (simp add: store_ok_def)

lemma save_ok: "store_ok (save_store s) \<longleftrightarrow> store_ok s"
  by (simp add: store_ok_def)

lemma redeem_ok:
  assumes "store_ok s" "platform_ok p"
  shows "store_ok (snd (redeem_code now code p a l s))"
proof (cases "redeem_code now code p a l s")
  case (Pair res s')
  then have "store_ok s'"
  proof (cases rule: redeem_cases)
    case (linked lk t)
    have "store_ok t" by (rule store_ok_cong [OF _ _ assms(1)]) (simp_all add: linked(4))
    moreover have "id_map t (lk_identity lk) \<noteq> None" using linked(3,4) by (simp add: id_map_def)
    ultimately show ?thesis using linked(5) bind_ok assms(2) by simp
  qed (rule store_ok_cong [OF _ _ assms(1)]; simp)+
  with Pair show ?thesis by simp
qed

lemma apply_ok:
  assumes "store_ok s" "allowed op s"
  shows "store_ok (gw_apply t op s)"
proof (cases op)
  case (Create i cwd)
  then show ?thesis
    using assms maps_ok_new [of "id_map s" "index_map s" i]
    by (simp add: create_identity_def save_ok) (simp add: store_ok_def id_map_def index_map_def update_conv' distinct_update)
next
  case (Issue i code)
  then show ?thesis using store_ok_cong [OF _ _ assms(1)] by (simp add: issue_code_def Let_def)
next
  case (Attach i session cwd)
  then show ?thesis using assms by (simp add: attach_session_def save_ok set_same_ok)
next
  case (Touch i)
  then show ?thesis using assms by (simp add: touch_identity_def set_same_ok)
qed (use assms redeem_ok unlink_ok in simp_all)

lemma empty_ok: "store_ok empty_store"
  by (simp add: store_ok_def empty_store_def maps_ok_def id_map_def index_map_def)

text \<open>
  In every history of the gateway an account belongs to at most one identity, and the index of accounts agrees with the lists of the
  identities: linking an account again moves it, unlinking takes it out of both.
\<close>

theorem accounts_have_one_identity:
  assumes "history evs s"
  shows "store_ok s"
  using assms by induction (simp_all add: empty_ok apply_ok)

theorem accounts_have_one_identity_witness:
  "store_ok (gw_apply 1 (Create ''b'' ''/q'') (gw_apply 0 (Create ''a'' ''/p'') empty_store))"
proof (rule accounts_have_one_identity)
  have "history ([] @ [(0, Create ''a'' ''/p'')]) (gw_apply 0 (Create ''a'' ''/p'') empty_store)"
    by (rule step [OF start]) (simp_all add: empty_store_def)
  then show "history (([] @ [(0, Create ''a'' ''/p'')]) @ [(1, Create ''b'' ''/q'')]) (gw_apply 1 (Create ''b'' ''/q'') (gw_apply 0 (Create ''a'' ''/p'') empty_store))"
    by (rule step) (simp_all add: create_identity_def save_store_def empty_store_def)
qed

section \<open>Saving and loading\<close>

lemma fold_update_map: "map_of (fold (\<lambda>a. AList.update (f a) v) xs m) = (\<lambda>k. if k \<in> f ` set xs then Some v else map_of m k)"
  by (induction xs arbitrary: m) (auto simp: update_conv' fun_eq_iff)

lemma load_maps:
  "id_map (load_identity d s) = (id_map s)(id_id d \<mapsto> d)"
  "index_map (load_identity d s) = (\<lambda>k. if k \<in> key_of ` set (id_accounts d) then Some (id_id d) else index_map s k)"
  by (simp_all add: load_identity_def id_map_def index_map_def update_conv' fold_update_map fun_eq_iff)

lemma load_ids:
  "distinct (map id_id ds) \<Longrightarrow> set (map id_id ds) \<inter> set (map fst (is_ids s)) = {} \<Longrightarrow>
   is_ids (fold load_identity ds s) = is_ids s @ map (\<lambda>d. (id_id d, d)) ds"
proof (induction ds arbitrary: s)
  case (Cons d ds)
  have "AList.update k v m = m @ [(k, v)]" if "k \<notin> set (map fst m)" for k :: string and v :: identity and m
    using that by (induction m) auto
  then have "is_ids (load_identity d s) = is_ids s @ [(id_id d, d)]"
    using Cons.prems(2) by (simp add: load_identity_def)
  then show ?case using Cons.prems Cons.IH [of "load_identity d s"] by auto
qed simp

lemma load_index_none:
  "(\<forall>d\<in>set ds. k \<notin> key_of ` set (id_accounts d)) \<Longrightarrow> index_map (fold load_identity ds s) k = index_map s k"
  by (induction ds arbitrary: s) (simp_all add: load_maps)

lemma load_index_some:
  "d \<in> set ds \<Longrightarrow> k \<in> key_of ` set (id_accounts d) \<Longrightarrow> (\<forall>e\<in>set ds. k \<in> key_of ` set (id_accounts e) \<longrightarrow> id_id e = i) \<Longrightarrow>
   index_map (fold load_identity ds s) k = Some i"
proof (induction ds arbitrary: d s)
  case (Cons e ds)
  show ?case
  proof (cases "\<exists>d\<in>set ds. k \<in> key_of ` set (id_accounts d)")
    case True
    then obtain d' where "d' \<in> set ds" "k \<in> key_of ` set (id_accounts d')" by blast
    then have "index_map (fold load_identity ds (load_identity e s)) k = Some i"
      by (rule Cons.IH) (use Cons.prems(3) in simp)
    then show ?thesis by simp
  next
    case False
    then have "d = e" using Cons.prems(1,2) by auto
    then show ?thesis using Cons.prems False load_index_none [of ds k "load_identity e s"] by (simp add: load_maps)
  qed
qed simp

lemma load_store_file:
  "is_ids (load_store (Some ds)) = is_ids (fold load_identity ds empty_store)"
  "resolve_account p a (load_store (Some ds)) = resolve_account p a (fold load_identity ds empty_store)"
  by (simp_all add: load_store_def resolve_account_def split: option.split)

text \<open>
  What is saved is loaded: a store that is read back from its file has the same identities, in the same order, and
  resolves every account to the same one.
\<close>

theorem saved_store_reloads:
  assumes "store_ok s"
  shows "is_ids (load_store (is_file (save_store s))) = is_ids s
    \<and> resolve_account p a (load_store (is_file (save_store s))) = resolve_account p a s"
proof -
  let ?ds = "map snd (is_ids s)" and ?k = "account_key p a"
  have entry: "map_of (is_ids s) i = Some d" if "(i, d) \<in> set (is_ids s)" for i d
    using assms that by (simp add: store_ok_def)
  then have ids: "id_id d = i" if "(i, d) \<in> set (is_ids s)" for i d
    using assms that unfolding store_ok_def maps_ok_def id_map_def by blast
  then have same: "map (\<lambda>d. (id_id d, d)) ?ds = is_ids s" "map id_id ?ds = map fst (is_ids s)"
    by (auto intro!: map_idI simp: comp_def)
  have "distinct (map id_id ?ds)" unfolding same(2) using assms by (simp add: store_ok_def)
  then have "is_ids (fold load_identity ?ds empty_store) = is_ids empty_store @ map (\<lambda>d. (id_id d, d)) ?ds"
    by (rule load_ids) (simp add: empty_store_def)
  then have loaded: "is_ids (fold load_identity ?ds empty_store) = is_ids s"
    unfolding same(1) by (simp add: empty_store_def)
  have index: "index_map (fold load_identity ?ds empty_store) ?k = index_map s ?k"
  proof (cases "index_map s ?k")
    case None
    have "?k \<notin> key_of ` set (id_accounts d)" if mem: "d \<in> set ?ds" for d
    proof
      assume k: "?k \<in> key_of ` set (id_accounts d)"
      obtain j where "(j, d) \<in> set (is_ids s)" using mem by auto
      then have "map_of (is_ids s) j = Some d" by (rule entry)
      then have "index_map s ?k = Some j"
        using assms k unfolding store_ok_def maps_ok_def id_map_def by blast
      then show False using None by simp
    qed
    then show ?thesis
      using load_index_none [of ?ds ?k empty_store] None by (simp add: empty_store_def index_map_def)
  next
    case (Some i)
    then obtain d where d: "map_of (is_ids s) i = Some d" "?k \<in> key_of ` set (id_accounts d)"
      using assms unfolding store_ok_def maps_ok_def id_map_def by blast
    moreover have "id_id e = i" if e: "e \<in> set ?ds" "?k \<in> key_of ` set (id_accounts e)" for e
    proof -
      obtain j where j: "(j, e) \<in> set (is_ids s)" using e(1) by auto
      then have "index_map s ?k = Some j"
        using assms e(2) entry unfolding store_ok_def maps_ok_def id_map_def by blast
      then show ?thesis using Some ids [OF j] by simp
    qed
    moreover have "d \<in> set ?ds" using map_of_SomeD [OF d(1)] by force
    ultimately have "index_map (fold load_identity ?ds empty_store) ?k = Some i"
      by (intro load_index_some) blast+
    then show ?thesis using Some by simp
  qed
  have "resolve_account p a (fold load_identity ?ds empty_store) = resolve_account p a s"
    by (simp only: resolve_account_def index [unfolded index_map_def] loaded)
  moreover have "is_file (save_store s) = Some ?ds" by (simp add: save_store_def)
  ultimately show ?thesis
    using loaded by (simp only: load_store_file)
qed

theorem saved_store_reloads_witness:
  "resolve_account ''t'' ''7'' (load_store (is_file (save_store (bind_account 1 ''t'' ''7'' None ''a'' (create_identity 0 ''a'' ''/p'' empty_store)))))
     = resolve_account ''t'' ''7'' (bind_account 1 ''t'' ''7'' None ''a'' (create_identity 0 ''a'' ''/p'' empty_store))"
proof -
  have "store_ok (create_identity 0 ''a'' ''/p'' empty_store)"
    using apply_ok [OF empty_ok, of "Create ''a'' ''/p''" 0] by (simp add: empty_store_def)
  then have "store_ok (bind_account 1 ''t'' ''7'' None ''a'' (create_identity 0 ''a'' ''/p'' empty_store))"
    by (rule bind_ok) (simp_all add: platform_ok_def create_identity_def id_map_def save_store_def empty_store_def)
  then show ?thesis by (rule saved_store_reloads [THEN conjunct2])
qed

section \<open>Who is let in\<close>

lemma pending_filter: "map_of (filter (\<lambda>(c, l). P l) m) c = Some l \<Longrightarrow> distinct (map fst m) \<Longrightarrow> map_of m c = Some l \<and> P l"
  by (induction m) (auto split: if_splits dest: map_of_SomeD intro: rev_image_eqI)

definition pending_ok :: "(nat \<times> gw_op) list \<Rightarrow> id_store \<Rightarrow> bool" where
  "pending_ok evs s =
     (distinct (map fst (is_pending s))
      \<and> (\<forall>c l. map_of (is_pending s) c = Some l \<longrightarrow>
           (\<exists>pre t post. evs = pre @ (t, Issue (lk_identity l) c) # post \<and> lk_expires l = t + link_ttl)))"

lemma pending_ok_sub:
  assumes "pending_ok evs s" "distinct (map fst (is_pending s'))" "map_of (is_pending s') \<subseteq>\<^sub>m map_of (is_pending s)"
  shows "pending_ok (evs @ ev) s'"
  unfolding pending_ok_def
proof (intro conjI allI impI assms(2))
  fix c l
  assume "map_of (is_pending s') c = Some l"
  then have "map_of (is_pending s) c = Some l" using assms(3) by (force simp: map_le_def dom_def)
  then obtain pre t post where "evs = pre @ (t, Issue (lk_identity l) c) # post" "lk_expires l = t + link_ttl"
    using assms(1) unfolding pending_ok_def by blast
  then show "\<exists>pre t post. evs @ ev = pre @ (t, Issue (lk_identity l) c) # post \<and> lk_expires l = t + link_ttl"
    by (intro exI [of _ pre] exI [of _ t] exI [of _ "post @ ev"]) simp
qed

lemma expire_sub:
  "distinct (map fst (is_pending s)) \<Longrightarrow> map_of (is_pending (expire_pending t s)) \<subseteq>\<^sub>m map_of (is_pending s)"
  "distinct (map fst (is_pending s)) \<Longrightarrow> distinct (map fst (is_pending (expire_pending t s)))"
proof -
  assume d: "distinct (map fst (is_pending s))"
  show "map_of (is_pending (expire_pending t s)) \<subseteq>\<^sub>m map_of (is_pending s)"
    unfolding map_le_def
  proof (rule ballI)
    fix c
    assume "c \<in> dom (map_of (is_pending (expire_pending t s)))"
    then obtain l where l: "map_of (filter (\<lambda>(c, l). \<not> lk_expires l < t) (is_pending s)) c = Some l"
      by (auto simp: expire_pending_def)
    then show "map_of (is_pending (expire_pending t s)) c = map_of (is_pending s) c"
      using pending_filter [OF l d] by (simp add: expire_pending_def)
  qed
  show "distinct (map fst (is_pending (expire_pending t s)))"
    using d unfolding expire_pending_def by (simp add: distinct_map_filter)
qed

lemma bind_pending [simp]: "is_pending (bind_account now p a l i s) = is_pending s"
  by (simp add: bind_account_def unlink_account_def Let_def split: option.split)

lemma record_failure_pending: "is_pending (record_failure t k s) = [] \<or> is_pending (record_failure t k s) = is_pending s"
  by (simp add: record_failure_def Let_def)

lemma redeem_pending:
  assumes "distinct (map fst (is_pending s))"
  shows "map_of (is_pending (snd (redeem_code t c p a l s))) \<subseteq>\<^sub>m map_of (is_pending s)
    \<and> distinct (map fst (is_pending (snd (redeem_code t c p a l s))))"
proof (cases "redeem_code t c p a l s")
  case (Pair res s')
  have del: "map_of (AList.delete c (is_pending (expire_pending t s))) \<subseteq>\<^sub>m map_of (is_pending s)"
    using expire_sub(1) [OF assms, of t] by (auto simp: map_le_def delete_conv' dom_def)
  note sub = expire_sub [OF assms, of t]
  from Pair have "map_of (is_pending s') \<subseteq>\<^sub>m map_of (is_pending s) \<and> distinct (map fst (is_pending s'))"
  proof (cases rule: redeem_cases)
    case wrong
    then show ?thesis using sub record_failure_pending [of t "account_key p a" "expire_pending t s"] by auto
  qed (use sub del in \<open>simp_all add: distinct_delete\<close>)
  with Pair show ?thesis by simp
qed

lemma history_pending: "history evs s \<Longrightarrow> pending_ok evs s"
proof (induction rule: history.induct)
  case start
  then show ?case by (simp add: pending_ok_def empty_store_def)
next
  case (step evs s op t)
  then have d: "distinct (map fst (is_pending s))" by (simp add: pending_ok_def)
  show ?case
  proof (cases op)
    case (Issue i c)
    show ?thesis
    proof (cases "map_of (is_ids s) i")
      case None
      then show ?thesis using Issue pending_ok_sub [OF step.IH d] by (simp add: issue_code_def)
    next
      case (Some e)
      have old: "pending_ok (evs @ [(t, op)]) (expire_pending t s)"
        by (rule pending_ok_sub [OF step.IH expire_sub(2) [OF d] expire_sub(1) [OF d]])
      have new: "gw_apply t op s = (expire_pending t s)\<lparr>is_pending := AList.update c \<lparr>lk_identity = i, lk_expires = t + link_ttl\<rparr> (is_pending (expire_pending t s))\<rparr>"
        using Issue Some by (simp add: issue_code_def Let_def)
      show ?thesis
        unfolding new using old Issue
        by (auto simp: pending_ok_def update_conv' distinct_update intro: exI [of _ "[]"])
    qed
  next
    case (Redeem c p a l)
    then show ?thesis using pending_ok_sub [OF step.IH] redeem_pending [OF d] by simp
  next
    case (Unlink p a)
    then show ?thesis
      using pending_ok_sub [OF step.IH d] by (simp add: unlink_account_def Let_def pending_ok_def split: option.split)
  qed (use pending_ok_sub [OF step.IH d] in \<open>simp_all add: create_identity_def attach_session_def touch_identity_def pending_ok_def save_store_def\<close>)
qed

lemma unlink_index:
  "index_map (snd (unlink_account p a s)) =
     (if index_map s (account_key p a) \<in> {None, Some []} then index_map s else (index_map s)(account_key p a := None))"
  by (auto simp: unlink_account_def Let_def index_map_def save_store_def delete_conv' set_identity_def split: option.split)

lemma bind_index: "index_map (bind_account now p a l i s) = (index_map s)(account_key p a \<mapsto> i)"
proof -
  have upd: "index_map (t\<lparr>is_index := AList.update k v (is_index t)\<rparr>) = (index_map t)(k \<mapsto> v)" for t k v
    by (simp add: index_map_def update_conv')
  show ?thesis
    by (simp only: bind_account_def Let_def save_maps set_identity_maps upd)
      (simp add: unlink_index fun_eq_iff split: option.split)
qed

lemma index_step:
  assumes "index_map (gw_apply t op s) (account_key p a) = Some i" "allowed op s" "platform_ok p" "store_ok s"
  shows "index_map s (account_key p a) = Some i \<and> op \<noteq> Unlink p a
    \<or> (\<exists>c l lk. op = Redeem c p a l \<and> map_of (is_pending (expire_pending t s)) c = Some lk \<and> lk_identity lk = i)"
proof (cases op)
  case (Redeem c p' a' l)
  show ?thesis
  proof (cases "redeem_code t c p' a' l s")
    case (Pair res s')
    then show ?thesis
    proof (cases rule: redeem_cases)
      case (linked lk u)
      have "index_map u = index_map s" by (simp add: linked(4) index_map_def)
      then have *: "((index_map s)(account_key p' a' \<mapsto> lk_identity lk)) (account_key p a) = Some i"
        using assms(1) Redeem Pair linked(5) by (simp add: bind_index)
      show ?thesis
      proof (cases "account_key p a = account_key p' a'")
        case True
        then have "p' = p" "a' = a"
          using assms(2,3) Redeem account_key_inj [of p p' a a'] by simp_all
        then show ?thesis using * Redeem linked(2) by auto
      qed (use * Redeem in auto)
    qed (use assms(1) Redeem Pair in \<open>auto simp: index_map_def\<close>)
  qed
next
  case (Unlink p' a')
  have "index_map s (account_key p a) \<noteq> Some []"
    using assms(4) unfolding store_ok_def maps_ok_def by blast
  then show ?thesis
    using assms(1) Unlink by (auto simp: unlink_index split: if_splits)
next
  case (Issue j c)
  then show ?thesis using assms(1) by (auto simp: issue_code_def Let_def index_map_def split: if_splits)
qed (use assms(1) in \<open>auto simp: create_identity_def attach_session_def touch_identity_def index_map_def save_store_def set_identity_def
  split: if_splits option.splits\<close>)

lemma history_ok: "history evs s \<Longrightarrow> store_ok s"
  by (induction rule: history.induct) (simp_all add: empty_ok apply_ok)

lemma history_index:
  assumes "history evs s" "index_map s (account_key p a) = Some i" "platform_ok p"
  shows "\<exists>pre t1 c mid t2 l post. evs = pre @ (t1, Issue i c) # mid @ (t2, Redeem c p a l) # post
    \<and> t1 \<le> t2 \<and> t2 \<le> t1 + link_ttl \<and> (\<forall>t. (t, Unlink p a) \<notin> set post)"
  using assms
proof (induction rule: history.induct)
  case start
  then show ?case by (simp add: empty_store_def index_map_def)
next
  case (step evs s op t)
  consider (kept) "index_map s (account_key p a) = Some i" "op \<noteq> Unlink p a"
    | (bound) c l lk where "op = Redeem c p a l" "map_of (is_pending (expire_pending t s)) c = Some lk" "lk_identity lk = i"
    using index_step [OF step.prems(1) step.hyps(2) step.prems(2) history_ok [OF step.hyps(1)]] by blast
  then show ?case
  proof cases
    case kept
    then obtain pre t1 c mid t2 l post where "evs = pre @ (t1, Issue i c) # mid @ (t2, Redeem c p a l) # post"
      "t1 \<le> t2" "t2 \<le> t1 + link_ttl" "\<forall>t. (t, Unlink p a) \<notin> set post"
      using step.IH step.prems(2) by blast
    then show ?thesis
      using kept(2) by (intro exI [of _ pre] exI [of _ t1] exI [of _ c] exI [of _ mid] exI [of _ t2] exI [of _ l] exI [of _ "post @ [(t, op)]"]) auto
  next
    case bound
    have d: "distinct (map fst (is_pending s))" using history_pending [OF step.hyps(1)] by (simp add: pending_ok_def)
    have l: "map_of (is_pending s) c = Some lk" "\<not> lk_expires lk < t"
      using pending_filter [of "\<lambda>l. \<not> lk_expires l < t" "is_pending s" c lk] d bound(2) by (simp_all add: expire_pending_def)
    obtain pre t1 post where e: "evs = pre @ (t1, Issue i c) # post" "lk_expires lk = t1 + link_ttl"
      using history_pending [OF step.hyps(1)] l(1) bound(3) unfolding pending_ok_def by blast
    then have "t1 \<le> t" using step.hyps(3) by simp
    then show ?thesis
      using e l(2) bound(1)
      by (intro exI [of _ pre] exI [of _ t1] exI [of _ c] exI [of _ post] exI [of _ t] exI [of _ l] exI [of _ "[]"]) simp
  qed
qed

text \<open>
  Only a code lets an account in. An account that resolves to an identity has redeemed a code that was issued for that very identity,
  after it was issued and within ten minutes of it, and has not been unlinked since.
\<close>

theorem linked_only_by_code:
  assumes "history evs s" "resolve_account p a s = Some d" "platform_ok p"
  shows "\<exists>pre t1 c mid t2 l post. evs = pre @ (t1, Issue (id_id d) c) # mid @ (t2, Redeem c p a l) # post
    \<and> t1 \<le> t2 \<and> t2 \<le> t1 + link_ttl \<and> (\<forall>t. (t, Unlink p a) \<notin> set post)"
proof -
  obtain i where i: "index_map s (account_key p a) = Some i" "id_map s i = Some d"
    using assms(2) by (auto simp: resolve_account_def index_map_def id_map_def split: option.splits if_splits)
  then have "id_id d = i"
    using history_ok [OF assms(1)] unfolding store_ok_def maps_ok_def by blast
  then show ?thesis using history_index [OF assms(1) i(1) assms(3)] by simp
qed

definition sample_events :: "(nat \<times> gw_op) list" where
  "sample_events = [(0, Create ''a'' ''/p''), (1, Issue ''a'' ''123456''), (2, Redeem ''123456'' ''t'' ''7'' None)]"

lemma history_gw_run: "history evs s \<Longrightarrow> s = gw_run evs empty_store"
  by (induction rule: history.induct) (simp_all add: gw_run_def)

lemma sample_history: "history sample_events (gw_run sample_events empty_store)"
proof -
  have "history ([] @ [(0, Create ''a'' ''/p'')]) (gw_apply 0 (Create ''a'' ''/p'') empty_store)"
    by (rule step [OF start]) (simp_all add: empty_store_def)
  then have "history (([] @ [(0, Create ''a'' ''/p'')]) @ [(1, Issue ''a'' ''123456'')])
    (gw_apply 1 (Issue ''a'' ''123456'') (gw_apply 0 (Create ''a'' ''/p'') empty_store))"
    by (rule step) simp_all
  then have "history ((([] @ [(0, Create ''a'' ''/p'')]) @ [(1, Issue ''a'' ''123456'')]) @ [(2, Redeem ''123456'' ''t'' ''7'' None)])
    (gw_apply 2 (Redeem ''123456'' ''t'' ''7'' None) (gw_apply 1 (Issue ''a'' ''123456'') (gw_apply 0 (Create ''a'' ''/p'') empty_store)))"
    by (rule step) (simp_all add: platform_ok_def)
  then show ?thesis by (simp only: sample_events_def gw_run_def) simp
qed

theorem linked_only_by_code_witness:
  "\<exists>pre t1 c mid t2 l post. sample_events = pre @ (t1, Issue ''a'' c) # mid @ (t2, Redeem c ''t'' ''7'' l) # post
    \<and> t1 \<le> t2 \<and> t2 \<le> t1 + link_ttl \<and> (\<forall>t. (t, Unlink ''t'' ''7'') \<notin> set post)"
proof -
  have "map_option id_id (resolve_account ''t'' ''7'' (gw_run sample_events empty_store)) = Some ''a''"
    by (simp add: sample_events_def gw_run_def empty_store_def create_identity_def save_store_def issue_code_def redeem_code_def expire_pending_def
      is_locked_def bind_account_def set_identity_def resolve_account_def account_key_def link_ttl_def Let_def)
  then obtain d where d: "resolve_account ''t'' ''7'' (gw_run sample_events empty_store) = Some d" "id_id d = ''a''" by auto
  have "platform_ok ''t''" by (simp add: platform_ok_def)
  from linked_only_by_code [OF sample_history d(1) this] show ?thesis by (simp only: d(2))
qed

section \<open>Guessing\<close>

text \<open>A guess is a code that is looked up and not found.\<close>

fun wrong_guess :: "nat \<Rightarrow> gw_op \<Rightarrow> id_store \<Rightarrow> bool" where
  "wrong_guess t (Redeem code platform acc label) s =
     (\<not> is_locked t (account_key platform acc) s \<and> map_of (is_pending (expire_pending t s)) code = None)"
| "wrong_guess t _ s = False"

fun wrong_guesses :: "(nat \<times> gw_op) list \<Rightarrow> id_store \<Rightarrow> nat" where
  "wrong_guesses [] s = 0"
| "wrong_guesses ((t, op) # evs) s = (if wrong_guess t op s then 1 else 0) + wrong_guesses evs (gw_apply t op s)"

fun issues :: "string \<Rightarrow> gw_op \<Rightarrow> bool" where
  "issues c (Issue i code) = (code = c)"
| "issues c _ = False"

text \<open>What is known after \<open>n\<close> guesses while the code of time \<open>t0\<close> is pending.\<close>

definition guess_inv :: "nat \<Rightarrow> nat \<Rightarrow> id_store \<Rightarrow> bool" where
  "guess_inv t0 n s =
     (n = 0 \<or> fst (is_total s) < max_failures_total
        \<and> (n \<le> fst (is_total s) \<and> t0 < snd (is_total s) \<or> n \<le> 19 + fst (is_total s) \<and> t0 + link_ttl < snd (is_total s)))"

lemma redeem_wrong:
  "\<not> is_locked t (account_key p a) s \<Longrightarrow> map_of (is_pending (expire_pending t s)) c = None \<Longrightarrow>
   redeem_code t c p a l s = (None, record_failure t (account_key p a) (expire_pending t s))"
  by (simp add: redeem_code_def Let_def is_locked_def)

lemma guess_total:
  assumes "wrong_guess t op s" "is_pending (gw_apply t op s) \<noteq> []"
  shows "is_total (gw_apply t op s) = (if snd (is_total s) \<le> t then (1, t + link_ttl) else (fst (is_total s) + 1, snd (is_total s)))
    \<and> fst (is_total (gw_apply t op s)) < max_failures_total"
proof -
  obtain c p a l where op: "op = Redeem c p a l" using assms(1) by (cases op) auto
  have "gw_apply t op s = record_failure t (account_key p a) (expire_pending t s)"
    using assms(1) redeem_wrong unfolding op by simp
  then show ?thesis
    using assms(2) by (auto simp: record_failure_def Let_def split: if_splits)
qed

lemma no_guess_total: "\<not> wrong_guess t op s \<Longrightarrow> is_total (gw_apply t op s) = is_total s"
proof (cases op)
  case (Redeem c p a l)
  assume no: "\<not> wrong_guess t op s"
  have bind: "is_total (bind_account now p a l i u) = is_total u" for now i u
    by (simp add: bind_account_def unlink_account_def Let_def split: option.split)
  show ?thesis
  proof (cases "redeem_code t c p a l s")
    case (Pair res s')
    then have "is_total s' = is_total s"
    proof (cases rule: redeem_cases)
      case wrong
      then show ?thesis using no by (simp add: Redeem)
    next
      case (linked lk u)
      then show ?thesis by (simp only: bind) simp
    qed simp_all
    then show ?thesis using Redeem Pair by simp
  qed
qed (simp_all add: create_identity_def save_store_def issue_code_def Let_def unlink_account_def attach_session_def touch_identity_def split: option.split)

lemma pending_kept:
  assumes "distinct (map fst (is_pending s))" "map_of (is_pending (gw_apply t op s)) c = Some l" "\<not> issues c op"
  shows "map_of (is_pending s) c = Some l"
proof (cases op)
  case (Redeem c' p a l')
  then show ?thesis using redeem_pending [OF assms(1), of t c' p a l'] assms(2) by (auto simp: map_le_def dom_def)
next
  case (Issue i c')
  show ?thesis
  proof (cases "map_of (is_ids s) i")
    case None
    then show ?thesis using assms(2) Issue by (simp add: issue_code_def)
  next
    case (Some d)
    then have "map_of (is_pending (expire_pending t s)) c = Some l"
      using assms(2,3) Issue by (simp add: issue_code_def Let_def update_conv')
    then have "map_of (filter (\<lambda>(c, l). \<not> lk_expires l < t) (is_pending s)) c = Some l" by (simp add: expire_pending_def)
    then show ?thesis using pending_filter [OF _ assms(1)] by blast
  qed
qed (use assms(2) in \<open>simp_all add: create_identity_def save_store_def unlink_account_def Let_def attach_session_def touch_identity_def split: if_splits option.splits\<close>)

lemma pending_distinct: "distinct (map fst (is_pending s)) \<Longrightarrow> distinct (map fst (is_pending (gw_apply t op s)))"
proof (cases op)
  case (Redeem c p a l)
  assume "distinct (map fst (is_pending s))"
  then show ?thesis using redeem_pending [of s t c p a l] Redeem by simp
qed (simp_all add: create_identity_def save_store_def issue_code_def Let_def unlink_account_def attach_session_def touch_identity_def
  expire_sub distinct_update split: option.split)

lemma pending_run:
  "distinct (map fst (is_pending s)) \<Longrightarrow> list_all (\<lambda>(t, op). \<not> issues c op) evs \<Longrightarrow> map_of (is_pending (gw_run evs s)) c = Some l \<Longrightarrow>
   map_of (is_pending s) c = Some l"
proof (induction evs arbitrary: s)
  case (Cons ev evs)
  obtain t op where ev: "ev = (t, op)" by force
  have "map_of (is_pending (gw_apply t op s)) c = Some l"
    using Cons.IH [OF pending_distinct [OF Cons.prems(1)]] Cons.prems ev by (simp add: gw_run_def)
  then show ?case using pending_kept Cons.prems(1,2) ev by fastforce
qed (simp add: gw_run_def)

lemma guess_live:
  assumes "wrong_guess t op s" "map_of (is_pending (gw_apply t op s)) c = Some l"
  shows "map_of (is_pending (expire_pending t s)) c = Some l"
proof -
  obtain c' p a l' where op: "op = Redeem c' p a l'" using assms(1) by (cases op) auto
  have "gw_apply t op s = record_failure t (account_key p a) (expire_pending t s)"
    using assms(1) redeem_wrong unfolding op by simp
  then show ?thesis
    using assms(2) record_failure_pending [of t "account_key p a" "expire_pending t s"] by auto
qed

lemma guess_step:
  assumes "guess_inv t0 n s" "t0 \<le> t" "t \<le> t0 + link_ttl" "is_pending (gw_apply t op s) \<noteq> []"
  shows "guess_inv t0 (n + (if wrong_guess t op s then 1 else 0)) (gw_apply t op s)"
proof (cases "wrong_guess t op s")
  case False
  then show ?thesis using assms(1) no_guess_total [OF False] by (simp add: guess_inv_def)
next
  case True
  note tot = guess_total [OF True assms(4)]
  show ?thesis
  proof (cases "snd (is_total s) \<le> t")
    case new: True
    then have *: "is_total (gw_apply t op s) = (1, t + link_ttl)" using tot by simp
    show ?thesis
    proof (cases "n = 0")
      case zero: True
      then show ?thesis using True * assms(2) by (simp add: guess_inv_def max_failures_total_def link_ttl_def)
    next
      case False
      then have "n \<le> 19" "t0 < t" using assms(1,3) new by (auto simp: guess_inv_def max_failures_total_def)
      then show ?thesis using True * by (simp add: guess_inv_def max_failures_total_def)
    qed
  next
    case same: False
    then have a: "is_total (gw_apply t op s) = (fst (is_total s) + 1, snd (is_total s))" using tot by simp
    with tot have "fst (is_total s) + 1 < max_failures_total" by simp
    note * = a this
    show ?thesis
      using assms(1,2) same True * by (auto simp: guess_inv_def)
  qed
qed

lemma guess_run:
  "guess_inv t0 n s \<Longrightarrow> distinct (map fst (is_pending s)) \<Longrightarrow> list_all (\<lambda>(t, op). t0 \<le> t \<and> \<not> issues c op) evs \<Longrightarrow>
   map_of (is_pending (gw_run evs s)) c = Some l \<Longrightarrow> lk_expires l = t0 + link_ttl \<Longrightarrow>
   n + wrong_guesses evs s \<le> 38"
proof (induction evs arbitrary: n s)
  case Nil
  then show ?case by (auto simp: guess_inv_def max_failures_total_def)
next
  case (Cons ev evs)
  obtain t op where ev: "ev = (t, op)" by force
  let ?s = "gw_apply t op s"
  have d: "distinct (map fst (is_pending ?s))" using pending_distinct Cons.prems(2) by blast
  have later: "map_of (is_pending (gw_run evs ?s)) c = Some l" using Cons.prems(4) ev by (simp add: gw_run_def)
  have "list_all (\<lambda>(t, op). \<not> issues c op) evs" using Cons.prems(3) by (auto simp: list_all_iff)
  from pending_run [OF d this later] have here: "map_of (is_pending ?s) c = Some l" .
  show ?case
  proof (cases "wrong_guess t op s")
    case True
    then have "map_of (is_pending (expire_pending t s)) c = Some l"
      using here by (rule guess_live)
    then have "t \<le> t0 + link_ttl"
      using Cons.prems(2,5) pending_filter [of "\<lambda>l. \<not> lk_expires l < t" "is_pending s" c l] by (simp add: expire_pending_def)
    then have "guess_inv t0 (n + (if wrong_guess t op s then 1 else 0)) ?s"
      using Cons.prems(1,3) here ev by (intro guess_step) auto
    from Cons.IH [OF this d _ later Cons.prems(5)] show ?thesis
      using Cons.prems(3) ev by simp
  next
    case False
    then have "guess_inv t0 n ?s" using Cons.prems(1) no_guess_total by (simp add: guess_inv_def)
    from Cons.IH [OF this d _ later Cons.prems(5)] show ?thesis
      using Cons.prems(3) ev False by simp
  qed
qed

text \<open>
  C15. A code cannot be guessed at leisure: from the moment it is issued until it stops being pending, at most 38 wrong codes are tried by
  all accounts together. The windows that are counted are as long as the life of a code, so it sees at most two of them, and the
  twentieth failure of a window cancels it.
\<close>

theorem guesses_bounded:
  assumes "history pre s0" "gw_apply t0 (Issue i c) s0 = s" "map_of (is_ids s0) i \<noteq> None"
    and "list_all (\<lambda>(t, op). t0 \<le> t \<and> \<not> issues c op) evs" "map_of (is_pending (gw_run evs s)) c \<noteq> None"
  shows "wrong_guesses evs s \<le> 38"
proof -
  have d0: "distinct (map fst (is_pending s0))" using history_pending [OF assms(1)] by (simp add: pending_ok_def)
  have s: "s = (expire_pending t0 s0)\<lparr>is_pending := AList.update c \<lparr>lk_identity = i, lk_expires = t0 + link_ttl\<rparr> (is_pending (expire_pending t0 s0))\<rparr>"
    using assms(2,3) by (auto simp: issue_code_def Let_def)
  have d: "distinct (map fst (is_pending s))" using expire_sub(2) [OF d0] by (simp add: s distinct_update)
  obtain l where l: "map_of (is_pending (gw_run evs s)) c = Some l" using assms(5) by blast
  have "list_all (\<lambda>(t, op). \<not> issues c op) evs" using assms(4) by (auto simp: list_all_iff)
  from pending_run [OF d this l] have "map_of (is_pending s) c = Some l" .
  then have "lk_expires l = t0 + link_ttl" by (auto simp: s update_conv')
  then show ?thesis
    using guess_run [OF _ d assms(4) l, of 0] by (simp add: guess_inv_def)
qed

theorem guesses_bounded_witness:
  "wrong_guesses [(2, Redeem ''000000'' ''t'' ''7'' None)] (gw_apply 1 (Issue ''a'' ''123456'') (gw_apply 0 (Create ''a'' ''/p'') empty_store)) \<le> 38"
proof (rule guesses_bounded)
  show "history ([] @ [(0, Create ''a'' ''/p'')]) (gw_apply 0 (Create ''a'' ''/p'') empty_store)"
    by (rule step [OF start]) (simp_all add: empty_store_def)
  show "gw_apply 1 (Issue ''a'' ''123456'') (gw_apply 0 (Create ''a'' ''/p'') empty_store)
    = gw_apply 1 (Issue ''a'' ''123456'') (gw_apply 0 (Create ''a'' ''/p'') empty_store)" by (rule refl)
  show "list_all (\<lambda>(t, op). 1 \<le> t \<and> \<not> issues ''123456'' op) [(2::nat, Redeem ''000000'' ''t'' ''7'' None)]" by simp
qed (simp_all add: gw_run_def empty_store_def create_identity_def save_store_def issue_code_def redeem_code_def expire_pending_def is_locked_def
  record_failure_def max_failures_total_def link_ttl_def Let_def)

text \<open>
  An account that has tried five wrong codes is shut out: until its window ends every code it tries is refused, the right one too,
  and trying changes nothing but that expired codes are dropped.
\<close>

theorem locked_account_refused:
  assumes "map_of (is_failures s) (account_key p a) = Some (n, reset)" "max_failures_per_account \<le> n" "t < reset"
  shows "redeem_code t c p a l s = (None, expire_pending t s)"
  using assms by (simp add: redeem_code_def Let_def is_locked_def)

theorem locked_account_refused_witness:
  "redeem_code 5 ''123456'' ''t'' ''7'' None (empty_store\<lparr>is_failures := [(''t:7'', (5, 9))]\<rparr>)
     = (None, expire_pending 5 (empty_store\<lparr>is_failures := [(''t:7'', (5, 9))]\<rparr>))"
  by (rule locked_account_refused [where n = 5 and reset = 9]) (simp_all add: account_key_def max_failures_per_account_def)

end
