(* ===== verification/Gateway.thy ===== *)
theory Gateway
  imports Identities "HOL-Library.Multiset" "HOL-Library.Sublist"
begin

text \<open>
  The gateway: the router of \<open>packages/gateway/src/router.ts\<close>, which turns messages of a chat platform into turns of an agent, and
  \<open>splitMessage\<close> of \<open>adapter.ts\<close>.

  The router is asynchronous; between two awaits it runs alone. A step here is such a stretch: a message arrives, a
  transcription ends, a turn ends, a reply has been sent, a finished drain has settled. Which comes next is open.
  Typing indicators are not modelled. \<open>ro_events\<close> and the entry \<open>Accepted\<close> of the log are not in the program: they say
  what has happened to the store, and which message was taken for which identity when.
\<close>

section \<open>State\<close>

record gw_message =
  gm_platform :: string
  gm_account :: string
  gm_conversation :: string
  gm_text :: string
  gm_label :: "string option"
  gm_audio :: "string option"

datatype phase = Turn string | Replying | Apologizing | Ended

record drain =
  dr_identity :: string
  dr_platform :: string
  dr_conversation :: string
  dr_phase :: phase

record conversation =
  cv_running :: bool
  cv_queued :: "string list"

datatype voice = Transcribing gw_message | Heard gw_message string

text \<open>The log: what was sent, and, for what is claimed of the prompts, which prompt of an identity was accepted (after how many
  operations on the store, from which account), started, and when the waiting ones were cancelled.\<close>

datatype gw_log = Sent string string string | Started string string | Accepted nat string string string string | Cancelled string

record router =
  ro_store :: id_store
  ro_convs :: "(string \<times> conversation) list"
  ro_drains :: "drain list"
  ro_voices :: "voice list"
  ro_events :: "(nat \<times> gw_op) list"
  ro_log :: "gw_log list"

record router_env =
  re_platforms :: "string list"
  re_transcribe :: bool

definition gw_platforms :: "string list" where
  "gw_platforms = [''telegram'', ''discord'', ''slack'', ''email'', ''matrix'', ''signal'', ''whatsapp'', ''sms'']"

definition start_router :: router where
  "start_router = \<lparr>ro_store = empty_store, ro_convs = [], ro_drains = [], ro_voices = [], ro_events = [], ro_log = []\<rparr>"

definition ro_send :: "string \<Rightarrow> string \<Rightarrow> string \<Rightarrow> router \<Rightarrow> router" where
  "ro_send platform conv s r = r\<lparr>ro_log := ro_log r @ [Sent platform conv s]\<rparr>"

definition reply_to :: "gw_message \<Rightarrow> string \<Rightarrow> router \<Rightarrow> router" where
  "reply_to m s r = ro_send (gm_platform m) (gm_conversation m) s r"

text \<open>An operation on the store, and its entry in the history.\<close>

definition on_store :: "nat \<Rightarrow> gw_op \<Rightarrow> router \<Rightarrow> router" where
  "on_store now op r = r\<lparr>ro_store := gw_apply now op (ro_store r), ro_events := ro_events r @ [(now, op)]\<rparr>"

section \<open>Messages\<close>

text \<open>\<open>/^\\/?(?:link\\s+)?(\\d{6})$/\<close>\<close>

definition link_code :: "string \<Rightarrow> string option" where
  "link_code s =
     (let a = (if starts_with s ''/'' then tl s else s);
          b = (if starts_with a ''link'' \<and> drop 4 a \<noteq> [] \<and> is_ws (hd (drop 4 a)) then trim_start (drop 4 a) else a)
      in if length b = 6 \<and> list_all is_digit b then Some b else None)"

definition unlinked_text :: string where
  "unlinked_text = unlines [''This account is not linked to a Jean Code session.'', [],
     ''On the machine you want to control, run `jean gateway link`. It prints a'',
     ''six-digit code '' @ [u_emdash] @ '' send that code here to connect. The code expires in ten'',
     ''minutes and works once.'']"

definition handle_unlinked :: "nat \<Rightarrow> gw_message \<Rightarrow> string \<Rightarrow> router \<Rightarrow> router" where
  "handle_unlinked now m s r =
     (case link_code (trim s) of
        None \<Rightarrow> reply_to m unlinked_text r
      | Some code \<Rightarrow>
          (let found = fst (redeem_code now code (gm_platform m) (gm_account m) (gm_label m) (ro_store r));
               r = on_store now (Redeem code (gm_platform m) (gm_account m) (gm_label m)) r
           in reply_to m (case found of
                Some d \<Rightarrow> ''Linked. This account now shares the session running in '' @ (case id_cwd d of Some cwd \<Rightarrow> cwd | None \<Rightarrow> ''undefined'')
                  @ ''. Send a message to continue where you left off.''
              | None \<Rightarrow> ''That code is not valid, or it has expired. Generate a new one with `jean gateway link` and try again '' @ [u_emdash]
                  @ '' codes last ten minutes and work once.'') r))"

definition conv_of :: "string \<Rightarrow> router \<Rightarrow> conversation" where
  "conv_of i r = (case map_of (ro_convs r) i of None \<Rightarrow> \<lparr>cv_running = False, cv_queued = []\<rparr> | Some c \<Rightarrow> c)"

definition set_conv :: "string \<Rightarrow> conversation \<Rightarrow> router \<Rightarrow> router" where
  "set_conv i c r = r\<lparr>ro_convs := AList.update i c (ro_convs r)\<rparr>"

definition help_text :: string where
  "help_text = unlines [''Jean Code, reachable from here.'', [], ''Send anything and it runs as an agent turn in the linked session.'', [],
     ''/status  '' @ [u_emdash] @ '' which session and directory this is attached to'',
     ''/unlink  '' @ [u_emdash] @ '' disconnect this account'', ''/cancel  '' @ [u_emdash] @ '' interrupt the running turn'']"

definition status_text :: "identity \<Rightarrow> bool \<Rightarrow> string" where
  "status_text d running = unlines
     [''Directory: '' @ (case id_cwd d of Some cwd \<Rightarrow> cwd | None \<Rightarrow> ''not set''),
      ''Session: '' @ (case id_session d of Some s \<Rightarrow> s | None \<Rightarrow> ''none yet''),
      ''Linked accounts: '' @
        (let ls = join '', '' (map (\<lambda>a. ac_platform a @ (if truthy (ac_label a) then '' ('' @ the (ac_label a) @ '')'' else [])) (id_accounts d))
         in if ls = [] then ''none'' else ls),
      if running then ''A turn is running.'' else ''Idle.'']"

text \<open>A command of the gateway; \<open>None\<close> when the message is not one.\<close>

definition handle_command :: "nat \<Rightarrow> gw_message \<Rightarrow> identity \<Rightarrow> string \<Rightarrow> router \<Rightarrow> router option" where
  "handle_command now m d s r =
     (let command = to_lower (takeWhile (\<lambda>c. \<not> is_ws c) (drop 1 s)); conv = conv_of (id_id d) r
      in if command = ''start'' \<or> command = ''help'' then Some (reply_to m help_text r)
         else if command = ''status'' then Some (reply_to m (status_text d (cv_running conv)) r)
         else if command = ''unlink''
         then Some (reply_to m ''Unlinked. This account can no longer reach the session.'' (on_store now (Unlink (gm_platform m) (gm_account m)) r))
         else if command = ''cancel''
         then (let dropped = length (cv_queued conv);
                   r = (if map_of (ro_convs r) (id_id d) = None then r else set_conv (id_id d) (conv\<lparr>cv_queued := []\<rparr>) r);
                   r = r\<lparr>ro_log := ro_log r @ [Cancelled (id_id d)]\<rparr>
               in Some (reply_to m (if dropped > 0 then ''Dropped '' @ nat_str dropped @ '' queued message(s).'' else ''Nothing queued.'') r))
         else None)"

definition enqueue :: "gw_message \<Rightarrow> string \<Rightarrow> string \<Rightarrow> router \<Rightarrow> router" where
  "enqueue m i s r0 =
     (let r = r0\<lparr>ro_log := ro_log r0 @ [Accepted (length (ro_events r0)) (gm_platform m) (gm_account m) i s]\<rparr>;
          conv = conv_of i r
      in if cv_running conv
         then (let conv = conv\<lparr>cv_queued := cv_queued conv @ [s]\<rparr>
               in reply_to m (''Queued '' @ [u_emdash] @ '' a turn is already running ('' @ nat_str (length (cv_queued conv)) @ '' waiting).'')
                    (set_conv i conv r))
         else (let r = set_conv i (conv\<lparr>cv_running := True\<rparr>) r
               in r\<lparr>ro_drains := ro_drains r @ [\<lparr>dr_identity = i, dr_platform = gm_platform m, dr_conversation = gm_conversation m, dr_phase = Turn s\<rparr>],
                    ro_log := ro_log r @ [Started i s]\<rparr>))"

definition handle_text :: "nat \<Rightarrow> gw_message \<Rightarrow> string \<Rightarrow> router \<Rightarrow> router" where
  "handle_text now m s r =
     (if s = [] then r
      else case resolve_account (gm_platform m) (gm_account m) (ro_store r) of
             None \<Rightarrow> handle_unlinked now m s r
           | Some d \<Rightarrow>
               (case (if starts_with s ''/'' then handle_command now m d s r else None) of
                  Some r' \<Rightarrow> r'
                | None \<Rightarrow> enqueue m (id_id d) s (on_store now (Touch (id_id d)) r)))"

definition handle_message :: "router_env \<Rightarrow> nat \<Rightarrow> gw_message \<Rightarrow> router \<Rightarrow> router" where
  "handle_message env now m r =
     (if gm_platform m \<notin> set (re_platforms env) then r
      else if trim (gm_text m) = [] \<and> truthy (gm_audio m) \<and> re_transcribe env then r\<lparr>ro_voices := ro_voices r @ [Transcribing m]\<rparr>
      else handle_text now m (trim (gm_text m)) r)"

section \<open>Steps\<close>

datatype gw_step = Receive gw_message | Transcribed nat "string + string" | HeardSent nat | HeardFailed nat string
  | TurnDone nat string | TurnFailed nat string | ReplyFailed nat string | NextPrompt nat | ApologyFailed nat | Settled nat
  | Operator gw_op

definition remove_nth :: "nat \<Rightarrow> 'a list \<Rightarrow> 'a list" where
  "remove_nth k xs = take k xs @ drop (Suc k) xs"

definition transcription_failed :: "gw_message \<Rightarrow> string \<Rightarrow> router \<Rightarrow> router" where
  "transcription_failed m e r = reply_to m (''I could not transcribe that: '' @ e) r"

definition voice_step :: "nat \<Rightarrow> gw_step \<Rightarrow> voice \<Rightarrow> router \<Rightarrow> router option" where
  "voice_step now l v r =
     (case (v, l) of
        (Transcribing m, Transcribed _ (Inl e)) \<Rightarrow> Some (transcription_failed m e r)
      | (Transcribing m, Transcribed _ (Inr t)) \<Rightarrow>
          Some (if trim t = [] then r
                else reply_to m (''Heard: '' @ [CHR 0x22] @ trim t @ [CHR 0x22]) (r\<lparr>ro_voices := ro_voices r @ [Heard m (trim t)]\<rparr>))
      | (Heard m t, HeardSent _) \<Rightarrow> Some (handle_text now m t r)
      | (Heard m t, HeardFailed _ e) \<Rightarrow> Some (transcription_failed m e r)
      | _ \<Rightarrow> None)"

text \<open>A drain: its replies go where the message came from that started it.\<close>

definition drain_reply :: "drain \<Rightarrow> string \<Rightarrow> router \<Rightarrow> router" where
  "drain_reply d s r = ro_send (dr_platform d) (dr_conversation d) s r"

definition turn_failed_text :: "string \<Rightarrow> string" where
  "turn_failed_text e = ''The turn failed: '' @ e"

definition set_drain :: "nat \<Rightarrow> drain \<Rightarrow> phase \<Rightarrow> router \<Rightarrow> router" where
  "set_drain k d ph r = r\<lparr>ro_drains := (ro_drains r)[k := d\<lparr>dr_phase := ph\<rparr>]\<rparr>"

definition drain_step :: "gw_step \<Rightarrow> nat \<Rightarrow> drain \<Rightarrow> router \<Rightarrow> router option" where
  "drain_step l k d r =
     (case (dr_phase d, l) of
        (Turn p, TurnDone _ reply) \<Rightarrow>
          Some (drain_reply d (if trim reply = [] then ''(the turn produced no output)'' else trim reply) (set_drain k d Replying r))
      | (Turn p, TurnFailed _ e) \<Rightarrow> Some (drain_reply d (turn_failed_text e) (set_drain k d Apologizing r))
      | (Replying, ReplyFailed _ e) \<Rightarrow> Some (drain_reply d (turn_failed_text e) (set_drain k d Apologizing r))
      | (Apologizing, ApologyFailed _) \<Rightarrow> Some (set_drain k d Ended r)
      | (Ended, Settled _) \<Rightarrow>
          Some (set_conv (dr_identity d) ((conv_of (dr_identity d) r)\<lparr>cv_running := False\<rparr>) (r\<lparr>ro_drains := remove_nth k (ro_drains r)\<rparr>))
      | (ph, NextPrompt _) \<Rightarrow>
          if ph = Replying \<or> ph = Apologizing
          then (let c = conv_of (dr_identity d) r
                in case cv_queued c of
                     [] \<Rightarrow> Some (set_drain k d Ended r)
                   | p # ps \<Rightarrow> Some ((set_conv (dr_identity d) (c\<lparr>cv_queued := ps\<rparr>) (set_drain k d (Turn p) r))
                       \<lparr>ro_log := ro_log r @ [Started (dr_identity d) p]\<rparr>))
          else None
      | _ \<Rightarrow> None)"

fun step_target :: "gw_step \<Rightarrow> nat" where
  "step_target (Transcribed k _) = k" | "step_target (HeardSent k) = k" | "step_target (HeardFailed k _) = k"
| "step_target (TurnDone k _) = k" | "step_target (TurnFailed k _) = k" | "step_target (ReplyFailed k _) = k"
| "step_target (NextPrompt k) = k" | "step_target (ApologyFailed k) = k" | "step_target (Settled k) = k"
| "step_target _ = 0"

text \<open>What the terminal side does to the store: it makes identities, issues codes and attaches sessions.\<close>

fun is_operator :: "gw_op \<Rightarrow> bool" where
  "is_operator (Create _ _) = True" | "is_operator (Issue _ _) = True" | "is_operator (Attach _ _ _) = True"
| "is_operator _ = False"

definition router_step :: "router_env \<Rightarrow> nat \<Rightarrow> gw_step \<Rightarrow> router \<Rightarrow> router option" where
  "router_step env now l r =
     (let k = step_target l
      in case l of
           Receive m \<Rightarrow> Some (handle_message env now m r)
         | Operator op \<Rightarrow> if is_operator op \<and> allowed op (ro_store r) then Some (on_store now op r) else None
         | Transcribed _ _ \<Rightarrow> if k < length (ro_voices r) then voice_step now l (ro_voices r ! k) (r\<lparr>ro_voices := remove_nth k (ro_voices r)\<rparr>) else None
         | HeardSent _ \<Rightarrow> if k < length (ro_voices r) then voice_step now l (ro_voices r ! k) (r\<lparr>ro_voices := remove_nth k (ro_voices r)\<rparr>) else None
         | HeardFailed _ _ \<Rightarrow> if k < length (ro_voices r) then voice_step now l (ro_voices r ! k) (r\<lparr>ro_voices := remove_nth k (ro_voices r)\<rparr>) else None
         | _ \<Rightarrow> if k < length (ro_drains r) then drain_step l k (ro_drains r ! k) r else None)"

inductive reaches :: "router_env \<Rightarrow> router \<Rightarrow> bool" for env where
  begins: "reaches env start_router"
| steps: "reaches env r \<Longrightarrow> list_all (\<lambda>(t, _). t \<le> now) (ro_events r) \<Longrightarrow> router_step env now l r = Some r' \<Longrightarrow> reaches env r'"


section \<open>What a step does\<close>

definition started :: "string \<Rightarrow> gw_log list \<Rightarrow> string list" where
  "started i l = concat (map (\<lambda>e. case e of Started j s \<Rightarrow> if j = i then [s] else [] | _ \<Rightarrow> []) l)"

definition accepted :: "string \<Rightarrow> gw_log list \<Rightarrow> string list" where
  "accepted i l = concat (map (\<lambda>e. case e of Accepted k p a j s \<Rightarrow> if j = i then [s] else [] | _ \<Rightarrow> []) l)"

lemma started_append [simp]: "started i (l @ l') = started i l @ started i l'"
  "started i [] = []" "started i (Started j s # l) = (if j = i then s # started i l else started i l)"
  "started i (Sent p c s # l) = started i l" "started i (Cancelled j # l) = started i l" "started i (Accepted k p a j s # l) = started i l"
  by (simp_all add: started_def)

lemma accepted_append [simp]: "accepted i (l @ l') = accepted i l @ accepted i l'"
  "accepted i [] = []" "accepted i (Accepted k p a j s # l) = (if j = i then s # accepted i l else accepted i l)"
  "accepted i (Sent p c s # l) = accepted i l" "accepted i (Cancelled j # l) = accepted i l" "accepted i (Started j s # l) = accepted i l"
  by (simp_all add: accepted_def)

definition queue_of :: "string \<Rightarrow> router \<Rightarrow> string list" where
  "queue_of i r = cv_queued (conv_of i r)"

definition running :: "string \<Rightarrow> router \<Rightarrow> bool" where
  "running i r = cv_running (conv_of i r)"

lemma conv_of_set: "conv_of j (set_conv i c r) = (if j = i then c else conv_of j r)"
  by (simp add: conv_of_def set_conv_def update_conv')

lemma conv_of_other [simp]: "conv_of i (r\<lparr>ro_log := l\<rparr>) = conv_of i r" "conv_of i (r\<lparr>ro_drains := ds\<rparr>) = conv_of i r"
  "conv_of i (r\<lparr>ro_voices := vs\<rparr>) = conv_of i r" "conv_of i (r\<lparr>ro_store := s, ro_events := es\<rparr>) = conv_of i r"
  by (simp_all add: conv_of_def)

text \<open>Steps that start and take nothing: drains stay, queues stay or are emptied, and what is logged are sent messages
  and the cancelling that emptied a queue.\<close>

fun gw_silent :: "gw_log \<Rightarrow> bool" where
  "gw_silent (Sent _ _ _) = True" | "gw_silent (Cancelled _) = True" | "gw_silent _ = False"

definition quiet :: "router \<Rightarrow> router \<Rightarrow> bool" where
  "quiet r r' =
     (ro_drains r' = ro_drains r
      \<and> (\<forall>i. running i r' = running i r)
      \<and> (\<exists>l. ro_log r' = ro_log r @ l \<and> (\<forall>e\<in>set l. gw_silent e)
            \<and> (\<forall>i. queue_of i r' = (if Cancelled i \<in> set l then [] else queue_of i r))))"

lemma quiet_refl [simp]: "quiet r r"
  by (simp add: quiet_def)

lemma quiet_trans: "quiet r r1 \<Longrightarrow> quiet r1 r2 \<Longrightarrow> quiet r r2"
  unfolding quiet_def
proof (elim conjE exE, intro conjI)
  fix l l'
  assume "ro_log r1 = ro_log r @ l" "\<forall>e\<in>set l. gw_silent e" "ro_log r2 = ro_log r1 @ l'" "\<forall>e\<in>set l'. gw_silent e"
    "\<forall>i. queue_of i r1 = (if Cancelled i \<in> set l then [] else queue_of i r)"
    "\<forall>i. queue_of i r2 = (if Cancelled i \<in> set l' then [] else queue_of i r1)"
  then show "\<exists>l. ro_log r2 = ro_log r @ l \<and> (\<forall>e\<in>set l. gw_silent e)
      \<and> (\<forall>i. queue_of i r2 = (if Cancelled i \<in> set l then [] else queue_of i r))"
    by (intro exI [of _ "l @ l'"]) auto
qed auto

lemma quiet_send [simp]: "quiet r (ro_send p c s r)" "quiet r (reply_to m s r)" "quiet r (transcription_failed m e r)"
  by (auto simp: quiet_def ro_send_def reply_to_def transcription_failed_def running_def queue_of_def)

lemma quiet_store [simp]: "quiet r (on_store now op r)"
  by (simp add: quiet_def on_store_def running_def queue_of_def)

lemma quiet_voices [simp]: "quiet r (r\<lparr>ro_voices := vs\<rparr>)"
  by (simp add: quiet_def running_def queue_of_def)

lemma quiet_send_store: "quiet r (reply_to m s (on_store now op r))"
  by (rule quiet_trans [OF quiet_store quiet_send(2)])

lemma quiet_unlinked: "quiet r (handle_unlinked now m s r)"
  by (simp add: handle_unlinked_def Let_def quiet_send_store split: option.split)

lemma quiet_cancel:
  "quiet r ((if map_of (ro_convs r) i = None then r else set_conv i ((conv_of i r)\<lparr>cv_queued := []\<rparr>) r)\<lparr>ro_log := ro_log r @ [Cancelled i]\<rparr>)"
proof (cases "map_of (ro_convs r) i = None")
  case True
  then show ?thesis by (auto simp: quiet_def running_def queue_of_def conv_of_def [of i])
next
  case False
  have "ro_drains (set_conv i c r) = ro_drains r" for c by (simp add: set_conv_def)
  with False show ?thesis by (auto simp: quiet_def running_def queue_of_def conv_of_set)
qed

lemma set_conv_log: "ro_log (set_conv i c r) = ro_log r"
  by (simp add: set_conv_def)

lemma quiet_cancel_reply:
  "map_of (ro_convs r) i = None \<Longrightarrow> quiet r (reply_to m t (r\<lparr>ro_log := ro_log r @ [Cancelled i]\<rparr>))"
  "map_of (ro_convs r) i = Some c \<Longrightarrow>
     quiet r (reply_to m t ((set_conv i ((conv_of i r)\<lparr>cv_queued := []\<rparr>) r)\<lparr>ro_log := ro_log r @ [Cancelled i]\<rparr>))"
  using quiet_trans [OF quiet_cancel [of r i] quiet_send(2)] by simp_all

lemma quiet_command: "handle_command now m d s r = Some r' \<Longrightarrow> quiet r r'"
  by (cases "map_of (ro_convs r) (id_id d)")
    (auto simp: handle_command_def Let_def quiet_send_store set_conv_log quiet_cancel_reply split: if_splits)

lemma handle_text_cases:
  obtains (silent) "quiet r (handle_text now m s r)"
  | (taken) d where "resolve_account (gm_platform m) (gm_account m) (ro_store r) = Some d"
      "handle_text now m s r = enqueue m (id_id d) s (on_store now (Touch (id_id d)) r)"
proof (cases "s = []")
  case True
  then show thesis using silent by (simp add: handle_text_def)
next
  case False
  show thesis
  proof (cases "resolve_account (gm_platform m) (gm_account m) (ro_store r)")
    case None
    then show thesis using silent False quiet_unlinked by (simp add: handle_text_def)
  next
    case (Some d)
    show thesis
    proof (cases "if starts_with s ''/'' then handle_command now m d s r else None")
      case None
      then show thesis using taken Some False by (simp add: handle_text_def)
    next
      case (Some r')
      then have "quiet r r'" using quiet_command by (auto split: if_splits)
      then show thesis using silent \<open>resolve_account _ _ _ = Some d\<close> Some False by (simp add: handle_text_def)
    qed
  qed
qed

text \<open>A step is silent, takes a message, or moves a drain.\<close>

lemma router_step_cases:
  assumes "router_step env now l r = Some r'"
  obtains (silent) "quiet r r'"
  | (taken) r0 m d s where "quiet r r0" "ro_store r0 = ro_store r" "ro_events r0 = ro_events r"
      "resolve_account (gm_platform m) (gm_account m) (ro_store r) = Some d"
      "gm_platform m \<in> set (re_platforms env) \<or> (\<exists>k t. k < length (ro_voices r) \<and> ro_voices r ! k = Heard m t)"
      "r' = enqueue m (id_id d) s (on_store now (Touch (id_id d)) r0)"
  | (moved) k d where "k < length (ro_drains r)" "ro_drains r ! k = d" "drain_step l k d r = Some r'"
proof -
  have texts: thesis
    if "r' = handle_text now m s r0" "quiet r r0" "ro_store r0 = ro_store r" "ro_events r0 = ro_events r"
      "gm_platform m \<in> set (re_platforms env) \<or> (\<exists>k t. k < length (ro_voices r) \<and> ro_voices r ! k = Heard m t)" for m s r0
  proof (rule handle_text_cases [of r0 now m s])
    assume "quiet r0 (handle_text now m s r0)"
    then show thesis using that silent quiet_trans by blast
  next
    fix d
    assume "resolve_account (gm_platform m) (gm_account m) (ro_store r0) = Some d"
      "handle_text now m s r0 = enqueue m (id_id d) s (on_store now (Touch (id_id d)) r0)"
    then show thesis using that taken by metis
  qed
  have voices: thesis
    if v: "voice_step now l (ro_voices r ! k) (r\<lparr>ro_voices := remove_nth k (ro_voices r)\<rparr>) = Some r'" and k: "k < length (ro_voices r)" for k
  proof -
    let ?r = "r\<lparr>ro_voices := remove_nth k (ro_voices r)\<rparr>"
    have q: "quiet r ?r" by simp
    consider (failed) m e where "r' = transcription_failed m e ?r"
      | (nothing) "r' = ?r"
      | (heard) m s vs where "r' = reply_to m s (?r\<lparr>ro_voices := vs\<rparr>)"
      | (goes_on) m t where "ro_voices r ! k = Heard m t" "r' = handle_text now m t ?r"
      using v by (auto simp: voice_step_def split: voice.splits gw_step.splits sum.splits if_splits)
    then show thesis
    proof cases
      case failed
      then show thesis using silent quiet_trans [OF q quiet_send(3)] by simp
    next
      case nothing
      then show thesis using silent q by simp
    next
      case heard
      then show thesis using silent quiet_trans [OF quiet_trans [OF q quiet_voices] quiet_send(2)] by simp
    next
      case goes_on
      then show thesis using texts [OF goes_on(2) q] k by auto
    qed
  qed
  show thesis
  proof (cases l)
    case (Receive m)
    then have r': "r' = handle_message env now m r" using assms by (simp add: router_step_def)
    show thesis
    proof (cases "gm_platform m \<in> set (re_platforms env)")
      case True
      then show thesis
        using r' silent texts [of m "trim (gm_text m)" r] by (auto simp: handle_message_def split: if_splits)
    qed (use r' silent in \<open>simp add: handle_message_def\<close>)
  next
    case (Operator op)
    then show thesis using assms silent by (auto simp: router_step_def split: if_splits)
  qed (use assms voices moved in \<open>auto simp: router_step_def Let_def split: if_splits\<close>)
qed

section \<open>One turn at a time\<close>

definition drains_ok :: "router \<Rightarrow> bool" where
  "drains_ok r = (distinct (map dr_identity (ro_drains r)) \<and> (\<forall>i. running i r \<longleftrightarrow> i \<in> dr_identity ` set (ro_drains r)))"

lemma quiet_drains: "quiet r r' \<Longrightarrow> drains_ok r \<Longrightarrow> drains_ok r'"
  by (auto simp: quiet_def drains_ok_def)

lemma enqueue_running:
  "running i r \<Longrightarrow> enqueue m i s r = reply_to m (''Queued '' @ [u_emdash] @ '' a turn is already running ('' @ nat_str (Suc (length (queue_of i r))) @ '' waiting).'')
     (set_conv i ((conv_of i r)\<lparr>cv_queued := queue_of i r @ [s]\<rparr>)
        (r\<lparr>ro_log := ro_log r @ [Accepted (length (ro_events r)) (gm_platform m) (gm_account m) i s]\<rparr>))"
  by (simp add: enqueue_def running_def queue_of_def Let_def)

lemma enqueue_view:
  shows "ro_drains (enqueue m i s r) = (if running i r then ro_drains r else ro_drains r @
      [\<lparr>dr_identity = i, dr_platform = gm_platform m, dr_conversation = gm_conversation m, dr_phase = Turn s\<rparr>])"
    and "running j (enqueue m i s r) = (running j r \<or> j = i)"
    and "queue_of j (enqueue m i s r) = (if j = i \<and> running i r then queue_of j r @ [s] else queue_of j r)"
    and "\<exists>l. ro_log (enqueue m i s r) = ro_log r @ Accepted (length (ro_events r)) (gm_platform m) (gm_account m) i s
        # (if running i r then l else [Started i s]) \<and> (\<forall>e\<in>set l. gw_silent e)"
    and "ro_store (enqueue m i s r) = ro_store r" "ro_events (enqueue m i s r) = ro_events r" "ro_voices (enqueue m i s r) = ro_voices r"
  by (auto simp: enqueue_def running_def queue_of_def conv_of_set reply_to_def ro_send_def Let_def) (auto simp: set_conv_def intro: exI [of _ "[]"])

lemma enqueue_log:
  "\<exists>l. ro_log (enqueue m i s r) = ro_log r @ Accepted (length (ro_events r)) (gm_platform m) (gm_account m) i s
        # (if running i r then l else [Started i s]) \<and> (\<forall>e\<in>set l. \<exists>p c t. e = Sent p c t)"
  by (auto simp: enqueue_def running_def reply_to_def ro_send_def Let_def) (auto simp: set_conv_def intro: exI [of _ "[]"])

lemma enqueue_drains: "drains_ok r \<Longrightarrow> drains_ok (enqueue m i s r)"
  by (auto simp: drains_ok_def enqueue_view)

text \<open>The moves of a drain.\<close>

lemma drain_step_cases:
  assumes "drain_step l k d r = Some r'"
  obtains (replies) ph s where "dr_phase d \<noteq> Ended" "r' = drain_reply d s (set_drain k d ph r)"
  | (ends) "r' = set_drain k d Ended r" "queue_of (dr_identity d) r = [] \<or> dr_phase d = Apologizing" "dr_phase d \<in> {Replying, Apologizing}"
  | (settles) "dr_phase d = Ended" "r' = set_conv (dr_identity d) ((conv_of (dr_identity d) r)\<lparr>cv_running := False\<rparr>) (r\<lparr>ro_drains := remove_nth k (ro_drains r)\<rparr>)"
  | (shifts) p ps where "queue_of (dr_identity d) r = p # ps" "dr_phase d \<in> {Replying, Apologizing}"
      "r' = (set_conv (dr_identity d) ((conv_of (dr_identity d) r)\<lparr>cv_queued := ps\<rparr>) (set_drain k d (Turn p) r))\<lparr>ro_log := ro_log r @ [Started (dr_identity d) p]\<rparr>"
  using assms
  by (auto simp: drain_step_def Let_def queue_of_def split: phase.splits gw_step.splits if_splits list.splits)

lemma map_update_same: "k < length ds \<Longrightarrow> f x = f (ds ! k) \<Longrightarrow> map f (ds[k := x]) = map f ds"
  by (simp add: map_update list_update_same_conv)

lemma set_drain_identities:
  "k < length (ro_drains r) \<Longrightarrow> ro_drains r ! k = d \<Longrightarrow> map dr_identity (ro_drains (set_drain k d ph r)) = map dr_identity (ro_drains r)"
  by (simp add: set_drain_def map_update_same)

lemma remove_nth_split: "k < length xs \<Longrightarrow> \<exists>a b. xs = a @ xs ! k # b \<and> remove_nth k xs = a @ b"
  unfolding remove_nth_def using id_take_nth_drop by blast

lemma drain_other [simp]: "running i (set_drain k d ph r) = running i r" "queue_of i (set_drain k d ph r) = queue_of i r"
  "conv_of i (set_drain k d ph r) = conv_of i r" "ro_log (set_drain k d ph r) = ro_log r"
  "running i (drain_reply d s r) = running i r" "queue_of i (drain_reply d s r) = queue_of i r" "ro_drains (drain_reply d s r) = ro_drains r"
  by (simp_all add: set_drain_def drain_reply_def ro_send_def running_def queue_of_def)

lemma drain_step_ok:
  assumes "drains_ok r" "k < length (ro_drains r)" "ro_drains r ! k = d" "drain_step l k d r = Some r'"
  shows "drains_ok r'"
proof -
  note same = set_drain_identities [OF assms(2,3)]
  have ids: "dr_identity ` set ds = set (map dr_identity ds)" for ds by simp
  have kept: "drains_ok r''" if "map dr_identity (ro_drains r'') = map dr_identity (ro_drains r)" "\<And>i. running i r'' = running i r" for r''
    using assms(1) that unfolding drains_ok_def ids by simp
  from assms(4) show ?thesis
  proof (cases rule: drain_step_cases)
    case settles
    obtain a b where ab: "ro_drains r = a @ d # b" "remove_nth k (ro_drains r) = a @ b"
      using remove_nth_split [OF assms(2)] assms(3) by auto
    have drains: "ro_drains r' = a @ b" by (simp add: settles(2) set_conv_def ab(2))
    have run: "running i r' = (running i r \<and> i \<noteq> dr_identity d)" for i
      by (simp add: settles(2) running_def conv_of_set)
    show ?thesis
      using assms(1) unfolding drains_ok_def ab(1) drains run by (auto simp: image_iff)
  next
    case (shifts p ps)
    have "ro_drains r' = ro_drains (set_drain k d (Turn p) r)" by (simp add: shifts(3) set_conv_def)
    then have "map dr_identity (ro_drains r') = map dr_identity (ro_drains r)" using same by simp
    then show ?thesis by (rule kept) (simp add: shifts(3) running_def conv_of_set)
  qed (auto intro!: kept simp: same)
qed

lemma distinct_count: "distinct (map f xs) \<Longrightarrow> length (filter (\<lambda>x. f x = i) xs) = (if i \<in> f ` set xs then 1 else 0)"
  by (induction xs) (auto simp: image_iff filter_empty_conv)

text \<open>
  C13. One identity runs one turn at a time. However messages, transcriptions, replies and failures interleave, at most one
  turn is in flight for an identity, and the flag that guards it is set exactly while a drain is alive.
\<close>

theorem one_turn_at_a_time:
  assumes "reaches env r"
  shows "length (filter (\<lambda>d. dr_identity d = i) (ro_drains r)) = (if running i r then 1 else 0)"
proof -
  have "drains_ok r"
    using assms
  proof induction
    case begins
    then show ?case by (simp add: drains_ok_def start_router_def running_def conv_of_def)
  next
    case (steps r now l r')
    from steps.hyps(3) show ?case
    proof (cases rule: router_step_cases)
      case silent
      then show ?thesis using quiet_drains steps.IH by blast
    next
      case (taken r0 m d s)
      then show ?thesis
        using enqueue_drains quiet_drains [OF quiet_store] quiet_drains [OF taken(1) steps.IH] by blast
    next
      case (moved k d)
      then show ?thesis using drain_step_ok steps.IH by blast
    qed
  qed
  then have "distinct (map dr_identity (ro_drains r))" "running i r \<longleftrightarrow> i \<in> dr_identity ` set (ro_drains r)"
    by (simp_all add: drains_ok_def)
  then show ?thesis by (simp add: distinct_count)
qed


section \<open>What is run was sent\<close>

definition run_or_queued :: "string \<Rightarrow> router \<Rightarrow> string list" where
  "run_or_queued i r = started i (ro_log r) @ queue_of i r"

lemma sent_only [simp]: "\<forall>e\<in>set l. gw_silent e \<Longrightarrow> started i l = []" "\<forall>e\<in>set l. gw_silent e \<Longrightarrow> accepted i l = []"
proof -
  have "started i l = [] \<and> accepted i l = []" if "\<forall>e\<in>set l. gw_silent e"
    using that
  proof (induction l)
    case (Cons e l)
    then show ?case by (cases e) auto
  qed simp
  then show "\<forall>e\<in>set l. gw_silent e \<Longrightarrow> started i l = []" "\<forall>e\<in>set l. gw_silent e \<Longrightarrow> accepted i l = []" by blast+
qed

lemma accepted_not_silent: "\<forall>e\<in>set l. gw_silent e \<Longrightarrow> Accepted k p a i s \<notin> set l"
  by auto

lemma quiet_view:
  assumes "quiet r r'"
  shows "started i (ro_log r') = started i (ro_log r)" "accepted i (ro_log r') = accepted i (ro_log r)"
    "queue_of i r' = queue_of i r \<or> queue_of i r' = []"
  using assms by (auto simp: quiet_def)

lemma set_conv_view [simp]:
  "queue_of j (set_conv i c r) = (if j = i then cv_queued c else queue_of j r)"
  "running j (set_conv i c r) = (if j = i then cv_running c else running j r)"
  "ro_log (set_conv i c r) = ro_log r"
  by (simp_all add: queue_of_def running_def conv_of_set) (simp add: set_conv_def)

lemma with_log [simp]: "queue_of i (r\<lparr>ro_log := l\<rparr>) = queue_of i r" "running i (r\<lparr>ro_log := l\<rparr>) = running i r"
  "queue_of i (r\<lparr>ro_drains := ds\<rparr>) = queue_of i r"
  by (simp_all add: queue_of_def running_def)

lemma drain_view:
  assumes "drain_step l k d r = Some r'"
  shows "accepted i (ro_log r') = accepted i (ro_log r)
    \<and> (started i (ro_log r') = started i (ro_log r) \<and> queue_of i r' = queue_of i r
      \<or> (\<exists>p. started i (ro_log r') = started i (ro_log r) @ [p] \<and> queue_of i r = p # queue_of i r'))"
  using assms
proof (cases rule: drain_step_cases)
  case (replies ph s)
  then show ?thesis by (simp add: drain_reply_def ro_send_def)
next
  case settles
  have "cv_queued (conv_of j r) = queue_of j r" for j by (simp add: queue_of_def)
  then show ?thesis by (simp add: settles(2))
next
  case (shifts p ps)
  then show ?thesis by (cases "i = dr_identity d") simp_all
qed simp

lemma take_view:
  assumes "r' = enqueue m j s r0"
  shows "accepted i (ro_log r') = accepted i (ro_log r0) @ (if i = j then [s] else [])"
    and "started i (ro_log r') = started i (ro_log r0) @ (if i = j \<and> \<not> running j r0 then [s] else [])"
    and "queue_of i r' = queue_of i r0 @ (if i = j \<and> running j r0 then [s] else [])"
proof -
  obtain l where "ro_log r' = ro_log r0 @ Accepted (length (ro_events r0)) (gm_platform m) (gm_account m) j s
      # (if running j r0 then l else [Started j s])" "\<forall>e\<in>set l. gw_silent e"
    using enqueue_view(4) assms by blast
  then show "accepted i (ro_log r') = accepted i (ro_log r0) @ (if i = j then [s] else [])"
    "started i (ro_log r') = started i (ro_log r0) @ (if i = j \<and> \<not> running j r0 then [s] else [])"
    by auto
  show "queue_of i r' = queue_of i r0 @ (if i = j \<and> running j r0 then [s] else [])"
    using assms by (simp add: enqueue_view)
qed

lemma run_once:
  assumes "reaches env r"
  shows "mset (run_or_queued i r) \<subseteq># mset (accepted i (ro_log r))"
  using assms
proof induction
  case begins
  then show ?case by (simp add: run_or_queued_def start_router_def queue_of_def conv_of_def)
next
  case (steps r now l r')
  have quiet: "mset (run_or_queued i b) \<subseteq># mset (accepted i (ro_log b))"
    if "quiet a b" "mset (run_or_queued i a) \<subseteq># mset (accepted i (ro_log a))" for a b
  proof -
    have "mset (run_or_queued i b) \<subseteq># mset (run_or_queued i a)"
      using quiet_view [OF that(1), of i] by (auto simp: run_or_queued_def)
    then show ?thesis using that(2) quiet_view(2) [OF that(1)] subset_mset.order_trans by simp
  qed
  from steps.hyps(3) show ?case
  proof (cases rule: router_step_cases)
    case silent
    then show ?thesis using quiet steps.IH by blast
  next
    case (taken r0 m d s)
    let ?r = "on_store now (Touch (id_id d)) r0"
    have "mset (run_or_queued i ?r) \<subseteq># mset (accepted i (ro_log ?r))"
      using quiet [OF quiet_store] quiet [OF taken(1) steps.IH] by blast
    then show ?thesis
      using take_view [OF taken(6), of i] by (auto simp: run_or_queued_def mset_subset_eq_mono_add)
  next
    case (moved k d)
    then have "mset (run_or_queued i r') = mset (run_or_queued i r)"
      using drain_view [OF moved(3), of i] by (auto simp: run_or_queued_def)
    then show ?thesis using steps.IH drain_view [OF moved(3), of i] by simp
  qed
qed

lemma run_or_queued_sent: "reaches env r \<Longrightarrow> set (run_or_queued i r) \<subseteq> set (accepted i (ro_log r))"
  using run_once [of env r i] set_mset_mono by fastforce

text \<open>
  No prompt is invented and none is run twice: what an identity has run, and what waits for it, are among the messages accepted
  for it, counted as often as they were sent.
\<close>

theorem prompts_run_once:
  assumes "reaches env r"
  shows "mset (run_or_queued i r) \<subseteq># mset (accepted i (ro_log r))"
  using assms by (rule run_once)

section \<open>In order\<close>

text \<open>A state is calm when nobody waits whom no drain will serve.\<close>

definition calm :: "string \<Rightarrow> router \<Rightarrow> bool" where
  "calm i r = (running i r \<or> queue_of i r = [])"

inductive reaches_calmly :: "string \<Rightarrow> router_env \<Rightarrow> router \<Rightarrow> bool" for i env where
  calm_begins: "reaches_calmly i env start_router"
| calm_steps: "reaches_calmly i env r \<Longrightarrow> list_all (\<lambda>(t, _). t \<le> now) (ro_events r) \<Longrightarrow> router_step env now l r = Some r' \<Longrightarrow> calm i r'
    \<Longrightarrow> reaches_calmly i env r'"

text \<open>
  What a first-come, first-served queue makes of the log: accepting a prompt puts it last, starting one takes the first,
  which must be the one that is started, and cancelling empties the queue. The result is what has run and what waits;
  \<open>None\<close> when a prompt was started out of turn.
\<close>

fun fifo_step :: "string \<Rightarrow> gw_log \<Rightarrow> (string list \<times> string list) option \<Rightarrow> (string list \<times> string list) option" where
  "fifo_step i e None = None"
| "fifo_step i (Sent p c s) (Some q) = Some q"
| "fifo_step i (Accepted k p a j s) (Some (past, waiting)) = Some (past, if j = i then waiting @ [s] else waiting)"
| "fifo_step i (Started j s) (Some (past, waiting)) =
     (if j \<noteq> i then Some (past, waiting)
      else case waiting of [] \<Rightarrow> None | w # ws \<Rightarrow> if w = s then Some (past @ [s], ws) else None)"
| "fifo_step i (Cancelled j) (Some (past, waiting)) = Some (past, if j = i then [] else waiting)"

definition fifo :: "string \<Rightarrow> gw_log list \<Rightarrow> (string list \<times> string list) option" where
  "fifo i l = fold (fifo_step i) l (Some ([], []))"

lemma fifo_append: "fifo i (l @ l') = fold (fifo_step i) l' (fifo i l)"
  by (simp add: fifo_def)

lemma fifo_silent:
  "\<forall>e\<in>set l. gw_silent e \<Longrightarrow> fold (fifo_step i) l (Some (past, waiting)) = Some (past, if Cancelled i \<in> set l then [] else waiting)"
proof (induction l arbitrary: waiting)
  case (Cons e l)
  then show ?case by (cases e) auto
qed simp

definition served :: "string \<Rightarrow> router \<Rightarrow> bool" where
  "served i r = (fifo i (ro_log r) = Some (started i (ro_log r), queue_of i r))"

lemma served_quiet: "quiet r r' \<Longrightarrow> served i r \<Longrightarrow> served i r'"
  unfolding served_def quiet_def by (auto simp: fifo_append fifo_silent)

lemma served_enqueue:
  assumes "served i r" and "calm i r"
  shows "served i (enqueue m j s r)"
proof -
  obtain l where log: "ro_log (enqueue m j s r) = ro_log r @ Accepted (length (ro_events r)) (gm_platform m) (gm_account m) j s
      # (if running j r then l else [Started j s])" and l: "\<forall>e\<in>set l. \<exists>p c t. e = Sent p c t"
    using enqueue_log by blast
  have sent: "fold (fifo_step i) l (Some q) = Some q" "started i l = []" for q
    using l by (induction l arbitrary: q) (auto simp: started_def)
  show ?thesis
    using assms by (auto simp: served_def log fifo_append enqueue_view(3) sent calm_def)
qed

lemma served_drain:
  assumes "drain_step l k d r = Some r'" and "served i r"
  shows "served i r'"
  using assms(1)
proof (cases rule: drain_step_cases)
  case (replies ph s)
  then show ?thesis using assms(2) by (simp add: drain_reply_def ro_send_def served_def fifo_append)
next
  case settles
  have "cv_queued (conv_of j r) = queue_of j r" for j by (simp add: queue_of_def)
  then show ?thesis using assms(2) by (simp add: settles(2) served_def)
next
  case (shifts p ps)
  then show ?thesis using assms(2) by (cases "dr_identity d = i") (simp_all add: served_def fifo_append)
qed (use assms(2) in \<open>simp add: served_def\<close>)

lemma calm_served: "reaches_calmly i env r \<Longrightarrow> served i r \<and> calm i r"
proof (induction rule: reaches_calmly.induct)
  case calm_begins
  then show ?case by (simp add: served_def fifo_def start_router_def queue_of_def conv_of_def calm_def running_def)
next
  case (calm_steps r now l r')
  from calm_steps.hyps(3) have "served i r'"
  proof (cases rule: router_step_cases)
    case silent
    then show ?thesis using served_quiet calm_steps.IH by blast
  next
    case (taken r0 m d s)
    let ?r = "on_store now (Touch (id_id d)) r0"
    have q: "quiet r ?r" by (rule quiet_trans [OF taken(1) quiet_store])
    then have "calm i ?r" using calm_steps.IH by (auto simp: quiet_def calm_def split: if_splits)
    then show ?thesis using served_enqueue served_quiet [OF q] calm_steps.IH taken(6) by simp
  next
    case (moved k d)
    then show ?thesis using served_drain calm_steps.IH by blast
  qed
  then show ?case using calm_steps.hyps(4) by blast
qed

text \<open>
  C14. Prompts are served first come, first served, and none is dropped but by \<open>/cancel\<close>: as long as no message is left
  behind, what an identity has run and what waits for it are what a queue makes of the history in which every accepted prompt
  joins at the end, every started prompt is the one at its head, and cancelling empties it.
\<close>

theorem prompts_in_order:
  assumes "reaches_calmly i env r"
  shows "fifo i (ro_log r) = Some (started i (ro_log r), queue_of i r)"
  using calm_served [OF assms] by (simp add: served_def)

section \<open>Who reaches the agent\<close>

definition let_in :: "(nat \<times> gw_op) list \<Rightarrow> string \<Rightarrow> string \<Rightarrow> string \<Rightarrow> bool" where
  "let_in evs p a i =
     (\<exists>pre t1 c mid t2 l post. evs = pre @ (t1, Issue i c) # mid @ (t2, Redeem c p a l) # post
        \<and> t1 \<le> t2 \<and> t2 \<le> t1 + link_ttl \<and> (\<forall>t. (t, Unlink p a) \<notin> set post))"

lemma let_in_touch: "let_in evs p a i \<Longrightarrow> let_in (evs @ [(t, Touch j)]) p a i"
  unfolding let_in_def
proof (elim exE conjE)
  fix pre t1 c mid t2 l post
  assume "evs = pre @ (t1, Issue i c) # mid @ (t2, Redeem c p a l) # post" "t1 \<le> t2" "t2 \<le> t1 + link_ttl" "\<forall>t. (t, Unlink p a) \<notin> set post"
  then show "\<exists>pre t1 c mid t2 l post'. evs @ [(t, Touch j)] = pre @ (t1, Issue i c) # mid @ (t2, Redeem c p a l) # post'
        \<and> t1 \<le> t2 \<and> t2 \<le> t1 + link_ttl \<and> (\<forall>t. (t, Unlink p a) \<notin> set post')"
    by (intro exI [of _ pre] exI [of _ t1] exI [of _ c] exI [of _ mid] exI [of _ t2] exI [of _ l] exI [of _ "post @ [(t, Touch j)]"]) simp
qed

text \<open>A step does at most one thing to the store.\<close>

definition store_step :: "nat \<Rightarrow> router \<Rightarrow> router \<Rightarrow> bool" where
  "store_step now r r' =
     (ro_events r' = ro_events r \<and> ro_store r' = ro_store r
      \<or> (\<exists>op. ro_events r' = ro_events r @ [(now, op)] \<and> ro_store r' = gw_apply now op (ro_store r) \<and> allowed op (ro_store r)))"

lemma same_store [simp]:
  "ro_store (ro_send p c s r) = ro_store r" "ro_events (ro_send p c s r) = ro_events r" "ro_voices (ro_send p c s r) = ro_voices r"
  "ro_store (reply_to m s r) = ro_store r" "ro_events (reply_to m s r) = ro_events r" "ro_voices (reply_to m s r) = ro_voices r"
  "ro_store (transcription_failed m e r) = ro_store r" "ro_events (transcription_failed m e r) = ro_events r"
  "ro_voices (transcription_failed m e r) = ro_voices r"
  "ro_store (set_conv i cv r) = ro_store r" "ro_events (set_conv i cv r) = ro_events r" "ro_voices (set_conv i cv r) = ro_voices r"
  "ro_store (set_drain k d ph r) = ro_store r" "ro_events (set_drain k d ph r) = ro_events r" "ro_voices (set_drain k d ph r) = ro_voices r"
  "ro_store (drain_reply d s r) = ro_store r" "ro_events (drain_reply d s r) = ro_events r" "ro_voices (drain_reply d s r) = ro_voices r"
  by (simp_all add: ro_send_def reply_to_def transcription_failed_def set_conv_def set_drain_def drain_reply_def)

lemma on_store_view [simp]: "ro_events (on_store now op r) = ro_events r @ [(now, op)]" "ro_store (on_store now op r) = gw_apply now op (ro_store r)"
  "ro_voices (on_store now op r) = ro_voices r"
  by (simp_all add: on_store_def)

lemma handle_text_store:
  assumes "platform_ok (gm_platform m)"
  shows "store_step now r (handle_text now m s r) \<and> ro_voices (handle_text now m s r) = ro_voices r"
proof (cases "s = [] \<or> resolve_account (gm_platform m) (gm_account m) (ro_store r) = None")
  case True
  then show ?thesis
    using assms by (auto simp: handle_text_def handle_unlinked_def store_step_def Let_def split: option.split)
next
  case False
  then obtain d where d: "resolve_account (gm_platform m) (gm_account m) (ro_store r) = Some d" by blast
  show ?thesis
  proof (cases "if starts_with s ''/'' then handle_command now m d s r else None")
    case None
    then show ?thesis using False d by (simp add: handle_text_def store_step_def enqueue_view)
  next
    case (Some r')
    then have "handle_command now m d s r = Some r'" by (simp split: if_splits)
    then have "store_step now r r' \<and> ro_voices r' = ro_voices r"
      using assms by (auto simp: handle_command_def store_step_def Let_def split: if_splits)
    then show ?thesis using False d Some by (simp add: handle_text_def)
  qed
qed

fun voice_message :: "voice \<Rightarrow> gw_message" where
  "voice_message (Transcribing m) = m"
| "voice_message (Heard m t) = m"

definition voices_ok :: "router_env \<Rightarrow> router \<Rightarrow> bool" where
  "voices_ok env r = (\<forall>v\<in>set (ro_voices r). gm_platform (voice_message v) \<in> set (re_platforms env))"

lemma set_remove_nth: "set (remove_nth k xs) \<subseteq> set xs"
  using set_take_subset [of k xs] set_drop_subset [of "Suc k" xs] by (auto simp: remove_nth_def)

lemma router_step_store:
  assumes "router_step env now l r = Some r'" "voices_ok env r" "list_all platform_ok (re_platforms env)"
  shows "store_step now r r' \<and> voices_ok env r'"
proof -
  have ok: "platform_ok p" if "p \<in> set (re_platforms env)" for p using assms(3) that by (auto simp: list_all_iff)
  have voices: "store_step now r r' \<and> voices_ok env r'"
    if v: "voice_step now l (ro_voices r ! k) (r\<lparr>ro_voices := remove_nth k (ro_voices r)\<rparr>) = Some r'" and k: "k < length (ro_voices r)" for k
  proof -
    let ?r = "r\<lparr>ro_voices := remove_nth k (ro_voices r)\<rparr>"
    have here: "gm_platform (voice_message (ro_voices r ! k)) \<in> set (re_platforms env)"
      using assms(2) k by (simp add: voices_ok_def)
    have rest: "voices_ok env ?r" using assms(2) set_remove_nth by (fastforce simp: voices_ok_def)
    consider (failed) m e where "r' = transcription_failed m e ?r"
      | (nothing) "r' = ?r"
      | (heard) m s t where "ro_voices r ! k = Transcribing m" "r' = reply_to m s (?r\<lparr>ro_voices := ro_voices ?r @ [Heard m t]\<rparr>)"
      | (goes_on) m t where "ro_voices r ! k = Heard m t" "r' = handle_text now m t ?r"
      using v by (auto simp: voice_step_def split: voice.splits gw_step.splits sum.splits if_splits)
    then show ?thesis
    proof cases
      case goes_on
      then have "store_step now ?r r' \<and> ro_voices r' = ro_voices ?r" using handle_text_store ok here by simp
      then show ?thesis using rest by (simp add: store_step_def voices_ok_def)
    qed (use rest here in \<open>auto simp: store_step_def voices_ok_def\<close>)
  qed
  have drains: "store_step now r r' \<and> voices_ok env r'" if "drain_step l k d r = Some r'" for k d
    using that assms(2) by (cases rule: drain_step_cases) (simp_all add: store_step_def voices_ok_def)
  show ?thesis
  proof (cases l)
    case (Receive m)
    then show ?thesis
      using assms(1,2) handle_text_store [of m now "r" "trim (gm_text m)"] ok
      by (auto simp: router_step_def handle_message_def store_step_def voices_ok_def split: if_splits)
  next
    case (Operator op)
    then show ?thesis using assms(1,2) by (auto simp: router_step_def store_step_def voices_ok_def split: if_splits)
  qed (use assms(1) voices drains in \<open>auto simp: router_step_def Let_def split: if_splits\<close>)
qed


definition auth_ok :: "router \<Rightarrow> bool" where
  "auth_ok r = (\<forall>k p a i s. Accepted k p a i s \<in> set (ro_log r) \<longrightarrow> k \<le> length (ro_events r) \<and> let_in (take k (ro_events r)) p a i)"

lemma auth_kept:
  "auth_ok r \<Longrightarrow> (\<And>k p a i s. Accepted k p a i s \<in> set (ro_log r') \<Longrightarrow> Accepted k p a i s \<in> set (ro_log r)) \<Longrightarrow>
   prefix (ro_events r) (ro_events r') \<Longrightarrow> auth_ok r'"
  unfolding auth_ok_def prefix_def by fastforce

lemma store_step_prefix: "store_step now r r' \<Longrightarrow> prefix (ro_events r) (ro_events r')"
  by (auto simp: store_step_def)

lemma store_step_history:
  "store_step now r r' \<Longrightarrow> history (ro_events r) (ro_store r) \<Longrightarrow> list_all (\<lambda>(t, _). t \<le> now) (ro_events r) \<Longrightarrow>
   history (ro_events r') (ro_store r')"
  unfolding store_step_def using history.step by fastforce

lemma reaches_ok:
  assumes "reaches env r" "list_all platform_ok (re_platforms env)"
  shows "history (ro_events r) (ro_store r) \<and> voices_ok env r \<and> auth_ok r"
  using assms(1)
proof induction
  case begins
  then show ?case by (simp add: start_router_def history.start voices_ok_def auth_ok_def)
next
  case (steps r now l r')
  then have hist: "history (ro_events r) (ro_store r)" and voices: "voices_ok env r" and auth: "auth_ok r" by auto
  have store: "store_step now r r'" "voices_ok env r'"
    using router_step_store [OF steps.hyps(3) voices assms(2)] by auto
  have "auth_ok r'"
    using steps.hyps(3)
  proof (cases rule: router_step_cases)
    case silent
    then have "Accepted k p a i s \<in> set (ro_log r)" if "Accepted k p a i s \<in> set (ro_log r')" for k p a i s
      using that by (auto simp: quiet_def dest: accepted_not_silent)
    then show ?thesis using auth_kept [OF auth] store_step_prefix [OF store(1)] by blast
  next
    case (moved k d)
    have "Accepted k p a i s \<in> set (ro_log r)" if "Accepted k p a i s \<in> set (ro_log r')" for k p a i s
      using moved(3) that by (cases rule: drain_step_cases) (auto simp: drain_reply_def ro_send_def)
    then show ?thesis using auth_kept [OF auth] store_step_prefix [OF store(1)] by blast
  next
    case (taken r0 m d s)
    let ?i = "id_id d" and ?p = "gm_platform m" and ?a = "gm_account m"
    let ?r = "on_store now (Touch ?i) r0"
    have p: "platform_ok ?p"
      using taken(5) voices assms(2) by (auto simp: voices_ok_def list_all_iff dest!: nth_mem)
    obtain i where i: "index_map (ro_store r) (account_key ?p ?a) = Some i" "id_map (ro_store r) i = Some d"
      using taken(4) by (auto simp: resolve_account_def index_map_def id_map_def split: option.splits if_splits)
    then have "?i = i"
      using history_ok [OF hist] unfolding store_ok_def maps_ok_def by blast
    then have "let_in (ro_events r) ?p ?a ?i"
      using history_index [OF hist i(1) p] unfolding let_in_def by blast
    then have new: "let_in (ro_events r') ?p ?a ?i"
      using taken(3,6) let_in_touch by (simp add: enqueue_view)
    have lr: "ro_log ?r = ro_log r0" by (simp add: on_store_def)
    obtain l where log: "ro_log r' = ro_log r0 @ Accepted (length (ro_events ?r)) ?p ?a ?i s
        # (if running ?i ?r then l else [Started ?i s])" "\<forall>e\<in>set l. gw_silent e"
      using enqueue_view(4) [where r = "?r" and m = m and i = "?i" and s = s] unfolding taken(6) [symmetric] lr by blast
    have events: "ro_events r' = ro_events ?r" using taken(6) by (simp add: enqueue_view)
    show ?thesis
      unfolding auth_ok_def
    proof (intro allI impI)
      fix k p a i s'
      assume "Accepted k p a i s' \<in> set (ro_log r')"
      then consider (old) "Accepted k p a i s' \<in> set (ro_log r)" | (now) "k = length (ro_events ?r)" "p = ?p" "a = ?a" "i = ?i"
        using log taken(1) by (auto simp: quiet_def dest: accepted_not_silent split: if_splits)
      then show "k \<le> length (ro_events r') \<and> let_in (take k (ro_events r')) p a i"
      proof cases
        case old
        then have *: "k \<le> length (ro_events r)" "let_in (take k (ro_events r)) p a i" using auth unfolding auth_ok_def by blast+
        obtain ys where "ro_events r' = ro_events r @ ys" using store_step_prefix [OF store(1)] by (auto simp: prefix_def)
        then show ?thesis using * by simp
      next
        case now
        then show ?thesis using new events by simp
      qed
    qed
  qed
  then show ?case
    using store store_step_history [OF store(1) hist steps.hyps(2)] by blast
qed

lemma accepted_mem: "s \<in> set (accepted i l) \<Longrightarrow> \<exists>k p a. Accepted k p a i s \<in> set l"
  by (auto simp: accepted_def split: gw_log.splits if_splits)

lemma started_mem: "Started i s \<in> set l \<Longrightarrow> s \<in> set (started i l)"
  by (force simp: started_def)

text \<open>
  C12. No agent without a link: every prompt that is run in a session was sent by an account that had, when it sent it,
  redeemed a code issued for the identity of that session, within ten minutes, and had not been unlinked since.
  This holds whatever messages arrive, in whatever order, on platforms whose names have no colon.
\<close>

theorem only_linked_accounts_run:
  assumes "reaches env r" "list_all platform_ok (re_platforms env)" "Started i s \<in> set (ro_log r)"
  shows "\<exists>k p a. Accepted k p a i s \<in> set (ro_log r) \<and> let_in (take k (ro_events r)) p a i"
proof -
  have "s \<in> set (run_or_queued i r)" using started_mem [OF assms(3)] by (simp add: run_or_queued_def)
  then obtain k p a where "Accepted k p a i s \<in> set (ro_log r)"
    using run_or_queued_sent [OF assms(1)] accepted_mem by blast
  moreover have "auth_ok r" using reaches_ok [OF assms(1,2)] by blast
  ultimately show ?thesis unfolding auth_ok_def by blast
qed

section \<open>A linked account\<close>

definition gw_env :: router_env where
  "gw_env = \<lparr>re_platforms = gw_platforms, re_transcribe = True\<rparr>"

definition sample_message :: "string \<Rightarrow> string \<Rightarrow> gw_message" where
  "sample_message platform s = \<lparr>gm_platform = platform, gm_account = ''7'', gm_conversation = ''c'', gm_text = s, gm_label = None, gm_audio = None\<rparr>"

definition issued_router :: router where
  "issued_router = on_store 1 (Issue ''a'' ''123456'') (on_store 0 (Create ''a'' ''/p'') start_router)"

definition linked_router :: router where
  "linked_router = handle_message gw_env 2 (sample_message ''telegram'' ''123456'') issued_router"

definition busy_router :: router where
  "busy_router = handle_message gw_env 3 (sample_message ''telegram'' ''go'') linked_router"

lemma issued_reached: "reaches gw_env issued_router"
proof -
  have "router_step gw_env 0 (Operator (Create ''a'' ''/p'')) start_router = Some (on_store 0 (Create ''a'' ''/p'') start_router)"
    by (simp add: router_step_def start_router_def empty_store_def)
  then have "reaches gw_env (on_store 0 (Create ''a'' ''/p'') start_router)"
    by (rule steps [OF begins, rotated]) (simp add: start_router_def)
  then show ?thesis
    unfolding issued_router_def
    by (rule steps [where now = 1 and l = "Operator (Issue ''a'' ''123456'')"]) (simp_all add: router_step_def start_router_def)
qed

lemma linked_view:
  "ro_events linked_router = [(0, Create ''a'' ''/p''), (1, Issue ''a'' ''123456''), (2, Redeem ''123456'' ''telegram'' ''7'' None)]"
  "map_option id_id (resolve_account ''telegram'' ''7'' (ro_store linked_router)) = Some ''a''"
  "ro_convs linked_router = []" "started ''a'' (ro_log linked_router) = []"
proof -
  have store: "resolve_account ''telegram'' ''7'' (ro_store issued_router) = None"
    by (simp add: issued_router_def start_router_def empty_store_def create_identity_def save_store_def issue_code_def resolve_account_def Let_def
      expire_pending_def)
  have plain: "trim ''123456'' = ''123456''" "link_code ''123456'' = Some ''123456''" "''telegram'' \<in> set gw_platforms" by code_simp+
  have "\<exists>answer. linked_router = reply_to (sample_message ''telegram'' ''123456'') answer (on_store 2 (Redeem ''123456'' ''telegram'' ''7'' None) issued_router)"
    by (simp add: linked_router_def handle_message_def handle_text_def handle_unlinked_def store plain sample_message_def gw_env_def Let_def
      truthy_def cong: option.case_cong) blast
  then obtain answer where r: "linked_router = reply_to (sample_message ''telegram'' ''123456'') answer
      (on_store 2 (Redeem ''123456'' ''telegram'' ''7'' None) issued_router)" by blast
  show "ro_events linked_router = [(0, Create ''a'' ''/p''), (1, Issue ''a'' ''123456''), (2, Redeem ''123456'' ''telegram'' ''7'' None)]"
    unfolding r by (simp add: issued_router_def start_router_def)
  have s: "ro_store linked_router = gw_apply 2 (Redeem ''123456'' ''telegram'' ''7'' None) (ro_store issued_router)"
    unfolding r by (simp only: same_store on_store_view)
  show "map_option id_id (resolve_account ''telegram'' ''7'' (ro_store linked_router)) = Some ''a''"
    by (simp add: s issued_router_def start_router_def empty_store_def create_identity_def save_store_def issue_code_def redeem_code_def expire_pending_def
      is_locked_def bind_account_def set_identity_def resolve_account_def account_key_def link_ttl_def Let_def)
  show "ro_convs linked_router = []" "started ''a'' (ro_log linked_router) = []"
    unfolding r by (simp_all add: reply_to_def ro_send_def on_store_def issued_router_def start_router_def)
qed

lemma busy_reached: "reaches gw_env busy_router" "Started ''a'' ''go'' \<in> set (ro_log busy_router)"
proof -
  have linked: "reaches gw_env linked_router"
    by (rule steps [OF issued_reached, where now = 2 and l = "Receive (sample_message ''telegram'' ''123456'')"])
      (simp_all add: router_step_def linked_router_def issued_router_def start_router_def)
  show "reaches gw_env busy_router"
    by (rule steps [OF linked, where now = 3 and l = "Receive (sample_message ''telegram'' ''go'')"])
      (simp_all add: router_step_def busy_router_def linked_view)
  obtain d where d: "resolve_account ''telegram'' ''7'' (ro_store linked_router) = Some d" "id_id d = ''a''"
    using linked_view(2) by auto
  have plain: "trim ''go'' = ''go''" "''telegram'' \<in> set gw_platforms" "\<not> starts_with ''go'' ''/''" by code_simp+
  have b: "busy_router = enqueue (sample_message ''telegram'' ''go'') ''a'' ''go'' (on_store 3 (Touch ''a'') linked_router)"
    by (simp add: busy_router_def handle_message_def handle_text_def d plain sample_message_def gw_env_def)
  show "Started ''a'' ''go'' \<in> set (ro_log busy_router)"
    unfolding b by (simp add: enqueue_def Let_def conv_of_def on_store_def linked_view set_conv_def)
qed

theorem one_turn_at_a_time_witness:
  "length (filter (\<lambda>d. dr_identity d = ''a'') (ro_drains busy_router)) = (if running ''a'' busy_router then 1 else 0)"
  by (rule one_turn_at_a_time [OF busy_reached(1)])

theorem prompts_run_once_witness: "mset (run_or_queued ''a'' busy_router) \<subseteq># mset (accepted ''a'' (ro_log busy_router))"
  by (rule prompts_run_once [OF busy_reached(1)])

theorem only_linked_accounts_run_witness:
  "\<exists>k p a. Accepted k p a ''a'' ''go'' \<in> set (ro_log busy_router) \<and> let_in (take k (ro_events busy_router)) p a ''a''"
proof (rule only_linked_accounts_run [OF busy_reached(1) _ busy_reached(2)])
  show "list_all platform_ok (re_platforms gw_env)" by code_simp
qed

text \<open>One prompt runs, a second one waits.\<close>

definition queued_router :: router where
  "queued_router = handle_message gw_env 4 (sample_message ''telegram'' ''more'') busy_router"

lemma linked_account: "\<exists>d. resolve_account ''telegram'' ''7'' (ro_store linked_router) = Some d \<and> id_id d = ''a''"
  using linked_view(2) by auto

lemma enqueue_sample:
  assumes "\<exists>d. resolve_account ''telegram'' ''7'' (ro_store r) = Some d \<and> id_id d = ''a''"
    and "trim s = s" "s \<noteq> []" "\<not> starts_with s ''/''"
  shows "handle_message gw_env now (sample_message ''telegram'' s) r
     = enqueue (sample_message ''telegram'' s) ''a'' s (on_store now (Touch ''a'') r)"
proof -
  have "''telegram'' \<in> set gw_platforms" by code_simp
  then show ?thesis using assms by (auto simp: handle_message_def handle_text_def sample_message_def gw_env_def)
qed

lemma started_sent: "\<forall>e\<in>set l. \<exists>p c t. e = Sent p c t \<Longrightarrow> started i l = []"
  by (auto simp: started_def)

lemma enqueue_started: "started j (ro_log (enqueue m i s r)) = started j (ro_log r) @ (if j = i \<and> \<not> running i r then [s] else [])"
  using enqueue_log [of m i s r] by (auto simp: started_sent)

lemma touch_view: "running i (on_store now op r) = running i r" "queue_of i (on_store now op r) = queue_of i r"
  "ro_log (on_store now op r) = ro_log r" "ro_events (on_store now op r) = ro_events r @ [(now, op)]"
  by (simp_all add: on_store_def running_def queue_of_def)

lemma busy_is: "busy_router = enqueue (sample_message ''telegram'' ''go'') ''a'' ''go'' (on_store 3 (Touch ''a'') linked_router)"
  using enqueue_sample [OF linked_account, of "''go''" 3]
  by (simp add: busy_router_def trim_def trim_start_def trim_end_def is_ws_def starts_with_def)

lemma touch_resolves:
  "\<exists>d. resolve_account p a s = Some d \<and> id_id d = i \<Longrightarrow> \<exists>d. resolve_account p a (gw_apply now (Touch i) s) = Some d \<and> id_id d = i"
  by (auto simp: touch_identity_def set_identity_def resolve_account_def update_conv' split: option.splits if_splits)

lemma queued_is: "queued_router = enqueue (sample_message ''telegram'' ''more'') ''a'' ''more'' (on_store 4 (Touch ''a'') busy_router)"
proof -
  have "\<exists>d. resolve_account ''telegram'' ''7'' (ro_store busy_router) = Some d \<and> id_id d = ''a''"
    unfolding busy_is enqueue_view(5) using touch_resolves [OF linked_account, of 3] by (simp add: on_store_def del: gw_apply.simps)
  from enqueue_sample [OF this, of "''more''" 4] show ?thesis
    unfolding queued_router_def by (simp add: trim_def trim_start_def trim_end_def is_ws_def starts_with_def)
qed

lemma queued_calmly: "reaches_calmly ''a'' gw_env queued_router"
proof -
  have calm: "calm ''a'' r" if "ro_convs r = []" for r
    using that by (simp add: calm_def queue_of_def conv_of_def)
  have "reaches_calmly ''a'' gw_env (on_store 0 (Create ''a'' ''/p'') start_router)"
    by (rule calm_steps [OF calm_begins, where now = 0 and l = "Operator (Create ''a'' ''/p'')"])
      (simp_all add: router_step_def calm on_store_def start_router_def empty_store_def)
  then have "reaches_calmly ''a'' gw_env issued_router"
    by (rule calm_steps [where now = 1 and l = "Operator (Issue ''a'' ''123456'')"])
      (simp_all add: router_step_def calm on_store_def issued_router_def start_router_def)
  then have "reaches_calmly ''a'' gw_env linked_router"
    by (rule calm_steps [where now = 2 and l = "Receive (sample_message ''telegram'' ''123456'')"])
      (simp_all add: router_step_def calm linked_view linked_router_def [symmetric], simp add: issued_router_def start_router_def)
  then have "reaches_calmly ''a'' gw_env busy_router"
    by (rule calm_steps [where now = 3 and l = "Receive (sample_message ''telegram'' ''go'')"])
      (simp_all add: router_step_def busy_router_def [symmetric] linked_view, simp add: busy_is calm_def enqueue_view)
  then show ?thesis
    by (rule calm_steps [where now = 4 and l = "Receive (sample_message ''telegram'' ''more'')"])
      (simp_all add: router_step_def queued_router_def [symmetric], simp add: busy_is touch_view linked_view enqueue_view,
       simp add: queued_is calm_def enqueue_view)
qed

theorem prompts_in_order_witness: "fifo ''a'' (ro_log queued_router) = Some ([''go''], [''more''])"
proof -
  have idle: "\<not> running ''a'' linked_router" "queue_of ''a'' linked_router = []"
    by (simp_all add: running_def queue_of_def conv_of_def linked_view)
  have "started ''a'' (ro_log queued_router) = [''go'']" "queue_of ''a'' queued_router = [''more'']"
    using idle by (simp_all add: queued_is busy_is enqueue_started enqueue_view touch_view linked_view(4))
  then show ?thesis using prompts_in_order [OF queued_calmly] by simp
qed

section \<open>Where the router goes wrong\<close>

text \<open>Runs of the router from one in which the account seven is linked on two platforms.\<close>

fun gw_exec :: "router_env \<Rightarrow> (nat \<times> gw_step) list \<Rightarrow> router \<Rightarrow> router option" where
  "gw_exec env [] r = Some r"
| "gw_exec env ((t, l) # ls) r = Option.bind (router_step env t l r) (gw_exec env ls)"

definition two_platforms :: router where
  "two_platforms = start_router\<lparr>ro_store := empty_store\<lparr>is_index := [(''telegram:7'', ''a''), (''slack:7'', ''a'')],
     is_ids := [(''a'', \<lparr>id_id = ''a'', id_accounts = [\<lparr>ac_platform = ''telegram'', ac_id = ''7'', ac_label = None, ac_linked = 0\<rparr>,
       \<lparr>ac_platform = ''slack'', ac_id = ''7'', ac_label = None, ac_linked = 0\<rparr>], id_session = None, id_cwd = Some ''/p'', id_created = 0, id_seen = 0\<rparr>)]\<rparr>\<rparr>"

text \<open>
  Replies go astray: a message that waits while a turn runs is answered on the platform and in the conversation of the message that
  started the drain, not in its own.
\<close>

theorem reply_in_other_chat:
  "map_option (\<lambda>r. last (ro_log r)) (gw_exec gw_env
     [(1, Receive (sample_message ''telegram'' ''first'')), (2, Receive ((sample_message ''slack'' ''second'')\<lparr>gm_conversation := ''d''\<rparr>)),
      (3, TurnDone 0 ''ok''), (4, NextPrompt 0), (5, TurnDone 0 ''done'')] two_platforms)
   = Some (Sent ''telegram'' ''c'' ''done'')"
  by code_simp

text \<open>
  A message can be left behind: when a voice note goes on after the last turn has ended and before the drain has settled, it is put in a queue
  that nobody serves, until another message comes.
\<close>

theorem message_left_behind:
  "map_option (\<lambda>r. (length (ro_drains r), running ''a'' r, queue_of ''a'' r)) (gw_exec gw_env
     [(1, Receive ((sample_message ''telegram'' [])\<lparr>gm_audio := Some ''url''\<rparr>)), (2, Transcribed 0 (Inr ''two'')),
      (3, Receive (sample_message ''slack'' ''one'')), (4, TurnDone 0 ''ok''), (5, NextPrompt 0), (6, HeardSent 0), (7, Settled 0)] two_platforms)
   = Some (0, False, [''two''])"
  by code_simp

text \<open>
  An account that has been told that it can no longer reach the session still does: its waiting messages are run after it was unlinked.
\<close>

theorem unlinked_prompt_runs:
  "map_option (\<lambda>r. (map_option id_id (resolve_account ''telegram'' ''7'' (ro_store r)), last (ro_log r))) (gw_exec gw_env
     [(1, Receive (sample_message ''telegram'' ''one'')), (2, Receive (sample_message ''telegram'' ''two'')), (3, Receive (sample_message ''telegram'' ''/unlink'')),
      (4, TurnDone 0 ''ok''), (5, NextPrompt 0)] two_platforms)
   = Some (None, Started ''a'' ''two'')"
  by code_simp

end
