(* ===== verification/Split_Message.thy ===== *)
theory Split_Message
  imports Jean_Prelude
begin

text \<open>Fitting a reply into the message limit of a platform: \<open>splitMessage\<close> of \<open>packages/gateway/src/adapter.ts\<close>.\<close>

section \<open>The cuts\<close>

text \<open>\<open>text.split('\\n\\n')\<close>\<close>

function paragraphs :: "string \<Rightarrow> string list" where
  "paragraphs s = (case index_of [u_lf, u_lf] s of None \<Rightarrow> [s] | Some i \<Rightarrow> take i s # paragraphs (drop (i + 2) s))"
  by pat_completeness auto
termination
proof (relation "measure length")
  fix s :: string and i
  assume "index_of [u_lf, u_lf] s = Some i"
  then have "s \<noteq> []" by auto
  then show "(drop (i + 2) s, s) \<in> measure length" by simp
qed simp

declare paragraphs.simps [simp del]

text \<open>A limit of zero would not end; the adapters' limits are positive.\<close>

function chunks :: "nat \<Rightarrow> string \<Rightarrow> string list" where
  "chunks limit s = (if s = [] \<or> limit = 0 then [] else take limit s # chunks limit (drop limit s))"
  by pat_completeness auto
termination by (relation "measure (\<lambda>(limit, s). length s)") auto

declare chunks.simps [simp del]

definition push_part :: "string \<Rightarrow> string list \<Rightarrow> string list" where
  "push_part s parts = (if s = [] then parts else parts @ [s])"

definition line_step :: "nat \<Rightarrow> string \<Rightarrow> string list \<times> string \<Rightarrow> string list \<times> string" where
  "line_step limit s st =
     (case st of (parts, line) \<Rightarrow>
        if length line + length s + 1 \<le> limit then (parts, if line \<noteq> [] then line @ [u_lf] @ s else s)
        else if length s \<le> limit \<and> s \<noteq> [] then (push_part line parts, s)
        else (push_part line parts @ chunks limit s, []))"

definition paragraph_step :: "nat \<Rightarrow> string \<Rightarrow> string list \<times> string \<Rightarrow> string list \<times> string" where
  "paragraph_step limit s st =
     (case st of (parts, current) \<Rightarrow>
        if length current + length s + 2 \<le> limit then (parts, if current \<noteq> [] then current @ [u_lf, u_lf] @ s else s)
        else if length s \<le> limit then (push_part current parts, s)
        else fold (line_step limit) (lines_of s) (push_part current parts, []))"

definition split_message :: "string \<Rightarrow> nat \<Rightarrow> string list" where
  "split_message s limit =
     (if length s \<le> limit then [s]
      else (let (parts, current) = fold (paragraph_step limit) (paragraphs s) ([], [])
            in filter (\<lambda>p. p \<noteq> []) (push_part current parts)))"

section \<open>Nothing is lost and everything fits\<close>

definition inked :: "string \<Rightarrow> string" where
  "inked s = filter (\<lambda>c. c \<noteq> u_lf) s"

lemma inked_simps [simp]: "inked [] = []" "inked (s @ t) = inked s @ inked t" "inked (u_lf # s) = inked s"
  by (simp_all add: inked_def)

definition holds :: "nat \<Rightarrow> string \<Rightarrow> string list \<times> string \<Rightarrow> bool" where
  "holds limit s st = (case st of (parts, current) \<Rightarrow>
     list_all (\<lambda>p. length p \<le> limit) parts \<and> length current \<le> limit \<and> inked (concat parts @ current) = inked s)"

lemma chunks_ok: "0 < limit \<Longrightarrow> list_all (\<lambda>p. length p \<le> limit) (chunks limit s) \<and> concat (chunks limit s) = s"
proof (induction limit s rule: chunks.induct)
  case (1 limit s)
  show ?case
  proof (cases "s = []")
    case True
    then show ?thesis by (simp add: chunks.simps [of limit "[]"])
  next
    case False
    then show ?thesis using 1 by (simp add: chunks.simps [of limit s])
  qed
qed

lemma push_part_ok: "concat (push_part s parts) = concat parts @ s"
  "list_all P (push_part s parts) \<longleftrightarrow> list_all P parts \<and> (s = [] \<or> P s)"
  by (auto simp: push_part_def)

lemma line_step_holds: "0 < limit \<Longrightarrow> holds limit t st \<Longrightarrow> holds limit (t @ s) (line_step limit s st)"
  using chunks_ok [of limit s]
  by (cases st) (auto simp: holds_def line_step_def push_part_ok)

lemma lines_hold: "0 < limit \<Longrightarrow> holds limit t st \<Longrightarrow> holds limit (t @ concat ls) (fold (line_step limit) ls st)"
proof (induction ls arbitrary: t st)
  case (Cons l ls)
  then show ?case using Cons.IH [OF Cons.prems(1) line_step_holds [OF Cons.prems(1,2), of l]] by simp
qed simp

lemma inked_split: "inked (concat (lines_of s)) = inked s"
proof -
  have "inked (concat ls) = inked (unlines ls)" for ls
    by (induction "[u_lf]" ls rule: join.induct) simp_all
  then show ?thesis by (metis join_split_on)
qed

lemma paragraph_step_holds:
  assumes "0 < limit" "holds limit t st"
  shows "holds limit (t @ s) (paragraph_step limit s st)"
proof (cases st)
  case (Pair parts current)
  show ?thesis
  proof (cases "length current + length s + 2 \<le> limit \<or> length s \<le> limit")
    case True
    then show ?thesis using assms Pair by (auto simp: holds_def paragraph_step_def push_part_ok)
  next
    case False
    have "holds limit t (push_part current parts, [])"
      using assms Pair by (auto simp: holds_def push_part_ok)
    then have "holds limit (t @ concat (lines_of s)) (fold (line_step limit) (lines_of s) (push_part current parts, []))"
      by (rule lines_hold [OF assms(1)])
    then show ?thesis using False Pair inked_split [of s] by (simp add: paragraph_step_def holds_def split: prod.split)
  qed
qed

lemma paragraphs_hold: "0 < limit \<Longrightarrow> holds limit t st \<Longrightarrow> holds limit (t @ concat ps) (fold (paragraph_step limit) ps st)"
proof (induction ps arbitrary: t st)
  case (Cons p ps)
  then show ?case using Cons.IH [OF Cons.prems(1) paragraph_step_holds [OF Cons.prems(1,2), of p]] by simp
qed simp

lemma index_of_split: "index_of p s = Some i \<Longrightarrow> \<exists>a b. s = a @ p @ b \<and> length a = i"
proof (induction p s arbitrary: i rule: index_of.induct)
  case (1 p)
  then show ?case by (simp split: if_splits)
next
  case (2 p x xs)
  show ?case
  proof (cases "prefix p (x # xs)")
    case True
    then show ?thesis using 2 by (auto simp: prefix_def)
  next
    case False
    then obtain j where "index_of p xs = Some j" "i = Suc j" using 2 by auto
    then obtain a b where "xs = a @ p @ b" "length a = j" using 2 False by blast
    then show ?thesis using \<open>i = Suc j\<close> by (intro exI [of _ "x # a"] exI [of _ b]) simp
  qed
qed

lemma inked_paragraphs: "inked (concat (paragraphs s)) = inked s"
proof (induction s rule: paragraphs.induct)
  case (1 s)
  show ?case
  proof (cases "index_of [u_lf, u_lf] s")
    case None
    then show ?thesis by (simp add: paragraphs.simps [of s])
  next
    case (Some i)
    obtain a b where "s = a @ [u_lf, u_lf] @ b" "length a = i" using index_of_split [OF Some] by blast
    then have cut: "take i s = a" "drop (i + 2) s = b" "inked s = inked a @ inked b" by simp_all
    have "paragraphs s = a # paragraphs b" by (subst paragraphs.simps) (simp only: Some option.case cut)
    moreover have "inked (concat (paragraphs b)) = inked b" using 1 [OF Some] unfolding cut .
    ultimately show ?thesis using cut(3) by simp
  qed
qed

text \<open>
  A reply is split into pieces that fit the limit, in order, and nothing but line breaks is lost; a reply that does not fit has no
  empty piece.
\<close>

theorem split_message_fits:
  assumes "0 < limit"
  shows "list_all (\<lambda>p. length p \<le> limit) (split_message s limit) \<and> inked (concat (split_message s limit)) = inked s
    \<and> (length s > limit \<longrightarrow> [] \<notin> set (split_message s limit))"
proof (cases "length s \<le> limit")
  case True
  then show ?thesis by (simp add: split_message_def)
next
  case False
  obtain parts current where fold: "fold (paragraph_step limit) (paragraphs s) ([], []) = (parts, current)" by force
  have "holds limit ([] @ concat (paragraphs s)) (parts, current)"
    using paragraphs_hold [OF assms, of "[]" "([], [])" "paragraphs s"] fold by (simp add: holds_def)
  then have *: "list_all (\<lambda>p. length p \<le> limit) (push_part current parts)" "inked (concat (push_part current parts)) = inked s"
    using inked_paragraphs [of s] by (simp_all add: holds_def push_part_ok)
  have "concat (filter (\<lambda>p. p \<noteq> []) ps) = concat ps" for ps :: "string list" by (induction ps) simp_all
  then show ?thesis
    using * False fold by (auto simp: split_message_def list_all_iff)
qed

theorem split_message_fits_witness:
  "list_all (\<lambda>p. length p \<le> 4) (split_message (unlines [''abcdefghij'', ''k'']) 4)
    \<and> inked (concat (split_message (unlines [''abcdefghij'', ''k'']) 4)) = ''abcdefghijk''"
  using split_message_fits [of 4 "unlines [''abcdefghij'', ''k'']"] by (simp add: inked_def u_lf_def)

end
