(* ===== verification/ModelHttp.thy ===== *)
theory ModelHttp
  imports Cron Permissions
begin

text \<open>
  The HTTP plumbing every provider adapter shares: \<open>packages/model/src/providers/http.ts\<close>.

  The world \<open>'w\<close> carries the network, the clock, the random numbers and the abort signal of the request.
  \<open>fetch\<close>, \<open>JSON.parse\<close>, \<open>Date.parse\<close> and the \<open>TextDecoder\<close> are parameters: a response body is the list of the
  texts its chunks decode to. The first part is \<open>request\<close> with its retries, the second the reading of server-sent
  events, whose laws say that how the network cuts a body into chunks never shows in what is read from it.
\<close>

section \<open>Requests that are retried\<close>

record provider_error =
  pe_message :: string
  pe_provider :: string
  pe_status :: "nat option"
  pe_retryable :: bool

text \<open>\<open>hr_text\<close> is \<open>None\<close> where reading the body throws.\<close>

record http_reply =
  hr_status :: nat
  hr_text :: "string option"
  hr_retry_after :: "string option"
  hr_chunks :: "string list"

record 'w http_env =
  he_aborted :: "'w \<Rightarrow> bool"
  he_fetch :: "'w \<Rightarrow> (string + http_reply) \<times> 'w"
  he_sleep :: "rat \<Rightarrow> 'w \<Rightarrow> 'w"
  he_random :: "'w \<Rightarrow> rat \<times> 'w"
  he_now :: "'w \<Rightarrow> int"
  he_parse :: "string \<Rightarrow> json option"
  he_date :: "string \<Rightarrow> int option"

definition default_max_retries :: nat where "default_max_retries = 2"

definition reply_ok :: "http_reply \<Rightarrow> bool" where
  "reply_ok r = (200 \<le> hr_status r \<and> hr_status r < 300)"

definition is_retryable :: "nat \<Rightarrow> bool" where
  "is_retryable status = (status = 408 \<or> status = 409 \<or> status = 429 \<or> status \<ge> 500)"

text \<open>\<open>detail\<close>: the useful sentence of an error payload. Reading a property of \<open>null\<close> throws, as text that is not
  JSON does, and leaves the raw body.\<close>

definition failure_detail :: "(string \<Rightarrow> json option) \<Rightarrow> string \<Rightarrow> string" where
  "failure_detail parse body =
     (let raw = slice 0 500 body
      in case parse body of None \<Rightarrow> raw
         | Some parsed \<Rightarrow>
             (case jget parsed ''error'' of
                JStr e \<Rightarrow> e
              | JObj kvs \<Rightarrow> if map_of kvs ''message'' \<noteq> None
                           then (if nameable (jget (JObj kvs) ''message'') then js_string (jget (JObj kvs) ''message'') else raw)
                           else (case jget parsed ''message'' of JStr m \<Rightarrow> m | _ \<Rightarrow> raw)
              | _ \<Rightarrow> (case jget parsed ''message'' of JStr m \<Rightarrow> m | _ \<Rightarrow> raw)))"

definition free_tier_refused :: "string \<Rightarrow> bool" where
  "free_tier_refused body =
     (str_includes (to_lower body) ''freetiererror''
      \<or> str_includes (to_lower body) ''can only be used from within opencode'')"

definition status_hint :: "nat \<Rightarrow> string" where
  "status_hint status =
     (if status = 401 then '' '' @ [u_emdash] @ '' check the API key for this provider''
      else if status = 403
        then '' '' @ [u_emdash] @ '' the provider refused this request; check the key, and that your plan allows this model from third-party clients''
      else if status = 404 then '' '' @ [u_emdash] @ '' check the model id exists on this provider''
      else if status = 429 then '' '' @ [u_emdash] @ '' rate limited'' else [])"

definition describe_failure :: "(string \<Rightarrow> json option) \<Rightarrow> string \<Rightarrow> nat \<Rightarrow> string \<Rightarrow> string" where
  "describe_failure parse provider status body =
     (if free_tier_refused body
      then provider @ '' returned '' @ nat_str status
           @ '': OpenCode Zen's free models are reserved for the OpenCode app, even with a key. ''
           @ ''Pick a paid Zen model (/models, e.g. opencode:claude-sonnet-5) or a free model from another provider (e.g. an OpenRouter \":free\" one).''
      else provider @ '' returned '' @ nat_str status @ status_hint status @ '': '' @ failure_detail parse body)"

definition parse_retry_after :: "'w http_env \<Rightarrow> string \<Rightarrow> 'w \<Rightarrow> rat" where
  "parse_retry_after env s w =
     (case js_number s of Some seconds \<Rightarrow> min (seconds * 1000) 30000
      | None \<Rightarrow> (case he_date env s of
                   Some date \<Rightarrow> of_int (min (max (date - he_now env w) 0) 30000)
                 | None \<Rightarrow> 1000))"

definition backoff_base :: "nat \<Rightarrow> rat" where
  "backoff_base attempt = min (500 * 2 ^ attempt) 8000"

definition backoff_ms :: "'w http_env \<Rightarrow> nat \<Rightarrow> 'w \<Rightarrow> rat \<times> 'w" where
  "backoff_ms env attempt w =
     (case he_random env w of (r, w') \<Rightarrow> (backoff_base attempt + r * backoff_base attempt * (1/4), w'))"

definition abort_error :: "string \<Rightarrow> provider_error" where
  "abort_error provider =
     \<lparr>pe_message = ''request aborted'', pe_provider = provider, pe_status = None, pe_retryable = False\<rparr>"

definition network_error :: "string \<Rightarrow> string \<Rightarrow> provider_error" where
  "network_error provider msg =
     \<lparr>pe_message = ''network error contacting '' @ provider @ '': '' @ msg, pe_provider = provider,
      pe_status = None, pe_retryable = True\<rparr>"

definition status_error :: "'w http_env \<Rightarrow> string \<Rightarrow> http_reply \<Rightarrow> provider_error" where
  "status_error env provider reply =
     \<lparr>pe_message = describe_failure (he_parse env) provider (hr_status reply)
        (case hr_text reply of None \<Rightarrow> [] | Some t \<Rightarrow> t),
      pe_provider = provider, pe_status = Some (hr_status reply), pe_retryable = is_retryable (hr_status reply)\<rparr>"

definition status_wait :: "'w http_env \<Rightarrow> http_reply \<Rightarrow> nat \<Rightarrow> 'w \<Rightarrow> rat \<times> 'w" where
  "status_wait env reply attempt w =
     (if truthy (hr_retry_after reply) then (parse_retry_after env (the (hr_retry_after reply)) w, w)
      else backoff_ms env attempt w)"

text \<open>The loop of \<open>request\<close>, from an attempt on.\<close>

function request_from :: "'w http_env \<Rightarrow> string \<Rightarrow> nat \<Rightarrow> provider_error option \<Rightarrow> nat \<Rightarrow> 'w
    \<Rightarrow> (provider_error + http_reply) \<times> 'w" where
  "request_from env provider max_retries last_error attempt w =
     (if attempt > max_retries
      then (Inl (case last_error of Some e \<Rightarrow> e
                 | None \<Rightarrow> \<lparr>pe_message = ''request failed'', pe_provider = provider, pe_status = None,
                            pe_retryable = False\<rparr>), w)
      else if he_aborted env w then (Inl (abort_error provider), w)
      else (case he_fetch env w of
          (Inl msg, w1) \<Rightarrow>
            if he_aborted env w1 then (Inl (abort_error provider), w1)
            else if attempt < max_retries
              then (case backoff_ms env attempt w1 of (ms, w2) \<Rightarrow>
                      request_from env provider max_retries (Some (network_error provider msg)) (Suc attempt)
                        (he_sleep env ms w2))
            else (Inl (network_error provider msg), w1)
        | (Inr reply, w1) \<Rightarrow>
            if reply_ok reply then (Inr reply, w1)
            else if \<not> is_retryable (hr_status reply) \<or> attempt = max_retries
              then (Inl (status_error env provider reply), w1)
            else (case status_wait env reply attempt w1 of (ms, w2) \<Rightarrow>
                    request_from env provider max_retries (Some (status_error env provider reply)) (Suc attempt)
                      (he_sleep env ms w2))))"
  by pat_completeness auto
termination
  by (relation "measure (\<lambda>(env, provider, max_retries, e, attempt, w). Suc max_retries - attempt)") auto

declare request_from.simps [simp del]

definition http_request :: "'w http_env \<Rightarrow> string \<Rightarrow> nat option \<Rightarrow> 'w \<Rightarrow> (provider_error + http_reply) \<times> 'w" where
  "http_request env provider max_retries w =
     request_from env provider (case max_retries of Some n \<Rightarrow> n | None \<Rightarrow> default_max_retries) None 0 w"

definition clean_key :: "string option \<Rightarrow> string option" where
  "clean_key key = (case key of None \<Rightarrow> None | Some k \<Rightarrow> if trim k = [] then None else Some (trim k))"

subsection \<open>How often, how long, and with what outcome\<close>

text \<open>A count that a fetch raises by one and nothing else moves: how many requests were sent.\<close>

definition counts_fetches :: "'w http_env \<Rightarrow> ('w \<Rightarrow> nat) \<Rightarrow> bool" where
  "counts_fetches env n \<longleftrightarrow>
     (\<forall>w. n (snd (he_fetch env w)) = Suc (n w)) \<and> (\<forall>ms w. n (he_sleep env ms w) = n w)
     \<and> (\<forall>w. n (snd (he_random env w)) = n w)"

lemma backoff_count: "counts_fetches env n \<Longrightarrow> n (snd (backoff_ms env a w)) = n w"
  by (auto simp: backoff_ms_def counts_fetches_def split: prod.splits) (metis snd_conv)

lemma wait_count: "counts_fetches env n \<Longrightarrow> n (snd (status_wait env r a w)) = n w"
  by (simp add: status_wait_def backoff_count)

text \<open>One pass of the loop: it answers, or waits and goes round again.\<close>

lemma request_from_cases:
  assumes le: "a \<le> mx" and live: "\<not> he_aborted env w"
  obtains (answer) x where "request_from env p mx e a w = (x, snd (he_fetch env w))"
      "case x of Inr r \<Rightarrow> reply_ok r \<and> fst (he_fetch env w) = Inr r
       | Inl err \<Rightarrow> err = abort_error p \<or> (\<exists>msg. err = network_error p msg)
           \<or> (\<exists>r. err = status_error env p r \<and> \<not> reply_ok r)"
  | (again) err ms w2 where "a < mx"
      "request_from env p mx e a w = request_from env p mx (Some err) (Suc a) (he_sleep env ms w2)"
      "(ms, w2) = backoff_ms env a (snd (he_fetch env w))
       \<or> (\<exists>r. (ms, w2) = status_wait env r a (snd (he_fetch env w)))"
proof (cases "he_fetch env w")
  case (Pair x w1)
  show ?thesis
  proof (cases x)
    case (Inl msg)
    obtain ms w2 where b: "backoff_ms env a w1 = (ms, w2)" by (cases "backoff_ms env a w1")
    show ?thesis
    proof (cases "he_aborted env w1 \<or> a = mx")
      case True
      have "request_from env p mx e a w = (Inl (if he_aborted env w1 then abort_error p else network_error p msg), w1)"
        using le live Pair Inl True by (auto simp: request_from.simps [of env p mx e a w])
      then show ?thesis
        using that(1) [of "Inl (if he_aborted env w1 then abort_error p else network_error p msg)"] Pair
        by (cases "he_aborted env w1") auto
    next
      case False
      then show ?thesis
        using that(2) [of "network_error p msg" ms w2] le live Pair Inl b
        by (auto simp: request_from.simps [of env p mx e a w])
    qed
  next
    case (Inr r)
    obtain ms w2 where b: "status_wait env r a w1 = (ms, w2)" by (cases "status_wait env r a w1")
    show ?thesis
    proof (cases "reply_ok r \<or> \<not> is_retryable (hr_status r) \<or> a = mx")
      case True
      then have "request_from env p mx e a w = (if reply_ok r then Inr r else Inl (status_error env p r), w1)"
        using le live Pair Inr by (auto simp: request_from.simps [of env p mx e a w])
      then show ?thesis
        using that(1) [of "if reply_ok r then Inr r else Inl (status_error env p r)"] Pair Inr
        by (cases "reply_ok r") auto
    next
      case False
      have "\<exists>r. (ms, w2) = status_wait env r a w1" using b by metis
      with False show ?thesis
        using that(2) [of "status_error env p r" ms w2] le live Pair Inr b
        by (auto simp: request_from.simps [of env p mx e a w])
    qed
  qed
qed

lemma request_from_over: "mx < a \<Longrightarrow> snd (request_from env p mx e a w) = w"
  by (simp add: request_from.simps [of env p mx e a w])

lemma request_from_aborted:
  "a \<le> mx \<Longrightarrow> he_aborted env w \<Longrightarrow> request_from env p mx e a w = (Inl (abort_error p), w)"
  by (simp add: request_from.simps [of env p mx e a w])

lemma request_from_count:
  assumes c: "counts_fetches env n" and "a \<le> Suc mx"
  shows "n (snd (request_from env p mx e a w)) \<le> n w + (Suc mx - a)"
  using assms(2)
proof (induction "Suc mx - a" arbitrary: a e w)
  case 0
  then show ?case by (simp add: request_from_over)
next
  case (Suc k)
  have f: "n (snd (he_fetch env w)) = Suc (n w)" using c by (simp add: counts_fetches_def)
  show ?case
  proof (cases "he_aborted env w")
    case True
    then show ?thesis using Suc by (simp add: request_from_aborted)
  next
    case False
    have "a \<le> mx" using Suc by simp
    then show ?thesis
      using False
    proof (cases rule: request_from_cases [where e = e and p = p])
      case (answer x)
      then show ?thesis using f Suc by simp
    next
      case (again err ms w2)
      have "n w2 = Suc (n w)"
        using again(3) f backoff_count [OF c] wait_count [OF c] by (metis snd_conv)
      then have "n (he_sleep env ms w2) = Suc (n w)" using c by (simp add: counts_fetches_def)
      moreover have "n (snd (request_from env p mx (Some err) (Suc a) (he_sleep env ms w2)))
          \<le> n (he_sleep env ms w2) + (Suc mx - Suc a)"
        using Suc.hyps(2) again(1) by (intro Suc.hyps(1)) auto
      ultimately show ?thesis using again(1,2) by simp
    qed
  qed
qed

text \<open>An answer is a reply with a good status; a failure says whose it is, and its status is a bad one.\<close>

lemma request_from_outcome:
  assumes "a \<le> mx"
  shows "case fst (request_from env p mx e a w) of
           Inr r \<Rightarrow> reply_ok r
         | Inl err \<Rightarrow> pe_provider err = p \<and> (pe_retryable err \<longrightarrow> pe_status err = None \<or> is_retryable (the (pe_status err)))
                      \<and> (\<forall>s. pe_status err = Some s \<longrightarrow> \<not> (200 \<le> s \<and> s < 300))"
  using assms
proof (induction "mx - a" arbitrary: a e w)
  case 0
  then show ?case
  proof (cases "he_aborted env w")
    case False
    with 0(2) show ?thesis
      using 0(1) by (cases rule: request_from_cases [where e = e and p = p])
        (auto simp: abort_error_def network_error_def status_error_def reply_ok_def split: sum.splits)
  qed (simp add: request_from_aborted abort_error_def)
next
  case (Suc k)
  show ?case
  proof (cases "he_aborted env w")
    case False
    with Suc(3) show ?thesis
    proof (cases rule: request_from_cases [where e = e and p = p])
      case (answer x)
      then show ?thesis
        by (auto simp: abort_error_def network_error_def status_error_def reply_ok_def split: sum.splits)
    next
      case (again err ms w2)
      then show ?thesis using Suc.hyps(1) [of "Suc a" "Some err" "he_sleep env ms w2"] Suc.hyps(2) by simp
    qed
  qed (use Suc in \<open>simp add: request_from_aborted abort_error_def\<close>)
qed

text \<open>No wait is longer than thirty seconds; a backoff is between half a second and ten seconds.\<close>

lemma backoff_bounds:
  assumes "\<And>w. 0 \<le> fst (he_random env w) \<and> fst (he_random env w) < 1"
  shows "500 \<le> fst (backoff_ms env a w)" "fst (backoff_ms env a w) < 10000"
proof -
  obtain r w' where r: "he_random env w = (r, w')" by (cases "he_random env w")
  have r01: "0 \<le> r" "r < 1" using assms [of w] r by simp_all
  have p: "(1::rat) \<le> 2 ^ a" by simp
  have b: "500 \<le> backoff_base a" "backoff_base a \<le> 8000" using p by (auto simp: backoff_base_def)
  have m: "r * backoff_base a < backoff_base a" "0 \<le> r * backoff_base a" using r01 b by simp_all
  show "500 \<le> fst (backoff_ms env a w)" "fst (backoff_ms env a w) < 10000"
    using m b unfolding backoff_ms_def r prod.case fst_conv by linarith+
qed

lemma retry_after_bound: "parse_retry_after env s w \<le> 30000"
  by (auto simp: parse_retry_after_def split: option.split)

lemma status_wait_bound:
  assumes "\<And>w. 0 \<le> fst (he_random env w) \<and> fst (he_random env w) < 1"
  shows "fst (status_wait env r a w) \<le> 30000"
  using retry_after_bound [of env _ w] order.strict_implies_order [OF backoff_bounds(2) [OF assms, of a w]]
  by (auto simp: status_wait_def)

text \<open>
  A request is sent at most once plus the allowed retries, and it ends with a reply of a good status or an
  error that names the provider; an error that carries a status carries a bad one, and one marked as retryable is a
  network failure or a status worth retrying.
\<close>

theorem retries_bounded:
  assumes "counts_fetches env n"
  shows "n (snd (http_request env p mx w))
           \<le> n w + Suc (case mx of Some k \<Rightarrow> k | None \<Rightarrow> default_max_retries)
         \<and> (case fst (http_request env p mx w) of
              Inr r \<Rightarrow> reply_ok r
            | Inl err \<Rightarrow> pe_provider err = p
                \<and> (pe_retryable err \<longrightarrow> pe_status err = None \<or> is_retryable (the (pe_status err)))
                \<and> (\<forall>s. pe_status err = Some s \<longrightarrow> \<not> (200 \<le> s \<and> s < 300)))"
  unfolding http_request_def
  using request_from_count [OF assms, of 0] request_from_outcome [of 0] by fastforce

text \<open>A network on which every request fails with 503, counting the requests.\<close>

definition down_env :: "nat http_env" where
  "down_env = \<lparr>he_aborted = (\<lambda>w. False),
     he_fetch = (\<lambda>w. (Inr \<lparr>hr_status = 503, hr_text = Some ''busy'', hr_retry_after = None, hr_chunks = []\<rparr>, Suc w)),
     he_sleep = (\<lambda>ms w. w), he_random = (\<lambda>w. (0, w)), he_now = (\<lambda>w. 0), he_parse = (\<lambda>s. None),
     he_date = (\<lambda>s. None)\<rparr>"

theorem retries_bounded_witness:
  "snd (http_request down_env ''x'' None 0) \<le> 3"
  using retries_bounded [of down_env "\<lambda>w. w" "''x''" None 0]
  by (simp add: counts_fetches_def down_env_def default_max_retries_def)

lemma down_env_three: "snd (http_request down_env ''x'' None 0) = 3"
  by (simp add: http_request_def default_max_retries_def request_from.simps down_env_def reply_ok_def is_retryable_def
      status_wait_def truthy_def backoff_ms_def)

section \<open>Server-sent events\<close>

text \<open>\<open>findBoundary\<close>: where an event ends, and how long the blank line is.\<close>

abbreviation lf2 :: string where "lf2 \<equiv> [u_lf, u_lf]"
abbreviation crlf2 :: string where "crlf2 \<equiv> [u_cr, u_lf, u_cr, u_lf]"

definition find_boundary :: "string \<Rightarrow> (nat \<times> nat) option" where
  "find_boundary buffer =
     (case (index_of lf2 buffer, index_of crlf2 buffer) of
        (None, None) \<Rightarrow> None
      | (None, Some crlf) \<Rightarrow> Some (crlf, 4)
      | (Some lf, None) \<Rightarrow> Some (lf, 2)
      | (Some lf, Some crlf) \<Rightarrow> if crlf < lf then Some (crlf, 4) else Some (lf, 2))"

text \<open>\<open>split(/\\r?\\n/)\<close>: the pieces between line feeds, each but the last without one carriage return before it.\<close>

definition drop_cr :: "string \<Rightarrow> string" where
  "drop_cr l = (if l \<noteq> [] \<and> last l = u_cr then butlast l else l)"

definition split_lines :: "string \<Rightarrow> string list" where
  "split_lines s = map drop_cr (butlast (lines_of s)) @ [last (lines_of s)]"

definition event_data :: "string \<Rightarrow> string" where
  "event_data raw =
     unlines (map (\<lambda>l. trim_start (drop 5 l)) (filter (\<lambda>l. starts_with l ''data:'') (split_lines raw)))"

lemma find_boundary_bound: "find_boundary buffer = Some (i, n) \<Longrightarrow> 0 < n \<and> i + n \<le> length buffer"
  by (auto simp: find_boundary_def split: option.splits if_splits dest: index_of_bound)

text \<open>The inner loop: what one buffer yields, and what is left of it.\<close>

function drain_buffer :: "string \<Rightarrow> string list \<times> string" where
  "drain_buffer buffer =
     (case find_boundary buffer of
        None \<Rightarrow> ([], buffer)
      | Some (i, n) \<Rightarrow>
          (case drain_buffer (drop (i + n) buffer) of
             (out, rest) \<Rightarrow>
               ((if event_data (take i buffer) \<noteq> [] then [event_data (take i buffer)] else []) @ out, rest)))"
  by pat_completeness auto
termination
  by (relation "measure length") (auto dest: find_boundary_bound)

declare drain_buffer.simps [simp del]

fun read_chunks :: "string \<Rightarrow> string list \<Rightarrow> string list \<times> string" where
  "read_chunks buffer [] = ([], buffer)"
| "read_chunks buffer (c # cs) =
     (case drain_buffer (buffer @ c) of (out, rest) \<Rightarrow>
        (case read_chunks rest cs of (out', rest') \<Rightarrow> (out @ out', rest')))"

definition parse_sse :: "string list \<Rightarrow> string list" where
  "parse_sse chunks =
     (case read_chunks [] chunks of (out, rest) \<Rightarrow>
        out @ (if event_data rest \<noteq> [] then [event_data rest] else []))"

subsection \<open>Chunk boundaries do not show\<close>

text \<open>A boundary found in a prefix of the body is the one found in the whole body.\<close>

lemma prefix_append_short: "length p \<le> length s \<Longrightarrow> prefix p (s @ t) \<longleftrightarrow> prefix p s"
  by (auto simp: prefix_append)

lemma index_of_append: "index_of p s = Some i \<Longrightarrow> index_of p (s @ t) = Some i"
  using index_of_bound [of p s i]
  by (auto simp: index_of_Some_iff prefix_append_short)

lemma index_of_appended:
  assumes "index_of p s = None" "index_of p (s @ t) = Some i"
  shows "length s < i + length p"
proof (rule ccontr)
  assume "\<not> length s < i + length p"
  then have "i \<le> length s" "length p \<le> length (drop i s)" by simp_all
  then show False
    using assms by (auto simp: index_of_None_iff index_of_Some_iff prefix_append_short)
qed

lemma index_of_nth: "index_of p s = Some i \<Longrightarrow> j < length p \<Longrightarrow> s ! (i + j) = p ! j"
  using index_of_bound [of p s i] by (auto simp: index_of_Some_iff prefix_def nth_append) (metis add_leD1 nth_append nth_drop)

lemma find_boundary_append:
  assumes "find_boundary s = Some (i, n)"
  shows "find_boundary (s @ t) = Some (i, n)"
proof (cases "index_of lf2 s")
  case None
  then obtain c where c: "index_of crlf2 s = Some c" "i = c" "n = 4"
    using assms by (auto simp: find_boundary_def split: option.splits)
  have "c + 4 \<le> length s" using index_of_bound [OF c(1)] by simp
  moreover have "length s < l + 2" if "index_of lf2 (s @ t) = Some l" for l
    using index_of_appended [OF None that] by simp
  ultimately show ?thesis
    using index_of_append [OF c(1), of t] c by (auto simp: find_boundary_def split: option.splits)
next
  case (Some l)
  note l = index_of_append [OF Some, of t]
  show ?thesis
  proof (cases "index_of crlf2 s")
    case None
    have "\<not> c < l" if c: "index_of crlf2 (s @ t) = Some c" for c
    proof
      assume "c < l"
      moreover have "length s < c + 4" using index_of_appended [OF None c] by simp
      moreover have "l + 2 \<le> length s" using index_of_bound [OF Some] by simp
      ultimately have "c + 2 = l + 1" by linarith
      then show False
        using index_of_nth [OF c, of 2] index_of_nth [OF l, of 1] by (simp add: u_lf_def u_cr_def)
    qed
    then show ?thesis
      using assms None Some l by (auto simp: find_boundary_def split: option.splits)
  next
    case (Some c)
    then show ?thesis
      using assms l \<open>index_of lf2 s = Some l\<close> index_of_append [OF Some, of t]
      by (auto simp: find_boundary_def)
  qed
qed

lemma drain_buffer_append:
  "drain_buffer (s @ t) =
     (case drain_buffer s of (out, rest) \<Rightarrow> case drain_buffer (rest @ t) of (out', rest') \<Rightarrow> (out @ out', rest'))"
proof (induction s rule: drain_buffer.induct)
  case (1 buffer)
  show ?case
  proof (cases "find_boundary buffer")
    case None
    then show ?thesis by (simp add: drain_buffer.simps [of buffer])
  next
    case (Some b)
    obtain i n where b: "find_boundary buffer = Some (i, n)" using Some by (cases b) simp
    have le: "i + n \<le> length buffer" using find_boundary_bound [OF b] by simp
    then show ?thesis
      using 1 [OF b refl] find_boundary_append [OF b, of t]
      by (auto simp: drain_buffer.simps [of buffer] drain_buffer.simps [of "buffer @ t"] b split: prod.splits)
  qed
qed

lemma drain_buffer_idle: "drain_buffer s = (out, rest) \<Longrightarrow> drain_buffer rest = ([], rest)"
proof (induction s arbitrary: out rule: drain_buffer.induct)
  case (1 buffer)
  show ?case
  proof (cases "find_boundary buffer")
    case None
    then show ?thesis using 1(2) by (auto simp: drain_buffer.simps [of buffer] drain_buffer.simps [of rest])
  next
    case (Some b)
    obtain i n where b: "find_boundary buffer = Some (i, n)" using Some by (cases b) simp
    obtain o' where "drain_buffer (drop (i + n) buffer) = (o', rest)"
      using 1(2) b by (auto simp: drain_buffer.simps [of buffer] split: prod.splits)
    then show ?thesis using 1(1) [OF b refl] by simp
  qed
qed

lemma read_chunks_drain:
  "drain_buffer buffer = ([], buffer) \<Longrightarrow> read_chunks buffer cs = drain_buffer (buffer @ concat cs)"
proof (induction cs arbitrary: buffer)
  case Nil
  then show ?case by simp
next
  case (Cons c cs)
  obtain out rest where d: "drain_buffer (buffer @ c) = (out, rest)" by (cases "drain_buffer (buffer @ c)")
  show ?case
    using drain_buffer_append [of "buffer @ c" "concat cs"] d Cons.IH [OF drain_buffer_idle [OF d]] by simp
qed

lemma drain_Nil: "drain_buffer [] = ([], [])"
  by (simp add: drain_buffer.simps [of "[]"] find_boundary_def)

lemma parse_sse_chunks: "parse_sse chunks = parse_sse [concat chunks]"
  by (simp add: parse_sse_def read_chunks_drain [OF drain_Nil] split: prod.split)

subsection \<open>What a server writes is what is read\<close>

text \<open>A payload as a server writes it: one \<open>data:\<close> line per line of it, and a blank line. A payload must not be
  empty, hold no carriage return, and have no line that starts with white space, which the reader trims.\<close>

definition data_line :: "string \<Rightarrow> string" where "data_line l = ''data: '' @ l"

definition sse_event :: "string \<Rightarrow> string" where
  "sse_event p = unlines (map data_line (lines_of p)) @ lf2"

definition sse_payload :: "string \<Rightarrow> bool" where
  "sse_payload p = (p \<noteq> [] \<and> u_cr \<notin> set p \<and> list_all (\<lambda>l. l = [] \<or> \<not> is_ws (hd l)) (lines_of p))"

lemma data_line_simps [simp]:
  "set (data_line l) = set ''data: '' \<union> set l" "data_line l \<noteq> []" "starts_with (data_line l) ''data:''"
  "drop 5 (data_line l) = CHR '' '' # l" "hd (data_line l) = CHR ''d''"
  by (auto simp: data_line_def starts_with_def)

lemma split_on_subset: "p \<in> set (split_on c s) \<Longrightarrow> set p \<subseteq> set s"
  by (induction s arbitrary: p) (fastforce split: list.splits if_splits)+

lemma drop_cr_fresh: "u_cr \<notin> set l \<Longrightarrow> drop_cr l = l"
  by (auto simp: drop_cr_def) (metis last_in_set)

lemma unlines_no_cr: "list_all (\<lambda>l. u_cr \<notin> set l) ls \<Longrightarrow> u_cr \<notin> set (unlines ls)"
  by (induction "[u_lf]" ls rule: join.induct) (auto simp: u_lf_def u_cr_def)

lemma sse_lines:
  assumes "sse_payload p" "l \<in> set (lines_of p)"
  shows "u_cr \<notin> set l" "u_lf \<notin> set l" "trim_start (CHR '' '' # l) = l"
proof -
  show "u_cr \<notin> set l" "u_lf \<notin> set l"
    using assms split_on_subset split_on_no_sep by (auto simp: sse_payload_def)
  have "l = [] \<or> \<not> is_ws (hd l)" using assms by (auto simp: sse_payload_def list_all_iff)
  then show "trim_start (CHR '' '' # l) = l" by (cases l) (auto simp: trim_start_def)
qed

lemma sse_no_cr: "sse_payload p \<Longrightarrow> u_cr \<notin> set (unlines (map data_line (lines_of p)))"
  by (intro unlines_no_cr) (use sse_lines(1) in \<open>auto simp: list_all_iff u_cr_def\<close>)

lemma sse_event_no_cr: "sse_payload p \<Longrightarrow> u_cr \<notin> set (sse_event p)"
  using sse_no_cr by (simp add: sse_event_def) (simp add: u_lf_def u_cr_def)

lemma event_data_lines:
  assumes "sse_payload p"
  shows "event_data (unlines (map data_line (lines_of p))) = p"
proof -
  let ?ls = "map data_line (lines_of p)"
  have lns: "lines_of (unlines ?ls) = ?ls"
    using sse_lines [OF assms] by (intro split_on_join) (auto simp: u_lf_def)
  have fresh: "drop_cr x = x" if "x \<in> set ?ls" for x
    using that sse_lines(1) [OF assms] by (intro drop_cr_fresh) (auto simp: u_cr_def)
  have "map drop_cr (butlast ?ls) = butlast ?ls"
    by (intro map_idI fresh) (rule in_set_butlastD)
  then have "split_lines (unlines ?ls) = ?ls"
    unfolding split_lines_def lns by simp
  then have "event_data (unlines ?ls) = unlines (map (\<lambda>l. trim_start (CHR '' '' # l)) (lines_of p))"
    by (simp add: event_data_def comp_def filter_map)
  also have "map (\<lambda>l. trim_start (CHR '' '' # l)) (lines_of p) = lines_of p"
    by (intro map_idI sse_lines [OF assms])
  finally show ?thesis by simp
qed

lemma index_of_skip:
  "u_lf \<notin> set l \<Longrightarrow> index_of lf2 (l @ t) = map_option (\<lambda>i. length l + i) (index_of lf2 t)"
  by (induction l) (cases "index_of lf2 t"; auto)+

lemma index_of_lines:
  assumes "list_all (\<lambda>l. u_lf \<notin> set l \<and> l \<noteq> []) ls" "ls \<noteq> []"
  shows "index_of lf2 (unlines ls @ lf2 @ t) = Some (length (unlines ls))"
  using assms
proof (induction "[u_lf]" ls rule: join.induct)
  case (2 p)
  then show ?case by (simp add: index_of_skip)
next
  case (3 p q ps)
  have "\<exists>c cs. unlines (q # ps) = c # cs \<and> c \<noteq> u_lf"
    using 3(2,3) by (cases q; cases ps) auto
  then obtain c cs where q: "unlines (q # ps) = c # cs" "c \<noteq> u_lf" by blast
  have "index_of lf2 (unlines (q # ps) @ lf2 @ t) = Some (length (unlines (q # ps)))"
    using 3 by simp
  then have "index_of lf2 (u_lf # unlines (q # ps) @ lf2 @ t) = Some (Suc (length (unlines (q # ps))))"
    using q by auto
  then show ?case
    using 3(2) by (simp add: index_of_skip del: index_of.simps)
qed simp

lemma no_crlf: "u_cr \<notin> set s \<Longrightarrow> index_of crlf2 s = None"
  by (induction s) auto

lemma drain_event:
  assumes p: "sse_payload p" and t: "u_cr \<notin> set t"
  shows "drain_buffer (sse_event p @ t) = (case drain_buffer t of (out, rest) \<Rightarrow> (p # out, rest))"
proof -
  let ?raw = "unlines (map data_line (lines_of p))"
  have "index_of lf2 (?raw @ lf2 @ t) = Some (length ?raw)"
    using sse_lines [OF p] by (intro index_of_lines) (auto simp: list_all_iff u_lf_def)
  moreover have "index_of crlf2 (sse_event p @ t) = None"
    using t sse_event_no_cr [OF p] by (intro no_crlf) auto
  ultimately have "find_boundary (sse_event p @ t) = Some (length ?raw, 2)"
    by (simp add: find_boundary_def sse_event_def)
  moreover have "p \<noteq> []" using p by (simp add: sse_payload_def)
  moreover have "take (length ?raw) (sse_event p @ t) = ?raw" "drop (length ?raw + 2) (sse_event p @ t) = t"
    by (simp_all add: sse_event_def)
  ultimately show ?thesis
    unfolding drain_buffer.simps [of "sse_event p @ t"] by (simp add: event_data_lines [OF p])
qed

lemma drain_events:
  "list_all sse_payload ps \<Longrightarrow> drain_buffer (concat (map sse_event ps)) = (ps, [])"
proof (induction ps)
  case Nil
  then show ?case by (simp add: drain_Nil)
next
  case (Cons p ps)
  have "u_cr \<notin> set (concat (map sse_event ps))"
    using Cons.prems sse_event_no_cr by (auto simp: list_all_iff)
  then show ?case using Cons drain_event by simp
qed

lemma sse_reads_back:
  assumes "list_all sse_payload ps" and "concat chunks = concat (map sse_event ps)"
  shows "parse_sse chunks = ps"
  unfolding parse_sse_def read_chunks_drain [OF drain_Nil]
  by (simp add: assms drain_events event_data_def split_lines_def starts_with_def)

text \<open>
  C7. How the network cuts a response body into chunks never shows: what \<open>parseSSE\<close> reads from any chunks is
  what it reads from the whole body at once, and it is exactly the payloads the server wrote, in order, when the
  body is a sequence of server-sent events with payloads the format can carry.
\<close>

theorem chunks_do_not_show:
  "parse_sse chunks = parse_sse [concat chunks]
   \<and> (list_all sse_payload ps \<and> concat chunks = concat (map sse_event ps) \<longrightarrow> parse_sse chunks = ps)"
  using parse_sse_chunks sse_reads_back by blast

theorem chunks_do_not_show_witness:
  "parse_sse [''data: {a'', ''}'' @ [u_lf], [u_lf] @ ''data: [DO'', ''NE]'' @ lf2] = [''{a}'', ''[DONE]'']"
  by (rule mp [OF conjunct2 [OF chunks_do_not_show]])
    (simp add: sse_payload_def sse_event_def data_line_def u_lf_def u_cr_def is_ws_def)

end
