(* ===== verification/ModelCatalog.thy ===== *)
theory ModelCatalog
  imports "HOL-Library.Multiset" Context
begin

text \<open>
  What is known about models and providers: the bundled catalog and the lookups of
  \<open>packages/model/src/catalog.ts\<close>, the models.dev catalog as \<open>models-dev.ts\<close> reads it, and the provider registry
  of \<open>providers/index.ts\<close>, which decides which adapter, with which key and address, serves a request.

  The catalog of models.dev in force is a parameter, \<open>None\<close> when there is none. Costs are rationals where the
  program has floating-point numbers. A record indexed by name is an association list, names of \<open>Object.prototype\<close>
  aside. The JSON of models.dev is taken with the types its interfaces declare: an entry that is no object, a name of
  an environment variable that is no text, and a window that is negative are ones the program drops.
\<close>

section \<open>Models\<close>

datatype model_api = ApiChat | ApiResponses | ApiAnthropic | ApiGoogle

record model_info =
  mi_id :: string
  mi_provider :: string
  mi_label :: string
  mi_context :: nat
  mi_output :: nat
  mi_input_cost :: "rat option"
  mi_output_cost :: "rat option"
  mi_cache_read :: "rat option"
  mi_cache_write :: "rat option"
  mi_tools :: bool
  mi_vision :: bool
  mi_thinking :: bool
  mi_free :: bool
  mi_levels :: "string list"
  mi_status :: "string option"
  mi_release :: "string option"
  mi_api :: "model_api option"

record catalog_provider =
  cv_id :: string
  cv_name :: string
  cv_env :: "string list"
  cv_api :: "string option"
  cv_npm :: "string option"
  cv_doc :: "string option"
  cv_models :: "(string \<times> model_info) list"

type_synonym live_catalog = "(string \<times> catalog_provider) list option"

definition catalog_row :: "string \<Rightarrow> string \<Rightarrow> string \<Rightarrow> nat \<Rightarrow> nat \<Rightarrow> rat \<Rightarrow> rat \<Rightarrow> bool \<Rightarrow> bool \<Rightarrow> model_info" where
  "catalog_row i provider label context output inp out thinking vision =
     \<lparr>mi_id = i, mi_provider = provider, mi_label = label, mi_context = context, mi_output = output,
      mi_input_cost = Some inp, mi_output_cost = Some out, mi_cache_read = None, mi_cache_write = None,
      mi_tools = True, mi_vision = vision, mi_thinking = thinking, mi_free = False, mi_levels = [],
      mi_status = None, mi_release = None, mi_api = None\<rparr>"

definition bundled_catalog :: "model_info list" where
  "bundled_catalog = [
    catalog_row ''anthropic/claude-opus-5.5'' ''anthropic'' ''Claude Opus 5.5'' 1000000 128000 (4) (20) True True,
    catalog_row ''anthropic/claude-fable-5.1'' ''anthropic'' ''Claude Fable 5.1'' 1000000 128000 (10) (50) True True,
    catalog_row ''anthropic/claude-opus-5'' ''anthropic'' ''Claude Opus 5'' 1000000 128000 (5) (25) True True,
    catalog_row ''anthropic/claude-sonnet-5'' ''anthropic'' ''Claude Sonnet 5'' 1000000 128000 (2) (10) True True,
    catalog_row ''openai/gpt-5.5'' ''openai'' ''GPT-5.5'' 1050000 128000 (5) (30) True True,
    catalog_row ''openai/gpt-5.6-sol'' ''openai'' ''GPT-5.6 Sol'' 1050000 128000 (2) (10) True True,
    catalog_row ''openai/gpt-5.6-terra'' ''openai'' ''GPT-5.6 Terra'' 1050000 128000 (2) (12) True True,
    catalog_row ''openai/gpt-5.6-luna'' ''openai'' ''GPT-5.6 Luna'' 1050000 128000 (2/10) (12/10) True True,
    catalog_row ''openai/gpt-5.4-nano'' ''openai'' ''GPT-5.4 Nano'' 400000 128000 (2/10) (125/100) True True,
    catalog_row ''google/gemini-3.8-flash'' ''google'' ''Gemini 3.8 Flash'' 1048576 65536 (75/100) (375/100) True True,
    catalog_row ''deepseek/deepseek-v4-pro'' ''deepseek'' ''DeepSeek V4 Pro'' 1048576 384000 (95/100) (191/100) True False,
    catalog_row ''deepseek/deepseek-v4-flash'' ''deepseek'' ''DeepSeek V4 Flash'' 1048576 384000 (8/100) (17/100) True False,
    catalog_row ''x-ai/grok-4.7'' ''xai'' ''Grok 4.7'' 500000 450000 (16/10) (48/10) True True,
    catalog_row ''moonshotai/kimi-k3'' ''openrouter'' ''Kimi K3'' 1048576 943718 (3) (15) True True,
    catalog_row ''moonshotai/kimi-k2.7-code'' ''openrouter'' ''Kimi K2.7 Code'' 262144 235929 (71/100) (33/10) True True,
    catalog_row ''z-ai/glm-5.3'' ''openrouter'' ''GLM 5.3'' 1310720 131072 (84/100) (264/100) True False,
    catalog_row ''minimax/minimax-m3'' ''openrouter'' ''MiniMax M3'' 1048576 512000 (3/10) (12/10) True True,
    catalog_row ''poolside/laguna-s-2.1'' ''openrouter'' ''Laguna S 2.1'' 1048576 131072 (9/100) (18/100) True False,
    catalog_row ''anthropic/claude-opus-4.1'' ''anthropic'' ''Claude Opus 4.1'' 200000 32000 (15) (75) True True,
    catalog_row ''anthropic/claude-sonnet-4.5'' ''anthropic'' ''Claude Sonnet 4.5'' 200000 64000 (3) (15) True True,
    catalog_row ''anthropic/claude-haiku-4.5'' ''anthropic'' ''Claude Haiku 4.5'' 200000 32000 (1) (5) True True,
    catalog_row ''openai/gpt-4o'' ''openai'' ''GPT-4o'' 128000 16384 (25/10) (10) False True,
    catalog_row ''openai/gpt-4o-mini'' ''openai'' ''GPT-4o mini'' 128000 16384 (15/100) (6/10) False True,
    catalog_row ''openai/o3'' ''openai'' ''o3'' 200000 100000 (2) (8) True True,
    catalog_row ''openai/o4-mini'' ''openai'' ''o4-mini'' 200000 100000 (11/10) (44/10) True True,
    catalog_row ''google/gemini-2.5-pro'' ''google'' ''Gemini 2.5 Pro'' 1048576 65536 (125/100) (10) True True,
    catalog_row ''google/gemini-2.5-flash'' ''google'' ''Gemini 2.5 Flash'' 1048576 65536 (3/10) (25/10) True True,
    catalog_row ''deepseek/deepseek-chat'' ''deepseek'' ''DeepSeek V3'' 64000 8192 (27/100) (11/10) False False,
    catalog_row ''deepseek/deepseek-reasoner'' ''deepseek'' ''DeepSeek R1'' 64000 8192 (55/100) (219/100) True False,
    catalog_row ''x-ai/grok-4'' ''xai'' ''Grok 4'' 256000 32000 (3) (15) True True,
    catalog_row ''mistralai/mistral-large'' ''mistral'' ''Mistral Large'' 128000 8192 (2) (6) False False,
    catalog_row ''qwen/qwen3-coder'' ''openrouter'' ''Qwen3 Coder'' 262144 32000 (3/10) (12/10) False False,
    catalog_row ''moonshotai/kimi-k2'' ''openrouter'' ''Kimi K2'' 200000 32000 (6/10) (25/10) False False]"

definition unknown_model :: "string \<Rightarrow> string \<Rightarrow> model_info" where
  "unknown_model i provider =
     \<lparr>mi_id = i, mi_provider = provider, mi_label = i, mi_context = 128000, mi_output = 8192,
      mi_input_cost = None, mi_output_cost = None, mi_cache_read = None, mi_cache_write = None,
      mi_tools = True, mi_vision = False, mi_thinking = False, mi_free = False, mi_levels = [],
      mi_status = None, mi_release = None, mi_api = None\<rparr>"

definition catalog_id_of :: "string \<Rightarrow> string" where
  "catalog_id_of name =
     (if name = ''together'' then ''togetherai'' else if name = ''fireworks'' then ''fireworks-ai'' else name)"

definition live_provider :: "live_catalog \<Rightarrow> string \<Rightarrow> catalog_provider option" where
  "live_provider live name = (case live of None \<Rightarrow> None | Some ps \<Rightarrow> map_of ps name)"

definition reserved_model :: "string \<Rightarrow> string \<Rightarrow> bool \<Rightarrow> bool" where
  "reserved_model provider i free =
     ((provider = ''opencode'' \<or> provider = ''opencode-go'')
      \<and> (free \<or> ends_with i ''-free'' \<or> i = ''big-pickle''))"

definition models_of :: "live_catalog \<Rightarrow> string \<Rightarrow> model_info list" where
  "models_of live provider =
     (case live_provider live (catalog_id_of provider) of
        Some p \<Rightarrow> filter (\<lambda>m. \<not> reserved_model provider (mi_id m) (mi_free m)) (map snd (cv_models p))
      | None \<Rightarrow> if provider = ''openrouter'' then bundled_catalog else [])"

text \<open>\<open>id.slice(id.lastIndexOf('/') + 1)\<close>.\<close>

definition after_slash :: "string \<Rightarrow> string" where
  "after_slash s = last (split_on (CHR ''/'') s)"

definition find_model :: "live_catalog \<Rightarrow> string \<Rightarrow> string option \<Rightarrow> model_info option" where
  "find_model live i provider =
     (let needle = to_lower i;
          own = (if truthy provider
                 then (case live_provider live (catalog_id_of (the provider)) of
                         None \<Rightarrow> None
                       | Some p \<Rightarrow> (case map_of (cv_models p) i of Some m \<Rightarrow> Some m
                                    | None \<Rightarrow> List.find (\<lambda>m. to_lower (mi_id m) = needle) (map snd (cv_models p))))
                 else None)
      in case own of Some m \<Rightarrow> Some m
         | None \<Rightarrow>
             (case List.find (\<lambda>m. to_lower (mi_id m) = needle) bundled_catalog of Some m \<Rightarrow> Some m
              | None \<Rightarrow>
                  (case (case live_provider live ''openrouter'' of None \<Rightarrow> None | Some p \<Rightarrow> map_of (cv_models p) i) of
                     Some m \<Rightarrow> Some m
                   | None \<Rightarrow> List.find (\<lambda>m. to_lower (after_slash (mi_id m)) = after_slash needle) bundled_catalog)))"

definition model_info_of :: "live_catalog \<Rightarrow> string \<Rightarrow> string option \<Rightarrow> model_info" where
  "model_info_of live i provider =
     (let p = (case provider of None \<Rightarrow> ''openrouter'' | Some p \<Rightarrow> p)
      in case find_model live i (Some p) of Some m \<Rightarrow> m | None \<Rightarrow> unknown_model i p)"

definition context_window :: "live_catalog \<Rightarrow> string \<Rightarrow> string option \<Rightarrow> nat" where
  "context_window live i provider = mi_context (model_info_of live i provider)"

definition estimate_cost :: "live_catalog \<Rightarrow> string \<Rightarrow> nat \<Rightarrow> nat \<Rightarrow> string option \<Rightarrow> nat \<Rightarrow> rat" where
  "estimate_cost live i inp out provider cache_read =
     (case find_model live i provider of None \<Rightarrow> 0
      | Some m \<Rightarrow>
          (case (mi_input_cost m, mi_output_cost m) of
             (Some ci, Some co) \<Rightarrow>
               if mi_free m \<or> ci = 0 \<or> co = 0 then 0
               else (let cached = (if mi_cache_read m = None then 0 else min cache_read inp);
                         cr = (case mi_cache_read m of None \<Rightarrow> 0 | Some r \<Rightarrow> r)
                     in (of_nat (inp - cached) * ci + of_nat cached * cr + of_nat out * co) / 1000000)
           | _ \<Rightarrow> 0))"

section \<open>The catalog of models.dev\<close>

definition unspoken :: "string list" where
  "unspoken = [''@ai-sdk/amazon-bedrock'', ''@ai-sdk/azure'', ''@ai-sdk/google-vertex'', ''gitlab-ai-provider'',
     ''@jerome-benoit/sap-ai-provider'', ''watsonx-ai-provider'', ''ai-gateway-provider'']"

definition api_of_package :: "string option \<Rightarrow> model_api option" where
  "api_of_package npm =
     (if \<not> truthy npm then Some ApiChat
      else if the npm = ''@ai-sdk/anthropic'' then Some ApiAnthropic
      else if the npm = ''@ai-sdk/google'' then Some ApiGoogle
      else if the npm = ''@ai-sdk/openai'' then Some ApiResponses
      else if list_ex (\<lambda>prefix. starts_with (the npm) prefix) unspoken then None
      else Some ApiChat)"

definition known_base_urls :: "(string \<times> string) list" where
  "known_base_urls = [
    (''anthropic'', ''https://api.anthropic.com/v1''),
    (''openai'', ''https://api.openai.com/v1''),
    (''google'', ''https://generativelanguage.googleapis.com/v1beta''),
    (''groq'', ''https://api.groq.com/openai/v1''),
    (''cerebras'', ''https://api.cerebras.ai/v1''),
    (''xai'', ''https://api.x.ai/v1''),
    (''mistral'', ''https://api.mistral.ai/v1''),
    (''deepinfra'', ''https://api.deepinfra.com/v1/openai''),
    (''togetherai'', ''https://api.together.xyz/v1''),
    (''perplexity'', ''https://api.perplexity.ai''),
    (''cohere'', ''https://api.cohere.ai/compatibility/v1''),
    (''venice'', ''https://api.venice.ai/api/v1''),
    (''aihubmix'', ''https://aihubmix.com/v1''),
    (''vercel'', ''https://ai-gateway.vercel.sh/v1''),
    (''v0'', ''https://api.v0.dev/v1'')]"

text \<open>An entry as models.dev has it; every field may be missing.\<close>

record raw_model =
  rw_id :: "string option"
  rw_name :: "string option"
  rw_attachment :: "bool option"
  rw_reasoning :: "bool option"
  rw_options :: "(string option \<times> string list option) list option"
  rw_tool_call :: "bool option"
  rw_release :: "string option"
  rw_status :: "string option"
  rw_inputs :: "string list option"
  rw_context :: "nat option"
  rw_output :: "nat option"
  rw_cost :: "(rat option \<times> rat option \<times> rat option \<times> rat option) option"
    \<comment> \<open>input, output, cache read, cache write\<close>
  rw_npm :: "string option"

record raw_provider =
  rp_id :: "string option"
  rp_name :: "string option"
  rp_env :: "string list option"
  rp_api :: "string option"
  rp_npm :: "string option"
  rp_doc :: "string option"
  rp_models :: "(string \<times> raw_model) list option"

definition effort_values :: "raw_model \<Rightarrow> string list" where
  "effort_values raw =
     (case List.find (\<lambda>(ty, vs). ty = Some ''effort'') (case rw_options raw of None \<Rightarrow> [] | Some os \<Rightarrow> os) of
        Some (ty, Some vs) \<Rightarrow> vs | _ \<Rightarrow> [])"

definition cost_zero :: "rat option \<Rightarrow> bool" where
  "cost_zero c = (case c of None \<Rightarrow> True | Some r \<Rightarrow> r = 0)"

definition some_text :: "string option \<Rightarrow> string option" where
  "some_text s = (if truthy s then s else None)"

definition model_from_raw :: "string \<Rightarrow> string \<Rightarrow> raw_model \<Rightarrow> model_api option \<Rightarrow> model_info option" where
  "model_from_raw provider i raw provider_api =
     (case rw_context raw of None \<Rightarrow> None
      | Some context \<Rightarrow>
          if context = 0 then None
          else
            (let inp = (case rw_inputs raw of None \<Rightarrow> [] | Some xs \<Rightarrow> xs);
                 api = (if truthy (rw_npm raw) then api_of_package (rw_npm raw) else None)
             in Some \<lparr>mi_id = i, mi_provider = provider,
                      mi_label = (case rw_name raw of None \<Rightarrow> i | Some n \<Rightarrow> n), mi_context = context,
                      mi_output = (case rw_output raw of None \<Rightarrow> min 32000 context
                                   | Some out \<Rightarrow> if out > 0 then out else min 32000 context),
                      mi_input_cost = (case rw_cost raw of None \<Rightarrow> None | Some (ci, co, cr, cw) \<Rightarrow> ci),
                      mi_output_cost = (case rw_cost raw of None \<Rightarrow> None | Some (ci, co, cr, cw) \<Rightarrow> co),
                      mi_cache_read = (case rw_cost raw of None \<Rightarrow> None | Some (ci, co, cr, cw) \<Rightarrow> cr),
                      mi_cache_write = (case rw_cost raw of None \<Rightarrow> None | Some (ci, co, cr, cw) \<Rightarrow> cw),
                      mi_tools = (rw_tool_call raw \<noteq> Some False),
                      mi_vision = (rw_attachment raw = Some True \<or> ''image'' \<in> set inp),
                      mi_thinking = (rw_reasoning raw = Some True),
                      mi_free = (case rw_cost raw of None \<Rightarrow> False
                                 | Some (ci, co, cr, cw) \<Rightarrow> cost_zero ci \<and> cost_zero co),
                      mi_levels = effort_values raw,
                      mi_status = some_text (rw_status raw), mi_release = some_text (rw_release raw),
                      mi_api = (if api \<noteq> None \<and> api \<noteq> provider_api then api else None)\<rparr>))"

text \<open>\<open>record[key] = value\<close> on an association list: in place, or at the end.\<close>

fun set_key :: "'k \<Rightarrow> 'v \<Rightarrow> ('k \<times> 'v) list \<Rightarrow> ('k \<times> 'v) list" where
  "set_key k v [] = [(k, v)]"
| "set_key k v ((k', v') # kvs) = (if k = k' then (k, v) # kvs else (k', v') # set_key k v kvs)"

definition provider_models :: "string \<Rightarrow> raw_provider \<Rightarrow> (string \<times> model_info) list" where
  "provider_models pid raw =
     fold (\<lambda>(key, m) models.
             case model_from_raw pid (case rw_id m of Some i \<Rightarrow> i | None \<Rightarrow> key) m (api_of_package (rp_npm raw)) of
               None \<Rightarrow> models | Some info \<Rightarrow> set_key (mi_id info) info models)
          (case rp_models raw of None \<Rightarrow> [] | Some ms \<Rightarrow> ms) []"

definition catalog_from_models_dev :: "(string \<times> raw_provider) list \<Rightarrow> (string \<times> catalog_provider) list" where
  "catalog_from_models_dev raw =
     fold (\<lambda>(key, p) providers.
             let pid = (case rp_id p of Some i \<Rightarrow> i | None \<Rightarrow> key)
             in set_key pid \<lparr>cv_id = pid, cv_name = (case rp_name p of Some n \<Rightarrow> n | None \<Rightarrow> pid),
                  cv_env = (case rp_env p of Some e \<Rightarrow> e | None \<Rightarrow> []), cv_api = rp_api p, cv_npm = rp_npm p,
                  cv_doc = rp_doc p, cv_models = provider_models pid p\<rparr> providers) raw []"

section \<open>The provider registry\<close>

record provider_descriptor =
  pd_name :: string
  pd_label :: string
  pd_base_url :: string
  pd_key_env :: "string list"
  pd_extra_headers :: "(string \<times> string) list"
  pd_effort_field :: "string option"
  pd_local :: bool
  pd_cache :: bool
  pd_routed :: bool
  pd_doc :: "string option"

definition openai_compatible :: "provider_descriptor list" where
  "openai_compatible = [
    \<lparr>pd_name = ''opencode'', pd_label = ''OpenCode Zen'', pd_base_url = ''https://opencode.ai/zen/v1'',
      pd_key_env = [''OPENCODE_API_KEY''], pd_extra_headers = [],
      pd_effort_field = None, pd_local = False, pd_cache = True,
      pd_routed = True, pd_doc = (Some ''https://opencode.ai/auth'')\<rparr>,
    \<lparr>pd_name = ''opencode-go'', pd_label = ''OpenCode Go'', pd_base_url = ''https://opencode.ai/zen/go/v1'',
      pd_key_env = [''OPENCODE_API_KEY''], pd_extra_headers = [],
      pd_effort_field = None, pd_local = False, pd_cache = False,
      pd_routed = True, pd_doc = (Some ''https://opencode.ai/auth'')\<rparr>,
    \<lparr>pd_name = ''openrouter'', pd_label = ''OpenRouter'', pd_base_url = ''https://openrouter.ai/api/v1'',
      pd_key_env = [''OPENROUTER_API_KEY''], pd_extra_headers = [(''http-referer'', ''https://jean-code.ai''), (''x-title'', ''Jean Code'')],
      pd_effort_field = (Some ''reasoning_effort''), pd_local = False, pd_cache = True,
      pd_routed = False, pd_doc = (Some ''https://openrouter.ai/keys'')\<rparr>,
    \<lparr>pd_name = ''openai'', pd_label = ''OpenAI'', pd_base_url = ''https://api.openai.com/v1'',
      pd_key_env = [''OPENAI_API_KEY''], pd_extra_headers = [],
      pd_effort_field = (Some ''reasoning_effort''), pd_local = False, pd_cache = False,
      pd_routed = False, pd_doc = (Some ''https://platform.openai.com/api-keys'')\<rparr>,
    \<lparr>pd_name = ''xai'', pd_label = ''xAI'', pd_base_url = ''https://api.x.ai/v1'',
      pd_key_env = [''XAI_API_KEY''], pd_extra_headers = [],
      pd_effort_field = None, pd_local = False, pd_cache = False,
      pd_routed = False, pd_doc = (Some ''https://console.x.ai'')\<rparr>,
    \<lparr>pd_name = ''deepseek'', pd_label = ''DeepSeek'', pd_base_url = ''https://api.deepseek.com/v1'',
      pd_key_env = [''DEEPSEEK_API_KEY''], pd_extra_headers = [],
      pd_effort_field = None, pd_local = False, pd_cache = False,
      pd_routed = False, pd_doc = (Some ''https://platform.deepseek.com/api_keys'')\<rparr>,
    \<lparr>pd_name = ''mistral'', pd_label = ''Mistral'', pd_base_url = ''https://api.mistral.ai/v1'',
      pd_key_env = [''MISTRAL_API_KEY''], pd_extra_headers = [],
      pd_effort_field = None, pd_local = False, pd_cache = False,
      pd_routed = False, pd_doc = (Some ''https://console.mistral.ai/api-keys'')\<rparr>,
    \<lparr>pd_name = ''groq'', pd_label = ''Groq'', pd_base_url = ''https://api.groq.com/openai/v1'',
      pd_key_env = [''GROQ_API_KEY''], pd_extra_headers = [],
      pd_effort_field = None, pd_local = False, pd_cache = False,
      pd_routed = False, pd_doc = (Some ''https://console.groq.com/keys'')\<rparr>,
    \<lparr>pd_name = ''cerebras'', pd_label = ''Cerebras'', pd_base_url = ''https://api.cerebras.ai/v1'',
      pd_key_env = [''CEREBRAS_API_KEY''], pd_extra_headers = [],
      pd_effort_field = None, pd_local = False, pd_cache = False,
      pd_routed = False, pd_doc = None\<rparr>,
    \<lparr>pd_name = ''fireworks'', pd_label = ''Fireworks'', pd_base_url = ''https://api.fireworks.ai/inference/v1'',
      pd_key_env = [''FIREWORKS_API_KEY''], pd_extra_headers = [],
      pd_effort_field = None, pd_local = False, pd_cache = False,
      pd_routed = False, pd_doc = None\<rparr>,
    \<lparr>pd_name = ''together'', pd_label = ''Together'', pd_base_url = ''https://api.together.xyz/v1'',
      pd_key_env = [''TOGETHER_API_KEY''], pd_extra_headers = [],
      pd_effort_field = None, pd_local = False, pd_cache = False,
      pd_routed = False, pd_doc = None\<rparr>,
    \<lparr>pd_name = ''nebius'', pd_label = ''Nebius'', pd_base_url = ''https://api.tokenfactory.nebius.com/v1'',
      pd_key_env = [''NEBIUS_API_KEY''], pd_extra_headers = [],
      pd_effort_field = None, pd_local = False, pd_cache = False,
      pd_routed = False, pd_doc = None\<rparr>,
    \<lparr>pd_name = ''siliconflow'', pd_label = ''SiliconFlow'', pd_base_url = ''https://api.siliconflow.com/v1'',
      pd_key_env = [''SILICONFLOW_API_KEY''], pd_extra_headers = [],
      pd_effort_field = None, pd_local = False, pd_cache = False,
      pd_routed = False, pd_doc = None\<rparr>,
    \<lparr>pd_name = ''ollama'', pd_label = ''Ollama (local)'', pd_base_url = ''http://localhost:11434/v1'',
      pd_key_env = [], pd_extra_headers = [],
      pd_effort_field = None, pd_local = True, pd_cache = False,
      pd_routed = False, pd_doc = None\<rparr>,
    \<lparr>pd_name = ''lmstudio'', pd_label = ''LM Studio (local)'', pd_base_url = ''http://127.0.0.1:1234/v1'',
      pd_key_env = [], pd_extra_headers = [],
      pd_effort_field = None, pd_local = True, pd_cache = False,
      pd_routed = False, pd_doc = None\<rparr>,
    \<lparr>pd_name = ''vllm'', pd_label = ''vLLM (local)'', pd_base_url = ''http://localhost:8000/v1'',
      pd_key_env = [], pd_extra_headers = [],
      pd_effort_field = None, pd_local = True, pd_cache = False,
      pd_routed = False, pd_doc = None\<rparr>,
    \<lparr>pd_name = ''llamacpp'', pd_label = ''llama.cpp (local)'', pd_base_url = ''http://localhost:8080/v1'',
      pd_key_env = [], pd_extra_headers = [],
      pd_effort_field = None, pd_local = True, pd_cache = False,
      pd_routed = False, pd_doc = None\<rparr>]"

definition builtin :: "string \<Rightarrow> provider_descriptor option" where
  "builtin name = List.find (\<lambda>p. pd_name p = name) openai_compatible"

definition anthropic_env :: "string list" where "anthropic_env = [''ANTHROPIC_API_KEY'']"
definition google_env :: "string list" where
  "google_env = [''GOOGLE_API_KEY'', ''GEMINI_API_KEY'', ''GOOGLE_GENERATIVE_AI_API_KEY'']"

text \<open>A provider's section of the configuration.\<close>

record provider_cfg =
  pc_base_url :: "string option"
  pc_api_key :: "string option"
  pc_headers :: "(string \<times> string) list option"
  pc_api :: "model_api option"
  pc_name :: "string option"
  pc_key_env :: "string list option"
  pc_models :: nat

record provider_entry =
  en_id :: string
  en_label :: string
  en_key_env :: "string list"
  en_base_url :: "string option"
  en_api :: "model_api option"
  en_local :: bool
  en_builtin :: bool
  en_custom :: bool
  en_doc :: "string option"
  en_models :: nat

definition is_local_url :: "string \<Rightarrow> bool" where
  "is_local_url url = list_ex (\<lambda>p. starts_with url p)
     [''http://localhost'', ''https://localhost'', ''http://127.0.0.1'', ''https://127.0.0.1'']"

text \<open>\<open>push\<close>: entries and the set of names seen.\<close>

definition push_entry :: "provider_entry \<Rightarrow> provider_entry list \<times> string list \<Rightarrow> provider_entry list \<times> string list" where
  "push_entry e st =
     (case st of (entries, seen) \<Rightarrow>
        if en_id e \<in> set seen then st else (entries @ [e], seen @ [en_id e, catalog_id_of (en_id e)]))"

definition model_count :: "live_catalog \<Rightarrow> string \<Rightarrow> nat" where
  "model_count live name =
     (case live_provider live (catalog_id_of name) of None \<Rightarrow> 0 | Some p \<Rightarrow> length (cv_models p))"

definition builtin_entries :: "live_catalog \<Rightarrow> provider_entry list" where
  "builtin_entries live =
     [\<lparr>en_id = ''anthropic'', en_label = ''Anthropic'', en_key_env = anthropic_env,
       en_base_url = map_of known_base_urls ''anthropic'', en_api = Some ApiAnthropic, en_local = False,
       en_builtin = True, en_custom = False, en_doc = Some ''https://console.anthropic.com/settings/keys'',
       en_models = model_count live ''anthropic''\<rparr>,
      \<lparr>en_id = ''google'', en_label = ''Google Gemini'', en_key_env = google_env,
       en_base_url = map_of known_base_urls ''google'', en_api = Some ApiGoogle, en_local = False,
       en_builtin = True, en_custom = False, en_doc = Some ''https://aistudio.google.com/apikey'',
       en_models = model_count live ''google''\<rparr>]
     @ map (\<lambda>d. \<lparr>en_id = pd_name d, en_label = pd_label d, en_key_env = pd_key_env d,
                  en_base_url = Some (pd_base_url d), en_api = Some ApiChat, en_local = pd_local d,
                  en_builtin = True, en_custom = False, en_doc = pd_doc d,
                  en_models = model_count live (pd_name d)\<rparr>) openai_compatible"

definition provider_rank :: "string \<Rightarrow> nat" where
  "provider_rank i =
     (let order = [''opencode'', ''anthropic'', ''openai'', ''google'', ''openrouter'']
      in case find_index ((=) i) order of Some n \<Rightarrow> n | None \<Rightarrow> length order)"

definition catalog_entry :: "catalog_provider \<Rightarrow> provider_entry" where
  "catalog_entry p =
     (let base = (case cv_api p of Some u \<Rightarrow> Some u | None \<Rightarrow> map_of known_base_urls (cv_id p))
      in \<lparr>en_id = cv_id p, en_label = cv_name p, en_key_env = cv_env p, en_base_url = base,
          en_api = (if truthy base then api_of_package (cv_npm p) else None),
          en_local = is_local_url (case base of Some u \<Rightarrow> u | None \<Rightarrow> []), en_builtin = False, en_custom = False,
          en_doc = cv_doc p, en_models = length (cv_models p)\<rparr>)"

definition custom_entry :: "string \<Rightarrow> provider_cfg \<Rightarrow> provider_entry" where
  "custom_entry i c =
     \<lparr>en_id = i, en_label = (case pc_name c of Some n \<Rightarrow> n | None \<Rightarrow> i),
      en_key_env = (case pc_key_env c of Some e \<Rightarrow> e | None \<Rightarrow> []), en_base_url = pc_base_url c,
      en_api = Some (case pc_api c of Some a \<Rightarrow> a | None \<Rightarrow> ApiChat),
      en_local = (is_local_url (the (pc_base_url c)) \<and> (case pc_key_env c of Some e \<Rightarrow> e = [] | None \<Rightarrow> True)),
      en_builtin = False, en_custom = True, en_doc = None, en_models = pc_models c\<rparr>"

text \<open>\<open>Array.sort\<close>, which is stable, with the comparison \<open>a.localeCompare(b) \<le> 0\<close> as a parameter.\<close>

fun insert_by :: "('a \<Rightarrow> 'a \<Rightarrow> bool) \<Rightarrow> 'a \<Rightarrow> 'a list \<Rightarrow> 'a list" where
  "insert_by le x [] = [x]"
| "insert_by le x (y # ys) = (if le x y then x # y # ys else y # insert_by le x ys)"

definition sort_by :: "('a \<Rightarrow> 'a \<Rightarrow> bool) \<Rightarrow> 'a list \<Rightarrow> 'a list" where
  "sort_by le xs = foldr (insert_by le) xs []"

definition push_custom :: "string \<times> provider_cfg \<Rightarrow> provider_entry list \<times> string list \<Rightarrow> provider_entry list \<times> string list" where
  "push_custom = (\<lambda>(i, c) st. if i \<in> set (snd st) \<or> \<not> truthy (pc_base_url c) then st else push_entry (custom_entry i c) st)"

definition list_providers :: "(string \<Rightarrow> string \<Rightarrow> bool) \<Rightarrow> live_catalog \<Rightarrow> (string \<times> provider_cfg) list \<Rightarrow> provider_entry list" where
  "list_providers le live providers =
     (let (entries, seen) = fold push_entry (builtin_entries live) ([], []);
          entries = sort_by (\<lambda>a b. provider_rank (en_id a) \<le> provider_rank (en_id b)) entries;
          listed = filter (\<lambda>p. cv_id p \<notin> set seen) (case live of None \<Rightarrow> [] | Some ps \<Rightarrow> map snd ps);
          st = fold push_entry (sort_by (\<lambda>a b. le (en_label a) (en_label b)) (map catalog_entry listed)) (entries, seen);
          (entries, seen) = fold push_custom providers st
      in entries)"

definition provider_env :: "live_catalog \<Rightarrow> (string \<times> provider_cfg) list \<Rightarrow> string \<Rightarrow> string list" where
  "provider_env live providers name =
     (if name = ''anthropic'' then anthropic_env
      else if name = ''google'' then google_env
      else case builtin name of Some d \<Rightarrow> pd_key_env d
           | None \<Rightarrow> (case Option.bind (map_of providers name) pc_key_env of Some e \<Rightarrow> e
                      | None \<Rightarrow> (case live_provider live name of Some p \<Rightarrow> cv_env p | None \<Rightarrow> [])))"

definition provider_label :: "live_catalog \<Rightarrow> string \<Rightarrow> string" where
  "provider_label live name =
     (if name = ''anthropic'' then ''Anthropic''
      else if name = ''google'' then ''Google Gemini''
      else case builtin name of Some d \<Rightarrow> pd_label d
           | None \<Rightarrow> (case live_provider live name of Some p \<Rightarrow> cv_name p | None \<Rightarrow> name))"

text \<open>The environment and the saved keys: a name's value, and a provider's key that is not empty.\<close>

definition has_credentials :: "(string \<Rightarrow> string \<Rightarrow> bool) \<Rightarrow> live_catalog \<Rightarrow> (string \<Rightarrow> string option) \<Rightarrow> (string \<Rightarrow> string option)
    \<Rightarrow> (string \<times> provider_cfg) list \<Rightarrow> string \<Rightarrow> bool" where
  "has_credentials le live env saved providers name =
     (let entry = List.find (\<lambda>e. en_id e = name) (list_providers le live providers);
          vars = provider_env live providers name
      in (case entry of Some e \<Rightarrow> en_local e | None \<Rightarrow> False)
         \<or> truthy (map_option trim (Option.bind (map_of providers name) pc_api_key))
         \<or> truthy (saved name)
         \<or> (vars = [] \<and> (case entry of Some e \<Rightarrow> en_custom e | None \<Rightarrow> False))
         \<or> list_ex (\<lambda>v. truthy (map_option trim (env v))) vars)"

definition connected_providers :: "(string \<Rightarrow> string \<Rightarrow> bool) \<Rightarrow> live_catalog \<Rightarrow> (string \<Rightarrow> string option) \<Rightarrow> (string \<Rightarrow> string option)
    \<Rightarrow> (string \<times> provider_cfg) list \<Rightarrow> provider_entry list" where
  "connected_providers le live env saved providers =
     filter (\<lambda>e. \<not> en_local e \<and> en_api e \<noteq> None \<and> has_credentials le live env saved providers (en_id e))
       (list_providers le live providers)"

subsection \<open>Building an adapter\<close>

record create_options =
  op_api_key :: "string option"
  op_base_url :: "string option"
  op_headers :: "(string \<times> string) list option"
  op_api :: "model_api option"
  op_label :: "string option"
  op_key_env :: "string list option"

record adapter_options =
  ao_name :: string
  ao_label :: string
  ao_base_url :: string
  ao_key_env :: "string list"
  ao_api_key :: "string option"
  ao_headers :: "(string \<times> string) list option"
  ao_extra_headers :: "(string \<times> string) list"
  ao_effort_field :: "string option"
  ao_cache :: bool

datatype provider_adapter =
    AnthropicOwn create_options
  | GoogleOwn create_options
  | Adapter model_api adapter_options
  | Routed model_api adapter_options

definition plain_options :: "create_options \<Rightarrow> string \<Rightarrow> string \<Rightarrow> string \<Rightarrow> string list \<Rightarrow> adapter_options" where
  "plain_options opts name label base env =
     \<lparr>ao_name = name, ao_label = label, ao_base_url = base, ao_key_env = env, ao_api_key = op_api_key opts,
      ao_headers = op_headers opts, ao_extra_headers = [], ao_effort_field = None, ao_cache = False\<rparr>"

definition needs_sign_in :: "catalog_provider \<Rightarrow> string \<Rightarrow> string" where
  "needs_sign_in listed name =
     cv_name listed @ '' ('' @ name @ '') needs its own sign-in (''
     @ (case cv_npm listed of Some n \<Rightarrow> n | None \<Rightarrow> ''a custom SDK'') @ ''), which Jean does not speak. ''
     @ ''Point `providers.'' @ name @ ''.baseUrl` at an OpenAI-compatible endpoint for it, or pick another provider.''"

definition unknown_provider :: "string \<Rightarrow> string" where
  "unknown_provider name =
     ''unknown provider \"'' @ name @ ''\" '' @ [u_emdash] @ '' see `jean providers` for the ones Jean knows, ''
     @ ''or give it a `providers.'' @ name @ ''.baseUrl` to add your own''"

definition create_provider :: "live_catalog \<Rightarrow> string \<Rightarrow> create_options \<Rightarrow> string + provider_adapter" where
  "create_provider live name opts =
     (if name = ''anthropic'' \<and> (op_api opts = None \<or> op_api opts = Some ApiAnthropic) then Inr (AnthropicOwn opts)
      else if name = ''google'' \<and> (op_api opts = None \<or> op_api opts = Some ApiGoogle) then Inr (GoogleOwn opts)
      else case builtin name of
        Some d \<Rightarrow>
          (let common = (plain_options opts (pd_name d) (pd_label d)
                 (case op_base_url opts of Some u \<Rightarrow> u | None \<Rightarrow> pd_base_url d) (pd_key_env d))
                 \<lparr>ao_extra_headers := pd_extra_headers d, ao_effort_field := pd_effort_field d, ao_cache := pd_cache d\<rparr>;
               api = (case op_api opts of Some a \<Rightarrow> a | None \<Rightarrow> ApiChat)
           in Inr (if pd_routed d then Routed api common else Adapter api common))
      | None \<Rightarrow>
          (case live_provider live name of
             Some listed \<Rightarrow>
               (let api = (case op_api opts of Some a \<Rightarrow> Some a | None \<Rightarrow> api_of_package (cv_npm listed));
                    base = (case op_base_url opts of Some u \<Rightarrow> Some u
                            | None \<Rightarrow> (case cv_api listed of Some u \<Rightarrow> Some u | None \<Rightarrow> map_of known_base_urls name))
                in if api = None \<or> \<not> truthy base then Inl (needs_sign_in listed name)
                   else Inr (Routed (the api) (plain_options opts name (cv_name listed) (the base)
                               (case op_key_env opts of Some e \<Rightarrow> e | None \<Rightarrow> cv_env listed))))
           | None \<Rightarrow>
               if truthy (op_base_url opts)
               then Inr (Adapter (case op_api opts of Some a \<Rightarrow> a | None \<Rightarrow> ApiChat)
                      (plain_options opts name (case op_label opts of Some l \<Rightarrow> l | None \<Rightarrow> name)
                        (the (op_base_url opts)) (case op_key_env opts of Some e \<Rightarrow> e | None \<Rightarrow> [])))
               else Inl (unknown_provider name)))"

definition guess_api :: "string \<Rightarrow> model_api option" where
  "guess_api model =
     (let i = to_lower model
      in if starts_with i ''claude-''
            \<or> (starts_with i ''qwen''
               \<and> starts_with (dropWhile (\<lambda>c. is_digit c \<or> c = CHR ''.'') (drop 4 i)) ''-flash'')
         then Some ApiAnthropic
         else if starts_with i ''gpt-'' \<or> starts_with i ''grok-'' \<or> starts_with i ''muse-spark'' then Some ApiResponses
         else if starts_with i ''gemini-'' then Some ApiGoogle else None)"

definition api_for :: "live_catalog \<Rightarrow> string \<Rightarrow> model_api \<Rightarrow> string \<Rightarrow> model_api" where
  "api_for live name fallback model =
     (case find_model live model (Some name) of
        Some known \<Rightarrow>
          if mi_provider known = catalog_id_of name then (case mi_api known of Some a \<Rightarrow> a | None \<Rightarrow> fallback)
          else (case (if fallback = ApiChat then guess_api model else None) of Some a \<Rightarrow> a | None \<Rightarrow> fallback)
      | None \<Rightarrow> (case (if fallback = ApiChat then guess_api model else None) of Some a \<Rightarrow> a | None \<Rightarrow> fallback))"

text \<open>The adapter that speaks for a model: a routed provider hands it to the one of the model's format.\<close>

fun speaks :: "live_catalog \<Rightarrow> provider_adapter \<Rightarrow> string \<Rightarrow> model_api" where
  "speaks live (AnthropicOwn opts) model = ApiAnthropic"
| "speaks live (GoogleOwn opts) model = ApiGoogle"
| "speaks live (Adapter api opts) model = api"
| "speaks live (Routed fallback opts) model = api_for live (ao_name opts) fallback model"

section \<open>Laws\<close>

subsection \<open>The catalog that models.dev gives\<close>

lemma map_of_set_key [simp]: "map_of (set_key k v kvs) = (map_of kvs)(k \<mapsto> v)"
  by (induction k v kvs rule: set_key.induct) auto

lemma keys_set_key: "fst ` set (set_key k v kvs) = insert k (fst ` set kvs)"
  by (induction k v kvs rule: set_key.induct) auto

lemma distinct_set_key: "distinct (map fst kvs) \<Longrightarrow> distinct (map fst (set_key k v kvs))"
proof (induction k v kvs rule: set_key.induct)
  case (2 k v k' v' kvs)
  then show ?case using keys_set_key [of k v kvs] by auto
qed auto

lemma set_set_key: "set (set_key k v kvs) \<subseteq> insert (k, v) (set kvs)"
  by (induction k v kvs rule: set_key.induct) auto

definition model_ok :: "string \<Rightarrow> string \<times> model_info \<Rightarrow> bool" where
  "model_ok pid km = (mi_id (snd km) = fst km \<and> mi_provider (snd km) = pid \<and> 0 < mi_context (snd km) \<and> 0 < mi_output (snd km))"

definition provider_ok :: "string \<times> catalog_provider \<Rightarrow> bool" where
  "provider_ok kp = (cv_id (snd kp) = fst kp \<and> distinct (map fst (cv_models (snd kp)))
     \<and> list_all (model_ok (fst kp)) (cv_models (snd kp)))"

definition catalog_ok :: "live_catalog \<Rightarrow> bool" where
  "catalog_ok live = (case live of None \<Rightarrow> True
     | Some ps \<Rightarrow> distinct (map fst ps) \<and> list_all provider_ok ps)"

lemma model_from_raw_ok:
  "model_from_raw pid i raw api = Some m \<Longrightarrow> mi_id m = i \<and> model_ok pid (i, m)"
  by (auto simp: model_from_raw_def model_ok_def Let_def split: option.splits if_splits)

text \<open>A fold that only sets keys keeps what holds of every entry it writes.\<close>

lemma fold_set_key_inv:
  assumes "distinct (map fst kvs)" "list_all P kvs"
    and "\<And>x k v. x \<in> set xs \<Longrightarrow> f x = Some (k, v) \<Longrightarrow> P (k, v)"
  shows "distinct (map fst (fold (\<lambda>x kvs. case f x of None \<Rightarrow> kvs | Some (k, v) \<Rightarrow> set_key k v kvs) xs kvs))
    \<and> list_all P (fold (\<lambda>x kvs. case f x of None \<Rightarrow> kvs | Some (k, v) \<Rightarrow> set_key k v kvs) xs kvs)"
  using assms
proof (induction xs arbitrary: kvs)
  case Nil
  then show ?case by simp
next
  case (Cons x xs)
  let ?kvs = "case f x of None \<Rightarrow> kvs | Some (k, v) \<Rightarrow> set_key k v kvs"
  have "distinct (map fst ?kvs)" using Cons.prems(1) by (auto simp: distinct_set_key split: option.split)
  moreover have "list_all P ?kvs"
    using Cons.prems set_set_key by (fastforce simp: list_all_iff split: option.split)
  moreover have "\<And>y k v. y \<in> set xs \<Longrightarrow> f y = Some (k, v) \<Longrightarrow> P (k, v)"
    using Cons.prems(3) by (meson list.set_intros(2))
  ultimately show ?case using Cons.IH [of ?kvs] by simp
qed

lemma provider_models_ok:
  "distinct (map fst (provider_models pid p)) \<and> list_all (model_ok pid) (provider_models pid p)"
proof -
  let ?f = "\<lambda>(key, m). case model_from_raw pid (case rw_id m of Some i \<Rightarrow> i | None \<Rightarrow> key) m (api_of_package (rp_npm p)) of
              None \<Rightarrow> None | Some info \<Rightarrow> Some (mi_id info, info)"
  have "provider_models pid p = fold (\<lambda>x kvs. case ?f x of None \<Rightarrow> kvs | Some (k, v) \<Rightarrow> set_key k v kvs)
      (case rp_models p of None \<Rightarrow> [] | Some ms \<Rightarrow> ms) []"
    unfolding provider_models_def
    by (rule arg_cong [where f = "\<lambda>g. fold g _ []"]) (auto simp: fun_eq_iff split: option.split)
  then show ?thesis
    using fold_set_key_inv [of "[]" "model_ok pid" "case rp_models p of None \<Rightarrow> [] | Some ms \<Rightarrow> ms" ?f]
      model_from_raw_ok by (fastforce split: option.splits)
qed

lemma catalog_from_models_dev_ok: "catalog_ok (Some (catalog_from_models_dev raw))"
proof -
  let ?e = "\<lambda>(key, p). let pid = (case rp_id p of Some i \<Rightarrow> i | None \<Rightarrow> key)
    in Some (pid, \<lparr>cv_id = pid, cv_name = (case rp_name p of Some n \<Rightarrow> n | None \<Rightarrow> pid),
                  cv_env = (case rp_env p of Some e \<Rightarrow> e | None \<Rightarrow> []), cv_api = rp_api p, cv_npm = rp_npm p,
                  cv_doc = rp_doc p, cv_models = provider_models pid p\<rparr>)"
  have "catalog_from_models_dev raw = fold (\<lambda>x kvs. case ?e x of None \<Rightarrow> kvs | Some (k, v) \<Rightarrow> set_key k v kvs) raw []"
    unfolding catalog_from_models_dev_def
    by (rule arg_cong [where f = "\<lambda>g. fold g _ []"]) (auto simp: fun_eq_iff Let_def)
  then show ?thesis
    using fold_set_key_inv [of "[]" provider_ok raw ?e] provider_models_ok
    by (fastforce simp: catalog_ok_def provider_ok_def Let_def)
qed

lemma live_provider_ok: "catalog_ok live \<Longrightarrow> live_provider live name = Some p \<Longrightarrow> provider_ok (name, p)"
  by (auto simp: catalog_ok_def live_provider_def list_all_iff split: option.splits dest: map_of_SomeD)

lemma bundled_positive: "list_all (\<lambda>m. 0 < mi_context m \<and> 0 < mi_output m) bundled_catalog"
  by (simp add: bundled_catalog_def catalog_row_def)

lemma find_mem: "List.find P xs = Some x \<Longrightarrow> x \<in> set xs"
  by (auto simp: find_Some_iff)

lemma find_model_positive:
  assumes ok: "catalog_ok live" and m: "find_model live i p = Some m"
  shows "0 < mi_context m \<and> 0 < mi_output m"
proof -
  have "m \<in> set bundled_catalog \<or> (\<exists>name q. live_provider live name = Some q \<and> m \<in> snd ` set (cv_models q))"
    using m unfolding find_model_def Let_def
    by (force split: option.splits if_splits dest: map_of_SomeD find_mem)
  then show ?thesis
  proof
    assume "m \<in> set bundled_catalog"
    then show ?thesis using bundled_positive by (auto simp: list_all_iff)
  next
    assume "\<exists>name q. live_provider live name = Some q \<and> m \<in> snd ` set (cv_models q)"
    then show ?thesis
      using live_provider_ok [OF ok] by (auto simp: provider_ok_def model_ok_def list_all_iff)
  qed
qed

lemma window_positive: "catalog_ok live \<Longrightarrow> 0 < context_window live i p"
  using find_model_positive [of live i]
  by (auto simp: context_window_def model_info_of_def Let_def unknown_model_def split: option.split)

subsection \<open>The list of providers\<close>

lemma sort_by_mset [simp]: "mset (sort_by le xs) = mset xs"
proof -
  have i: "mset (insert_by le x ys) = add_mset x (mset ys)" for x ys
    by (induction le x ys rule: insert_by.induct) auto
  show ?thesis by (induction xs) (auto simp: sort_by_def i)
qed

lemma sort_by_set [simp]: "set (sort_by le xs) = set xs"
  by (rule mset_eq_setD) simp

definition listing_ok :: "provider_entry list \<times> string list \<Rightarrow> bool" where
  "listing_ok st = (distinct (map en_id (fst st)) \<and> en_id ` set (fst st) \<subseteq> set (snd st))"

lemma push_entry_ok: "listing_ok st \<Longrightarrow> listing_ok (push_entry e st)"
  by (cases st) (auto simp: listing_ok_def push_entry_def)

lemma fold_push_ok: "listing_ok st \<Longrightarrow> listing_ok (fold push_entry es st)"
proof (induction es arbitrary: st)
  case (Cons e es)
  then show ?case using Cons.IH [OF push_entry_ok] by simp
qed simp

lemma push_entry_mem: "x \<in> set (fst (push_entry e st)) \<Longrightarrow> x \<in> set (fst st) \<or> x = e"
  by (auto simp: push_entry_def split: prod.splits if_splits)

lemma fold_push_mem: "x \<in> set (fst (fold push_entry es st)) \<Longrightarrow> x \<in> set (fst st) \<or> x \<in> set es"
proof (induction es arbitrary: st)
  case (Cons e es)
  then show ?case by (auto dest!: Cons.IH [of "push_entry e st", simplified] push_entry_mem)
qed simp

lemma seen_mono: "set (snd st) \<subseteq> set (snd (fold push_entry es st))"
proof (induction es arbitrary: st)
  case (Cons e es)
  have "set (snd st) \<subseteq> set (snd (push_entry e st))" by (auto simp: push_entry_def split: prod.split)
  then show ?case using Cons [of "push_entry e st"] by (simp del: split_paired_All)
qed simp

lemma push_seen: "e \<in> set es \<Longrightarrow> en_id e \<in> set (snd (fold push_entry es st))"
proof (induction es arbitrary: st)
  case (Cons x es)
  have "en_id x \<in> set (snd (push_entry x st))" by (auto simp: push_entry_def split: prod.split)
  then show ?case using Cons.prems Cons.IH [of "push_entry x st"] seen_mono [of "push_entry x st" es] by auto
qed simp

lemma push_custom_ok: "listing_ok st \<Longrightarrow> listing_ok (push_custom ic st)"
  by (cases ic) (auto simp: push_custom_def push_entry_ok)

lemma fold_custom_ok: "listing_ok st \<Longrightarrow> listing_ok (fold push_custom cs st)"
proof (induction cs arbitrary: st)
  case (Cons c cs)
  then show ?case using Cons.IH [OF push_custom_ok] by simp
qed simp

lemma push_custom_mem:
  "x \<in> set (fst (push_custom (i, c) st)) \<Longrightarrow>
     x \<in> set (fst st) \<or> x = custom_entry i c \<and> truthy (pc_base_url c) \<and> i \<notin> set (snd st)"
  by (auto simp: push_custom_def dest!: push_entry_mem split: if_splits)

lemma push_custom_seen: "set (snd st) \<subseteq> set (snd (push_custom ic st))"
  by (cases ic) (auto simp: push_custom_def push_entry_def split: prod.split)

lemma fold_custom_mem:
  "x \<in> set (fst (fold push_custom cs st)) \<Longrightarrow>
     x \<in> set (fst st) \<or> (\<exists>i c. (i, c) \<in> set cs \<and> x = custom_entry i c \<and> truthy (pc_base_url c) \<and> i \<notin> set (snd st))"
proof (induction cs arbitrary: st)
  case (Cons ic cs)
  obtain i c where ic: "ic = (i, c)" by (cases ic)
  show ?case
    using Cons.prems Cons.IH [of "push_custom ic st"] push_custom_mem [of x i c st] push_custom_seen [of st ic]
    unfolding ic by auto
qed simp

lemma list_providers_ok: "distinct (map en_id (list_providers le live cfg))"
proof -
  obtain es seen where b: "fold push_entry (builtin_entries live) ([], []) = (es, seen)" by fastforce
  let ?es = "sort_by (\<lambda>a b. provider_rank (en_id a) \<le> provider_rank (en_id b)) es"
  have "listing_ok (es, seen)" using fold_push_ok [of "([], [])" "builtin_entries live"] b by (simp add: listing_ok_def)
  then have "distinct (map en_id ?es) \<and> en_id ` set ?es \<subseteq> set seen"
    using mset_eq_imp_distinct_iff [of "map en_id ?es" "map en_id es"]
    by (simp add: listing_ok_def)
  then have "listing_ok (?es, seen)" by (simp add: listing_ok_def)
  then have "listing_ok (fold push_custom cfg (fold push_entry new (?es, seen)))" for new
    by (intro fold_custom_ok fold_push_ok)
  then have "distinct (map en_id (fst (fold push_custom cfg (fold push_entry new (?es, seen)))))" for new
    by (simp only: listing_ok_def)
  then show ?thesis
    unfolding list_providers_def b Let_def prod.case by (simp only: case_prod_beta)
qed

abbreviation listed_in :: "live_catalog \<Rightarrow> (string \<times> catalog_provider) list" where
  "listed_in live \<equiv> (case live of None \<Rightarrow> [] | Some ps \<Rightarrow> ps)"

lemma list_providers_mem:
  assumes "e \<in> set (list_providers le live cfg)"
  shows "e \<in> set (builtin_entries live)
    \<or> (\<exists>(k, p) \<in> set (listed_in live). e = catalog_entry p \<and> cv_id p \<notin> en_id ` set (builtin_entries live))
    \<or> (\<exists>(i, c) \<in> set cfg. e = custom_entry i c \<and> truthy (pc_base_url c) \<and> i \<notin> en_id ` set (builtin_entries live)
         \<and> i \<notin> (\<lambda>(k, p). cv_id p) ` set (listed_in live))"
proof -
  obtain es seen where b: "fold push_entry (builtin_entries live) ([], []) = (es, seen)" by fastforce
  let ?es = "sort_by (\<lambda>a b. provider_rank (en_id a) \<le> provider_rank (en_id b)) es"
  let ?listed = "filter (\<lambda>p. cv_id p \<notin> set seen) (map snd (listed_in live))"
  let ?new = "sort_by (\<lambda>a b. le (en_label a) (en_label b)) (map catalog_entry ?listed)"
  let ?st = "fold push_entry ?new (?es, seen)"
  have own: "en_id ` set (builtin_entries live) \<subseteq> set seen"
    using push_seen [of _ "builtin_entries live" "([], [])"] b by auto
  have es: "set es \<subseteq> set (builtin_entries live)"
    using fold_push_mem [of _ "builtin_entries live" "([], [])"] b by auto
  have more: "set seen \<subseteq> set (snd ?st)" using seen_mono [of "(?es, seen)" ?new] by simp
  have ids: "cv_id p \<in> set (snd ?st)" if "(k, p) \<in> set (listed_in live)" for k p
  proof (cases "cv_id p \<in> set seen")
    case False
    then have "catalog_entry p \<in> set ?new" using that by force
    then show ?thesis using push_seen [of "catalog_entry p" ?new] by (simp add: catalog_entry_def Let_def)
  qed (use more in blast)
  have e: "e \<in> set (fst (fold push_custom cfg ?st))"
  proof -
    have "listed_in live = [] \<or> live \<noteq> None" by (cases live) auto
    then have "(case live of None \<Rightarrow> [] | Some ps \<Rightarrow> map snd ps) = map snd (listed_in live)" by (cases live) auto
    then show ?thesis using assms unfolding list_providers_def b Let_def prod.case by (simp only: case_prod_beta)
  qed
  from fold_custom_mem [OF e] show ?thesis
  proof
    assume "e \<in> set (fst ?st)"
    then have "e \<in> set es \<or> e \<in> set ?new" using fold_push_mem [of e ?new "(?es, seen)"] by simp
    then show ?thesis using es own by fastforce
  next
    assume "\<exists>i c. (i, c) \<in> set cfg \<and> e = custom_entry i c \<and> truthy (pc_base_url c) \<and> i \<notin> set (snd ?st)"
    then show ?thesis using ids own more by fastforce
  qed
qed

text \<open>Whatever the list offers in a wire format can be built from the configuration of its provider.\<close>

lemma builtin_ids: "builtin name = None \<longleftrightarrow> name \<notin> pd_name ` set openai_compatible"
  by (auto simp: builtin_def find_None_iff)

lemma builtin_entry_ids:
  "en_id ` set (builtin_entries live) = {''anthropic'', ''google''} \<union> pd_name ` set openai_compatible"
  by (auto simp: builtin_entries_def image_image)

lemma offered_builds:
  assumes mem: "e \<in> set (list_providers le live cfg)" and api: "en_api e \<noteq> None" and ok: "catalog_ok live"
    and keys: "distinct (map fst cfg)"
    and base: "op_base_url opts = Option.bind (map_of cfg (en_id e)) pc_base_url" "op_base_url opts \<noteq> Some []"
    and own: "en_id e \<in> {''anthropic'', ''google''} \<longrightarrow> op_api opts = None"
  shows "\<exists>a. create_provider live (en_id e) opts = Inr a"
  using list_providers_mem [OF mem]
proof (elim disjE bexE)
  assume "e \<in> set (builtin_entries live)"
  then have "en_id e \<in> {''anthropic'', ''google''} \<union> pd_name ` set openai_compatible"
    using builtin_entry_ids [of live] by blast
  then show ?thesis
    using own builtin_ids [of "en_id e"] by (auto simp: create_provider_def Let_def split: option.split)
next
  fix kp assume kp: "kp \<in> set (listed_in live)"
    and "case kp of (k, p) \<Rightarrow> e = catalog_entry p \<and> cv_id p \<notin> en_id ` set (builtin_entries live)"
  then obtain k p where p: "kp = (k, p)" "e = catalog_entry p" "cv_id p \<notin> en_id ` set (builtin_entries live)"
    by (cases kp) auto
  have live: "live_provider live (cv_id p) = Some p" 
    using kp p(1) ok by (cases live) (auto simp: live_provider_def catalog_ok_def provider_ok_def list_all_iff)
  have "builtin (cv_id p) = None" "cv_id p \<notin> {''anthropic'', ''google''}"
    using p(3) unfolding builtin_entry_ids builtin_ids by auto
  then show ?thesis
    using live api base p(2)
    by (auto simp: create_provider_def catalog_entry_def Let_def truthy_def split: option.splits if_splits)
next
  fix ic assume ic: "ic \<in> set cfg"
    and "case ic of (i, c) \<Rightarrow> e = custom_entry i c \<and> truthy (pc_base_url c) \<and> i \<notin> en_id ` set (builtin_entries live)
         \<and> i \<notin> (\<lambda>(k, p). cv_id p) ` set (listed_in live)"
  then obtain i c where i: "ic = (i, c)" "e = custom_entry i c" "truthy (pc_base_url c)"
      "i \<notin> en_id ` set (builtin_entries live)" "i \<notin> (\<lambda>(k, p). cv_id p) ` set (listed_in live)"
    by (cases ic) auto
  have "map_of cfg i = Some c" using keys ic i(1) by simp
  moreover have "live_provider live i = None"
  proof (rule ccontr)
    assume "live_provider live i \<noteq> None"
    then obtain p where p: "live_provider live i = Some p" by blast
    then have "(i, p) \<in> set (listed_in live)" by (auto simp: live_provider_def split: option.splits dest: map_of_SomeD)
    moreover have "cv_id p = i" using live_provider_ok [OF ok p] by (simp add: provider_ok_def)
    ultimately show False using i(5) by force
  qed
  moreover have "builtin i = None" "i \<notin> {''anthropic'', ''google''}"
    using i(4) unfolding builtin_entry_ids builtin_ids by auto
  ultimately show ?thesis
    using i base by (auto simp: create_provider_def custom_entry_def)
qed

end
