(* ===== verification/Spec2Isabelle.thy ===== *)
theory Spec2Isabelle
  imports AgentLoop_Laws Permissions Replace_Laws Compaction FileHistory Freshness Scheduler Teams Hooks Settings_Laws Hashline FileTools_Laws Todo Gateway Split_Message
    ModelHttp ModelCatalog
begin

text \<open>
  Jean Code is a coding agent: a loop that sends a conversation to a language model, runs the tools the model calls
  and appends everything to a log. This development models the part of it that decides things, in the language of
  the program, and proves what each part promises. Paths below are under \<open>src/packages/\<close>.

  \<^bold>\<open>How the parts interact.\<close> \<open>core/src/loop.ts\<close> drives a session: it asks \<open>core/src/context.ts\<close> whether the transcript
  still fits and \<open>core/src/compaction.ts\<close> to shorten it, streams the model's answer from a provider that
  \<open>model/src/providers/index.ts\<close> picks and \<open>model/src/providers/http.ts\<close> talks to, hands its tool calls in batches to
  \<open>tools/src/registry.ts\<close>, and appends events to \<open>core/src/eventstore.ts\<close>, whose projection is the transcript of the
  next request. The registry asks the permission rules of \<open>hooks/src/permissions.ts\<close> and the hooks of
  \<open>hooks/src/runner.ts\<close>, both loaded by \<open>hooks/src/load.ts\<close>, before a tool runs. The tools that read and change files are
  those of \<open>tools/src/file.ts\<close>, which edit through \<open>tools/src/replace.ts\<close> and \<open>tools/src/hashline.ts\<close>; \<open>core/src/history.ts\<close> undoes what they did and
  \<open>core/src/freshness.ts\<close> notices what others did. \<open>config/src/\<close> says under which settings all of this runs,
  \<open>scheduler/src/\<close> starts sessions by the clock, \<open>teams/src/index.ts\<close> lets several share a list of tasks, and \<open>gateway/src/\<close> lets chat accounts that were linked with a
  code send prompts to a session.

  \<^bold>\<open>Theories.\<close>
    \<^item> \<open>Jean_Prelude\<close>: JavaScript strings (one \<open>char\<close> per code unit), arrays, JSON values and printing, errors as sums, and
      the interface \<open>js_store\<close> of insertion-ordered maps with its interpretation on association lists.
    \<^item> \<open>EventStore\<close>: \<open>eventstore.ts\<close>; a record of the log and its subscribers, \<open>append\<close>, \<open>rewind\<close>, \<open>transcript\<close>.
    \<^item> \<open>Context\<close>, \<open>Compaction\<close>: \<open>context.ts\<close> and \<open>compaction.ts\<close>, with \<open>estimateTokens\<close> of \<open>model/src/catalog.ts\<close>.
    \<^item> \<open>Tools\<close>: \<open>registry.ts\<close>; the registry as an ordered map, \<open>gate\<close> as the decision before a call, \<open>call_tool\<close>
      as the whole of \<open>call\<close>. A tool is a function on the world \<open>'w\<close>, which is a type parameter.
    \<^item> \<open>AgentLoop\<close>, \<open>LoopParts\<close>, \<open>AgentLoop_Laws\<close>: \<open>loop.ts\<close>; \<open>run_loop\<close> is \<open>runLoop\<close> with the streams of the model, the
      clock and the callbacks as a record of functions, \<open>mapLimit\<close> a step relation over every schedule of its workers.
    \<^item> \<open>Glob\<close>, \<open>Permissions\<close>: \<open>globToRegExp\<close> of \<open>tools/src/search.ts\<close>, the rules of \<open>permissions.ts\<close> on a POSIX host and
      the tool names of \<open>hooks/src/names.ts\<close>.
    \<^item> \<open>Hooks\<close>: \<open>runner.ts\<close> and \<open>load.ts\<close>; the process of a hook is a parameter that gives an exit code and its output.
    \<^item> \<open>Replace\<close>, \<open>Replace_Laws\<close>: the cascade of six matchers of \<open>replace.ts\<close>; \<open>Hashline\<close>: \<open>hashline.ts\<close> with the hash as
      a parameter.
    \<^item> \<open>Workspace\<close>, \<open>Unified_Diff\<close>, \<open>FileTools\<close>, \<open>FileTools_Laws\<close>: \<open>file.ts\<close>; where paths lead is a parameter, the disk a map
      from real locations to files and directories, the session the list of files it has read. \<open>Todo\<close>: \<open>todo.ts\<close>.
    \<^item> \<open>FileHistory\<close>, \<open>Freshness\<close>: \<open>history.ts\<close> over a file system that is a map from paths to nodes, and \<open>freshness.ts\<close>.
    \<^item> \<open>Cron\<close>, \<open>Scheduler\<close>: \<open>scheduler/src/index.ts\<close> and \<open>daemon.ts\<close>; the daemon as a state with the events of its life.
    \<^item> \<open>TeamLock\<close>, \<open>Teams\<close>: the lock file of \<open>teams/src/index.ts\<close> as a step relation of interleaved processes, and the
      transactions on the task list and the mailboxes that run under it.
    \<^item> \<open>Identities\<close>, \<open>Gateway\<close>, \<open>Split_Message\<close>: \<open>gateway/src/identity.ts\<close> as a store with the history of what was done to it,
      \<open>router.ts\<close> as steps between awaits in any order, \<open>splitMessage\<close> of \<open>adapter.ts\<close>.
    \<^item> \<open>ModelHttp\<close>, \<open>ModelCatalog\<close>: \<open>model/src/providers/http.ts\<close>, requests with retries and the reading of server-sent
      events; \<open>catalog.ts\<close>, \<open>models-dev.ts\<close> and \<open>providers/index.ts\<close> of \<open>model/src\<close>, what is known of models and which
      adapter serves one.
    \<^item> \<open>Jsonc\<close>, \<open>Config\<close>, \<open>Settings\<close>, \<open>Settings_Laws\<close>: \<open>config/src/parser.ts\<close>, \<open>env.ts\<close>, \<open>defaults.ts\<close>, \<open>import/index.ts\<close>
      and \<open>settings.ts\<close>; a configuration is the JSON object it is in the program.

  \<^bold>\<open>State and errors.\<close> Mutable objects are records passed along, maps of the program ordered association lists where
  their order shows, an exception the left part of a sum, \<open>undefined\<close> the constructor \<open>JUndef\<close> or \<open>None\<close>. A rejected
  promise is a left value as well; awaits are sequential, except where interleaving is the point (\<open>mapLimit\<close>, the
  team's lock, the daemon), which are step relations. Numbers are \<open>nat\<close> and \<open>int\<close> below the range where doubles lose
  integers, rationals where the code divides.

  \<^bold>\<open>What the lemmas show.\<close> Transcripts are always ones a provider accepts, through every turn, interruption and
  compaction; every run of the loop ends within its bound of turns. No tool runs unless the mode, a rule, a hook or the
  user allowed it, and deny rules win; command rules see the text with its white space collapsed. A replacement changes the
  spans it names and nothing else in a file without CRLF, and puts CRLF everywhere in one that has it; a hash-anchored patch
  edits the lines of the file at places that are pinned, and leaves LF everywhere; a unified diff does its edits with two
  exceptions. A failed edit changes nothing, what lies outside the project stays as it is, and credential files are never
  shown. Rewinding restores files, redo undoes it.
  The scheduler computes the first minute after an instant and never runs a schedule twice at once; the team's transactions
  are serial as long as no lock goes stale. Through the gateway only accounts that redeemed a code for a session reach it, one
  turn at a time and in order. What is read from a provider does not depend on how the network cuts its answer into chunks,
  a request is sent a bounded number of times, every known model has a positive window, and no provider is listed twice.
  The configuration that is loaded follows the documented precedence but for four settings, has
  passed its checks, survives being changed, and is printed with the strings under six secret keys masked, which leaves
  others unmasked. Theorems whose text says so state where the code does not do what it means to.

  \<^bold>\<open>Bounds and fuel.\<close> \<open>run_turns\<close> is a partial function without fuel, and that it ends is proved from the counting of turns;
  \<open>scan_minutes\<close> recurses on the minutes of four years, the limit in \<open>nextRun\<close>. Every other recursion is structural or has a
  measure, so that definitions are total.

  \<^bold>\<open>Parameters.\<close> What is not in \<open>src/\<close> is an argument: the model's streams, the native token counter and archive, the file
  system's reading and stamps, \<open>JSON.parse\<close>, SHA-256, the process behind a hook, the clock, the network.

  \<^bold>\<open>Not modelled.\<close> The terminal interfaces (\<open>tui2\<close>, \<open>cli\<close>) and the desktop and web front ends, which render; the native
  bridge and the Rust crates behind it; the readers of file formats; the clients of language servers, debuggers,
  browsers and remote hosts, whose behaviour is that of the processes they drive; the adapters that translate
  a request into the wire format of each provider. Of the
  configuration, stored credentials. The remaining packages that hold logic of their own and are not modelled are
  listed in the manifest.
\<close>

end
